(* ===== verification/Prelude.thy ===== *)
theory Prelude
  imports Main "HOL-Library.Word"
begin

text \<open>
  Shared vocabulary of the development: the machine integer types of
  \<^verbatim>\<open>student-distrib/types.h\<close>, byte-addressed memory, address regions, C strings as
  byte functions, and the generic lemmas on words, lists and function updates that the
  component theories use. The collections \<open>mem_simps\<close> (facts that evaluate memory
  operations at an address) and \<open>addr_simps\<close> (normal forms of address arithmetic) are
  filled here and in the component theories.
\<close>

unbundle bit_operations_syntax

named_theorems mem_simps "value of a memory after an operation, at an address"
named_theorems addr_simps "normal forms of 32-bit address arithmetic"

section \<open>Machine integers and memory\<close>

type_synonym u8 = "8 word"
type_synonym u16 = "16 word"
type_synonym u32 = "32 word"

text \<open>
  A memory is a total function from 32-bit addresses to bytes. An address map \<open>xlat\<close> is
  the translation from the addresses a piece of code uses to the addresses of the memory it
  runs on: the identity for code on physical addresses, the page-table walk of theory
  \<^verbatim>\<open>Paging\<close> for code on virtual ones.
\<close>

type_synonym mem = "u32 \<Rightarrow> u8"
type_synonym xlat = "u32 \<Rightarrow> u32"

text \<open>
  What a \<^verbatim>\<open>const char *\<close> argument points to, as a function from offsets to bytes.
\<close>

type_synonym cbuf = "nat \<Rightarrow> u8"

definition buf_at :: "xlat \<Rightarrow> mem \<Rightarrow> u32 \<Rightarrow> cbuf" where
  "buf_at tr m p = (\<lambda>i. m (tr (p + of_nat i)))"

text \<open>The bytes of a string literal, and the buffer such a literal denotes.\<close>

definition bytes_of :: "string \<Rightarrow> u8 list" where
  "bytes_of s = map of_char s"

definition lit :: "u8 list \<Rightarrow> cbuf" where
  "lit bs = (\<lambda>i. if i < length bs then bs ! i else 0)"

text \<open>The 32-bit value at a pointer, little-endian.\<close>

definition le32 :: "cbuf \<Rightarrow> u32" where
  "le32 b = ucast (b 0) OR push_bit 8 (ucast (b 1)) OR push_bit 16 (ucast (b 2)) OR push_bit 24 (ucast (b 3))"

section \<open>Address regions\<close>

definition region :: "u32 \<Rightarrow> nat \<Rightarrow> u32 set" where
  "region a n = (\<lambda>i. a + of_nat i) ` {..<n}"

lemma region_0 [simp]: "region a 0 = {}"
  by (simp add: region_def)

lemma region_Suc: "region a (Suc n) = insert a (region (a + 1) n)"
proof -
  have "region a (Suc n) = (\<lambda>i. a + of_nat i) ` insert 0 (Suc ` {..<n})"
    by (simp add: region_def lessThan_Suc_eq_insert_0)
  also have "\<dots> = insert a ((\<lambda>i. a + 1 + of_nat i) ` {..<n})"
    by (simp add: image_image algebra_simps)
  finally show ?thesis
    by (simp add: region_def)
qed

lemma region_memI [intro]: "i < n \<Longrightarrow> a + of_nat i \<in> region a n"
  by (auto simp: region_def)

lemma region_memE [elim]:
  assumes "x \<in> region a n"
  obtains i where "i < n" and "x = a + of_nat i"
  using assms by (auto simp: region_def)

lemma region_add: "region a (m + n) = region a m \<union> region (a + of_nat m) n"
proof
  show "region a (m + n) \<subseteq> region a m \<union> region (a + of_nat m) n"
  proof
    fix x
    assume "x \<in> region a (m + n)"
    then obtain i where i: "i < m + n" and x: "x = a + of_nat i" by blast
    show "x \<in> region a m \<union> region (a + of_nat m) n"
    proof (cases "i < m")
      case True
      with x show ?thesis by blast
    next
      case False
      then have "x = (a + of_nat m) + of_nat (i - m)"
        using x by (simp add: of_nat_diff)
      moreover have "i - m < n" using i False by simp
      ultimately show ?thesis by blast
    qed
  qed
next
  have "a + of_nat m + of_nat j \<in> region a (m + n)" if "j < n" for j
    using region_memI [of "m + j" "m + n" a] that by (simp add: add.assoc)
  then show "region a m \<union> region (a + of_nat m) n \<subseteq> region a (m + n)"
    by (auto simp: region_def)
qed

lemma region_mono: "m \<le> n \<Longrightarrow> region a m \<subseteq> region a n"
  by (auto simp: region_def)

text \<open>Offsets below the size of the address space are told apart.\<close>

lemma of_nat_u32_inj:
  assumes "i < 2 ^ 32" and "j < 2 ^ 32" and "(of_nat i :: u32) = of_nat j"
  shows "i = j"
proof -
  have "unat (of_nat i :: u32) = unat (of_nat j :: u32)"
    using assms(3) by simp
  then show ?thesis
    using assms(1,2) by (simp add: unat_of_nat)
qed

lemma addr_off_inj [addr_simps]:
  "i < 2 ^ 32 \<Longrightarrow> j < 2 ^ 32 \<Longrightarrow> (a + of_nat i = a + of_nat j) \<longleftrightarrow> i = j" for a :: u32
  using of_nat_u32_inj by auto

lemma addr_step [addr_simps]: "a + 1 + of_nat i = a + of_nat (Suc i)" for a :: u32
  by (simp add: algebra_simps)

lemma unat_addr_off:
  "unat a + i < 2 ^ 32 \<Longrightarrow> unat (a + of_nat i :: u32) = unat a + i"
  by (simp add: unat_word_ariths unat_of_nat)

lemma region_nowrap:
  assumes "unat a + n \<le> 2 ^ 32"
  shows "x \<in> region a n \<longleftrightarrow> unat a \<le> unat x \<and> unat x < unat a + n"
proof
  assume "x \<in> region a n"
  then obtain i where "i < n" and "x = a + of_nat i" by blast
  with assms show "unat a \<le> unat x \<and> unat x < unat a + n"
    by (simp add: unat_addr_off)
next
  assume x: "unat a \<le> unat x \<and> unat x < unat a + n"
  have "x = a + of_nat (unat x - unat a)"
    using x by (simp add: of_nat_diff)
  moreover have "unat x - unat a < n" using x by linarith
  ultimately show "x \<in> region a n" by (metis region_memI)
qed

lemma ucast_u8_u16_inj: "(ucast v :: u16) = ucast w \<Longrightarrow> v = w" for v w :: u8
  by (auto simp: bit_eq_iff [where ?'a = u16] bit_simps intro!: bit_word_eqI)

text \<open>Signed readings of a 32-bit word.\<close>

lemma sint_u32: "sint v = (if uint v < 2 ^ 31 then uint v else uint v - 2 ^ 32)" for v :: u32
  using uint_lt2p [of v] by (simp add: sint_uint signed_take_bit_eq_take_bit_shift take_bit_eq_mod mod_pos_geq)

lemma unat_neg: "sint v < 0 \<Longrightarrow> unat (- v) = nat (- sint v)" for v :: u32
proof -
  assume neg: "sint v < 0"
  have s: "sint v = uint v - 2 ^ 32" using neg by (simp add: sint_u32 split: if_splits)
  have u: "0 < uint v" "uint v < 2 ^ 32" using neg uint_lt2p [of v] by (auto simp: sint_u32 split: if_splits)
  then have "uint (- v) = 2 ^ 32 - uint v"
    by (simp add: uint_word_ariths zmod_zminus1_eq_if)
  then show ?thesis using s by (simp add: unat_eq_nat_uint)
qed

lemma unat_nonneg: "\<not> sint v < 0 \<Longrightarrow> unat v = nat (sint v)" for v :: u32
  using uint_lt2p [of v] by (simp add: sint_u32 split: if_splits)

end
