(* ===== verification/Lib_Mem.thy ===== *)
theory Lib_Mem
  imports Prelude
begin

text \<open>
  The memory routines of \<^verbatim>\<open>student-distrib/lib.c\<close> (\<^verbatim>\<open>memset\<close>,
  \<^verbatim>\<open>memset_word\<close>, \<^verbatim>\<open>memset_dword\<close>, \<^verbatim>\<open>memcpy\<close>,
  \<^verbatim>\<open>memmove\<close>). The source is inline assembly; every label of it that is the target
  of a backward jump is one recursive function here, on the loop's count register, and the
  string instructions \<^verbatim>\<open>rep movsl\<close>, \<^verbatim>\<open>rep movsb\<close>,
  \<^verbatim>\<open>rep stosl\<close>, \<^verbatim>\<open>rep stosw\<close> are functions that repeat one transfer.
  The reference definitions are \<open>byte_copy\<close> and \<open>byte_fill\<close>, one byte at a time;
  the word-wise routines are shown equal to them.
\<close>

section \<open>The reference: one byte at a time\<close>

fun byte_copy :: "xlat \<Rightarrow> nat \<Rightarrow> u32 \<Rightarrow> u32 \<Rightarrow> mem \<Rightarrow> mem" where
  "byte_copy tr 0 d s m = m"
| "byte_copy tr (Suc k) d s m = byte_copy tr k (d + 1) (s + 1) (m(tr d := m (tr s)))"

fun byte_fill :: "xlat \<Rightarrow> nat \<Rightarrow> u32 \<Rightarrow> u8 \<Rightarrow> mem \<Rightarrow> mem" where
  "byte_fill tr 0 d v m = m"
| "byte_fill tr (Suc k) d v m = byte_fill tr k (d + 1) v (m(tr d := v))"

section \<open>memcpy\<close>

text \<open>\<^verbatim>\<open>movsl\<close>: four bytes are read, then four bytes are written.\<close>

definition movsl :: "xlat \<Rightarrow> u32 \<Rightarrow> u32 \<Rightarrow> mem \<Rightarrow> mem" where
  "movsl tr d s m =
     m(tr d := m (tr s), tr (d + 1) := m (tr (s + 1)),
       tr (d + 2) := m (tr (s + 2)), tr (d + 3) := m (tr (s + 3)))"

fun rep_movsl :: "xlat \<Rightarrow> nat \<Rightarrow> u32 \<Rightarrow> u32 \<Rightarrow> mem \<Rightarrow> mem" where
  "rep_movsl tr 0 d s m = m"
| "rep_movsl tr (Suc k) d s m = rep_movsl tr k (d + 4) (s + 4) (movsl tr d s m)"

fun memcpy_bottom :: "xlat \<Rightarrow> nat \<Rightarrow> u32 \<Rightarrow> u32 \<Rightarrow> mem \<Rightarrow> mem" where
  "memcpy_bottom tr 0 d s m = m"
| "memcpy_bottom tr (Suc k) d s m = memcpy_bottom tr k (d + 1) (s + 1) (m(tr d := m (tr s)))"

definition memcpy_aligned :: "xlat \<Rightarrow> nat \<Rightarrow> u32 \<Rightarrow> u32 \<Rightarrow> mem \<Rightarrow> mem" where
  "memcpy_aligned tr ecx d s m =
     (let dwords = ecx div 4; tail = ecx mod 4;
          m' = rep_movsl tr dwords d s m
      in memcpy_bottom tr tail (d + of_nat (4 * dwords)) (s + of_nat (4 * dwords)) m')"

fun memcpy_top :: "xlat \<Rightarrow> nat \<Rightarrow> u32 \<Rightarrow> u32 \<Rightarrow> mem \<Rightarrow> mem" where
  "memcpy_top tr 0 d s m = m"
| "memcpy_top tr (Suc k) d s m =
     (if d AND 3 = 0 then memcpy_aligned tr (Suc k) d s m
      else memcpy_top tr k (d + 1) (s + 1) (m(tr d := m (tr s))))"

definition memcpy :: "xlat \<Rightarrow> u32 \<Rightarrow> u32 \<Rightarrow> u32 \<Rightarrow> mem \<Rightarrow> mem" where
  "memcpy tr dest src n m = memcpy_top tr (unat n) dest src m"

section \<open>memset, memset\_word, memset\_dword\<close>

text \<open>
  The accumulator is loaded with the byte repeated four times; a store of width \<open>w\<close> writes
  the low \<open>w\<close> bytes of it, little-endian.
\<close>

definition byte_of :: "u32 \<Rightarrow> nat \<Rightarrow> u8" where
  "byte_of eax i = ucast (drop_bit (8 * i) eax)"

definition stosl :: "xlat \<Rightarrow> u32 \<Rightarrow> u32 \<Rightarrow> mem \<Rightarrow> mem" where
  "stosl tr d eax m =
     m(tr d := byte_of eax 0, tr (d + 1) := byte_of eax 1,
       tr (d + 2) := byte_of eax 2, tr (d + 3) := byte_of eax 3)"

definition stosw :: "xlat \<Rightarrow> u32 \<Rightarrow> u32 \<Rightarrow> mem \<Rightarrow> mem" where
  "stosw tr d eax m = m(tr d := byte_of eax 0, tr (d + 1) := byte_of eax 1)"

fun rep_stosl :: "xlat \<Rightarrow> nat \<Rightarrow> u32 \<Rightarrow> u32 \<Rightarrow> mem \<Rightarrow> mem" where
  "rep_stosl tr 0 d eax m = m"
| "rep_stosl tr (Suc k) d eax m = rep_stosl tr k (d + 4) eax (stosl tr d eax m)"

fun rep_stosw :: "xlat \<Rightarrow> nat \<Rightarrow> u32 \<Rightarrow> u32 \<Rightarrow> mem \<Rightarrow> mem" where
  "rep_stosw tr 0 d eax m = m"
| "rep_stosw tr (Suc k) d eax m = rep_stosw tr k (d + 2) eax (stosw tr d eax m)"

fun memset_bottom :: "xlat \<Rightarrow> nat \<Rightarrow> u32 \<Rightarrow> u32 \<Rightarrow> mem \<Rightarrow> mem" where
  "memset_bottom tr 0 d eax m = m"
| "memset_bottom tr (Suc k) d eax m = memset_bottom tr k (d + 1) eax (m(tr d := byte_of eax 0))"

definition memset_aligned :: "xlat \<Rightarrow> nat \<Rightarrow> u32 \<Rightarrow> u32 \<Rightarrow> mem \<Rightarrow> mem" where
  "memset_aligned tr ecx d eax m =
     (let dwords = ecx div 4; tail = ecx mod 4;
          m' = rep_stosl tr dwords d eax m
      in memset_bottom tr tail (d + of_nat (4 * dwords)) eax m')"

fun memset_top :: "xlat \<Rightarrow> nat \<Rightarrow> u32 \<Rightarrow> u32 \<Rightarrow> mem \<Rightarrow> mem" where
  "memset_top tr 0 d eax m = m"
| "memset_top tr (Suc k) d eax m =
     (if d AND 3 = 0 then memset_aligned tr (Suc k) d eax m
      else memset_top tr k (d + 1) eax (m(tr d := byte_of eax 0)))"

definition memset :: "xlat \<Rightarrow> u32 \<Rightarrow> u32 \<Rightarrow> u32 \<Rightarrow> mem \<Rightarrow> mem" where
  "memset tr s c n m =
     (let c' = c AND 0xFF;
          eax = push_bit 24 c' OR push_bit 16 c' OR push_bit 8 c' OR c'
      in memset_top tr (unat n) s eax m)"

definition memset_word :: "xlat \<Rightarrow> u32 \<Rightarrow> u32 \<Rightarrow> u32 \<Rightarrow> mem \<Rightarrow> mem" where
  "memset_word tr s c n m = rep_stosw tr (unat n) s c m"

definition memset_dword :: "xlat \<Rightarrow> u32 \<Rightarrow> u32 \<Rightarrow> u32 \<Rightarrow> mem \<Rightarrow> mem" where
  "memset_dword tr s c n m = rep_stosl tr (unat n) s c m"

section \<open>memmove\<close>

text \<open>
  With the direction flag set, \<^verbatim>\<open>rep movsb\<close> runs downwards. The result carries the
  memory and the direction flag the routine leaves behind (\<open>True\<close> for down).
\<close>

fun movsb_down :: "xlat \<Rightarrow> nat \<Rightarrow> u32 \<Rightarrow> u32 \<Rightarrow> mem \<Rightarrow> mem" where
  "movsb_down tr 0 d s m = m"
| "movsb_down tr (Suc k) d s m = movsb_down tr k (d - 1) (s - 1) (m(tr d := m (tr s)))"

definition memmove :: "xlat \<Rightarrow> u32 \<Rightarrow> u32 \<Rightarrow> u32 \<Rightarrow> mem \<Rightarrow> mem \<times> bool" where
  "memmove tr dest src n m =
     (if dest \<le> src then (byte_copy tr (unat n) dest src m, False)
      else (movsb_down tr (unat n) (dest + n - 1) (src + n - 1) m, True))"

section \<open>Properties of the reference routines\<close>

text \<open>
  \<open>separate tr d s n\<close>: the \<open>n\<close> bytes at \<open>d\<close> are told apart by the address map
  and none of them is a byte of the source block.
\<close>

definition separate :: "xlat \<Rightarrow> u32 \<Rightarrow> u32 \<Rightarrow> nat \<Rightarrow> bool" where
  "separate tr d s n \<longleftrightarrow> inj_on tr (region d n) \<and> tr ` region d n \<inter> tr ` region s n = {}"

lemma separate_noteq:
  "separate tr d s n \<Longrightarrow> i < n \<Longrightarrow> j < n \<Longrightarrow> tr (d + of_nat i) \<noteq> tr (s + of_nat j)"
  unfolding separate_def using region_memI by blast

lemma separate_dest_inj:
  assumes "separate tr d s n" and "i < n" and "j < n" and "n \<le> 2 ^ 32"
    and "tr (d + of_nat i) = tr (d + of_nat j)"
  shows "i = j"
proof -
  have "d + of_nat i = d + of_nat j"
    using assms(1,2,3,5) unfolding separate_def inj_on_def by blast
  then show ?thesis
    using assms(2,3,4) of_nat_u32_inj [of i j] by simp
qed

lemma separate_Suc:
  assumes "separate tr d s (Suc n)"
  shows "separate tr (d + 1) (s + 1) n"
  using assms unfolding separate_def region_Suc by (auto simp: inj_on_def)

lemma separate_add:
  assumes "separate tr d s (m + n)"
  shows "separate tr d s m" and "separate tr (d + of_nat m) (s + of_nat m) n"
  using assms unfolding separate_def region_add by (auto simp: inj_on_def)

lemma separate_id:
  assumes "unat d + n \<le> 2 ^ 32" and "unat s + n \<le> 2 ^ 32"
    and "unat d + n \<le> unat s \<or> unat s + n \<le> unat d"
  shows "separate id d s n"
  using assms unfolding separate_def
  by (auto simp: region_nowrap inj_on_def)

lemma byte_copy_frame:
  "a \<notin> tr ` region d n \<Longrightarrow> byte_copy tr n d s m a = m a"
  by (induction tr n d s m rule: byte_copy.induct) (auto simp: region_Suc)

lemma byte_copy_add:
  "byte_copy tr (a + b) d s m =
     byte_copy tr b (d + of_nat a) (s + of_nat a) (byte_copy tr a d s m)"
  by (induction a arbitrary: d s m) (simp_all add: algebra_simps)

lemma byte_copy_val:
  assumes "separate tr d s n" and "i < n" and "n \<le> 2 ^ 32"
  shows "byte_copy tr n d s m (tr (d + of_nat i)) = m (tr (s + of_nat i))"
  using assms
proof (induction n arbitrary: d s m i)
  case 0
  then show ?case by simp
next
  case (Suc n)
  let ?m = "m(tr d := m (tr s))"
  note sep = Suc.prems(1)
  show ?case
  proof (cases i)
    case 0
    have "tr d \<notin> tr ` region (d + 1) n"
    proof
      assume "tr d \<in> tr ` region (d + 1) n"
      then obtain j where j: "j < n" and eq: "tr d = tr (d + 1 + of_nat j)" by blast
      from eq have "tr (d + of_nat 0) = tr (d + of_nat (Suc j))"
        by (simp add: algebra_simps)
      with separate_dest_inj [OF sep _ _ Suc.prems(3)] j show False by blast
    qed
    with 0 show ?thesis by (simp add: byte_copy_frame)
  next
    case (Suc k)
    then have k: "k < n" using Suc.prems(2) by simp
    have "byte_copy tr n (d + 1) (s + 1) ?m (tr (d + 1 + of_nat k)) = ?m (tr (s + 1 + of_nat k))"
      using Suc.IH [OF separate_Suc [OF sep] k] Suc.prems(3) by simp
    moreover have "tr (s + of_nat (Suc k)) \<noteq> tr (d + of_nat 0)"
      using separate_noteq [OF sep, of 0 "Suc k"] k by auto
    ultimately show ?thesis using Suc by (simp add: algebra_simps)
  qed
qed

lemma byte_fill_frame: "a \<notin> tr ` region d n \<Longrightarrow> byte_fill tr n d v m a = m a"
  by (induction tr n d v m rule: byte_fill.induct) (auto simp: region_Suc)

lemma byte_fill_add:
  "byte_fill tr (a + b) d v m = byte_fill tr b (d + of_nat a) v (byte_fill tr a d v m)"
  by (induction a arbitrary: d m) (simp_all add: algebra_simps)

lemma byte_fill_val: "a \<in> tr ` region d n \<Longrightarrow> byte_fill tr n d v m a = v"
proof (induction n arbitrary: d m)
  case 0
  then show ?case by simp
next
  case (Suc n)
  show ?case
  proof (cases "a \<in> tr ` region (d + 1) n")
    case True
    then show ?thesis by (simp add: Suc.IH)
  next
    case False
    with Suc.prems have "a = tr d" by (auto simp: region_Suc)
    with False show ?thesis by (simp add: byte_fill_frame)
  qed
qed

section \<open>The word-wise routines refine the reference\<close>

lemma movsl_byte_copy:
  assumes "separate tr d s 4"
  shows "movsl tr d s m = byte_copy tr 4 d s m"
proof -
  have ne: "tr d \<noteq> tr (s + 1)" "tr d \<noteq> tr (s + 2)" "tr d \<noteq> tr (s + 3)"
    "tr (d + 1) \<noteq> tr (s + 2)" "tr (d + 1) \<noteq> tr (s + 3)" "tr (d + 2) \<noteq> tr (s + 3)"
    using separate_noteq [OF assms, of 0 1] separate_noteq [OF assms, of 0 2]
      separate_noteq [OF assms, of 0 3] separate_noteq [OF assms, of 1 2]
      separate_noteq [OF assms, of 1 3] separate_noteq [OF assms, of 2 3]
    by simp_all
  show ?thesis
    using ne by (auto simp: movsl_def numeral_eq_Suc add.assoc fun_eq_iff)
qed

lemma rep_movsl_byte_copy:
  "separate tr d s (4 * k) \<Longrightarrow> rep_movsl tr k d s m = byte_copy tr (4 * k) d s m"
proof (induction k arbitrary: d s m)
  case 0
  then show ?case by simp
next
  case (Suc k)
  have split: "4 * Suc k = 4 + 4 * k" by simp
  have sep: "separate tr d s 4" "separate tr (d + 4) (s + 4) (4 * k)"
    using separate_add [of tr d s 4 "4 * k"] Suc.prems by (simp_all add: split)
  show ?case
    unfolding split byte_copy_add
    using Suc.IH [OF sep(2)] movsl_byte_copy [OF sep(1)] by simp
qed

lemma memcpy_bottom_byte_copy: "memcpy_bottom tr k d s m = byte_copy tr k d s m"
  by (induction tr k d s m rule: memcpy_bottom.induct) (simp_all add: fun_upd_def)

lemma memcpy_aligned_byte_copy:
  assumes "separate tr d s n"
  shows "memcpy_aligned tr n d s m = byte_copy tr n d s m"
proof -
  have n: "n = 4 * (n div 4) + n mod 4" by simp
  have "separate tr d s (4 * (n div 4))"
    using separate_add(1) [of tr d s "4 * (n div 4)" "n mod 4"] assms by simp
  then have "memcpy_aligned tr n d s m = byte_copy tr (4 * (n div 4) + n mod 4) d s m"
    unfolding byte_copy_add by (simp add: memcpy_aligned_def memcpy_bottom_byte_copy rep_movsl_byte_copy Let_def)
  then show ?thesis by simp
qed

lemma memcpy_top_byte_copy:
  "separate tr d s n \<Longrightarrow> memcpy_top tr n d s m = byte_copy tr n d s m"
proof (induction n arbitrary: d s m)
  case 0
  then show ?case by simp
next
  case (Suc n)
  show ?case
  proof (cases "d AND 3 = 0")
    case True
    then show ?thesis using memcpy_aligned_byte_copy [OF Suc.prems] by simp
  next
    case False
    then show ?thesis using Suc.IH [OF separate_Suc [OF Suc.prems]] by (simp add: fun_upd_def)
  qed
qed

lemma byte_of_repeated:
  assumes "i < 4"
  shows "byte_of (push_bit 24 (c AND 0xFF) OR push_bit 16 (c AND 0xFF) OR
           push_bit 8 (c AND 0xFF) OR (c AND 0xFF)) i = ucast c"
proof -
  consider "i = 0" | "i = 1" | "i = 2" | "i = 3" using assms by linarith
  then show ?thesis
    unfolding byte_of_def
    by cases (auto intro!: bit_word_eqI simp: bit_simps
        mask_eq_exp_minus_1 [of 8, where ?'a = u32, simplified, symmetric])
qed

lemma stosl_byte_fill:
  "(\<And>i. i < 4 \<Longrightarrow> byte_of eax i = v) \<Longrightarrow> stosl tr d eax m = byte_fill tr 4 d v m"
  by (auto simp: stosl_def numeral_eq_Suc add.assoc fun_eq_iff)

lemma rep_stosl_byte_fill:
  assumes "\<And>i. i < 4 \<Longrightarrow> byte_of eax i = v"
  shows "rep_stosl tr k d eax m = byte_fill tr (4 * k) d v m"
proof (induction k arbitrary: d m)
  case 0
  then show ?case by simp
next
  case (Suc k)
  have split: "4 * Suc k = 4 + 4 * k" by simp
  show ?case
    unfolding split byte_fill_add using Suc.IH stosl_byte_fill [OF assms] by simp
qed

lemma memset_bottom_byte_fill:
  "byte_of eax 0 = v \<Longrightarrow> memset_bottom tr k d eax m = byte_fill tr k d v m"
  by (induction tr k d eax m rule: memset_bottom.induct) (simp_all add: fun_upd_def)

lemma memset_top_byte_fill:
  assumes "\<And>i. i < 4 \<Longrightarrow> byte_of eax i = v"
  shows "memset_top tr n d eax m = byte_fill tr n d v m"
proof (induction n arbitrary: d m)
  case 0
  then show ?case by simp
next
  case (Suc n)
  have b0: "byte_of eax 0 = v" using assms by simp
  have "memset_aligned tr (Suc n) d eax m =
      byte_fill tr (4 * (Suc n div 4) + Suc n mod 4) d v m"
    unfolding byte_fill_add
    by (simp add: memset_aligned_def Let_def rep_stosl_byte_fill [OF assms] memset_bottom_byte_fill [OF b0])
  then show ?case
    using Suc.IH b0 by (simp add: fun_upd_def)
qed

lemma memset_byte_fill: "memset tr s c n m = byte_fill tr (unat n) s (ucast c) m"
  unfolding memset_def Let_def by (rule memset_top_byte_fill [OF byte_of_repeated])

lemma rep_stosw_frame:
  "a \<notin> tr ` region d (2 * k) \<Longrightarrow> rep_stosw tr k d eax m a = m a"
proof (induction k arbitrary: d m)
  case 0
  then show ?case by simp
next
  case (Suc k)
  have "region d (2 * Suc k) = {d, d + 1} \<union> region (d + 2) (2 * k)"
    by (simp add: region_Suc add.assoc)
  with Suc show ?case by (simp add: stosw_def)
qed

lemma rep_stosw_val:
  assumes "inj_on tr (region d (2 * k))" and "2 * k \<le> 2 ^ 32" and "i < k"
  shows "rep_stosw tr k d eax m (tr (d + of_nat (2 * i))) = byte_of eax 0"
    and "rep_stosw tr k d eax m (tr (d + of_nat (2 * i + 1))) = byte_of eax 1"
proof -
  have "rep_stosw tr k d eax m (tr (d + of_nat (2 * i))) = byte_of eax 0 \<and>
        rep_stosw tr k d eax m (tr (d + of_nat (2 * i + 1))) = byte_of eax 1"
    using assms
  proof (induction k arbitrary: d m i)
    case 0
    then show ?case by simp
  next
    case (Suc k)
    have reg: "region d (2 * Suc k) = {d, d + 1} \<union> region (d + 2) (2 * k)"
      by (simp add: region_Suc add.assoc)
    have sub: "inj_on tr (region (d + 2) (2 * k))"
      using Suc.prems(1) unfolding reg by (simp add: inj_on_Un)
    show ?case
    proof (cases i)
      case 0
      have new: "d + of_nat e \<notin> region (d + 2) (2 * k)" if "e < 2" for e
      proof
        assume "d + of_nat e \<in> region (d + 2) (2 * k)"
        then obtain j where "j < 2 * k" and "d + of_nat e = d + of_nat (j + 2)"
          by (auto simp: region_def algebra_simps)
        then show False
          using that Suc.prems(2) of_nat_u32_inj [of e "j + 2"] by auto
      qed
      have "tr d \<notin> tr ` region (d + 2) (2 * k)" "tr (d + 1) \<notin> tr ` region (d + 2) (2 * k)"
        "tr d \<noteq> tr (d + 1)"
        using new [of 0] new [of 1] Suc.prems(1) unfolding reg inj_on_def by auto
      with 0 show ?thesis by (simp add: rep_stosw_frame stosw_def)
    next
      case (Suc j)
      then show ?thesis
        using Suc.IH [OF sub, of j "stosw tr d eax m"] Suc.prems(2,3) by (simp add: algebra_simps)
    qed
  qed
  then show "rep_stosw tr k d eax m (tr (d + of_nat (2 * i))) = byte_of eax 0"
    and "rep_stosw tr k d eax m (tr (d + of_nat (2 * i + 1))) = byte_of eax 1" by auto
qed

section \<open>memmove is correct on overlapping blocks\<close>

lemma byte_copy_down:
  assumes "unat d \<le> unat s" and "unat s + n \<le> 2 ^ 32" and "i < n"
  shows "byte_copy id n d s m (d + of_nat i) = m (s + of_nat i)"
  using assms
proof (induction n arbitrary: d s m i)
  case 0
  from 0(3) show ?case by simp
next
  case (Suc n)
  show ?case
  proof (cases i)
    case 0
    have "d \<notin> region (d + 1) n"
    proof
      assume "d \<in> region (d + 1) n"
      then obtain j where "j < n" and "d + of_nat 0 = d + of_nat (Suc j)"
        by (auto simp: region_def algebra_simps)
      moreover have "Suc j < 2 ^ 32" using Suc.prems(2) \<open>j < n\<close> by linarith
      ultimately show False using of_nat_u32_inj [of 0 "Suc j"] by simp
    qed
    with 0 show ?thesis by (simp add: byte_copy_frame)
  next
    case (Suc k)
    then have k: "k < n" using Suc.prems(3) by linarith
    have un: "unat (s + 1) = unat s + 1" "unat (d + 1) = unat d + 1"
      using Suc.prems(1,2) k unat_addr_off [of s 1] unat_addr_off [of d 1] by auto
    have "unat (s + of_nat (Suc k)) = unat s + Suc k"
      using Suc.prems(2) k by (intro unat_addr_off) linarith
    then have ne: "s + of_nat (Suc k) \<noteq> d" using Suc.prems(1) by fastforce
    have "byte_copy id n (d + 1) (s + 1) (m(d := m s)) (d + 1 + of_nat k) =
        (m(d := m s)) (s + 1 + of_nat k)"
      using Suc.prems(1,2) un k by (intro Suc.IH) linarith+
    then show ?thesis
      unfolding Suc addr_step using ne by (simp add: id_def fun_upd_def del: of_nat_Suc)
  qed
qed

lemma movsb_down_frame:
  "a \<notin> region d k \<Longrightarrow> movsb_down id k (d + of_nat k - 1) s m a = m a"
proof (induction k arbitrary: s m)
  case 0
  then show ?case by simp
next
  case (Suc k)
  have "a \<notin> region d k" using Suc.prems region_mono [of k "Suc k" d] by auto
  moreover have "a \<noteq> d + of_nat k" using Suc.prems by auto
  ultimately show ?case using Suc.IH by (simp add: algebra_simps)
qed

lemma movsb_down_val:
  assumes "unat s \<le> unat d" and "unat d + n \<le> 2 ^ 32" and "i < n"
  shows "movsb_down id n (d + of_nat n - 1) (s + of_nat n - 1) m (d + of_nat i) = m (s + of_nat i)"
  using assms(2,3)
proof (induction n arbitrary: m)
  case 0
  from 0(2) show ?case by simp
next
  case (Suc n)
  let ?m = "m(d + of_nat n := m (s + of_nat n))"
  have unfold: "movsb_down id (Suc n) (d + of_nat (Suc n) - 1) (s + of_nat (Suc n) - 1) m =
      movsb_down id n (d + of_nat n - 1) (s + of_nat n - 1) ?m"
    by (simp add: algebra_simps)
  show ?case
  proof (cases "i = n")
    case True
    have "d + of_nat n \<notin> region d n"
    proof
      assume "d + of_nat n \<in> region d n"
      then obtain j where "j < n" and "d + of_nat n = d + of_nat j" by blast
      then show False using Suc.prems(1) of_nat_u32_inj [of n j] by simp
    qed
    then show ?thesis unfolding unfold using True by (simp add: movsb_down_frame)
  next
    case False
    then have i: "i < n" using Suc.prems(2) by simp
    have "unat (s + of_nat i) = unat s + i" "unat (d + of_nat n) = unat d + n"
      using Suc.prems(1) assms(1) i by (auto intro!: unat_addr_off)
    then have "s + of_nat i \<noteq> d + of_nat n" using assms(1) i by auto
    then show ?thesis
      unfolding unfold using Suc.IH [of ?m] Suc.prems(1) i by (simp add: id_def fun_upd_def)
  qed
qed

section \<open>The block-copy interface\<close>

text \<open>
  What the rest of the kernel relies on when it copies a block: the destination receives the
  source bytes and no other byte changes. The consequences the clients need (the source
  survives, a copy there and back restores, a copy of a copy is a copy) are proved once here.
\<close>

locale block_copy =
  fixes copy :: "xlat \<Rightarrow> u32 \<Rightarrow> u32 \<Rightarrow> u32 \<Rightarrow> mem \<Rightarrow> mem"
  assumes copy_val: "separate tr d s (unat n) \<Longrightarrow> i < unat n \<Longrightarrow>
      copy tr d s n m (tr (d + of_nat i)) = m (tr (s + of_nat i))"
    and copy_frame: "separate tr d s (unat n) \<Longrightarrow> a \<notin> tr ` region d (unat n) \<Longrightarrow>
      copy tr d s n m a = m a"
begin

lemma copy_src:
  assumes "separate tr d s (unat n)" and "i < unat n"
  shows "copy tr d s n m (tr (s + of_nat i)) = m (tr (s + of_nat i))"
proof (rule copy_frame [OF assms(1)])
  show "tr (s + of_nat i) \<notin> tr ` region d (unat n)"
    using separate_noteq [OF assms(1) _ assms(2)] by (auto elim!: region_memE) metis
qed

lemma copy_back:
  assumes there: "separate tr d s (unat n)" and ret: "separate tr s d (unat n)"
    and i: "i < unat n"
    and kept: "\<And>j. j < unat n \<Longrightarrow> m' (tr (d + of_nat j)) = copy tr d s n m (tr (d + of_nat j))"
  shows "copy tr s d n m' (tr (s + of_nat i)) = m (tr (s + of_nat i))"
  using copy_val [OF ret i, of m'] kept [OF i] copy_val [OF there i] by simp

end

lemma memcpy_byte_copy:
  "separate tr d s (unat n) \<Longrightarrow> memcpy tr d s n m = byte_copy tr (unat n) d s m"
  by (simp add: memcpy_def memcpy_top_byte_copy)

lemma unat_u32_le: "unat (n :: u32) \<le> 2 ^ 32"
  using unsigned_less [of n, where ?'a = nat] by simp

lemma byte_copy_val_u32:
  "separate tr d s (unat n) \<Longrightarrow> i < unat n \<Longrightarrow>
     byte_copy tr (unat n) d s m (tr (d + of_nat i)) = m (tr (s + of_nat i))" for n :: u32
  by (rule byte_copy_val [OF _ _ unat_u32_le])

interpretation bc: block_copy memcpy
  by unfold_locales (simp_all add: memcpy_byte_copy byte_copy_val_u32 byte_copy_frame)

section \<open>The properties of the memory routines\<close>

text \<open>
  C23. On separate blocks the alignment-driven, dword-wise \<^verbatim>\<open>memcpy\<close> has exactly the
  effect of copying byte by byte: every destination byte receives the source byte and every
  other byte of memory is unchanged.
\<close>

theorem memcpy_correct:
  assumes "separate tr dest src (unat n)"
  shows "memcpy tr dest src n m = byte_copy tr (unat n) dest src m \<and>
    (\<forall>i < unat n. memcpy tr dest src n m (tr (dest + of_nat i)) = m (tr (src + of_nat i))) \<and>
    (\<forall>a. a \<notin> tr ` region dest (unat n) \<longrightarrow> memcpy tr dest src n m a = m a)"
  using assms by (simp add: memcpy_byte_copy byte_copy_val_u32 byte_copy_frame)

theorem memcpy_correct_witness:
  "memcpy id 0x1001 0x2003 7 (\<lambda>a. ucast a) (0x1001 + of_nat 6) = 0x09"
proof -
  have "separate id 0x1001 0x2003 (unat (7 :: u32))"
    by (rule separate_id) simp_all
  from memcpy_correct [OF this, THEN conjunct2, THEN conjunct1, rule_format, of 6 "\<lambda>a. ucast a"]
  show ?thesis by simp
qed

text \<open>
  \<^verbatim>\<open>memset\<close> sets exactly the \<open>n\<close> bytes from \<open>s\<close> on to the low byte of
  \<open>c\<close>, whatever the alignment of \<open>s\<close> and the upper bytes of \<open>c\<close> are.
\<close>

theorem memset_correct:
  "memset tr s c n m a = (if a \<in> tr ` region s (unat n) then ucast c else m a)"
  by (simp add: memset_byte_fill byte_fill_val byte_fill_frame)

text \<open>
  C36. \<^verbatim>\<open>memmove\<close> is correct on blocks of identity-mapped memory that may overlap in either direction: every
  destination byte receives the byte the source had before the call, and nothing else
  changes. (It leaves the direction flag set after a downward copy.)
\<close>

theorem memmove_correct:
  assumes "unat dest + unat n \<le> 2 ^ 32" and "unat src + unat n \<le> 2 ^ 32"
  shows "(\<forall>i < unat n. fst (memmove id dest src n m) (dest + of_nat i) = m (src + of_nat i)) \<and>
    (\<forall>a. a \<notin> region dest (unat n) \<longrightarrow> fst (memmove id dest src n m) a = m a) \<and>
    (snd (memmove id dest src n m) \<longleftrightarrow> src < dest)"
proof (cases "dest \<le> src")
  case True
  then have "unat dest \<le> unat src" by (simp add: word_le_nat_alt)
  with True assms(2) show ?thesis
    by (auto simp: memmove_def byte_copy_down byte_copy_frame)
next
  case False
  then have le: "unat src \<le> unat dest" by (simp add: word_le_nat_alt)
  have "fst (memmove id dest src n m) =
      movsb_down id (unat n) (dest + of_nat (unat n) - 1) (src + of_nat (unat n) - 1) m"
    using False by (simp add: memmove_def)
  with False show ?thesis
    using movsb_down_val [OF le assms(1)] movsb_down_frame [of _ dest "unat n"]
    by (auto simp: memmove_def)
qed

theorem memmove_correct_witness:
  "fst (memmove id 0x1002 0x1000 5 (\<lambda>a. ucast a)) (0x1002 + of_nat 4) = 0x04"
proof -
  have "unat (0x1002 :: u32) + unat (5 :: u32) \<le> 2 ^ 32"
    "unat (0x1000 :: u32) + unat (5 :: u32) \<le> 2 ^ 32" by simp_all
  from memmove_correct [OF this, THEN conjunct1, rule_format, of 4 "\<lambda>a. ucast a"]
  show ?thesis by simp
qed

text \<open>
  \<^verbatim>\<open>memset_word\<close> treats its count as a number of 16-bit words: \<open>n\<close> of them are
  written, which is \<open>2 * n\<close> bytes, low byte first.
\<close>

theorem memset_word_effect:
  assumes "inj_on tr (region s (2 * unat n))" and "2 * unat n \<le> 2 ^ 32"
  shows "(\<forall>i < unat n.
      memset_word tr s c n m (tr (s + of_nat (2 * i))) = byte_of c 0 \<and>
      memset_word tr s c n m (tr (s + of_nat (2 * i + 1))) = byte_of c 1) \<and>
    (\<forall>a. a \<notin> tr ` region s (2 * unat n) \<longrightarrow> memset_word tr s c n m a = m a)"
  using rep_stosw_val [OF assms] rep_stosw_frame [of _ tr s "unat n"]
  by (simp add: memset_word_def)

theorem memset_word_effect_witness:
  "memset_word id 0x1000 0x0720 2 (\<lambda>a. 0) (0x1000 + of_nat 3) = 0x07"
proof -
  have "inj_on id (region 0x1000 (2 * unat (2 :: u32)))" "2 * unat (2 :: u32) \<le> 2 ^ 32"
    by simp_all
  from memset_word_effect [OF this, where c = "0x0720" and m = "\<lambda>a. 0"]
  have "\<forall>i < unat (2 :: u32).
      memset_word id 0x1000 0x0720 2 (\<lambda>a. 0) (id (0x1000 + of_nat (2 * i + 1))) = byte_of 0x0720 1"
    by blast
  from this [rule_format, of 1] show ?thesis by (simp add: byte_of_def)
qed

end
