(* ===== verification/Lib_String.thy ===== *)
theory Lib_String
  imports Lib_Mem
begin

text \<open>
  The string routines of \<^verbatim>\<open>student-distrib/lib.c\<close>: \<^verbatim>\<open>strlen\<close>,
  \<^verbatim>\<open>strrev\<close>, \<^verbatim>\<open>itoa\<close>, \<^verbatim>\<open>strncmp\<close>,
  \<^verbatim>\<open>strcpy\<close> and \<^verbatim>\<open>strncpy\<close>. A routine that only reads takes the
  bytes its argument points to (\<^typ>\<open>cbuf\<close>); \<^verbatim>\<open>strcpy\<close> and
  \<^verbatim>\<open>strncpy\<close> work on memory, where source and destination may alias. A loop that
  a string without terminator keeps running for ever is a partial function whose value is then
  \<open>None\<close>.
\<close>

section \<open>C strings\<close>

text \<open>\<open>is_cstr s n\<close>: the string at \<open>s\<close> has length \<open>n\<close>.\<close>

definition is_cstr :: "cbuf \<Rightarrow> nat \<Rightarrow> bool" where
  "is_cstr s n \<longleftrightarrow> s n = 0 \<and> (\<forall>i < n. s i \<noteq> 0)"

text \<open>The bytes before the terminator, at most \<open>n\<close> of them.\<close>

fun cprefix :: "nat \<Rightarrow> cbuf \<Rightarrow> u8 list" where
  "cprefix 0 s = []"
| "cprefix (Suc n) s = (if s 0 = 0 then [] else s 0 # cprefix n (\<lambda>i. s (Suc i)))"

section \<open>strlen\<close>

partial_function (option) strlen_from :: "cbuf \<Rightarrow> u32 \<Rightarrow> u32 option" where
  "strlen_from s len = (if s (unat len) = 0 then Some len else strlen_from s (len + 1))"

definition strlen :: "cbuf \<Rightarrow> u32 option" where
  "strlen s = strlen_from s 0"

section \<open>strrev\<close>

text \<open>
  The buffer is the list of the bytes before the terminator; \<open>beg\<close> and \<open>e\<close> are the
  two indices that move towards each other.
\<close>

function strrev_loop :: "u8 list \<Rightarrow> int \<Rightarrow> int \<Rightarrow> u8 list" where
  "strrev_loop s beg e =
     (if beg < e
      then strrev_loop (s[nat e := s ! nat beg, nat beg := s ! nat e]) (beg + 1) (e - 1)
      else s)"
  by pat_completeness auto
termination
  by (relation "measure (\<lambda>(s, beg, e). nat (e - beg))") auto

declare strrev_loop.simps [simp del]

definition strrev :: "u8 list \<Rightarrow> u8 list" where
  "strrev s = strrev_loop s 0 (int (length s) - 1)"

section \<open>itoa\<close>

text \<open>
  The digit table is a string constant of 36 digits and its terminator. A zero radix traps,
  a remainder past the table reads outside it; both are \<open>None\<close>, and so is the endless loop
  of radix 1.
\<close>

definition itoa_lookup :: "u8 list" where
  "itoa_lookup = bytes_of ''0123456789ABCDEFGHIJKLMNOPQRSTUVWXYZ'' @ [0]"

partial_function (option) itoa_loop :: "u32 \<Rightarrow> u32 \<Rightarrow> u8 list \<Rightarrow> u8 list option" where
  "itoa_loop newval radix out =
     (if newval = 0 then Some out
      else if radix = 0 then None
      else if length itoa_lookup \<le> unat (newval mod radix) then None
      else itoa_loop (newval div radix) radix (out @ [itoa_lookup ! unat (newval mod radix)]))"

definition itoa :: "u32 \<Rightarrow> u32 \<Rightarrow> u8 list option" where
  "itoa val radix =
     (if val = 0 then Some [48]
      else map_option strrev (itoa_loop val radix []))"

section \<open>strncmp\<close>

text \<open>The characters are signed: the result is the difference of their sign-extended values.\<close>

fun strncmp_loop :: "cbuf \<Rightarrow> cbuf \<Rightarrow> nat \<Rightarrow> nat \<Rightarrow> int" where
  "strncmp_loop s1 s2 i 0 = 0"
| "strncmp_loop s1 s2 i (Suc k) =
     (if s1 i \<noteq> s2 i \<or> s1 i = 0 then sint (s1 i) - sint (s2 i)
      else strncmp_loop s1 s2 (Suc i) k)"

definition strncmp :: "cbuf \<Rightarrow> cbuf \<Rightarrow> nat \<Rightarrow> int" where
  "strncmp s1 s2 n = strncmp_loop s1 s2 0 n"

section \<open>strcpy, strncpy\<close>

partial_function (option) strcpy_from :: "xlat \<Rightarrow> u32 \<Rightarrow> u32 \<Rightarrow> mem \<Rightarrow> mem option" where
  "strcpy_from tr d s m =
     (if m (tr s) = 0 then Some (m(tr d := 0))
      else strcpy_from tr (d + 1) (s + 1) (m(tr d := m (tr s))))"

definition strcpy :: "xlat \<Rightarrow> u32 \<Rightarrow> u32 \<Rightarrow> mem \<Rightarrow> mem option" where
  "strcpy tr dest src m = strcpy_from tr dest src m"

fun strncpy_pad :: "xlat \<Rightarrow> nat \<Rightarrow> u32 \<Rightarrow> mem \<Rightarrow> mem" where
  "strncpy_pad tr 0 d m = m"
| "strncpy_pad tr (Suc k) d m = strncpy_pad tr k (d + 1) (m(tr d := 0))"

fun strncpy_copy :: "xlat \<Rightarrow> nat \<Rightarrow> u32 \<Rightarrow> u32 \<Rightarrow> mem \<Rightarrow> mem" where
  "strncpy_copy tr 0 d s m = m"
| "strncpy_copy tr (Suc k) d s m =
     (if m (tr s) = 0 then strncpy_pad tr (Suc k) d m
      else strncpy_copy tr k (d + 1) (s + 1) (m(tr d := m (tr s))))"

definition strncpy :: "xlat \<Rightarrow> u32 \<Rightarrow> u32 \<Rightarrow> u32 \<Rightarrow> mem \<Rightarrow> mem" where
  "strncpy tr dest src n m = strncpy_copy tr (unat n) dest src m"

section \<open>Facts about C strings\<close>

lemma cprefix_length: "length (cprefix n s) \<le> n"
  by (induction n s rule: cprefix.induct) auto

lemma cprefix_nonzero: "x \<in> set (cprefix n s) \<Longrightarrow> x \<noteq> 0"
  by (induction n s rule: cprefix.induct) (auto split: if_splits)

lemma cprefix_nth: "i < length (cprefix n s) \<Longrightarrow> cprefix n s ! i = s i"
proof (induction n s arbitrary: i rule: cprefix.induct)
  case (1 s)
  then show ?case by simp
next
  case (2 n s)
  then show ?case by (cases i) (auto split: if_splits)
qed

lemma cprefix_stop: "length (cprefix n s) < n \<Longrightarrow> s (length (cprefix n s)) = 0"
  by (induction n s rule: cprefix.induct) (auto split: if_splits)

lemma cprefix_is_cstr: "is_cstr s n \<Longrightarrow> n \<le> k \<Longrightarrow> cprefix k s = map s [0..<n]"
proof (induction k s arbitrary: n rule: cprefix.induct)
  case (1 s)
  then show ?case by simp
next
  case (2 k s)
  show ?case
  proof (cases n)
    case 0
    with 2 show ?thesis by (simp add: is_cstr_def)
  next
    case (Suc n')
    with "2.prems" have "is_cstr (\<lambda>i. s (Suc i)) n'" "s 0 \<noteq> 0" "n' \<le> k"
      by (auto simp: is_cstr_def)
    with "2.IH" Suc show ?thesis
      by (simp add: map_upt_Suc del: upt_Suc)
  qed
qed

lemma is_cstr_unique: "is_cstr s m \<Longrightarrow> is_cstr s n \<Longrightarrow> m = n"
  unfolding is_cstr_def by (metis linorder_neqE_nat)

lemma is_cstr_lit: "0 \<notin> set bs \<Longrightarrow> is_cstr (lit bs) (length bs)"
  by (auto simp: is_cstr_def lit_def) (metis nth_mem)

lemma cprefix_lit: "0 \<notin> set bs \<Longrightarrow> length bs \<le> n \<Longrightarrow> cprefix n (lit bs) = bs"
  by (subst cprefix_is_cstr [OF is_cstr_lit])
     (auto intro!: nth_equalityI simp: lit_def)

section \<open>strlen finds the terminator, or never returns\<close>

lemma strlen_from_reaches:
  assumes "s n = 0" and "\<forall>j. unat len \<le> j \<and> j < n \<longrightarrow> s j \<noteq> 0" and "unat len \<le> n" and "n < 2 ^ 32"
  shows "strlen_from s len = Some (of_nat n)"
  using assms(2,3)
proof (induction "n - unat len" arbitrary: len)
  case 0
  then have "unat len = n" by simp
  with assms(1) show ?case by (subst strlen_from.simps) auto
next
  case (Suc k)
  then have lt: "unat len < n" by simp
  then have nz: "s (unat len) \<noteq> 0" using Suc.prems by simp
  have un: "unat (len + 1) = unat len + 1"
    using unat_addr_off [of len 1] lt assms(4) by simp
  have "strlen_from s (len + 1) = Some (of_nat n)"
    by (rule Suc.hyps(1)) (use Suc.prems Suc.hyps(2) un lt in auto)
  with nz show ?case by (subst strlen_from.simps) simp
qed

lemma strlen_from_zero: "strlen_from s len = Some r \<Longrightarrow> s (unat r) = 0"
proof (rule strlen_from.raw_induct [where P = "\<lambda>s len r. s (unat r) = 0"])
  fix f :: "cbuf \<Rightarrow> u32 \<Rightarrow> u32 option" and s len r
  assume "\<And>s len r. f s len = Some r \<Longrightarrow> s (unat r) = 0"
    and "(if s (unat len) = 0 then Some len else f s (len + 1)) = Some r"
  then show "s (unat r) = 0" by (auto split: if_splits)
qed

lemma is_cstr_strlen: "is_cstr s n \<Longrightarrow> n < 2 ^ 32 \<Longrightarrow> strlen s = Some (of_nat n)"
  unfolding strlen_def is_cstr_def by (rule strlen_from_reaches) auto

text \<open>
  \<^verbatim>\<open>strlen\<close> returns \<open>r\<close> exactly when the string at its argument has length
  \<open>r\<close>; on an argument without a terminator anywhere it never returns.
\<close>

theorem strlen_iff: "strlen s = Some r \<longleftrightarrow> is_cstr s (unat r)"
proof
  assume r: "strlen s = Some r"
  then have z: "s (unat r) = 0" unfolding strlen_def by (rule strlen_from_zero)
  define n where "n = (LEAST n. s n = 0)"
  have "s n = 0" unfolding n_def by (rule LeastI [of "\<lambda>n. s n = 0", OF z])
  moreover have "\<forall>i < n. s i \<noteq> 0" unfolding n_def using not_less_Least by blast
  ultimately have cs: "is_cstr s n" by (simp add: is_cstr_def)
  have "n \<le> unat r" unfolding n_def using z by (rule Least_le)
  then have n: "n < 2 ^ 32" using unsigned_less [of r, where ?'a = nat] by simp
  with is_cstr_strlen [OF cs] r have "r = of_nat n" by simp
  with cs n show "is_cstr s (unat r)" by (simp add: unat_of_nat)
next
  assume "is_cstr s (unat r)"
  moreover have "unat r < 2 ^ 32" using unsigned_less [of r, where ?'a = nat] by simp
  ultimately show "strlen s = Some r" using is_cstr_strlen [of s "unat r"] by simp
qed

section \<open>strrev reverses\<close>

lemma strrev_loop_length [simp]: "length (strrev_loop s beg e) = length s"
proof (induction s beg e rule: strrev_loop.induct)
  case (1 s beg e)
  then show ?case by (cases "beg < e") (simp_all add: strrev_loop.simps [of s beg e])
qed

lemma strrev_loop_nth:
  assumes "0 \<le> beg" and "e < int (length s)" and "i < length s"
  shows "strrev_loop s beg e ! i =
    (if beg \<le> int i \<and> int i \<le> e then s ! nat (beg + e - int i) else s ! i)"
  using assms
proof (induction s beg e rule: strrev_loop.induct)
  case (1 s beg e)
  show ?case
  proof (cases "beg < e")
    case False
    then show ?thesis
      using 1(2-) by (subst strrev_loop.simps) (auto simp: le_less)
  next
    case True
    let ?s = "s[nat e := s ! nat beg, nat beg := s ! nat e]"
    have IH: "strrev_loop ?s (beg + 1) (e - 1) ! i =
        (if beg + 1 \<le> int i \<and> int i \<le> e - 1 then ?s ! nat (beg + e - int i) else ?s ! i)"
      using 1 True by (simp add: algebra_simps)
    consider "int i = beg" | "int i = e" | "beg < int i \<and> int i < e" | "int i < beg \<or> e < int i"
      by linarith
    then show ?thesis
      by cases (use 1(2-) True IH in \<open>auto simp: strrev_loop.simps [of s beg e] nth_list_update nat_eq_iff\<close>)
  qed
qed

lemma strrev_rev: "strrev s = rev s"
proof (rule nth_equalityI)
  show "length (strrev s) = length (rev s)" by (simp add: strrev_def)
next
  fix i
  assume "i < length (strrev s)"
  then have i: "i < length s" by (simp add: strrev_def)
  then have "strrev s ! i = s ! nat (int (length s) - 1 - int i)"
    unfolding strrev_def by (subst strrev_loop_nth) auto
  also have "nat (int (length s) - 1 - int i) = length s - Suc i" using i by linarith
  finally show "strrev s ! i = rev s ! i" using i by (simp add: rev_nth)
qed

section \<open>itoa and reading a numeral back\<close>

definition digit_val :: "u8 \<Rightarrow> nat" where
  "digit_val b = (if 48 \<le> b \<and> b \<le> 57 then unat b - 48 else unat b - 55)"

text \<open>The number a digit string denotes, most significant digit first.\<close>

definition numeral_val :: "nat \<Rightarrow> u8 list \<Rightarrow> nat" where
  "numeral_val radix bs = foldl (\<lambda>a b. a * radix + digit_val b) 0 bs"

fun le_digits :: "nat \<Rightarrow> nat \<Rightarrow> nat list" where
  "le_digits radix n = (if radix < 2 \<or> n = 0 then [] else n mod radix # le_digits radix (n div radix))"

declare le_digits.simps [simp del]

lemma digit_val_lookup:
  assumes "d < 36"
  shows "digit_val (itoa_lookup ! d) = d"
proof -
  have "\<forall>d < 36. digit_val (itoa_lookup ! d) = d"
    by code_simp
  with assms show ?thesis by blast
qed

lemma length_itoa_lookup [simp]: "length itoa_lookup = 37"
  by (simp add: itoa_lookup_def bytes_of_def)

lemma le_digits_bound: "2 \<le> radix \<Longrightarrow> d \<in> set (le_digits radix n) \<Longrightarrow> d < radix"
proof (induction radix n rule: le_digits.induct)
  case (1 radix n)
  then show ?case by (subst (asm) (2) le_digits.simps) (auto split: if_splits)
qed

lemma le_digits_val:
  "2 \<le> radix \<Longrightarrow> foldr (\<lambda>d a. a * radix + d) (le_digits radix n) 0 = n"
proof (induction radix n rule: le_digits.induct)
  case (1 radix n)
  then show ?case by (subst le_digits.simps) auto
qed

lemma itoa_loop_digits:
  assumes "2 \<le> unat radix" and "unat radix \<le> 36"
  shows "itoa_loop v radix out =
    Some (out @ map (\<lambda>d. itoa_lookup ! d) (le_digits (unat radix) (unat v)))"
proof (induction "unat v" arbitrary: v out rule: less_induct)
  case less
  show ?case
  proof (cases "v = 0")
    case True
    then show ?thesis by (subst itoa_loop.simps) (simp add: le_digits.simps)
  next
    case False
    then have v: "unat v \<noteq> 0" by (simp add: unat_eq_0)
    have rz: "radix \<noteq> 0" using assms(1) by auto
    have small: "unat (v mod radix) < 36"
      using assms mod_less_divisor [of "unat radix" "unat v"] unfolding unat_mod by linarith
    have dec: "unat (v div radix) < unat v"
      using assms(1) v by (simp add: unat_div)
    have "itoa_loop v radix out =
        itoa_loop (v div radix) radix (out @ [itoa_lookup ! unat (v mod radix)])"
      using False rz small by (subst itoa_loop.simps) simp
    also have "\<dots> = Some (out @ map (\<lambda>d. itoa_lookup ! d)
        (unat v mod unat radix # le_digits (unat radix) (unat v div unat radix)))"
      by (subst less.hyps [OF dec]) (simp add: unat_div unat_mod)
    also have "unat v mod unat radix # le_digits (unat radix) (unat v div unat radix) =
        le_digits (unat radix) (unat v)"
      using v assms(1) by (simp add: le_digits.simps [of _ "unat v"])
    finally show ?thesis .
  qed
qed

text \<open>
  C37. \<^verbatim>\<open>itoa\<close> returns for every value and every radix from 2 to 36, and the digit
  string it builds, read back in that radix, is the value.
\<close>

theorem itoa_roundtrip:
  assumes "2 \<le> unat radix" and "unat radix \<le> 36"
  shows "\<exists>bs. itoa v radix = Some bs \<and> bs \<noteq> [] \<and> numeral_val (unat radix) bs = unat v"
proof (cases "v = 0")
  case True
  then show ?thesis
    by (simp add: itoa_def numeral_val_def digit_val_def)
next
  case False
  let ?ds = "le_digits (unat radix) (unat v)"
  have "\<forall>d \<in> set ?ds. digit_val (itoa_lookup ! d) = d"
    using le_digits_bound [OF assms(1)] assms(2)
    by (auto intro!: digit_val_lookup intro: less_le_trans)
  then have "foldr (\<lambda>d a. a * unat radix + digit_val (itoa_lookup ! d)) ?ds 0 =
      foldr (\<lambda>d a. a * unat radix + d) ?ds 0"
    by (intro foldr_cong) auto
  then have "numeral_val (unat radix) (rev (map (\<lambda>d. itoa_lookup ! d) ?ds)) = unat v"
    by (simp add: numeral_val_def foldl_conv_foldr foldr_map comp_def le_digits_val [OF assms(1)])
  moreover have "?ds \<noteq> []"
    using False assms(1) by (simp add: le_digits.simps [of _ "unat v"] unat_eq_0)
  ultimately show ?thesis
    using False by (simp add: itoa_def itoa_loop_digits [OF assms] strrev_rev)
qed

theorem itoa_roundtrip_witness:
  "\<exists>bs. itoa 0xBEEF 16 = Some bs \<and> bs \<noteq> [] \<and> numeral_val (unat (16 :: u32)) bs = unat (0xBEEF :: u32)"
  using itoa_roundtrip [of 16 "0xBEEF"] by simp

section \<open>strncmp compares the first bytes as C strings\<close>

lemma strncmp_loop_shift:
  "strncmp_loop s1 s2 (Suc i) k = strncmp_loop (\<lambda>j. s1 (Suc j)) (\<lambda>j. s2 (Suc j)) i k"
  by (induction k arbitrary: i) auto

lemma sint_u8_eq: "sint a - sint b = 0 \<longleftrightarrow> a = b" for a b :: u8
  using signed_word_eqI [of a b] by auto

lemma strncmp_loop_zero: "strncmp_loop s1 s2 0 n = 0 \<longleftrightarrow> cprefix n s1 = cprefix n s2"
proof (induction n arbitrary: s1 s2)
  case 0
  then show ?case by simp
next
  case (Suc n)
  show ?case
  proof (cases "s1 0 = s2 0")
    case True
    then show ?thesis
      using Suc.IH [of "\<lambda>j. s1 (Suc j)" "\<lambda>j. s2 (Suc j)"] by (simp add: strncmp_loop_shift)
  next
    case False
    then show ?thesis using sint_u8_eq [of "s1 0" "s2 0"] by auto
  qed
qed

lemma strncmp_eq_0: "strncmp s1 s2 n = 0 \<longleftrightarrow> cprefix n s1 = cprefix n s2"
  by (simp add: strncmp_def strncmp_loop_zero)

lemma strncmp_loop_differ:
  assumes "i \<le> j" and "j < i + k" and "\<forall>l. i \<le> l \<and> l < j \<longrightarrow> s1 l = s2 l \<and> s1 l \<noteq> 0"
    and "s1 j \<noteq> s2 j"
  shows "strncmp_loop s1 s2 i k = sint (s1 j) - sint (s2 j)"
  using assms
proof (induction k arbitrary: i)
  case 0
  then show ?case by simp
next
  case (Suc k)
  show ?case
  proof (cases "i = j")
    case True
    with Suc.prems show ?thesis by simp
  next
    case False
    with Suc.prems have eq: "s1 i = s2 i" "s1 i \<noteq> 0" by auto
    have "strncmp_loop s1 s2 (Suc i) k = sint (s1 j) - sint (s2 j)"
      by (rule Suc.IH) (use Suc.prems False Suc_leD in \<open>auto, metis Suc_leD\<close>)
    with eq show ?thesis by simp
  qed
qed

text \<open>
  \<^verbatim>\<open>strncmp\<close> returns 0 exactly when the two arguments have the same bytes up to the
  terminator or up to the limit \<open>n\<close>; otherwise the sign of the result is the order of the
  first differing characters as signed values.
\<close>

theorem strncmp_correct:
  "(strncmp s1 s2 n = 0 \<longleftrightarrow> cprefix n s1 = cprefix n s2) \<and>
   (\<forall>j < n. (\<forall>l < j. s1 l = s2 l \<and> s1 l \<noteq> 0) \<and> s1 j \<noteq> s2 j \<longrightarrow>
      (strncmp s1 s2 n < 0 \<longleftrightarrow> sint (s1 j) < sint (s2 j)))"
proof (intro conjI allI impI)
  show "strncmp s1 s2 n = 0 \<longleftrightarrow> cprefix n s1 = cprefix n s2" by (rule strncmp_eq_0)
next
  fix j
  assume "j < n" and "(\<forall>l < j. s1 l = s2 l \<and> s1 l \<noteq> 0) \<and> s1 j \<noteq> s2 j"
  then have "strncmp s1 s2 n = sint (s1 j) - sint (s2 j)"
    unfolding strncmp_def by (intro strncmp_loop_differ) auto
  then show "strncmp s1 s2 n < 0 \<longleftrightarrow> sint (s1 j) < sint (s2 j)" by linarith
qed

theorem strncmp_correct_witness:
  "strncmp (lit [0x61, 0x62]) (lit [0x61, 0x63]) 32 < 0"
  using strncmp_correct [of "lit [0x61, 0x62]" "lit [0x61, 0x63]" 32, THEN conjunct2, rule_format, of 1]
  by (simp add: lit_def)

section \<open>strcpy and strncpy on separate blocks\<close>

lemma buf_at_upd:
  assumes "\<And>i. i < n \<Longrightarrow> tr (p + of_nat i) \<noteq> a"
  shows "i < n \<Longrightarrow> buf_at tr (m(a := v)) p i = buf_at tr m p i"
  using assms [of i] by (simp add: buf_at_def)

lemma buf_at_Suc: "buf_at tr m p (Suc i) = buf_at tr m (p + 1) i"
  by (simp add: buf_at_def algebra_simps)

lemma buf_at_0: "buf_at tr m p 0 = m (tr p)"
  by (simp add: buf_at_def)

lemma strcpy_from_byte_copy:
  assumes "separate tr d s (Suc n)" and "is_cstr (buf_at tr m s) n"
  shows "strcpy_from tr d s m = Some (byte_copy tr (Suc n) d s m)"
  using assms
proof (induction n arbitrary: d s m)
  case 0
  then have "m (tr s) = 0" by (simp add: is_cstr_def buf_at_0)
  then show ?case by (subst strcpy_from.simps) simp
next
  case (Suc n)
  let ?m = "m(tr d := m (tr s))"
  have nz: "m (tr s) \<noteq> 0" using Suc.prems(2) by (auto simp: is_cstr_def buf_at_0 dest: spec [of _ 0])
  have ne: "tr (s + 1 + of_nat i) \<noteq> tr d" if "i < Suc n" for i
    using separate_noteq [OF Suc.prems(1), of 0 "Suc i"] that by (auto simp: algebra_simps)
  have "buf_at tr ?m (s + 1) i = buf_at tr m s (Suc i)" if "i < Suc n" for i
    unfolding buf_at_Suc by (rule buf_at_upd [of "Suc n"]) (use that ne in auto)
  then have "is_cstr (buf_at tr ?m (s + 1)) n"
    using Suc.prems(2) by (auto simp: is_cstr_def)
  from Suc.IH [OF separate_Suc [OF Suc.prems(1)] this] nz show ?case
    by (subst strcpy_from.simps) (simp add: fun_upd_def)
qed

lemma strncpy_pad_byte_fill: "strncpy_pad tr k d m = byte_fill tr k d 0 m"
  by (induction tr k d m rule: strncpy_pad.induct) (simp_all add: fun_upd_def)

lemma strncpy_copy_frame: "a \<notin> tr ` region d k \<Longrightarrow> strncpy_copy tr k d s m a = m a"
proof (induction k arbitrary: d s m)
  case 0
  then show ?case by simp
next
  case (Suc k)
  then show ?case
    by (auto simp: strncpy_pad_byte_fill byte_fill_frame region_Suc simp del: strncpy_pad.simps byte_fill.simps)
qed

lemma cprefix_cong: "(\<And>i. i < n \<Longrightarrow> s i = t i) \<Longrightarrow> cprefix n s = cprefix n t"
proof (induction n s arbitrary: t rule: cprefix.induct)
  case (1 s)
  then show ?case by simp
next
  case (2 n s)
  have "s 0 = t 0" using "2.prems" by simp
  moreover have "s 0 \<noteq> 0 \<Longrightarrow> cprefix n (\<lambda>i. s (Suc i)) = cprefix n (\<lambda>i. t (Suc i))"
    by (rule "2.IH") (auto intro: "2.prems")
  ultimately show ?case by simp
qed

text \<open>The byte at offset \<open>i\<close> of a field filled from a C string and padded with zeros.\<close>

definition padded :: "u8 list \<Rightarrow> nat \<Rightarrow> u8" where
  "padded p i = (if i < length p then p ! i else 0)"

lemma strncpy_copy_val:
  assumes "separate tr d s k" and "k \<le> 2 ^ 32" and "i < k"
  shows "strncpy_copy tr k d s m (tr (d + of_nat i)) = padded (cprefix k (buf_at tr m s)) i"
  using assms
proof (induction k arbitrary: d s m i)
  case 0
  then show ?case by simp
next
  case (Suc k)
  let ?m = "m(tr d := m (tr s))"
  note sep = Suc.prems(1)
  show ?case
  proof (cases "m (tr s) = 0")
    case True
    have "tr (d + of_nat i) \<in> tr ` region d (Suc k)" using Suc.prems(3) by blast
    with True show ?thesis
      by (simp add: strncpy_pad_byte_fill byte_fill_val buf_at_0 padded_def
          del: strncpy_pad.simps byte_fill.simps)
  next
    case False
    have ne: "tr (s + 1 + of_nat l) \<noteq> tr d" if "l < k" for l
      using separate_noteq [OF sep, of 0 "Suc l"] that by (auto simp: algebra_simps)
    have pre: "cprefix k (buf_at tr ?m (s + 1)) = cprefix k (\<lambda>i. buf_at tr m s (Suc i))"
      by (rule cprefix_cong) (use ne in \<open>simp add: buf_at_def algebra_simps\<close>)
    show ?thesis
    proof (cases i)
      case 0
      have "tr d \<notin> tr ` region (d + 1) k"
      proof
        assume "tr d \<in> tr ` region (d + 1) k"
        then obtain j where "j < k" and "tr (d + of_nat 0) = tr (d + of_nat (Suc j))"
          by (auto simp: region_def algebra_simps)
        with separate_dest_inj [OF sep _ _ Suc.prems(2)] show False by blast
      qed
      with False 0 show ?thesis by (simp add: strncpy_copy_frame buf_at_0 padded_def)
    next
      case (Suc j)
      then have j: "j < k" using Suc.prems(3) by simp
      have "strncpy_copy tr k (d + 1) (s + 1) ?m (tr (d + 1 + of_nat j)) =
          padded (cprefix k (buf_at tr ?m (s + 1))) j"
        using Suc.IH [OF separate_Suc [OF sep] _ j] Suc.prems(2) by simp
      with False Suc pre show ?thesis
        by (simp add: buf_at_0 algebra_simps padded_def)
    qed
  qed
qed

text \<open>
  \<^verbatim>\<open>strncpy\<close> on separate blocks fills its \<open>n\<close> bytes with the source string,
  truncated at \<open>n\<close> and padded with zero bytes, and touches nothing else.
\<close>

theorem strncpy_correct:
  assumes "separate tr dest src (unat n)"
  shows "(\<forall>i < unat n. strncpy tr dest src n m (tr (dest + of_nat i)) =
      padded (cprefix (unat n) (buf_at tr m src)) i) \<and>
    (\<forall>a. a \<notin> tr ` region dest (unat n) \<longrightarrow> strncpy tr dest src n m a = m a)"
  using strncpy_copy_val [OF assms unat_u32_le] strncpy_copy_frame
  by (simp add: strncpy_def)

theorem strncpy_correct_witness:
  "strncpy id 0x100 0x200 4 (\<lambda>a. ucast (0x201 - a)) (0x100 + of_nat 2) = 0"
proof -
  have "separate id 0x100 0x200 (unat (4 :: u32))" by (rule separate_id) simp_all
  from strncpy_correct [OF this, THEN conjunct1, rule_format, of 2 "\<lambda>a. ucast (0x201 - a)"]
  have "strncpy id 0x100 0x200 4 (\<lambda>a. ucast (0x201 - a)) (0x100 + of_nat 2) =
      padded (cprefix 4 (buf_at id (\<lambda>a. ucast (0x201 - a)) 0x200)) 2" by simp
  moreover have "cprefix 4 (buf_at id (\<lambda>a. ucast (0x201 - a)) 0x200) = [1]"
    by (simp add: eval_nat_numeral buf_at_def)
  ultimately show ?thesis by (simp add: padded_def)
qed

end
