(* ===== verification/Machine.thy ===== *)
theory Machine
  imports Lib_String
begin

text \<open>
  The part of the processor the kernel touches: physical memory, the interrupt flag and the
  I/O ports (the port macros of \<^verbatim>\<open>student-distrib/lib.h\<close>). The devices behind the
  ports are hardware: what an \<^verbatim>\<open>in\<close> instruction reads is given by a parameter of type
  \<open>device\<close>, a function of the port history. The history itself is part of the state, newest
  event first, so that what the kernel writes to a device can be stated.
\<close>

datatype io_event = Out u16 u8 | In u16 u8

type_synonym device = "io_event list \<Rightarrow> u16 \<Rightarrow> u8"

record machine =
  phys :: mem
  io_log :: "io_event list"
  iflag :: bool

definition outb :: "u8 \<Rightarrow> u16 \<Rightarrow> 'a machine_scheme \<Rightarrow> 'a machine_scheme" where
  "outb v port s = s\<lparr>io_log := Out port v # io_log s\<rparr>"

definition inb :: "device \<Rightarrow> u16 \<Rightarrow> 'a machine_scheme \<Rightarrow> u8 \<times> 'a machine_scheme" where
  "inb dev port s =
     (let v = dev (io_log s) port in (v, s\<lparr>io_log := In port v # io_log s\<rparr>))"

definition cli :: "'a machine_scheme \<Rightarrow> 'a machine_scheme" where
  "cli s = s\<lparr>iflag := False\<rparr>"

definition sti :: "'a machine_scheme \<Rightarrow> 'a machine_scheme" where
  "sti s = s\<lparr>iflag := True\<rparr>"

section \<open>Waiting for an interrupt\<close>

text \<open>
  A loop such as \<^verbatim>\<open>while (!read_flag) { }\<close> ends only through an interrupt handler
  that changes the flag. \<open>await p hs s\<close> runs it with the handlers \<open>hs\<close> of the
  interrupts that arrive, in order; \<open>None\<close> is a loop that still spins when they are used
  up.
\<close>

fun await :: "('s \<Rightarrow> bool) \<Rightarrow> ('s \<Rightarrow> 's) list \<Rightarrow> 's \<Rightarrow> 's option" where
  "await p [] s = (if p s then Some s else None)"
| "await p (h # hs) s = (if p s then Some s else await p hs (h s))"

lemma await_holds: "await p hs s = Some t \<Longrightarrow> p t"
  by (induction hs arbitrary: s) (auto split: if_splits)

lemma await_append:
  "await p hs s = None \<Longrightarrow> await p (hs @ ks) s = await p ks (fold (\<lambda>h. h) hs s)"
  by (induction hs arbitrary: s) (auto split: if_splits)

lemma await_None: "await p hs s = None \<longleftrightarrow> (\<forall>n \<le> length hs. \<not> p (fold (\<lambda>h. h) (take n hs) s))"
proof (induction hs arbitrary: s)
  case Nil
  then show ?case by simp
next
  case (Cons h hs)
  show ?case
  proof
    assume "await p (h # hs) s = None"
    then have ns: "\<not> p s" and rest: "await p hs (h s) = None" by (auto split: if_splits)
    show "\<forall>n \<le> length (h # hs). \<not> p (fold (\<lambda>h. h) (take n (h # hs)) s)"
    proof (intro allI impI)
      fix n
      assume "n \<le> length (h # hs)"
      then show "\<not> p (fold (\<lambda>h. h) (take n (h # hs)) s)"
        using ns rest Cons.IH [of "h s"] by (cases n) auto
    qed
  next
    assume all: "\<forall>n \<le> length (h # hs). \<not> p (fold (\<lambda>h. h) (take n (h # hs)) s)"
    have "\<not> p s" using all [rule_format, of 0] by simp
    moreover have "\<forall>n \<le> length hs. \<not> p (fold (\<lambda>h. h) (take n hs) (h s))"
      using all [rule_format, of "Suc _"] by auto
    ultimately show "await p (h # hs) s = None" using Cons.IH by simp
  qed
qed

text \<open>An invariant of every handler holds when the wait is over.\<close>

lemma await_inv:
  assumes "await p hs s = Some t" and "I s" and "\<And>h s. h \<in> set hs \<Longrightarrow> I s \<Longrightarrow> I (h s)"
  shows "I t"
  using assms by (induction hs arbitrary: s) (auto split: if_splits)

section \<open>Frame facts\<close>

lemmas io_defs = outb_def inb_def Let_def

lemma outb_phys [simp]: "phys (outb v p s) = phys s"
  and outb_iflag [simp]: "iflag (outb v p s) = iflag s"
  and outb_more [simp]: "machine.more (outb v p s) = machine.more s"
  and outb_log: "io_log (outb v p s) = Out p v # io_log s"
  by (simp_all add: outb_def)

text \<open>The \<^verbatim>\<open>out\<close> events of a history, oldest first.\<close>

definition outs :: "io_event list \<Rightarrow> (u16 \<times> u8) list" where
  "outs log = rev (List.map_filter (\<lambda>e. case e of Out p v \<Rightarrow> Some (p, v) | In p v \<Rightarrow> None) log)"

lemma outs_simps [simp]:
  "outs [] = []" "outs (Out p v # log) = outs log @ [(p, v)]" "outs (In p v # log) = outs log"
  by (simp_all add: outs_def List.map_filter_simps)

end
