(* ===== verification/I8259.thy ===== *)
theory I8259
  imports Machine
begin

text \<open>
  The interrupt controller driver, \<^verbatim>\<open>student-distrib/i8259.c\<close> and
  \<^verbatim>\<open>i8259.h\<close>. The controller itself is a device; what the theorems use of it is
  \<open>pic_reads_mask\<close>: after the four initialisation words, a read of the data port returns
  the interrupt mask last written there.
\<close>

section \<open>The driver\<close>

definition MASTER_8259_PORT :: u16 where "MASTER_8259_PORT = 0x20"
definition SLAVE_8259_PORT :: u16 where "SLAVE_8259_PORT = 0xA0"
definition MASTER_8259_PORT_A :: u16 where "MASTER_8259_PORT_A = 0x21"
definition SLAVE_8259_PORT_A :: u16 where "SLAVE_8259_PORT_A = 0xA1"

definition ICW1 :: u8 where "ICW1 = 0x11"
definition ICW2_MASTER :: u8 where "ICW2_MASTER = 0x20"
definition ICW2_SLAVE :: u8 where "ICW2_SLAVE = 0x28"
definition ICW3_MASTER :: u8 where "ICW3_MASTER = 0x04"
definition ICW3_SLAVE :: u8 where "ICW3_SLAVE = 0x02"
definition ICW4 :: u8 where "ICW4 = 0x01"
definition EOI :: u8 where "EOI = 0x60"
definition FULL_MASK :: u8 where "FULL_MASK = 0xFF"
definition SLAVE_IRQ_OFF :: u32 where "SLAVE_IRQ_OFF = 8"

lemmas pic_consts = MASTER_8259_PORT_def SLAVE_8259_PORT_def MASTER_8259_PORT_A_def
  SLAVE_8259_PORT_A_def ICW1_def ICW2_MASTER_def ICW2_SLAVE_def ICW3_MASTER_def ICW3_SLAVE_def
  ICW4_def EOI_def FULL_MASK_def SLAVE_IRQ_OFF_def

text \<open>The mask bit is flipped (\<^verbatim>\<open>^\<close>), not cleared.\<close>

definition enable_irq :: "device \<Rightarrow> u32 \<Rightarrow> 'a machine_scheme \<Rightarrow> 'a machine_scheme" where
  "enable_irq dev irq_num s =
     (let (port, n) = (if irq_num < 8 then (MASTER_8259_PORT_A, irq_num)
                       else (SLAVE_8259_PORT_A, irq_num - 8));
          (old, s1) = inb dev port s;
          v = old XOR ucast (push_bit (unat n) (1 :: u32))
      in outb v port s1)"

text \<open>The last call of the source, \<^verbatim>\<open>outb(port, value)\<close>, passes data and port in the
  opposite order of the macro's parameters \<^verbatim>\<open>outb(data, port)\<close>.\<close>

definition disable_irq :: "device \<Rightarrow> u32 \<Rightarrow> 'a machine_scheme \<Rightarrow> 'a machine_scheme" where
  "disable_irq dev irq_num s =
     (let (port, n) = (if irq_num < SLAVE_IRQ_OFF then (MASTER_8259_PORT_A, irq_num)
                       else (SLAVE_8259_PORT_A, irq_num - SLAVE_IRQ_OFF));
          (old, s1) = inb dev port s;
          v = old XOR ucast (NOT (push_bit (unat n) (1 :: u32)))
      in outb (ucast port) (ucast v) s1)"

definition send_eoi :: "u32 \<Rightarrow> 'a machine_scheme \<Rightarrow> 'a machine_scheme" where
  "send_eoi irq_num s =
     (if irq_num < SLAVE_IRQ_OFF then outb (EOI OR ucast irq_num) MASTER_8259_PORT s
      else if irq_num < 16
      then outb (EOI OR ICW3_SLAVE) MASTER_8259_PORT
             (outb (EOI OR ucast (irq_num - SLAVE_IRQ_OFF)) SLAVE_8259_PORT s)
      else s)"

definition i8259_init :: "device \<Rightarrow> 'a machine_scheme \<Rightarrow> 'a machine_scheme" where
  "i8259_init dev s =
     (let s = outb ICW1 MASTER_8259_PORT s;
          s = outb ICW2_MASTER MASTER_8259_PORT_A s;
          s = outb ICW3_MASTER MASTER_8259_PORT_A s;
          s = outb ICW4 MASTER_8259_PORT_A s;
          s = outb ICW1 SLAVE_8259_PORT s;
          s = outb ICW2_SLAVE SLAVE_8259_PORT_A s;
          s = outb ICW3_SLAVE SLAVE_8259_PORT_A s;
          s = outb ICW4 SLAVE_8259_PORT_A s;
          s = outb FULL_MASK MASTER_8259_PORT_A s;
          s = outb FULL_MASK SLAVE_8259_PORT_A s
      in enable_irq dev (ucast ICW3_SLAVE) s)"

section \<open>The controller, as its data sheet describes it\<close>

text \<open>
  A byte with bit 4 set on the command port starts an initialisation: it clears the mask and
  the next three bytes on the data port are initialisation words. Every later byte on the data
  port is the new mask. \<open>pic_state cmd dat log\<close> is \<open>None\<close> before the first
  initialisation, else the number of words still expected and the mask.
\<close>

fun pic_state :: "u16 \<Rightarrow> u16 \<Rightarrow> io_event list \<Rightarrow> (nat \<times> u8) option" where
  "pic_state cmd dat [] = None"
| "pic_state cmd dat (In p v # log) = pic_state cmd dat log"
| "pic_state cmd dat (Out p v # log) =
     (if p = cmd \<and> bit v 4 then Some (3, 0)
      else if p = dat then
        (case pic_state cmd dat log of
           None \<Rightarrow> None
         | Some (0, imr) \<Rightarrow> Some (0, v)
         | Some (Suc k, imr) \<Rightarrow> Some (k, imr))
      else pic_state cmd dat log)"

definition pic_mask :: "u16 \<Rightarrow> u16 \<Rightarrow> 'a machine_scheme \<Rightarrow> u8 option" where
  "pic_mask cmd dat s = (case pic_state cmd dat (io_log s) of Some (0, imr) \<Rightarrow> Some imr | _ \<Rightarrow> None)"

abbreviation master_mask :: "'a machine_scheme \<Rightarrow> u8 option" where
  "master_mask s \<equiv> pic_mask MASTER_8259_PORT MASTER_8259_PORT_A s"

abbreviation slave_mask :: "'a machine_scheme \<Rightarrow> u8 option" where
  "slave_mask s \<equiv> pic_mask SLAVE_8259_PORT SLAVE_8259_PORT_A s"

definition pic_reads_mask :: "device \<Rightarrow> bool" where
  "pic_reads_mask dev \<longleftrightarrow>
     (\<forall>log imr. pic_state MASTER_8259_PORT MASTER_8259_PORT_A log = Some (0, imr) \<longrightarrow>
        dev log MASTER_8259_PORT_A = imr) \<and>
     (\<forall>log imr. pic_state SLAVE_8259_PORT SLAVE_8259_PORT_A log = Some (0, imr) \<longrightarrow>
        dev log SLAVE_8259_PORT_A = imr)"

text \<open>A device that behaves so.\<close>

definition pic_device :: device where
  "pic_device log port =
     (if port = MASTER_8259_PORT_A
      then (case pic_state MASTER_8259_PORT MASTER_8259_PORT_A log of Some (k, m) \<Rightarrow> m | None \<Rightarrow> 0)
      else if port = SLAVE_8259_PORT_A
      then (case pic_state SLAVE_8259_PORT SLAVE_8259_PORT_A log of Some (k, m) \<Rightarrow> m | None \<Rightarrow> 0)
      else 0)"

lemma pic_device_reads_mask: "pic_reads_mask pic_device"
  by (auto simp: pic_reads_mask_def pic_device_def pic_consts)

section \<open>What the driver does to the masks\<close>

lemma pic_mask_Some: "pic_mask cmd dat s = Some mk \<longleftrightarrow> pic_state cmd dat (io_log s) = Some (0, mk)"
  by (auto simp: pic_mask_def split: option.splits nat.splits)

lemma pic_mask_inb: "pic_mask cmd dat (snd (inb dev p s)) = pic_mask cmd dat s"
  by (simp add: pic_mask_def inb_def Let_def)

lemma pic_mask_outb_other:
  "p \<noteq> dat \<Longrightarrow> p \<noteq> cmd \<or> \<not> bit v 4 \<Longrightarrow> pic_mask cmd dat (outb v p s) = pic_mask cmd dat s"
  by (auto simp: pic_mask_def outb_def)

lemma pic_mask_outb_data:
  "pic_mask cmd dat s = Some mk \<Longrightarrow> dat \<noteq> cmd \<Longrightarrow> pic_mask cmd dat (outb v dat s) = Some v"
  by (simp add: pic_mask_Some outb_def)

lemma inb_master: "pic_reads_mask dev \<Longrightarrow> master_mask s = Some mk \<Longrightarrow> fst (inb dev MASTER_8259_PORT_A s) = mk"
  by (auto simp: pic_reads_mask_def pic_mask_Some inb_def Let_def)

lemma inb_slave: "pic_reads_mask dev \<Longrightarrow> slave_mask s = Some mk \<Longrightarrow> fst (inb dev SLAVE_8259_PORT_A s) = mk"
  by (auto simp: pic_reads_mask_def pic_mask_Some inb_def Let_def)

lemma ports_distinct [simp]:
  "MASTER_8259_PORT_A \<noteq> MASTER_8259_PORT" "SLAVE_8259_PORT_A \<noteq> SLAVE_8259_PORT"
  "MASTER_8259_PORT_A \<noteq> SLAVE_8259_PORT_A" "MASTER_8259_PORT_A \<noteq> SLAVE_8259_PORT"
  "SLAVE_8259_PORT_A \<noteq> MASTER_8259_PORT_A" "SLAVE_8259_PORT_A \<noteq> MASTER_8259_PORT"
  by (simp_all add: pic_consts)

lemma enable_irq_master:
  assumes "pic_reads_mask dev" and "irq < 8" and "master_mask s = Some mk"
  shows "master_mask (enable_irq dev irq s) = Some (mk XOR ucast (push_bit (unat irq) (1 :: u32)))"
    and "slave_mask (enable_irq dev irq s) = slave_mask s"
proof -
  obtain s1 where s1: "inb dev MASTER_8259_PORT_A s = (mk, s1)"
    using inb_master [OF assms(1,3)] by (metis prod.collapse)
  have keep: "master_mask s1 = Some mk" "slave_mask s1 = slave_mask s"
    using pic_mask_inb [of _ _ dev MASTER_8259_PORT_A s] s1 assms(3) by simp_all
  have en: "enable_irq dev irq s =
      outb (mk XOR ucast (push_bit (unat irq) (1 :: u32))) MASTER_8259_PORT_A s1"
    using assms(2) s1 by (simp add: enable_irq_def)
  show "master_mask (enable_irq dev irq s) = Some (mk XOR ucast (push_bit (unat irq) (1 :: u32)))"
    unfolding en by (rule pic_mask_outb_data [OF keep(1)]) simp
  show "slave_mask (enable_irq dev irq s) = slave_mask s"
    unfolding en by (simp add: pic_mask_outb_other keep)
qed

lemma enable_irq_slave:
  assumes "pic_reads_mask dev" and "8 \<le> irq" and "slave_mask s = Some mk"
  shows "slave_mask (enable_irq dev irq s) = Some (mk XOR ucast (push_bit (unat (irq - 8)) (1 :: u32)))"
    and "master_mask (enable_irq dev irq s) = master_mask s"
proof -
  obtain s1 where s1: "inb dev SLAVE_8259_PORT_A s = (mk, s1)"
    using inb_slave [OF assms(1,3)] by (metis prod.collapse)
  have keep: "slave_mask s1 = Some mk" "master_mask s1 = master_mask s"
    using pic_mask_inb [of _ _ dev SLAVE_8259_PORT_A s] s1 assms(3) by simp_all
  have en: "enable_irq dev irq s =
      outb (mk XOR ucast (push_bit (unat (irq - 8)) (1 :: u32))) SLAVE_8259_PORT_A s1"
    using assms(2) s1 by (simp add: enable_irq_def not_less [symmetric])
  show "slave_mask (enable_irq dev irq s) = Some (mk XOR ucast (push_bit (unat (irq - 8)) (1 :: u32)))"
    unfolding en by (rule pic_mask_outb_data [OF keep(1)]) simp
  show "master_mask (enable_irq dev irq s) = master_mask s"
    unfolding en by (simp add: pic_mask_outb_other keep)
qed

lemma i8259_init_masks:
  assumes "pic_reads_mask dev"
  shows "master_mask (i8259_init dev s) = Some 0xFB" and "slave_mask (i8259_init dev s) = Some 0xFF"
proof -
  define t where "t = outb FULL_MASK SLAVE_8259_PORT_A (outb FULL_MASK MASTER_8259_PORT_A
    (outb ICW4 SLAVE_8259_PORT_A (outb ICW3_SLAVE SLAVE_8259_PORT_A (outb ICW2_SLAVE SLAVE_8259_PORT_A
    (outb ICW1 SLAVE_8259_PORT (outb ICW4 MASTER_8259_PORT_A (outb ICW3_MASTER MASTER_8259_PORT_A
    (outb ICW2_MASTER MASTER_8259_PORT_A (outb ICW1 MASTER_8259_PORT s)))))))))"
  have init: "i8259_init dev s = enable_irq dev 2 t"
    by (simp add: i8259_init_def t_def Let_def pic_consts)
  have "master_mask t = Some 0xFF" "slave_mask t = Some 0xFF"
    by (simp_all add: t_def pic_mask_Some outb_def pic_consts numeral_3_eq_3)
  then show "master_mask (i8259_init dev s) = Some 0xFB" "slave_mask (i8259_init dev s) = Some 0xFF"
    unfolding init using enable_irq_master [OF assms, of 2 t "0xFF"] by simp_all
qed

section \<open>The properties of the interrupt controller driver\<close>

text \<open>
  \<^verbatim>\<open>enable_irq\<close> inverts exactly the mask bit of its line and no other bit of
  either controller: a masked line is enabled, a second call on the same line masks it again.
\<close>

theorem enable_irq_toggles:
  assumes "pic_reads_mask dev" and "irq < 8" and "master_mask s = Some mk"
  shows "master_mask (enable_irq dev irq s) = Some (mk XOR ucast (push_bit (unat irq) (1 :: u32))) \<and>
    slave_mask (enable_irq dev irq s) = slave_mask s \<and>
    master_mask (enable_irq dev irq (enable_irq dev irq s)) = master_mask s"
proof -
  note one = enable_irq_master [OF assms]
  note two = enable_irq_master(1) [OF assms(1,2) one(1)]
  show ?thesis using one two assms(3) by (simp add: xor.assoc)
qed

theorem enable_irq_toggles_witness:
  "master_mask (enable_irq pic_device 1 (i8259_init pic_device
      \<lparr>phys = (\<lambda>a. 0), io_log = [], iflag = False\<rparr>)) = Some 0xF9"
  using enable_irq_toggles [OF pic_device_reads_mask _ i8259_init_masks(1) [OF pic_device_reads_mask],
      of 1 "\<lparr>phys = (\<lambda>a. 0), io_log = [], iflag = False\<rparr>"]
  by simp

text \<open>
  \<^verbatim>\<open>disable_irq\<close> does not mask the line: its one write goes to the port whose
  number is the computed mask, and carries the number of the controller's data port. Unless
  that mask happens to be a controller port number, both masks are unchanged.
\<close>

theorem disable_irq_misses:
  assumes "pic_reads_mask dev" and "irq < 8" and "master_mask s = Some mk"
    and v: "v = mk XOR ucast (NOT (push_bit (unat irq) (1 :: u32)))"
    and "v \<notin> {0x21, 0xA1}"
  shows "outs (io_log (disable_irq dev irq s)) = outs (io_log s) @ [(ucast v, 0x21)] \<and>
    master_mask (disable_irq dev irq s) = master_mask s \<and>
    slave_mask (disable_irq dev irq s) = slave_mask s"
proof -
  obtain s1 where s1: "inb dev MASTER_8259_PORT_A s = (mk, s1)"
    using inb_master [OF assms(1,3)] by (metis prod.collapse)
  then have log: "outs (io_log s1) = outs (io_log s)"
    by (auto simp: inb_def Let_def)
  have dis: "disable_irq dev irq s = outb 0x21 (ucast v) s1"
    using assms(2) s1 v by (simp add: disable_irq_def pic_consts)
  have "(ucast v :: u16) \<noteq> 0x21" "(ucast v :: u16) \<noteq> 0xA1"
    using ucast_u8_u16_inj [of v "0x21"] ucast_u8_u16_inj [of v "0xA1"] assms(5) by auto
  then show ?thesis
    using pic_mask_inb [of _ _ dev MASTER_8259_PORT_A s] s1 log unfolding dis
    by (simp add: pic_mask_outb_other outb_log) (simp add: pic_mask_outb_other pic_consts)
qed

theorem disable_irq_misses_witness:
  "master_mask (disable_irq pic_device 1 (i8259_init pic_device
      \<lparr>phys = (\<lambda>a. 0), io_log = [], iflag = False\<rparr>)) = Some 0xFB"
  using disable_irq_misses [OF pic_device_reads_mask _ i8259_init_masks(1) [OF pic_device_reads_mask],
      of 1 6 "\<lparr>phys = (\<lambda>a. 0), io_log = [], iflag = False\<rparr>"]
    i8259_init_masks(1) [OF pic_device_reads_mask, of "\<lparr>phys = (\<lambda>a. 0), io_log = [], iflag = False\<rparr>"]
  by simp

end
