(* ===== verification/Rtc.thy ===== *)
theory Rtc
  imports I8259
begin

text \<open>
  The real-time clock driver, \<^verbatim>\<open>student-distrib/rtc.c\<close>. Its state is the flag
  \<^verbatim>\<open>read_flag\<close> that the interrupt handler sets and \<^verbatim>\<open>rtc_read\<close>
  waits for (\<^verbatim>\<open>current_rtc\<close> and \<^verbatim>\<open>rate_glob\<close> are never used).
\<close>

definition RTC_PORT :: u16 where "RTC_PORT = 0x70"
definition CMOS_PORT :: u16 where "CMOS_PORT = 0x71"
definition STATUS_REGISTER_A :: u8 where "STATUS_REGISTER_A = 0x8A"
definition STATUS_REGISTER_B :: u8 where "STATUS_REGISTER_B = 0x8B"
definition STATUS_REGISTER_C :: u8 where "STATUS_REGISTER_C = 0x0C"
definition RTC_RATE_1024 :: u8 where "RTC_RATE_1024 = 0x6"
definition RTC_VEC :: u32 where "RTC_VEC = 0x08"
definition DEFAULT_RATE :: u8 where "DEFAULT_RATE = 0x0F"

lemmas rtc_consts = RTC_PORT_def CMOS_PORT_def STATUS_REGISTER_A_def STATUS_REGISTER_B_def
  STATUS_REGISTER_C_def RTC_RATE_1024_def RTC_VEC_def DEFAULT_RATE_def

record rtc_state = machine +
  read_flag :: int

text \<open>
  The sequence all three routines share: select register A, read it, select it again, write
  back its upper four bits with the new rate.
\<close>

definition rtc_set_rate :: "device \<Rightarrow> u8 \<Rightarrow> 'a machine_scheme \<Rightarrow> 'a machine_scheme" where
  "rtc_set_rate dev rate s =
     (let s = outb STATUS_REGISTER_A RTC_PORT s;
          (prev, s) = inb dev CMOS_PORT s;
          s = outb STATUS_REGISTER_A RTC_PORT s
      in outb ((prev AND 0xF0) OR rate) CMOS_PORT s)"

definition rtc_ack :: "device \<Rightarrow> 'a machine_scheme \<Rightarrow> 'a machine_scheme" where
  "rtc_ack dev s = snd (inb dev CMOS_PORT (outb STATUS_REGISTER_C RTC_PORT s))"

definition rtc_init :: "device \<Rightarrow> 'a machine_scheme \<Rightarrow> 'a machine_scheme" where
  "rtc_init dev s =
     (let rate = RTC_RATE_1024 AND DEFAULT_RATE;
          s = rtc_set_rate dev rate s;
          s = outb STATUS_REGISTER_B RTC_PORT s;
          (prev, s) = inb dev CMOS_PORT s;
          s = outb STATUS_REGISTER_B RTC_PORT s;
          s = outb (prev OR 0x40) CMOS_PORT s;
          s = rtc_ack dev s
      in enable_irq dev RTC_VEC s)"

definition rtc_open :: "device \<Rightarrow> 'a machine_scheme \<Rightarrow> int \<times> 'a machine_scheme" where
  "rtc_open dev s = (0, rtc_ack dev (rtc_set_rate dev DEFAULT_RATE s))"

definition rtc_close :: "int \<Rightarrow> 'a machine_scheme \<Rightarrow> int \<times> 'a machine_scheme" where
  "rtc_close fd s = (0, s)"

definition rtc_handler :: "device \<Rightarrow> 'a rtc_state_scheme \<Rightarrow> 'a rtc_state_scheme" where
  "rtc_handler dev s =
     (let s = outb 0x0C RTC_PORT s;
          (_, s) = inb dev CMOS_PORT s;
          s = send_eoi RTC_VEC s
      in s\<lparr>read_flag := 1\<rparr>)"

text \<open>\<open>irqs\<close> are the handlers of the interrupts that arrive while the routine waits.\<close>

definition rtc_read :: "('a rtc_state_scheme \<Rightarrow> 'a rtc_state_scheme) list \<Rightarrow>
    'a rtc_state_scheme \<Rightarrow> (int \<times> 'a rtc_state_scheme) option" where
  "rtc_read irqs s =
     (case await (\<lambda>t. read_flag t \<noteq> 0) irqs (sti (s\<lparr>read_flag := 0\<rparr>)) of
        None \<Rightarrow> None
      | Some t \<Rightarrow> Some (0, cli t))"

definition rtc_rate :: "int \<Rightarrow> u8 option" where
  "rtc_rate freq =
     (if freq = 2 then Some DEFAULT_RATE
      else if freq = 4 then Some 0x0E
      else if freq = 8 then Some 0x0D
      else if freq = 16 then Some 0x0C
      else if freq = 32 then Some 0x0B
      else if freq = 64 then Some 0x0A
      else if freq = 128 then Some 0x09
      else if freq = 256 then Some 0x08
      else if freq = 512 then Some 0x07
      else if freq = 1024 then Some 0x06
      else None)"

definition rtc_write :: "device \<Rightarrow> cbuf \<Rightarrow> 'a machine_scheme \<Rightarrow> int \<times> 'a machine_scheme" where
  "rtc_write dev buf s =
     (case rtc_rate (sint (le32 buf)) of
        None \<Rightarrow> (-1, s)
      | Some rate \<Rightarrow> (0, rtc_ack dev (rtc_set_rate dev rate s)))"

section \<open>Properties\<close>

lemma rtc_set_rate_outs:
  "outs (io_log (rtc_set_rate dev rate s)) = outs (io_log s) @
     [(RTC_PORT, STATUS_REGISTER_A), (RTC_PORT, STATUS_REGISTER_A),
      (CMOS_PORT, (dev (Out RTC_PORT STATUS_REGISTER_A # io_log s) CMOS_PORT AND 0xF0) OR rate)]"
  by (simp add: rtc_set_rate_def inb_def outb_def Let_def)

lemma rtc_ack_outs:
  "outs (io_log (rtc_ack dev s)) = outs (io_log s) @ [(RTC_PORT, STATUS_REGISTER_C)]"
  by (simp add: rtc_ack_def inb_def outb_def Let_def)

lemma rtc_rate_freq:
  "rtc_rate freq = Some rate \<Longrightarrow> 32768 div 2 ^ (unat rate - 1) = freq \<and> rate AND 0xF0 = 0"
  by (auto simp: rtc_rate_def DEFAULT_RATE_def split: if_splits)

lemma rtc_rate_None: "rtc_rate freq = None \<longleftrightarrow> \<not> (\<exists>k \<in> {1..10}. freq = 2 ^ k)"
proof -
  have "(\<exists>k \<in> {1..10::nat}. freq = 2 ^ k) \<longleftrightarrow> freq \<in> {2, 4, 8, 16, 32, 64, 128, 256, 512, 1024}"
    by (auto simp: atLeastAtMost_upt upt_rec numeral_eq_Suc)
  then show ?thesis by (simp add: rtc_rate_def)
qed

text \<open>
  \<^verbatim>\<open>rtc_write\<close> accepts exactly the powers of two from 2 to 1024 Hz. For those
  it writes register A with the clock's upper four bits kept and a rate nibble for which the
  clock ticks at the requested frequency (32768 shifted right by rate - 1); for any other value
  it returns -1 without touching the hardware.
\<close>

theorem rtc_write_frequency:
  "if \<exists>k \<in> {1..10}. sint (le32 buf) = 2 ^ k
   then \<exists>rate. fst (rtc_write dev buf s) = 0 \<and>
     32768 div 2 ^ (unat rate - 1) = sint (le32 buf) \<and> rate AND 0xF0 = 0 \<and>
     outs (io_log (snd (rtc_write dev buf s))) = outs (io_log s) @
       [(RTC_PORT, STATUS_REGISTER_A), (RTC_PORT, STATUS_REGISTER_A),
        (CMOS_PORT, (dev (Out RTC_PORT STATUS_REGISTER_A # io_log s) CMOS_PORT AND 0xF0) OR rate),
        (RTC_PORT, STATUS_REGISTER_C)]
   else rtc_write dev buf s = (-1, s)"
proof (cases "rtc_rate (sint (le32 buf))")
  case None
  then have "\<not> (\<exists>k \<in> {1..10}. sint (le32 buf) = 2 ^ k)" by (rule iffD1 [OF rtc_rate_None])
  with None show ?thesis by (simp only: if_False) (simp add: rtc_write_def)
next
  case (Some rate)
  then have "\<exists>k \<in> {1..10}. sint (le32 buf) = 2 ^ k"
    using rtc_rate_None [of "sint (le32 buf)"] by (simp only: option.distinct) blast
  with Some rtc_rate_freq [OF Some] show ?thesis
    by (auto simp: rtc_write_def rtc_ack_outs rtc_set_rate_outs intro!: exI [of _ rate])
qed

lemma rtc_handler_flag: "read_flag (rtc_handler dev s) = 1"
  by (simp add: rtc_handler_def Let_def split: prod.splits)

text \<open>
  \<^verbatim>\<open>rtc_read\<close> waits for the next clock tick and for nothing else: it returns 0,
  with interrupts off, as soon as a clock interrupt is among those that arrive, and it still
  waits if no handler that runs sets the flag.
\<close>

theorem rtc_read_waits_for_tick:
  "(rtc_handler dev \<in> set irqs \<longrightarrow> (\<exists>t. rtc_read irqs s = Some (0, t) \<and> \<not> iflag t \<and> read_flag t \<noteq> 0)) \<and>
   ((\<forall>h \<in> set irqs. \<forall>u. read_flag (h u) = read_flag u) \<longrightarrow> rtc_read irqs s = None)"
proof (intro conjI impI)
  let ?s = "sti (s\<lparr>read_flag := 0\<rparr>)"
  assume "rtc_handler dev \<in> set irqs"
  then obtain n where n: "n < length irqs" "irqs ! n = rtc_handler dev" by (metis in_set_conv_nth)
  have "read_flag (fold (\<lambda>h. h) (take (Suc n) irqs) ?s) \<noteq> 0"
    using n by (simp add: take_Suc_conv_app_nth rtc_handler_flag)
  then have "await (\<lambda>t. read_flag t \<noteq> 0) irqs ?s \<noteq> None"
    using await_None [of "\<lambda>t. read_flag t \<noteq> 0" irqs ?s] n(1) by (auto simp: Suc_le_eq)
  then show "\<exists>t. rtc_read irqs s = Some (0, t) \<and> \<not> iflag t \<and> read_flag t \<noteq> 0"
    using await_holds by (fastforce simp: rtc_read_def cli_def split: option.splits)
next
  assume keep: "\<forall>h \<in> set irqs. \<forall>u. read_flag (h u) = read_flag u"
  have "read_flag (fold (\<lambda>h. h) hs u) = read_flag u" if "set hs \<subseteq> set irqs" for hs u
    using that keep by (induction hs arbitrary: u) auto
  then have "await (\<lambda>t. read_flag t \<noteq> 0) irqs (sti (s\<lparr>read_flag := 0\<rparr>)) = None"
    using set_take_subset [of _ irqs] by (simp add: await_None sti_def)
  then show "rtc_read irqs s = None" by (simp add: rtc_read_def)
qed

theorem rtc_read_waits_for_tick_witness:
  "\<exists>t. rtc_read [\<lambda>u. u, rtc_handler (\<lambda>log p. 0)]
      \<lparr>phys = (\<lambda>a. 0), io_log = [], iflag = False, read_flag = 1\<rparr> = Some (0, t) \<and>
    \<not> iflag t \<and> read_flag t \<noteq> 0"
  using rtc_read_waits_for_tick [of "\<lambda>log p. 0" "[\<lambda>u. u, rtc_handler (\<lambda>log p. 0)]"
      "\<lparr>phys = (\<lambda>a. 0), io_log = [], iflag = False, read_flag = 1\<rparr>"]
  by simp

end
