(* ===== verification/Pit.thy ===== *)
theory Pit
  imports Rtc "HOL-Library.Signed_Division"
begin

text \<open>
  The interval timer, \<^verbatim>\<open>student-distrib/pit.c\<close>. The handler's test of
  \<^verbatim>\<open>head\<close> guards an empty body (its call of \<^verbatim>\<open>pSwitch\<close> is
  commented out), so the handler acknowledges the interrupt and counts.
\<close>

definition MAXPIT :: int where "MAXPIT = 1193180"

record pit_state = rtc_state +
  quantum :: int

definition pit_init :: "device \<Rightarrow> 'a machine_scheme \<Rightarrow> 'a machine_scheme" where
  "pit_init dev s = enable_irq dev 0 s"

text \<open>A zero frequency traps in the division: \<open>None\<close>.\<close>

definition pit_write :: "int \<Rightarrow> 'a machine_scheme \<Rightarrow> 'a machine_scheme option" where
  "pit_write freq s =
     (if freq = 0 then None
      else let divisor = MAXPIT sdiv freq;
               s = outb 0x36 0x43 s;
               s = outb (word_of_int (divisor AND 0xFF)) 0x40 s
           in Some (outb (word_of_int (drop_bit 8 divisor)) 0x40 s))"

definition pit_handler :: "'a pit_state_scheme \<Rightarrow> 'a pit_state_scheme" where
  "pit_handler s = (let s = send_eoi 0 s in s\<lparr>quantum := quantum s + 1\<rparr>)"

section \<open>Properties\<close>

lemma low_byte: "unat (word_of_int (d AND 0xFF) :: u8) = nat (d mod 256)" for d :: int
proof -
  have "d AND 0xFF = d mod 256"
    using take_bit_eq_mask [of 8 d] by (simp add: take_bit_eq_mod mask_eq_exp_minus_1)
  then show ?thesis by (simp add: unsigned_of_int take_bit_eq_mod)
qed

lemma high_byte: "unat (word_of_int (drop_bit 8 d) :: u8) = nat (d div 256 mod 256)" for d :: int
  by (simp add: unsigned_of_int take_bit_eq_mod drop_bit_eq_div)

text \<open>
  For a positive frequency \<^verbatim>\<open>pit_write\<close> selects channel 0 in square-wave mode
  and then sends the divisor 1193180 / freq low byte first; the 16-bit counter receives it
  modulo 65536, so it is exact from 19 Hz on.
\<close>

theorem pit_write_divisor:
  assumes "0 < freq"
  shows "\<exists>t lo hi. pit_write freq s = Some t \<and>
    outs (io_log t) = outs (io_log s) @ [(0x43, 0x36), (0x40, lo), (0x40, hi)] \<and>
    unat lo + 256 * unat hi = nat (1193180 div freq mod 65536) \<and>
    (19 \<le> freq \<longrightarrow> unat lo + 256 * unat hi = nat (1193180 div freq))"
proof -
  define d where "d = 1193180 div freq"
  have d0: "0 \<le> d" using assms by (simp add: d_def div_int_pos_iff)
  have sd: "MAXPIT sdiv freq = d"
    using assms by (simp add: MAXPIT_def d_def signed_divide_int_def)
  define lo hi :: u8 where "lo = word_of_int (d AND 0xFF)" and "hi = word_of_int (drop_bit 8 d)"
  have "nat (d mod 256) + 256 * nat (d div 256 mod 256) = nat (d mod 65536)"
    using d0 mod_mult2_eq' [of d 256 256] by (simp add: nat_mult_distrib nat_add_distrib)
  then have val: "unat lo + 256 * unat hi = nat (d mod 65536)"
    unfolding lo_def hi_def low_byte high_byte .
  have "d \<le> 1193180 div 19" if "19 \<le> freq" using that zdiv_mono2 [of 1193180 19 freq] by (simp add: d_def)
  then have "d mod 65536 = d" if "19 \<le> freq" using d0 that by simp
  with val sd assms show ?thesis
    by (auto simp: pit_write_def Let_def outb_def lo_def hi_def d_def [symmetric])
qed

theorem pit_write_divisor_witness:
  "\<exists>t lo hi. pit_write 40 \<lparr>phys = (\<lambda>a. 0), io_log = [], iflag = False\<rparr> = Some t \<and>
    outs (io_log t) = [(0x43, 0x36), (0x40, lo), (0x40, hi)] \<and> unat lo + 256 * unat hi = 29829"
  using pit_write_divisor [of 40 "\<lparr>phys = (\<lambda>a. 0), io_log = [], iflag = False\<rparr>"] by auto

end
