(* ===== verification/Console.thy ===== *)
theory Console
  imports Pit
begin

text \<open>
  The text console of \<^verbatim>\<open>student-distrib/lib.c\<close>: clearing, the cursor, character
  output with scrolling and line editing, strings and \<^verbatim>\<open>printf\<close>. The state is the
  cursor (\<^verbatim>\<open>screen_x\<close>, \<^verbatim>\<open>screen_y\<close>), the keyboard line buffer of
  \<^verbatim>\<open>terminal.c\<close> that \<^verbatim>\<open>putc\<close> fills (\<^verbatim>\<open>tbuffer\<close>,
  \<^verbatim>\<open>tbuf\<close>, \<^verbatim>\<open>tflag\<close>) and the video memory, which is physical
  memory from \<open>VIDEO\<close> on (theory \<^verbatim>\<open>Paging\<close> shows that the page tables map
  that page to itself). C's \<^verbatim>\<open>/\<close> and \<^verbatim>\<open>%\<close> on \<^verbatim>\<open>int\<close>
  are \<open>sdiv\<close> and \<open>smod\<close>.
\<close>

definition VIDEO :: u32 where "VIDEO = 0xB8000"
definition NUM_COLS :: int where "NUM_COLS = 80"
definition NUM_ROWS :: int where "NUM_ROWS = 25"
definition ATTRIB :: u8 where "ATTRIB = 0x7"
definition ATTRIB_YELLOW :: u8 where "ATTRIB_YELLOW = 0xA"

lemmas console_consts = VIDEO_def NUM_COLS_def NUM_ROWS_def ATTRIB_def ATTRIB_YELLOW_def

record console = pit_state +
  screen_x :: int
  screen_y :: int
  tbuffer :: "u8 list"
  tbuf :: int
  tflag :: int

section \<open>Screen memory\<close>

text \<open>The character byte of cell \<open>k\<close>: \<^verbatim>\<open>video_mem + (k << 1)\<close>.\<close>

definition cell :: "int \<Rightarrow> u32" where
  "cell k = VIDEO + word_of_int (2 * k)"

definition clear_mem :: "mem \<Rightarrow> mem" where
  "clear_mem = fold (\<lambda>i m. m(cell (int i) := 32, cell (int i) + 1 := ATTRIB)) [0..<2000]"

definition clear :: "'a machine_scheme \<Rightarrow> 'a machine_scheme" where
  "clear s = s\<lparr>phys := clear_mem (phys s)\<rparr>"

definition reset_screen :: "'a console_scheme \<Rightarrow> 'a console_scheme" where
  "reset_screen s = (clear s)\<lparr>screen_x := 0, screen_y := 0\<rparr>"

definition test_interrupts :: "'a machine_scheme \<Rightarrow> 'a machine_scheme" where
  "test_interrupts s =
     s\<lparr>phys := fold (\<lambda>i m. m(cell (int i) := m (cell (int i)) + 1)) [0..<2000] (phys s)\<rparr>"

definition update_cursor :: "int \<Rightarrow> int \<Rightarrow> 'a machine_scheme \<Rightarrow> 'a machine_scheme" where
  "update_cursor row col s =
     (let pos = word_of_int (col * 80 + row) :: u32;
          s = outb 14 0x3D4 s;
          s = outb (ucast (drop_bit 8 pos)) 0x3D5 s;
          s = outb 15 0x3D4 s
      in outb (ucast pos) 0x3D5 s)"

text \<open>
  Scrolling: every row receives the row below it, then the characters of row \<open>y\<close> are
  blanked. The attribute store that follows the blanking loop in the source is outside it (the
  loop has no braces), so it runs once, for the column the loop stopped at.
\<close>

definition scroll_rows :: "mem \<Rightarrow> mem" where
  "scroll_rows = fold (\<lambda>i m. memcpy id (VIDEO + of_nat (80 * i * 2)) (VIDEO + of_nat (80 * (i + 1) * 2)) 160 m)
     [0..<24]"

definition blank_row :: "int \<Rightarrow> mem \<Rightarrow> mem" where
  "blank_row y m =
     (fold (\<lambda>i m. m(cell (NUM_COLS * y + int i) := 32)) [0..<80] m)
       (cell (NUM_COLS * y + NUM_COLS) + 1 := ATTRIB_YELLOW)"

definition scroll :: "'a console_scheme \<Rightarrow> 'a console_scheme" where
  "scroll s =
     (if NUM_ROWS - 1 < screen_y s
      then let y = screen_y s - 1
           in s\<lparr>phys := blank_row y (scroll_rows (phys s)), screen_y := y\<rparr>
      else s)"

section \<open>putc\<close>

text \<open>
  The branches of \<^verbatim>\<open>putc\<close>, in the order of the source: line feed or carriage return;
  backspace on an empty line; backspace; a full line; any other character. The recursive call
  \<^verbatim>\<open>putc(' ')\<close> of the backspace branch always takes one of the last two, which
  are \<open>putc_print\<close>.
\<close>

definition putc_newline :: "'a console_scheme \<Rightarrow> 'a console_scheme" where
  "putc_newline s =
     (let s = s\<lparr>tflag := 0, screen_y := screen_y s + 1, screen_x := 0\<rparr>;
          s = scroll s
      in update_cursor (screen_x s) (screen_y s) s)"

definition putc_print :: "u8 \<Rightarrow> 'a console_scheme \<Rightarrow> 'a console_scheme" where
  "putc_print c s =
     (if tbuf s = 128 then s
      else
        let k = NUM_COLS * screen_y s + screen_x s;
            s = s\<lparr>phys := (phys s)(cell k := c, cell k + 1 := ATTRIB_YELLOW),
                  screen_x := screen_x s + 1\<rparr>;
            s = (if NUM_COLS \<le> screen_x s
                 then scroll (s\<lparr>screen_y := screen_y s + 1, screen_x := 0\<rparr>)
                 else s);
            s = update_cursor (screen_x s) (screen_y s) s;
            s = s\<lparr>screen_x := screen_x s smod NUM_COLS\<rparr>;
            s = s\<lparr>screen_y := (screen_y s + (screen_x s sdiv NUM_COLS)) smod NUM_ROWS\<rparr>
        in if tflag s \<noteq> 0 \<and> tbuf s < 128
           then s\<lparr>tbuffer := (tbuffer s)[nat (tbuf s) := c], tbuf := tbuf s + 1\<rparr>
           else s)"

definition putc_backspace :: "'a console_scheme \<Rightarrow> 'a console_scheme" where
  "putc_backspace s =
     (let s = (if screen_x s \<noteq> 0
               then putc_print 32 (s\<lparr>screen_x := screen_x s - 1\<rparr>)
               else putc_print 32 (s\<lparr>screen_x := NUM_COLS - 1, screen_y := screen_y s - 1\<rparr>));
          s = s\<lparr>screen_x := screen_x s - 1\<rparr>;
          s = (if tflag s \<noteq> 0 \<and> 1 < tbuf s then s\<lparr>tbuf := tbuf s - 2\<rparr> else s)
      in update_cursor (screen_x s) (screen_y s) s)"

definition putc :: "u8 \<Rightarrow> 'a console_scheme \<Rightarrow> 'a console_scheme" where
  "putc c s =
     (if c = 10 \<or> c = 13 then putc_newline s
      else if c = 8 \<and> tbuf s = 0 then s
      else if c = 8 then putc_backspace s
      else putc_print c s)"

section \<open>Strings and printf\<close>

partial_function (option) puts_from :: "cbuf \<Rightarrow> nat \<Rightarrow> 'a console_scheme \<Rightarrow> (nat \<times> 'a console_scheme) option" where
  "puts_from b i s = (if b i = 0 then Some (i, s) else puts_from b (Suc i) (putc (b i) s))"

definition puts :: "cbuf \<Rightarrow> 'a console_scheme \<Rightarrow> (nat \<times> 'a console_scheme) option" where
  "puts b s = puts_from b 0 s"

text \<open>A conversion buffer that holds \<open>bs\<close> and a terminator, printed.\<close>

definition puts_conv :: "u8 list option \<Rightarrow> 'a console_scheme \<Rightarrow> (nat \<times> 'a console_scheme) option" where
  "puts_conv c s = (case c of None \<Rightarrow> None | Some bs \<Rightarrow> puts (lit bs) s)"

text \<open>
  The digits of the three numeric conversions. \<^verbatim>\<open>%#x\<close> writes the digits at index 8
  of the buffer and fills the indices from their count up to 7 with zeros.
\<close>

definition conv_x :: "bool \<Rightarrow> u32 \<Rightarrow> u8 list option" where
  "conv_x alternate v =
     (if alternate then map_option (\<lambda>bs. replicate (8 - length bs) 48 @ bs) (itoa v 16)
      else itoa v 16)"

definition conv_u :: "u32 \<Rightarrow> u8 list option" where
  "conv_u v = itoa v 10"

definition conv_d :: "u32 \<Rightarrow> u8 list option" where
  "conv_d v = (if sint v < 0 then map_option (\<lambda>bs. 45 # bs) (itoa (- v) 10) else itoa v 10)"

text \<open>
  \<open>mode\<close> is \<open>None\<close> in plain text and \<open>Some alternate\<close> at the label
  \<^verbatim>\<open>format_char_switch\<close>; \<open>args\<close> are the stack words after the format, read at
  index \<open>k\<close>; \<open>rd\<close> gives the bytes a pointer argument points to.
\<close>

definition printf_step ::
    "(u32 \<Rightarrow> cbuf) \<Rightarrow> u8 \<Rightarrow> (nat \<Rightarrow> u32) \<Rightarrow> bool option \<Rightarrow> nat \<Rightarrow> 'a console_scheme \<Rightarrow>
     (bool option \<times> nat \<times> 'a console_scheme) option" where
  "printf_step rd c args mode k s =
     (let shown = map_option (\<lambda>r. (None, Suc k, snd r))
      in if mode = None then
           (if c = 37 then Some (Some False, k, s) else Some (None, k, putc c s))
         else if c = 37 then Some (None, k, putc 37 s)
         else if c = 35 then Some (Some True, k, s)
         else if c = 120 then shown (puts_conv (conv_x (mode = Some True) (args k)) s)
         else if c = 117 then shown (puts_conv (conv_u (args k)) s)
         else if c = 100 then shown (puts_conv (conv_d (args k)) s)
         else if c = 99 then Some (None, Suc k, putc (ucast (args k)) s)
         else if c = 115 then shown (puts (rd (args k)) s)
         else Some (None, k, s))"

text \<open>
  Every branch of the two switches moves \<^verbatim>\<open>buf\<close> by one. The end of the format is
  only tested in plain text: after a \<^verbatim>\<open>%\<close> the terminator is a character like any
  other.
\<close>

partial_function (option) printf_loop ::
    "(u32 \<Rightarrow> cbuf) \<Rightarrow> cbuf \<Rightarrow> (nat \<Rightarrow> u32) \<Rightarrow> bool option \<Rightarrow> nat \<Rightarrow> nat \<Rightarrow> 'a console_scheme \<Rightarrow>
     (nat \<times> 'a console_scheme) option" where
  "printf_loop rd fmt args mode i k s =
     (if mode = None \<and> fmt i = 0 then Some (i, s)
      else Option.bind (printf_step rd (fmt i) args mode k s)
        (\<lambda>r. printf_loop rd fmt args (fst r) (Suc i) (fst (snd r)) (snd (snd r))))"

definition printf :: "(u32 \<Rightarrow> cbuf) \<Rightarrow> cbuf \<Rightarrow> (nat \<Rightarrow> u32) \<Rightarrow> 'a console_scheme \<Rightarrow> (nat \<times> 'a console_scheme) option" where
  "printf rd fmt args s = printf_loop rd fmt args None 0 0 s"

section \<open>Screen memory, cell by cell\<close>

text \<open>Addresses of the video page as offsets from \<open>VIDEO\<close>.\<close>

lemma video_off [simp]: "VIDEO + of_nat i = VIDEO + of_nat j \<longleftrightarrow> i = j" if "i < 2 ^ 32" "j < 2 ^ 32"
  using that by (rule addr_off_inj)

lemma cell_off: "0 \<le> k \<Longrightarrow> cell k = VIDEO + of_nat (2 * nat k)"
  by (simp add: cell_def)

lemma cell_off_attr: "0 \<le> k \<Longrightarrow> cell k + 1 = VIDEO + of_nat (2 * nat k + 1)"
  by (simp add: cell_off algebra_simps)

lemma video_region: "i < n \<Longrightarrow> VIDEO + of_nat i \<in> region VIDEO n"
  by (rule region_memI)

lemma not_video: "a \<notin> region VIDEO n \<Longrightarrow> i < n \<Longrightarrow> a \<noteq> VIDEO + of_nat i"
  by auto

text \<open>A loop of single stores: the byte of one store, and the bytes no store touches.\<close>

lemma fold_upd_out:
  "(\<And>i. i \<in> set xs \<Longrightarrow> a \<noteq> f i) \<Longrightarrow> fold (\<lambda>i m. m(f i := g i)) xs m a = m a"
  by (induction xs arbitrary: m) auto

lemma fold_upd_in:
  "distinct xs \<Longrightarrow> inj_on f (set xs) \<Longrightarrow> i \<in> set xs \<Longrightarrow> fold (\<lambda>i m. m(f i := g i)) xs m (f i) = g i"
proof (induction xs arbitrary: m)
  case Nil
  then show ?case by simp
next
  case (Cons x xs)
  show ?case
  proof (cases "i = x")
    case True
    have "fold (\<lambda>i m. m(f i := g i)) xs (m(f x := g x)) (f x) = (m(f x := g x)) (f x)"
      by (rule fold_upd_out) (use Cons.prems in \<open>auto simp: inj_on_def\<close>)
    with True show ?thesis by (simp add: fun_upd_def)
  next
    case False
    with Cons show ?thesis by (simp add: fun_upd_def)
  qed
qed

lemma clear_mem_alt:
  "clear_mem = fold (\<lambda>i m. m(VIDEO + of_nat (2 * i) := 32, VIDEO + of_nat (2 * i + 1) := ATTRIB)) [0..<2000]"
proof -
  have "(\<lambda>i m. m(cell (int i) := 32, cell (int i) + 1 := ATTRIB)) =
      (\<lambda>i m. m(VIDEO + of_nat (2 * i) := 32, VIDEO + of_nat (2 * i + 1) := ATTRIB))"
    by (simp add: cell_off algebra_simps)
  then show ?thesis unfolding clear_mem_def by simp
qed

text \<open>Two stores per turn: character and attribute.\<close>

lemma fold_cells_out:
  "(\<And>i. i \<in> set xs \<Longrightarrow> a \<noteq> f i \<and> a \<noteq> h i) \<Longrightarrow> fold (\<lambda>i m. m(f i := u, h i := v)) xs m a = m a"
  by (induction xs arbitrary: m) auto

lemma clear_mem_prefix:
  assumes "o' < 2 ^ 32" and "n \<le> 2000"
  shows "fold (\<lambda>i m. m(VIDEO + of_nat (2 * i) := 32, VIDEO + of_nat (2 * i + 1) := ATTRIB)) [0..<n] m
      (VIDEO + of_nat o') = (if o' < 2 * n then if even o' then 32 else ATTRIB else m (VIDEO + of_nat o'))"
  using assms(2)
proof (induction n)
  case 0
  then show ?case by simp
next
  case (Suc n)
  have n: "2 * n < 2 ^ 32" "2 * n + 1 < 2 ^ 32" using Suc.prems by simp_all
  have "o' = 2 * n \<or> o' = 2 * n + 1 \<or> (o' \<noteq> 2 * n \<and> o' \<noteq> 2 * n + 1 \<and> (o' < 2 * Suc n \<longleftrightarrow> o' < 2 * n))"
    by auto
  then show ?case
    using Suc.IH Suc.prems assms(1) n video_off [OF assms(1) n(1)] video_off [OF assms(1) n(2)]
    by (elim disjE) (simp_all add: fun_upd_def del: of_nat_Suc of_nat_add of_nat_mult)
qed

lemma clear_mem_val:
  "o' < 4000 \<Longrightarrow> clear_mem m (VIDEO + of_nat o') = (if even o' then 32 else ATTRIB)"
  using clear_mem_prefix [of o' 2000 m] by (simp add: clear_mem_alt)

lemma clear_mem_frame: "a \<notin> region VIDEO 4000 \<Longrightarrow> clear_mem m a = m a"
  unfolding clear_mem_alt
  by (rule fold_cells_out) (auto simp del: of_nat_Suc of_nat_add of_nat_mult)

lemma scroll_rows_prefix:
  assumes "n \<le> 24" and "o' < 2 ^ 32"
  shows "fold (\<lambda>i m. memcpy id (VIDEO + of_nat (80 * i * 2)) (VIDEO + of_nat (80 * (i + 1) * 2)) 160 m)
      [0..<n] m (VIDEO + of_nat o') = (if o' < 160 * n then m (VIDEO + of_nat (o' + 160)) else m (VIDEO + of_nat o'))"
  using assms
proof (induction n arbitrary: o')
  case 0
  then show ?case by simp
next
  case (Suc n)
  let ?f = "\<lambda>i m. memcpy id (VIDEO + of_nat (80 * i * 2)) (VIDEO + of_nat (80 * (i + 1) * 2)) 160 m"
  let ?m = "fold ?f [0..<n] m" and ?d = "VIDEO + of_nat (80 * n * 2)" and ?s = "VIDEO + of_nat (80 * (n + 1) * 2)"
  have fold: "fold ?f [0..<Suc n] m = ?f n ?m" by (simp del: of_nat_mult of_nat_add)
  have uv: "unat VIDEO = 0xB8000" by (simp add: VIDEO_def)
  have d: "unat ?d = 0xB8000 + 160 * n" and s: "unat ?s = 0xB8000 + 160 * n + 160"
    using Suc.prems by (subst unat_addr_off; simp add: uv)+
  have sep: "separate id ?d ?s (unat (160 :: u32))"
    by (rule separate_id) (use Suc.prems d s in simp_all)
  show ?case
  proof (cases "160 * n \<le> o' \<and> o' < 160 * Suc n")
    case True
    then obtain j where j: "o' = 160 * n + j" "j < 160"
      by (metis le_add_diff_inverse mult_Suc_right nat_add_left_cancel_less add.commute)
    have "?f n ?m (?d + of_nat j) = ?m (?s + of_nat j)"
      using bc.copy_val [OF sep, of j ?m] j by simp
    moreover have "?d + of_nat j = VIDEO + of_nat o'" "?s + of_nat j = VIDEO + of_nat (o' + 160)"
      using j by simp_all
    ultimately have "?f n ?m (VIDEO + of_nat o') = ?m (VIDEO + of_nat (o' + 160))" by metis
    also have "\<dots> = m (VIDEO + of_nat (o' + 160))"
      using Suc.IH [of "o' + 160"] Suc.prems True by (simp add: id_def)
    finally show ?thesis unfolding fold using True by simp
  next
    case False
    have "VIDEO + of_nat o' \<notin> region ?d 160"
    proof
      assume "VIDEO + of_nat o' \<in> region ?d 160"
      then obtain j where j: "j < 160" "VIDEO + of_nat o' = ?d + of_nat j" by blast
      have "VIDEO + of_nat o' = VIDEO + of_nat (80 * n * 2 + j)"
        unfolding j(2) by simp
      then have "o' = 80 * n * 2 + j"
        using Suc.prems j(1) video_off [of o' "80 * n * 2 + j"] by simp
      with False j(1) show False by simp
    qed
    then have "?f n ?m (VIDEO + of_nat o') = ?m (VIDEO + of_nat o')"
      using bc.copy_frame [OF sep, of "VIDEO + of_nat o'" ?m] by simp
    also have "\<dots> = (if o' < 160 * n then m (VIDEO + of_nat (o' + 160)) else m (VIDEO + of_nat o'))"
      using Suc.IH [of o'] Suc.prems by (simp add: id_def)
    finally show ?thesis unfolding fold using False by auto
  qed
qed

lemma scroll_rows_val:
  "o' < 2 ^ 32 \<Longrightarrow> scroll_rows m (VIDEO + of_nat o') =
     (if o' < 3840 then m (VIDEO + of_nat (o' + 160)) else m (VIDEO + of_nat o'))"
  unfolding scroll_rows_def using scroll_rows_prefix [of 24 o' m] by simp

text \<open>Every address is an offset from \<open>VIDEO\<close>.\<close>

lemma video_offE:
  obtains i where "i < 2 ^ 32" and "a = VIDEO + of_nat i"
proof
  show "unat (a - VIDEO) < 2 ^ 32" using unsigned_less [of "a - VIDEO", where ?'a = nat] by simp
  show "a = VIDEO + of_nat (unat (a - VIDEO))" by simp
qed

lemma blank_row_val:
  assumes "0 \<le> y" and "y \<le> 24" and "o' < 2 ^ 32"
  shows "blank_row y m (VIDEO + of_nat o') =
    (if o' = 160 * nat y + 161 then ATTRIB_YELLOW
     else if 160 * nat y \<le> o' \<and> o' < 160 * nat y + 160 \<and> even o' then 32
     else m (VIDEO + of_nat o'))"
proof -
  let ?f = "\<lambda>i. VIDEO + of_nat (160 * nat y + 2 * i)"
  have f: "(\<lambda>i m. m(cell (NUM_COLS * y + int i) := 32)) = (\<lambda>i m. m(?f i := (32 :: u8)))"
    using assms(1) by (simp add: cell_def NUM_COLS_def algebra_simps)
  have g: "cell (NUM_COLS * y + NUM_COLS) + 1 = VIDEO + of_nat (160 * nat y + 161)"
    using assms(1) by (simp add: cell_def NUM_COLS_def algebra_simps)
  have small: "160 * nat y + 2 * i < 2 ^ 32" if "i < 80" for i
    using assms(2) that by simp
  have inj: "inj_on ?f (set [0..<80])"
  proof (rule inj_onI)
    fix i j
    assume ij: "i \<in> set [0..<80]" "j \<in> set [0..<80]" and eq: "?f i = ?f j"
    show "i = j" using eq video_off [OF small small, of i j] ij by simp
  qed
  show ?thesis
  proof (cases "160 * nat y \<le> o' \<and> o' < 160 * nat y + 160 \<and> even o'")
    case True
    define i where "i = o' div 2 - 80 * nat y"
    have i: "i < 80" "o' = 160 * nat y + 2 * i"
      using True by (auto simp: i_def elim!: evenE)
    have "fold (\<lambda>i m. m(?f i := (32 :: u8))) [0..<80] m (?f i) = 32"
      by (rule fold_upd_in) (use i inj in simp_all)
    then show ?thesis
      unfolding blank_row_def f g using i True small [OF i(1)] video_off [of o' "160 * nat y + 161"] assms(2)
      by (auto simp del: of_nat_add of_nat_mult)
  next
    case False
    have "fold (\<lambda>i m. m(?f i := (32 :: u8))) [0..<80] m (VIDEO + of_nat o') = m (VIDEO + of_nat o')"
    proof (rule fold_upd_out)
      fix i
      assume "i \<in> set [0..<80]"
      then show "VIDEO + of_nat o' \<noteq> ?f i"
        using False video_off [OF assms(3) small, of i] by auto
    qed
    then show ?thesis
      unfolding blank_row_def f g using False assms(2,3) video_off [of o' "160 * nat y + 161"]
      by (auto simp del: of_nat_add of_nat_mult)
  qed
qed

lemma scroll_id [simp]: "screen_y s \<le> 24 \<Longrightarrow> scroll s = s"
  by (simp add: scroll_def NUM_ROWS_def)

lemma scroll_fields [simp]:
  "screen_x (scroll s) = screen_x s" "tbuffer (scroll s) = tbuffer s" "tbuf (scroll s) = tbuf s"
  "tflag (scroll s) = tflag s"
  by (simp_all add: scroll_def Let_def)

lemma scroll_y: "screen_y s \<le> 25 \<Longrightarrow> screen_y (scroll s) = min (screen_y s) 24"
  by (simp add: scroll_def Let_def NUM_ROWS_def)

lemma scroll_val:
  assumes "screen_y s = 25" and "i < 2 ^ 32"
  shows "phys (scroll s) (VIDEO + of_nat i) =
    (if i < 3840 then phys s (VIDEO + of_nat (i + 160))
     else if i < 4000 \<and> even i then 32
     else if i = 4001 then ATTRIB_YELLOW else phys s (VIDEO + of_nat i))"
  using assms
  by (simp add: scroll_def NUM_ROWS_def blank_row_val scroll_rows_val del: of_nat_add)

lemma scroll_frame:
  assumes "screen_y s \<le> 25" and "a \<notin> region VIDEO 4002"
  shows "phys (scroll s) a = phys s a"
proof (cases "screen_y s = 25")
  case True
  obtain i where i: "i < 2 ^ 32" "a = VIDEO + of_nat i" by (rule video_offE)
  have "\<not> i < 4002" using assms(2) i(2) by blast
  then show ?thesis using scroll_val [OF True i(1)] i(2) by simp
next
  case False
  then show ?thesis using assms(1) by simp
qed

lemma update_cursor_fields [simp]:
  "phys (update_cursor r c t) = phys t" "iflag (update_cursor r c t) = iflag t"
  "screen_x (update_cursor r c s) = screen_x s" "screen_y (update_cursor r c s) = screen_y s"
  "tbuffer (update_cursor r c s) = tbuffer s" "tbuf (update_cursor r c s) = tbuf s"
  "tflag (update_cursor r c s) = tflag s"
  by (simp_all add: update_cursor_def outb_def Let_def)

section \<open>The console invariant\<close>

text \<open>
  The cell the cursor is at, and the invariant: the cursor is on the screen, the line buffer
  index is in range, and the characters of the line that is being typed are on the screen in
  front of the cursor. After a backspace in column 0 the column is negative and the row is the
  one below, so the column is only bounded by \<open>-80\<close> from below.
\<close>

definition cursor :: "'a console_scheme \<Rightarrow> int" where
  "cursor s = NUM_COLS * screen_y s + screen_x s"

definition console_ok :: "'a console_scheme \<Rightarrow> bool" where
  "console_ok s \<longleftrightarrow> - NUM_COLS \<le> screen_x s \<and> screen_x s < NUM_COLS \<and>
     0 \<le> screen_y s \<and> screen_y s < NUM_ROWS \<and>
     0 \<le> tbuf s \<and> tbuf s \<le> 128 \<and> length (tbuffer s) = 129 \<and>
     tbuf s \<le> cursor s \<and> tbuf s \<le> screen_x s + 128"

lemmas console_simps = console_ok_def cursor_def NUM_COLS_def NUM_ROWS_def Let_def

lemma console_okD:
  assumes "console_ok s"
  shows "0 \<le> cursor s" "cursor s < 2000" "0 \<le> tbuf s" "tbuf s \<le> 128" "length (tbuffer s) = 129"
  using assms by (auto simp: console_simps)

lemma smod_small: "\<bar>x\<bar> < n \<Longrightarrow> x smod n = x" "\<bar>x\<bar> < n \<Longrightarrow> x sdiv n = 0" for x n :: int
  by (simp_all add: signed_modulo_int_def signed_divide_int_def sgn_mult_abs)

lemma smod_col: "- 80 \<le> x \<Longrightarrow> x < 80 \<Longrightarrow> x smod 80 = (if x = - 80 then 0 else x)" for x :: int
  using smod_small(1) [of x 80] by (auto simp: signed_modulo_int_def signed_divide_int_def)

text \<open>What printing one character does to the cursor, the line buffer and memory.\<close>

lemma putc_print_full: "tbuf s = 128 \<Longrightarrow> putc_print c s = s"
  by (simp add: putc_print_def)

lemma putc_print_cursor:
  assumes "tbuf s \<noteq> 128" and "- 81 \<le> screen_x s" and "screen_x s < 80" and "0 \<le> screen_y s" and "screen_y s < 25"
  shows "screen_x (putc_print c s) = (if screen_x s = 79 \<or> screen_x s = - 81 then 0 else screen_x s + 1)"
    and "screen_y (putc_print c s) = (if screen_x s = 79 then min (screen_y s + 1) 24 else screen_y s)"
  using assms
  by (auto simp: putc_print_def NUM_COLS_def NUM_ROWS_def Let_def scroll_y smod_col smod_small)

lemma putc_print_line:
  "tflag (putc_print c s) = tflag s"
  "tbuf (putc_print c s) = (if tflag s \<noteq> 0 \<and> tbuf s < 128 then tbuf s + 1 else tbuf s)"
  "tbuffer (putc_print c s) =
     (if tflag s \<noteq> 0 \<and> tbuf s < 128 then (tbuffer s)[nat (tbuf s) := c] else tbuffer s)"
  by (simp_all add: putc_print_def Let_def)

lemma putc_print_frame:
  assumes "0 \<le> cursor s" and "cursor s < 2000" and "screen_y s < 25" and "a \<notin> region VIDEO 4002"
  shows "phys (putc_print c s) a = phys s a"
proof -
  have n: "2 * nat (cursor s) < 4002" "2 * nat (cursor s) + 1 < 4002" using assms(1,2) by linarith+
  have "a \<noteq> cell (cursor s)" unfolding cell_off [OF assms(1)] by (rule not_video [OF assms(4) n(1)])
  moreover have "a \<noteq> cell (cursor s) + 1"
    unfolding cell_off_attr [OF assms(1)] by (rule not_video [OF assms(4) n(2)])
  ultimately show ?thesis using assms
    by (auto simp: putc_print_def Let_def cursor_def scroll_frame NUM_COLS_def)
qed


text \<open>The invariant through the three branches.\<close>

lemma console_ok_print:
  assumes "console_ok s"
  shows "console_ok (putc_print c s)"
proof (cases "tbuf s = 128")
  case True
  with assms show ?thesis by (simp add: putc_print_full)
next
  case False
  have b: "- 81 \<le> screen_x s" "screen_x s < 80" "0 \<le> screen_y s" "screen_y s < 25"
    using assms by (simp_all add: console_simps)
  show ?thesis
    using assms False unfolding console_ok_def cursor_def putc_print_cursor [OF False b] putc_print_line
    by (auto simp: NUM_COLS_def NUM_ROWS_def min_def)
qed

lemma console_ok_newline:
  assumes "console_ok s"
  shows "console_ok (putc_newline s)"
  using assms by (auto simp: putc_newline_def console_simps scroll_y min_def)

text \<open>
  The cursor after a backspace on a line that is being typed: one cell back, except after a
  full line (two cells back, nothing erased) and 80 cells to the left of column 0.
\<close>

lemma putc_backspace_line:
  assumes "0 < tbuf s" and "tbuf s \<le> 128" and "tflag s \<noteq> 0"
  shows "tflag (putc_backspace s) = tflag s"
    and "tbuf (putc_backspace s) = (if tbuf s = 128 then 126 else tbuf s - 1)"
    and "tbuffer (putc_backspace s) =
      (if tbuf s = 128 then tbuffer s else (tbuffer s)[nat (tbuf s) := 32])"
  using assms by (auto simp: putc_backspace_def Let_def putc_print_line)

lemma putc_backspace_cursor:
  assumes "console_ok s" and "0 < tbuf s"
  shows "screen_x (putc_backspace s) =
      (if tbuf s = 128 then (if screen_x s = 0 then 78 else screen_x s - 2)
       else if screen_x s = - 80 then - 1 else screen_x s - 1)"
    and "screen_y (putc_backspace s) =
      (if tbuf s = 128 \<and> screen_x s = 0 then screen_y s - 1 else screen_y s)"
proof -
  let ?t = "if screen_x s \<noteq> 0 then s\<lparr>screen_x := screen_x s - 1\<rparr>
            else s\<lparr>screen_x := NUM_COLS - 1, screen_y := screen_y s - 1\<rparr>"
  have x: "screen_x (putc_backspace s) = screen_x (putc_print 32 ?t) - 1"
    and y: "screen_y (putc_backspace s) = screen_y (putc_print 32 ?t)"
    by (simp_all add: putc_backspace_def Let_def)
  have b: "- 81 \<le> screen_x ?t" "screen_x ?t < 80" "0 \<le> screen_y ?t" "screen_y ?t < 25"
    using assms by (auto simp: console_simps)
  have "screen_x (putc_backspace s) = screen_x ?t - 1 \<and> screen_y (putc_backspace s) = screen_y ?t"
    if "tbuf s = 128"
    using that unfolding x y by (simp add: putc_print_full)
  moreover have "screen_x (putc_backspace s) = (if screen_x s = - 80 then - 1 else screen_x s - 1) \<and>
      screen_y (putc_backspace s) = screen_y s" if "tbuf s \<noteq> 128"
  proof -
    have ne: "tbuf ?t \<noteq> 128" using that by simp
    show ?thesis
      unfolding x y putc_print_cursor [OF ne b] using assms by (auto simp: console_simps min_def)
  qed
  ultimately show "screen_x (putc_backspace s) =
      (if tbuf s = 128 then (if screen_x s = 0 then 78 else screen_x s - 2)
       else if screen_x s = - 80 then - 1 else screen_x s - 1)"
    and "screen_y (putc_backspace s) =
      (if tbuf s = 128 \<and> screen_x s = 0 then screen_y s - 1 else screen_y s)"
    by (cases "tbuf s = 128"; simp add: NUM_COLS_def)+
qed

lemma console_ok_backspace:
  assumes "console_ok s" and "0 < tbuf s" and "tflag s \<noteq> 0"
  shows "console_ok (putc_backspace s)"
proof -
  have "tbuf s \<le> 128" using assms(1) by (rule console_okD)
  note line = putc_backspace_line [OF assms(2) this assms(3)]
  show ?thesis
    using assms unfolding console_ok_def cursor_def putc_backspace_cursor [OF assms(1,2)] line
    by (auto simp: NUM_COLS_def NUM_ROWS_def)
qed

lemma putc_backspace_frame:
  assumes "console_ok s" and "0 < tbuf s" and "a \<notin> region VIDEO 4002"
  shows "phys (putc_backspace s) a = phys s a"
proof -
  let ?t = "if screen_x s \<noteq> 0 then s\<lparr>screen_x := screen_x s - 1\<rparr>
            else s\<lparr>screen_x := NUM_COLS - 1, screen_y := screen_y s - 1\<rparr>"
  have "phys (putc_backspace s) = phys (putc_print 32 ?t)"
    by (simp add: putc_backspace_def Let_def)
  moreover have "phys (putc_print 32 ?t) a = phys ?t a"
    by (rule putc_print_frame) (use assms in \<open>auto simp: console_simps\<close>)
  ultimately show ?thesis by simp
qed

section \<open>The line editor\<close>

text \<open>
  What the terminal driver sees of \<^verbatim>\<open>putc\<close>: the line typed so far and whether a
  read is waiting for it. \<open>edit\<close> is the editor it implements.
\<close>

definition line :: "'a console_scheme \<Rightarrow> u8 list" where
  "line s = take (nat (tbuf s)) (tbuffer s)"

definition editing :: "'a console_scheme \<Rightarrow> u8 list \<times> bool" where
  "editing s = (line s, tflag s \<noteq> 0)"

fun edit :: "u8 \<Rightarrow> u8 list \<times> bool \<Rightarrow> u8 list \<times> bool" where
  "edit c (l, False) = (l, False)"
| "edit c (l, True) =
     (if c = 10 \<or> c = 13 then (l, False)
      else if c = 8 then (if length l = 128 then take 126 l else butlast l, True)
      else if length l < 128 then (l @ [c], True) else (l, True))"

lemma length_line: "console_ok s \<Longrightarrow> length (line s) = nat (tbuf s)"
  by (auto simp: line_def console_ok_def min_def)

lemma take_upd_append: "n < length xs \<Longrightarrow> take (Suc n) (xs[n := c]) = take n xs @ [c]"
  by (simp add: take_Suc_conv_app_nth)

lemma line_print:
  assumes "console_ok s"
  shows "line (putc_print c s) = (if tflag s \<noteq> 0 \<and> tbuf s < 128 then line s @ [c] else line s)"
  using assms
  by (auto simp: line_def putc_print_line console_ok_def nat_add_distrib take_upd_append)

lemma line_backspace:
  assumes "console_ok s" and "0 < tbuf s" and "tflag s \<noteq> 0"
  shows "line (putc_backspace s) = (if tbuf s = 128 then take 126 (line s) else butlast (line s))"
proof -
  have r: "tbuf s \<le> 128" using assms(1) by (rule console_okD)
  show ?thesis
    using assms r by (auto simp: line_def putc_backspace_line console_ok_def butlast_take nat_diff_distrib min_def)
qed

lemma tflag_idle_backspace: "tflag s = 0 \<Longrightarrow> tflag (putc_backspace s) = 0 \<and> line (putc_backspace s) = line s"
  by (simp add: putc_backspace_def Let_def line_def putc_print_line)

section \<open>Properties of putc\<close>

text \<open>
  C27. \<^verbatim>\<open>putc\<close> keeps the console invariant and writes only to the 4002 bytes from
  \<open>VIDEO\<close> on (the 80 by 25 cells and the attribute byte behind them), for every
  character except a backspace that arrives while no read is waiting and the line is not empty.
\<close>

theorem putc_safe:
  assumes "console_ok s" and "c = 8 \<longrightarrow> tflag s \<noteq> 0 \<or> tbuf s = 0"
  shows "console_ok (putc c s) \<and> (\<forall>a. a \<notin> region VIDEO 4002 \<longrightarrow> phys (putc c s) a = phys s a)"
proof -
  have pos: "0 < tbuf s" if "tbuf s \<noteq> 0" using that console_okD(3) [OF assms(1)] by linarith
  have y: "screen_y s < 25" using assms(1) by (simp add: console_simps)
  have nl: "phys (putc_newline s) a = phys s a" if "a \<notin> region VIDEO 4002" for a
    using that y by (simp add: putc_newline_def Let_def scroll_frame)
  note pr = putc_print_frame [OF console_okD(1,2) [OF assms(1)] y]
  show ?thesis
    using assms pos y
    by (auto simp: putc_def console_ok_print console_ok_newline console_ok_backspace
        putc_backspace_frame nl pr)
qed

lemma putc_edit:
  assumes "console_ok s"
  shows "editing (putc c s) = edit c (editing s)"
proof (cases "tflag s = 0")
  case True
  then show ?thesis
    using assms tflag_idle_backspace [of s] line_print [OF assms, of c]
    by (auto simp: editing_def putc_def putc_newline_def Let_def line_def putc_print_line)
next
  case False
  have range: "0 \<le> tbuf s" "tbuf s \<le> 128" using console_okD [OF assms] by simp_all
  have empty: "line s = []" if "tbuf s = 0" using that by (simp add: line_def)
  have nl: "line (putc_newline s) = line s" "tflag (putc_newline s) = 0"
    by (simp_all add: line_def putc_newline_def Let_def)
  have len: "length (line s) = 128 \<longleftrightarrow> tbuf s = 128" "length (line s) < 128 \<longleftrightarrow> tbuf s < 128"
    using range by (auto simp: length_line [OF assms])
  show ?thesis
    using False assms range empty nl len
    by (auto simp: editing_def putc_def line_print line_backspace putc_print_line putc_backspace_line)
qed

text \<open>
  C28. The line editor: on every state of the invariant \<^verbatim>\<open>putc\<close> implements
  \<open>edit\<close>. While a read waits, a printable character is appended (up to 128 of them), a
  backspace removes the last one, a line feed or carriage return completes the line; otherwise
  the line is left alone. On a full line a backspace removes two characters.
\<close>

theorem putc_refines_edit:
  assumes "console_ok s"
  shows "editing (putc c s) = edit c (editing s)"
  using assms by (rule putc_edit)

theorem putc_safe_witness:
  "console_ok (putc 8 \<lparr>phys = (\<lambda>a. 0), io_log = [], iflag = True, read_flag = 0, quantum = 0,
     screen_x = 0, screen_y = 3, tbuffer = replicate 129 65, tbuf = 2, tflag = 1\<rparr>)"
proof -
  let ?s = "\<lparr>phys = (\<lambda>a. 0), io_log = [], iflag = True, read_flag = 0, quantum = 0,
     screen_x = 0, screen_y = 3, tbuffer = replicate 129 65, tbuf = 2, tflag = 1\<rparr>"
  have "console_ok ?s" by (simp add: console_simps)
  from putc_safe [OF this, of 8] show ?thesis by simp
qed

theorem putc_refines_edit_witness:
  "editing (putc 8 \<lparr>phys = (\<lambda>a. 0), io_log = [], iflag = True, read_flag = 0, quantum = 0,
     screen_x = 0, screen_y = 3, tbuffer = replicate 129 65, tbuf = 2, tflag = 1\<rparr>) = ([65], True)"
proof -
  let ?s = "\<lparr>phys = (\<lambda>a. 0), io_log = [], iflag = True, read_flag = 0, quantum = 0,
     screen_x = 0, screen_y = 3, tbuffer = replicate 129 65, tbuf = 2, tflag = 1\<rparr>"
  have "console_ok ?s" by (simp add: console_simps)
  moreover have "editing ?s = (replicate 2 65, True)" by (simp add: editing_def line_def)
  ultimately have "editing (putc 8 ?s) = edit 8 (replicate 2 65, True)"
    using putc_refines_edit [of ?s 8] by simp
  also have "\<dots> = (butlast (replicate 2 65), True)" by simp
  also have "butlast (replicate 2 65) = [65 :: u8]" by (simp add: numeral_2_eq_2)
  finally show ?thesis .
qed

text \<open>
  A line feed on the bottom row scrolls: every row receives the characters and attributes
  of the row below it and the characters of the last row become blanks. Its attributes stay as
  they were: the attribute byte that is written is the one behind the screen, at offset 4001.
\<close>

theorem newline_scrolls:
  assumes "screen_y s = 24" and "i < 2 ^ 32"
  shows "phys (putc 10 s) (VIDEO + of_nat i) =
      (if i < 3840 then phys s (VIDEO + of_nat (i + 160))
       else if i < 4000 \<and> even i then 32
       else if i = 4001 then ATTRIB_YELLOW else phys s (VIDEO + of_nat i)) \<and>
    screen_x (putc 10 s) = 0 \<and> screen_y (putc 10 s) = 24"
proof -
  let ?t = "s\<lparr>tflag := 0, screen_y := screen_y s + 1, screen_x := 0\<rparr>"
  have y: "screen_y ?t = 25" using assms(1) by simp
  show ?thesis
    using scroll_val [OF y assms(2)] scroll_y [of ?t] y
    by (simp add: putc_def putc_newline_def Let_def)
qed

theorem newline_scrolls_witness:
  "\<exists>s :: console. phys (putc 10 s) (VIDEO + of_nat 1) = 7 \<and> phys (putc 10 s) (VIDEO + of_nat 3841) = 9"
proof -
  let ?s = "\<lparr>phys = (\<lambda>a. 9)(VIDEO + of_nat 161 := 7), io_log = [], iflag = True, read_flag = 0, quantum = 0,
     screen_x = 5, screen_y = 24, tbuffer = [], tbuf = 0, tflag = 0\<rparr>"
  have y: "screen_y ?s = 24" by simp
  have "phys (putc 10 ?s) (VIDEO + of_nat 1) = 7" "phys (putc 10 ?s) (VIDEO + of_nat 3841) = 9"
    using newline_scrolls [OF y, of 1] newline_scrolls [OF y, of 3841] by simp_all
  then show ?thesis by blast
qed

text \<open>
  Clearing the screen (Ctrl-L) while a line is being typed leaves the line buffer alone,
  so the invariant is lost and the next backspace blanks the byte two below the video page.
\<close>

theorem backspace_after_clear:
  assumes "0 < tbuf s" and "tbuf s < 128"
  shows "phys (putc 8 (reset_screen s)) (VIDEO - 2) = 32"
  using assms
  by (simp add: putc_def putc_backspace_def putc_print_def reset_screen_def clear_def Let_def
      NUM_COLS_def cell_def VIDEO_def)

theorem backspace_after_clear_witness:
  "\<exists>s :: console. phys s (VIDEO - 2) \<noteq> 32 \<and> phys (putc 8 (reset_screen s)) (VIDEO - 2) = 32"
proof -
  let ?s = "\<lparr>phys = (\<lambda>a. 0), io_log = [], iflag = True, read_flag = 0, quantum = 0,
     screen_x = 4, screen_y = 3, tbuffer = replicate 129 65, tbuf = 2, tflag = 1\<rparr>"
  have "phys (putc 8 (reset_screen ?s)) (VIDEO - 2) = 32" using backspace_after_clear [of ?s] by simp
  moreover have "phys ?s (VIDEO - 2) \<noteq> 32" by simp
  ultimately show ?thesis by blast
qed

section \<open>Character sinks\<close>

text \<open>
  The routines that print strings rely on one operation only. The interface: a state invariant
  that the operation keeps for the characters of \<open>okc\<close>, and a relation between the states
  before and after that is transitive (what printing may change). Any output through the sink
  keeps the invariant and stays in the relation.
\<close>

locale char_sink =
  fixes put :: "u8 \<Rightarrow> 's \<Rightarrow> 's" and inv :: "'s \<Rightarrow> bool" and okc :: "u8 \<Rightarrow> bool"
    and eff :: "'s \<Rightarrow> 's \<Rightarrow> bool"
  assumes put_inv: "inv s \<Longrightarrow> okc c \<Longrightarrow> inv (put c s)"
    and put_eff: "inv s \<Longrightarrow> okc c \<Longrightarrow> eff s (put c s)"
    and eff_refl: "eff s s"
    and eff_trans: "eff s t \<Longrightarrow> eff t u \<Longrightarrow> eff s u"
begin

lemma put_all:
  "inv s \<Longrightarrow> \<forall>c \<in> set cs. okc c \<Longrightarrow> inv (fold put cs s) \<and> eff s (fold put cs s)"
proof (induction cs arbitrary: s)
  case Nil
  then show ?case by (simp add: eff_refl)
next
  case (Cons c cs)
  have "inv (put c s)" using Cons.prems by (simp add: put_inv)
  with Cons.IH [of "put c s"] Cons.prems put_eff [of s c] show ?case
    by (auto intro: eff_trans)
qed

end

text \<open>\<^verbatim>\<open>putc\<close> is such a sink for everything but backspaces: it only touches the video bytes.\<close>

definition video_only :: "'a console_scheme \<Rightarrow> 'a console_scheme \<Rightarrow> bool" where
  "video_only s t \<longleftrightarrow> (\<forall>a. a \<notin> region VIDEO 4002 \<longrightarrow> phys t a = phys s a)"

lemma console_ok_putc: "console_ok s \<Longrightarrow> c \<noteq> 8 \<Longrightarrow> console_ok (putc c s)"
  by (simp add: putc_def console_ok_newline console_ok_print)

lemma putc_video_only:
  assumes "console_ok s" and "c \<noteq> 8"
  shows "video_only s (putc c s)"
proof -
  have y: "screen_y s < 25" using assms(1) by (simp add: console_simps)
  show ?thesis
    using assms y putc_print_frame [OF console_okD(1,2) [OF assms(1)] y]
    by (auto simp: video_only_def putc_def putc_newline_def Let_def scroll_frame)
qed

interpretation sink: char_sink putc console_ok "\<lambda>c. c \<noteq> 8" video_only
  by unfold_locales
    (simp add: console_ok_putc, simp add: putc_video_only, simp_all add: video_only_def)

text \<open>Output changes the console's own variables and the port history, nothing else.\<close>

definition console_change :: "'a console_scheme \<Rightarrow> 'a console_scheme \<Rightarrow> bool" where
  "console_change s t \<longleftrightarrow> iflag t = iflag s \<and> read_flag t = read_flag s \<and> quantum t = quantum s \<and>
     console.more t = console.more s"

lemma console_change_eq:
  "console_change s t \<Longrightarrow> t = s\<lparr>phys := phys t, io_log := io_log t, screen_x := screen_x t, screen_y := screen_y t,
     tbuffer := tbuffer t, tbuf := tbuf t, tflag := tflag t\<rparr>"
  by (rule console.equality) (simp_all add: console_change_def)

lemma console_change_refl: "console_change s s"
  by (simp add: console_change_def)

lemma console_change_trans: "console_change s t \<Longrightarrow> console_change t u \<Longrightarrow> console_change s u"
  by (simp add: console_change_def)

lemma scroll_keeps [simp]:
  "iflag (scroll s) = iflag s" "read_flag (scroll s) = read_flag s" "quantum (scroll s) = quantum s"
  "console.more (scroll s) = console.more s"
  by (simp_all add: scroll_def Let_def)

lemma update_cursor_keeps [simp]:
  "read_flag (update_cursor r c s) = read_flag s" "quantum (update_cursor r c s) = quantum s"
  "console.more (update_cursor r c s) = console.more s" for s :: "'a console_scheme"
  by (simp_all add: update_cursor_def outb_def Let_def)

lemma putc_print_keeps [simp]:
  "iflag (putc_print c s) = iflag s" "read_flag (putc_print c s) = read_flag s" "quantum (putc_print c s) = quantum s"
  "console.more (putc_print c s) = console.more s"
  by (simp_all add: putc_print_def Let_def)

lemma console_change_putc: "console_change s (putc c s)"
  by (simp add: putc_def putc_newline_def putc_backspace_def Let_def console_change_def)

lemma console_change_fold: "console_change s (fold putc cs s)"
  by (induction cs arbitrary: s) (auto intro: console_change_trans console_change_putc console_change_refl)

section \<open>puts and printf as output of a byte sequence\<close>

lemma puts_from_fold:
  "is_cstr (\<lambda>j. b (i + j)) n \<Longrightarrow> puts_from b i s = Some (i + n, fold putc (map (\<lambda>j. b (i + j)) [0..<n]) s)"
proof (induction n arbitrary: i s)
  case 0
  then show ?case by (subst puts_from.simps) (simp add: is_cstr_def)
next
  case (Suc n)
  have ne: "b i \<noteq> 0" using Suc.prems [unfolded is_cstr_def] by (metis add.right_neutral zero_less_Suc)
  have "is_cstr (\<lambda>j. b (Suc i + j)) n" using Suc.prems by (auto simp: is_cstr_def)
  from Suc.IH [OF this, of "putc (b i) s"] ne show ?case
    by (subst puts_from.simps) (simp add: upt_conv_Cons map_Suc_upt [symmetric] comp_def del: upt_Suc)
qed

lemma puts_fold: "is_cstr b n \<Longrightarrow> puts b s = Some (n, fold putc (map b [0..<n]) s)"
  using puts_from_fold [of b 0 n s] by (simp add: puts_def)

lemma puts_lit: "0 \<notin> set bs \<Longrightarrow> puts (lit bs) s = Some (length bs, fold putc bs s)"
proof -
  assume nz: "0 \<notin> set bs"
  have "map (lit bs) [0..<length bs] = bs" by (auto simp: lit_def intro: nth_equalityI)
  with puts_fold [of "lit bs" "length bs" s] nz show ?thesis
    by (simp add: is_cstr_def lit_def in_set_conv_nth)
qed

text \<open>
  The text a format stands for: \<open>str k\<close> is the string the \<open>k\<close>-th argument points
  to. \<open>digit_string\<close> is the numeral of a natural number.
\<close>

definition digit_string :: "nat \<Rightarrow> nat \<Rightarrow> u8 list" where
  "digit_string radix n = (if n = 0 then [48] else rev (map (\<lambda>d. itoa_lookup ! d) (le_digits radix n)))"

definition hex_text :: "bool \<Rightarrow> u32 \<Rightarrow> u8 list" where
  "hex_text alternate v =
     (let ds = digit_string 16 (unat v) in if alternate then replicate (8 - length ds) 48 @ ds else ds)"

definition signed_text :: "int \<Rightarrow> u8 list" where
  "signed_text i = (if i < 0 then 45 # digit_string 10 (nat (- i)) else digit_string 10 (nat i))"

fun render :: "(nat \<Rightarrow> u8 list) \<Rightarrow> (nat \<Rightarrow> u32) \<Rightarrow> bool option \<Rightarrow> nat \<Rightarrow> u8 list \<Rightarrow> u8 list" where
  "render str args m k [] = []"
| "render str args None k (c # cs) =
     (if c = 37 then render str args (Some False) k cs else c # render str args None k cs)"
| "render str args (Some alternate) k (c # cs) =
     (if c = 37 then 37 # render str args None k cs
      else if c = 35 then render str args (Some True) k cs
      else if c = 120 then hex_text alternate (args k) @ render str args None (Suc k) cs
      else if c = 117 then digit_string 10 (unat (args k)) @ render str args None (Suc k) cs
      else if c = 100 then signed_text (sint (args k)) @ render str args None (Suc k) cs
      else if c = 99 then ucast (args k) # render str args None (Suc k) cs
      else if c = 115 then str k @ render str args None (Suc k) cs
      else render str args None k cs)"

text \<open>The mode after a format, and the arguments it reads as strings.\<close>

fun fmt_mode :: "bool option \<Rightarrow> u8 list \<Rightarrow> bool option" where
  "fmt_mode m [] = m"
| "fmt_mode None (c # cs) = fmt_mode (if c = 37 then Some False else None) cs"
| "fmt_mode (Some alternate) (c # cs) = fmt_mode (if c = 35 then Some True else None) cs"

fun str_args :: "bool option \<Rightarrow> nat \<Rightarrow> u8 list \<Rightarrow> nat list" where
  "str_args m k [] = []"
| "str_args None k (c # cs) = str_args (if c = 37 then Some False else None) k cs"
| "str_args (Some alternate) k (c # cs) =
     (if c = 35 then str_args (Some True) k cs
      else if c = 115 then k # str_args None (Suc k) cs
      else str_args None (if c \<in> {120, 117, 100, 99} then Suc k else k) cs)"

lemma itoa_digit_string:
  assumes "2 \<le> unat radix" and "unat radix \<le> 36"
  shows "itoa v radix = Some (digit_string (unat radix) (unat v))"
proof (cases "v = 0")
  case True
  then show ?thesis by (simp add: itoa_def digit_string_def)
next
  case False
  then show ?thesis
    by (simp add: itoa_def digit_string_def itoa_loop_digits [OF assms] strrev_rev unat_eq_0 rev_map)
qed

lemma itoa_lookup_nonzero: "d < 36 \<Longrightarrow> itoa_lookup ! d \<noteq> 0"
proof -
  have "\<forall>d < 36. itoa_lookup ! d \<noteq> 0" by code_simp
  then show "d < 36 \<Longrightarrow> itoa_lookup ! d \<noteq> 0" by blast
qed

lemma digit_string_nonzero:
  assumes "2 \<le> radix" and "radix \<le> 36"
  shows "0 \<notin> set (digit_string radix n)"
proof -
  have "itoa_lookup ! d \<noteq> 0" if "d \<in> set (le_digits radix n)" for d
    by (rule itoa_lookup_nonzero) (use le_digits_bound [OF assms(1) that] assms(2) in linarith)
  then show ?thesis by (auto simp: digit_string_def)
qed

lemma conv_x_text: "conv_x a v = Some (hex_text a v)"
  using itoa_digit_string [of 16 v] by (simp add: conv_x_def hex_text_def Let_def)

lemma conv_u_text: "conv_u v = Some (digit_string 10 (unat v))"
  using itoa_digit_string [of 10 v] by (simp add: conv_u_def)

lemma conv_d_text: "conv_d v = Some (signed_text (sint v))"
  using itoa_digit_string [of 10 v] itoa_digit_string [of 10 "- v"]
  by (simp add: conv_d_def signed_text_def unat_neg unat_nonneg)

lemma texts_nonzero:
  "0 \<notin> set (hex_text a v)" "0 \<notin> set (signed_text i)" "0 \<notin> set (digit_string 10 n)"
  using digit_string_nonzero [of 16] digit_string_nonzero [of 10]
  by (auto simp: hex_text_def signed_text_def Let_def)

lemmas conv_texts = conv_x_text conv_u_text conv_d_text puts_conv_def puts_lit texts_nonzero


lemma printf_loop_render:
  assumes nul: "fmt n = 0" and i: "i \<le> n" and nz: "\<forall>j < n. fmt j \<noteq> 0"
    and m: "fmt_mode m (map fmt [i..<n]) = None"
    and str: "\<forall>j \<in> set (str_args m k (map fmt [i..<n])). is_cstr (rd (args j)) (len j)"
  shows "printf_loop rd fmt args m i k s =
    Some (n, fold putc (render (\<lambda>j. map (rd (args j)) [0..<len j]) args m k (map fmt [i..<n])) s)"
  using i m str
proof (induction "n - i" arbitrary: i m k s)
  case 0
  then show ?case using nul by (subst printf_loop.simps) simp
next
  case (Suc d)
  then have d: "d = n - Suc i" and lt: "i < n" by simp_all
  have up: "[i..<n] = i # [Suc i..<n]" using lt by (rule upt_conv_Cons)
  have "fmt i \<noteq> 0" using nz lt by blast
  note IH = Suc.hyps(1) [OF d Suc_leI [OF lt]]
  show ?case
  proof (cases m)
    case None
    then show ?thesis
      using Suc.prems \<open>fmt i \<noteq> 0\<close> unfolding up
      by (subst printf_loop.simps) (auto simp: printf_step_def IH split: if_splits)
  next
    case (Some alternate)
    then show ?thesis
      using Suc.prems \<open>fmt i \<noteq> 0\<close> unfolding up
      by (subst printf_loop.simps)
        (auto simp: printf_step_def IH conv_texts puts_fold split: if_splits)
  qed
qed

text \<open>
  C29. \<^verbatim>\<open>printf\<close> returns, and its output is the rendering of the format: for every
  format that does not end inside a conversion, with C strings for its \<^verbatim>\<open>%s\<close>
  arguments, the screen is the one that printing the bytes of \<open>render\<close> one by one gives,
  and the result is the length of the format.
\<close>

theorem printf_renders:
  assumes "is_cstr fmt n" and "fmt_mode None (map fmt [0..<n]) = None"
    and "\<forall>j \<in> set (str_args None 0 (map fmt [0..<n])). is_cstr (rd (args j)) (len j)"
  shows "printf rd fmt args s =
    Some (n, fold putc (render (\<lambda>j. map (rd (args j)) [0..<len j]) args None 0 (map fmt [0..<n])) s)"
  unfolding printf_def
  by (rule printf_loop_render) (use assms in \<open>simp_all add: is_cstr_def\<close>)

theorem printf_renders_witness:
  "\<exists>s' :: console. printf (\<lambda>p. lit (bytes_of ''ab'')) (lit (bytes_of ''%s=%#x%%'')) (\<lambda>k. 0xE)
      \<lparr>phys = (\<lambda>a. 0), io_log = [], iflag = True, read_flag = 0, quantum = 0,
        screen_x = 4, screen_y = 3, tbuffer = replicate 129 65, tbuf = 0, tflag = 0\<rparr> = Some (8, s') \<and>
    s' = fold putc (bytes_of ''ab=0000000E%'')
      \<lparr>phys = (\<lambda>a. 0), io_log = [], iflag = True, read_flag = 0, quantum = 0,
        screen_x = 4, screen_y = 3, tbuffer = replicate 129 65, tbuf = 0, tflag = 0\<rparr>"
proof -
  let ?s = "\<lparr>phys = (\<lambda>a. 0), io_log = [], iflag = True, read_flag = 0, quantum = 0,
    screen_x = 4, screen_y = 3, tbuffer = replicate 129 65, tbuf = 0, tflag = 0\<rparr> :: console"
  let ?f = "lit (bytes_of ''%s=%#x%%'')"
  have f: "is_cstr ?f 8" and a: "is_cstr (lit (bytes_of ''ab'')) 2"
    and m: "fmt_mode None (map ?f [0..<8]) = None"
    and k: "str_args None 0 (map ?f [0..<8]) = [0]"
    and r: "render (\<lambda>j. map (lit (bytes_of ''ab'')) [0..<2]) (\<lambda>k. 0xE) None 0 (map ?f [0..<8]) =
      bytes_of ''ab=0000000E%''"
    by code_simp+
  have "\<forall>j \<in> set (str_args None 0 (map ?f [0..<8])). is_cstr (lit (bytes_of ''ab'')) 2"
    using a by simp
  from printf_renders [where args = "\<lambda>k. 0xE" and s = ?s and rd = "\<lambda>p. lit (bytes_of ''ab'')"
      and len = "\<lambda>k. 2", OF f m this] show ?thesis unfolding r by blast
qed

end
