(* ===== verification/Paging.thy ===== *)
theory Paging
  imports Console
begin

text \<open>
  Virtual memory: \<^verbatim>\<open>student-distrib/paging.c\<close> and the two assembly routines it needs
  (\<^verbatim>\<open>enablePaging\<close> and \<^verbatim>\<open>flushTLB\<close> of \<^verbatim>\<open>wrappers.S\<close>). The
  three tables are lists of 1024 entries; \<open>pt_addr\<close> and \<open>pt2_addr\<close> are the addresses
  the linker gave to \<^verbatim>\<open>page_table\<close> and \<^verbatim>\<open>page_table_2\<close> (the kernel never
  changes them). \<open>walk\<close> is the translation the processor performs on these tables, with
  its user-mode permission check in \<open>user_walk\<close>. Cached translations are explicit: an entry
  of \<open>tlb\<close> takes precedence over the tables until \<^verbatim>\<open>flushTLB\<close>.
\<close>

definition KERNEL :: u32 where "KERNEL = 0x400000"
definition VIDEO_PAGE_OFF :: nat where "VIDEO_PAGE_OFF = 0xB8"
definition page_entries :: nat where "page_entries = 1024"

lemmas paging_consts = KERNEL_def VIDEO_PAGE_OFF_def page_entries_def VIDEO_def

record paging = console +
  page_directory :: "u32 list"
  page_table :: "u32 list"
  page_table_2 :: "u32 list"
  pt_addr :: u32
  pt2_addr :: u32
  tlb :: "u32 \<rightharpoonup> u32"
  paging_on :: bool

section \<open>The operations\<close>

definition fill_table :: "'a paging_scheme \<Rightarrow> 'a paging_scheme" where
  "fill_table s =
     (let s = fold (\<lambda>i s. s\<lparr>page_table := (page_table s)[i := of_nat i * 0x1000],
                            page_table_2 := (page_table_2 s)[i := of_nat i * 0x1000]\<rparr>) [0..<page_entries] s
      in s\<lparr>page_table := (page_table s)[VIDEO_PAGE_OFF := VIDEO OR 1]\<rparr>)"

definition fill_directory :: "'a paging_scheme \<Rightarrow> 'a paging_scheme" where
  "fill_directory s =
     (let s = s\<lparr>page_directory := (page_directory s)[0 := pt_addr s OR 1]\<rparr>;
          s = s\<lparr>page_directory := (page_directory s)[1 := KERNEL OR 0x83]\<rparr>;
          s = fold (\<lambda>i s. s\<lparr>page_directory := (page_directory s)[i := 0]\<rparr>) [2..<page_entries] s
      in s\<lparr>page_directory := (page_directory s)[33 := pt2_addr s OR 7]\<rparr>)"

definition enablePaging :: "'a paging_scheme \<Rightarrow> 'a paging_scheme" where
  "enablePaging s = s\<lparr>tlb := Map.empty, paging_on := True\<rparr>"

definition initPaging :: "'a paging_scheme \<Rightarrow> 'a paging_scheme" where
  "initPaging s = enablePaging (fill_directory (fill_table s))"

definition setupPagingDirectory :: "u32 \<Rightarrow> u32 \<Rightarrow> nat \<Rightarrow> 'a paging_scheme \<Rightarrow> 'a paging_scheme" where
  "setupPagingDirectory rsrved addr idx s =
     s\<lparr>page_directory := (page_directory s)[idx := addr OR rsrved]\<rparr>"

definition setupPagingDirectoryTable :: "u32 \<Rightarrow> u32 \<Rightarrow> nat \<Rightarrow> 'a paging_scheme \<Rightarrow> 'a paging_scheme" where
  "setupPagingDirectoryTable rsrved addr idx s =
     s\<lparr>page_table_2 := (page_table_2 s)[VIDEO_PAGE_OFF + idx := addr OR rsrved]\<rparr>"

definition flushTLB :: "'a paging_scheme \<Rightarrow> 'a paging_scheme" where
  "flushTLB s = s\<lparr>tlb := Map.empty\<rparr>"

section \<open>Translation\<close>

definition frame_of :: "u32 \<Rightarrow> u32" where "frame_of e = e AND 0xFFFFF000"
definition dir_index :: "u32 \<Rightarrow> nat" where "dir_index a = unat (drop_bit 22 a)"
definition table_index :: "u32 \<Rightarrow> nat" where "table_index a = unat (drop_bit 12 a AND 0x3FF)"

text \<open>
  The directory entry and the table entry (if the page is not a 4 MB one) an address selects. A
  directory entry that points to neither table of the kernel is treated as not present.
\<close>

definition table_at :: "u32 \<Rightarrow> 'a paging_scheme \<Rightarrow> u32 list option" where
  "table_at p s = (if p = pt_addr s then Some (page_table s)
     else if p = pt2_addr s then Some (page_table_2 s) else None)"

definition walk :: "'a paging_scheme \<Rightarrow> u32 \<Rightarrow> (u32 \<times> bool) option" where
  "walk s a =
     (let pde = page_directory s ! dir_index a
      in if \<not> bit pde 0 then None
         else if bit pde 7 then Some ((pde AND 0xFFC00000) OR (a AND 0x3FFFFF), bit pde 2)
         else (case table_at (frame_of pde) s of
             None \<Rightarrow> None
           | Some t \<Rightarrow>
               let pte = t ! table_index a
               in if \<not> bit pte 0 then None
                  else Some (frame_of pte OR (a AND 0xFFF), bit pde 2 \<and> bit pte 2)))"

text \<open>
  The address the processor accesses: a cached translation if there is one, else the walk.
  Kernel code runs on addresses that are mapped; for the others, where the processor would
  fault, the function is the identity and nothing is claimed.
\<close>

definition xl :: "'a paging_scheme \<Rightarrow> xlat" where
  "xl s = (\<lambda>a. case tlb s (drop_bit 12 a) of
       Some f \<Rightarrow> f OR (a AND 0xFFF)
     | None \<Rightarrow> (case walk s a of Some (p, u) \<Rightarrow> p | None \<Rightarrow> a))"

definition user_walk :: "'a paging_scheme \<Rightarrow> u32 \<Rightarrow> u32 option" where
  "user_walk s a = (case walk s a of Some (p, True) \<Rightarrow> Some p | _ \<Rightarrow> None)"

text \<open>Translation depends on the tables and the cached entries only.\<close>

lemma walk_cong:
  assumes "page_directory s = page_directory t" and "page_table s = page_table t"
    and "page_table_2 s = page_table_2 t" and "pt_addr s = pt_addr t" and "pt2_addr s = pt2_addr t"
  shows "walk s = walk t"
  using assms by (intro ext) (simp add: walk_def table_at_def Let_def)

lemma xl_cong:
  assumes "page_directory s = page_directory t" and "page_table s = page_table t"
    and "page_table_2 s = page_table_2 t" and "pt_addr s = pt_addr t" and "pt2_addr s = pt2_addr t"
    and "tlb s = tlb t"
  shows "xl s = xl t"
  unfolding xl_def walk_cong [OF assms(1-5)] assms(6) ..

lemma console_change_paging:
  assumes "console_change s t"
  shows "page_directory t = page_directory s" "page_table t = page_table s" "page_table_2 t = page_table_2 s"
    "pt_addr t = pt_addr s" "pt2_addr t = pt2_addr s" "tlb t = tlb s" "xl t = xl s"
proof -
  note e = console_change_eq [OF assms]
  show "page_directory t = page_directory s" "page_table t = page_table s" "page_table_2 t = page_table_2 s"
    "pt_addr t = pt_addr s" "pt2_addr t = pt2_addr s" "tlb t = tlb s" by (subst e, simp)+
  then show "xl t = xl s" by (rule xl_cong)
qed

section \<open>The tables after initialisation\<close>

definition tables_ok :: "'a paging_scheme \<Rightarrow> bool" where
  "tables_ok s \<longleftrightarrow> length (page_directory s) = page_entries \<and> length (page_table s) = page_entries \<and>
     length (page_table_2 s) = page_entries \<and> frame_of (pt_addr s) = pt_addr s \<and>
     frame_of (pt2_addr s) = pt2_addr s \<and> pt_addr s \<noteq> pt2_addr s"

lemma fill_table_fold:
  "fold (\<lambda>i s. s\<lparr>page_table := (page_table s)[i := f i], page_table_2 := (page_table_2 s)[i := f i]\<rparr>) xs s =
   s\<lparr>page_table := fold (\<lambda>i t. t[i := f i]) xs (page_table s),
     page_table_2 := fold (\<lambda>i t. t[i := f i]) xs (page_table_2 s)\<rparr>"
  by (induction xs arbitrary: s) simp_all

lemma fill_directory_fold:
  "fold (\<lambda>i s. s\<lparr>page_directory := (page_directory s)[i := f i]\<rparr>) xs s =
   s\<lparr>page_directory := fold (\<lambda>i t. t[i := f i]) xs (page_directory s)\<rparr>"
  by (induction xs arbitrary: s) simp_all

lemma length_fold_upd [simp]: "length (fold (\<lambda>i t. t[i := f i]) xs t) = length t"
  by (induction xs arbitrary: t) simp_all

lemma nth_fold_upd:
  "i < length t \<Longrightarrow> fold (\<lambda>i t. t[i := f i]) xs t ! i = (if i \<in> set xs then f i else t ! i)"
  by (induction xs arbitrary: t) (auto simp: nth_list_update)

lemma initPaging_fields [simp]:
  "page_table (initPaging s) =
     (fold (\<lambda>i t. t[i := of_nat i * 0x1000]) [0..<page_entries] (page_table s))[VIDEO_PAGE_OFF := VIDEO OR 1]"
  "page_table_2 (initPaging s) = fold (\<lambda>i t. t[i := of_nat i * 0x1000]) [0..<page_entries] (page_table_2 s)"
  "page_directory (initPaging s) =
     (fold (\<lambda>i t. t[i := 0]) [2..<page_entries]
       ((page_directory s)[0 := pt_addr s OR 1, 1 := KERNEL OR 0x83]))[33 := pt2_addr s OR 7]"
  "pt_addr (initPaging s) = pt_addr s" "pt2_addr (initPaging s) = pt2_addr s"
  "tlb (initPaging s) = Map.empty" "phys (initPaging s) = phys s"
  by (simp_all add: initPaging_def enablePaging_def fill_directory_def fill_table_def Let_def
      fill_table_fold fill_directory_fold)

lemma initPaging_tables:
  assumes "tables_ok s"
  shows "tables_ok (initPaging s)"
    and "i < page_entries \<Longrightarrow>
      page_table (initPaging s) ! i = (if i = VIDEO_PAGE_OFF then VIDEO OR 1 else of_nat i * 0x1000)"
    and "i < page_entries \<Longrightarrow> page_table_2 (initPaging s) ! i = of_nat i * 0x1000"
    and "i < page_entries \<Longrightarrow> page_directory (initPaging s) ! i =
      (if i = 0 then pt_addr s OR 1 else if i = 1 then KERNEL OR 0x83
       else if i = 33 then pt2_addr s OR 7 else 0)"
proof -
  have len: "length (page_directory s) = page_entries" "length (page_table s) = page_entries"
    "length (page_table_2 s) = page_entries" using assms by (simp_all add: tables_ok_def)
  show "tables_ok (initPaging s)" using assms by (simp add: tables_ok_def)
  show "page_table (initPaging s) ! i = (if i = VIDEO_PAGE_OFF then VIDEO OR 1 else of_nat i * 0x1000)"
    if "i < page_entries" using that len by (simp add: nth_list_update nth_fold_upd)
  show "page_table_2 (initPaging s) ! i = of_nat i * 0x1000"
    if "i < page_entries" using that len by (simp add: nth_fold_upd)
  show "page_directory (initPaging s) ! i = (if i = 0 then pt_addr s OR 1 else if i = 1 then KERNEL OR 0x83
       else if i = 33 then pt2_addr s OR 7 else 0)"
    if "i < page_entries" using that len by (auto simp: nth_list_update nth_fold_upd)
qed

section \<open>Address arithmetic of the walk\<close>

lemma dir_index_div: "dir_index a = unat a div 0x400000"
  by (simp add: dir_index_def drop_bit_eq_div unat_div)

lemma table_index_mod: "table_index a = unat a div 0x1000 mod 1024"
proof -
  have "drop_bit 12 a AND 0x3FF = take_bit 10 (drop_bit 12 a)"
    by (simp add: take_bit_eq_mask mask_eq_exp_minus_1)
  then show ?thesis
    by (simp add: table_index_def drop_bit_eq_div unat_div unat_mod take_bit_eq_mod)
qed

lemma dir_index_less: "dir_index a < page_entries"
  using unsigned_less [of a, where ?'a = nat] by (simp add: dir_index_div page_entries_def)

lemma table_index_less: "table_index a < page_entries"
  by (simp add: table_index_mod page_entries_def)

lemma and_low: "a AND 0x3FFFFF = take_bit 22 a" "a AND 0xFFF = take_bit 12 a" for a :: u32
  by (simp_all add: take_bit_eq_mask mask_eq_exp_minus_1)

text \<open>Base and offset do not share a bit, so joining them is addition.\<close>

lemma or_low_add:
  fixes a b :: u32
  assumes "take_bit n b = 0"
  shows "b OR take_bit n a = b + take_bit n a"
proof -
  have "\<not> bit b i \<or> \<not> bit (take_bit n a) i" for i
    using arg_cong [OF assms, of "\<lambda>w. bit w i"] by (auto simp: bit_simps)
  then have "b AND take_bit n a = 0" by (auto intro!: bit_eqI simp: bit_simps)
  then show ?thesis by (simp add: disjunctive_add_eq_or)
qed

lemma frame_of_flags:
  assumes "frame_of p = p" and "frame_of e = 0"
  shows "frame_of (p OR e) = p"
  using assms by (simp add: frame_of_def bit.conj_disj_distrib2)

lemma frame_of_low: "frame_of p = p \<Longrightarrow> take_bit 12 p = 0"
proof -
  assume "frame_of p = p"
  then have "take_bit 12 p = take_bit 12 p AND take_bit 12 0xFFFFF000"
    by (metis frame_of_def take_bit_and)
  also have "take_bit 12 (0xFFFFF000 :: u32) = 0" by simp
  finally show ?thesis by simp
qed

lemma in_page:
  fixes a :: u32
  assumes "unat a div 2 ^ n = k"
  shows "a = of_nat (k * 2 ^ n) + take_bit n a"
proof -
  have id: "of_nat (unat w) = w" for w :: u32 by simp
  have "unat a = k * 2 ^ n + unat a mod 2 ^ n" using assms by (metis div_mult_mod_eq)
  then have "a = of_nat (k * 2 ^ n) + of_nat (unat a mod 2 ^ n)"
    by (metis of_nat_add id)
  also have "of_nat (unat a mod 2 ^ n) = take_bit n a"
    by (metis take_bit_eq_mod unsigned_take_bit_eq id)
  finally show ?thesis .
qed

section \<open>The kernel's mappings\<close>

text \<open>
  The part of the tables the running kernel never changes: directory entries other than number
  32 (the program page) and table entries other than the three terminal windows. \<open>low\<close> is
  the entry-wise content of the first table.
\<close>

definition WINDOWS :: "nat set" where "WINDOWS = {0xB9, 0xBA, 0xBB}"

definition kernel_maps :: "'a paging_scheme \<Rightarrow> bool" where
  "kernel_maps s \<longleftrightarrow> tables_ok s \<and>
     (\<forall>i < page_entries. i \<noteq> 32 \<longrightarrow> page_directory s ! i =
        (if i = 0 then pt_addr s OR 1 else if i = 1 then KERNEL OR 0x83
         else if i = 33 then pt2_addr s OR 7 else 0)) \<and>
     (\<forall>i < page_entries. page_table s ! i = (if i = VIDEO_PAGE_OFF then VIDEO OR 1 else of_nat i * 0x1000)) \<and>
     (\<forall>i < page_entries. i \<notin> WINDOWS \<longrightarrow> page_table_2 s ! i = of_nat i * 0x1000)"

lemma kernel_maps_init: "tables_ok s \<Longrightarrow> kernel_maps (initPaging s)"
  by (simp add: kernel_maps_def initPaging_tables del: initPaging_fields(1-3))

lemma tables_ok_setup [simp]:
  "tables_ok (setupPagingDirectory r a i s) = tables_ok s"
  "tables_ok (setupPagingDirectoryTable r a i s) = tables_ok s"
  "tables_ok (flushTLB s) = tables_ok s"
  by (simp_all add: tables_ok_def setupPagingDirectory_def setupPagingDirectoryTable_def flushTLB_def)

lemma kernel_maps_directory: "kernel_maps s \<Longrightarrow> kernel_maps (setupPagingDirectory r a 32 s)"
  by (auto simp: kernel_maps_def tables_ok_def setupPagingDirectory_def nth_list_update)

lemma kernel_maps_table:
  "kernel_maps s \<Longrightarrow> i \<in> {1, 2, 3} \<Longrightarrow> kernel_maps (setupPagingDirectoryTable r a i s)"
  by (auto simp: kernel_maps_def tables_ok_def setupPagingDirectoryTable_def nth_list_update
      WINDOWS_def VIDEO_PAGE_OFF_def)

lemma kernel_maps_flush: "kernel_maps s \<Longrightarrow> kernel_maps (flushTLB s)"
  by (simp add: kernel_maps_def tables_ok_def flushTLB_def)

lemma kernel_mapsD:
  assumes "kernel_maps s"
  shows "i < page_entries \<Longrightarrow> i \<notin> {0, 1, 32, 33} \<Longrightarrow> page_directory s ! i = 0"
    and "page_directory s ! 0 = pt_addr s OR 1" and "page_directory s ! 1 = KERNEL OR 0x83"
    and "page_directory s ! 33 = pt2_addr s OR 7"
    and "i < page_entries \<Longrightarrow> page_table s ! i = (if i = VIDEO_PAGE_OFF then VIDEO OR 1 else of_nat i * 0x1000)"
    and "i < page_entries \<Longrightarrow> i \<notin> WINDOWS \<Longrightarrow> page_table_2 s ! i = of_nat i * 0x1000"
    and "table_at (pt_addr s) s = Some (page_table s)" and "table_at (pt2_addr s) s = Some (page_table_2 s)"
    and "frame_of (pt_addr s OR 1) = pt_addr s" and "frame_of (pt2_addr s OR 7) = pt2_addr s"
  using assms
  by (auto simp: kernel_maps_def tables_ok_def table_at_def page_entries_def frame_of_def
      bit.conj_disj_distrib2)

lemma aligned_bits: "frame_of p = p \<Longrightarrow> i < 12 \<Longrightarrow> \<not> bit p i"
proof -
  assume "frame_of p = p" "i < 12"
  then have "bit (take_bit 12 p) i \<longleftrightarrow> bit p i" by (simp add: bit_take_bit_iff)
  with frame_of_low [OF \<open>frame_of p = p\<close>] show ?thesis by simp
qed

lemma walk_kernel:
  assumes "kernel_maps s" and "unat a div 0x400000 = 1"
  shows "walk s a = Some (a, False)"
proof -
  have d: "dir_index a = 1" using assms(2) by (simp add: dir_index_div)
  have "a = 0x400000 + take_bit 22 a" using in_page [of a 22 1] assms(2) by simp
  moreover have "(0x400000 :: u32) OR take_bit 22 a = 0x400000 + take_bit 22 a"
    by (rule or_low_add) simp
  ultimately show ?thesis
    unfolding walk_def Let_def d kernel_mapsD(3) [OF assms(1)] and_low by (simp add: KERNEL_def bit_simps)
qed

lemma walk_low:
  assumes "kernel_maps s" and "unat a div 0x400000 = 0"
  shows "walk s a = (if unat a div 0x1000 = 0xB8 then Some (a, False) else None)"
proof -
  have d: "dir_index a = 0" using assms(2) by (simp add: dir_index_div)
  have ti: "table_index a = unat a div 0x1000"
    using assms(2) unfolding table_index_mod by simp
  have p: "frame_of (pt_addr s) = pt_addr s" using assms(1) by (simp add: kernel_maps_def tables_ok_def)
  have pde: "bit (pt_addr s OR 1) 0" "\<not> bit (pt_addr s OR 1) 7" "\<not> bit (pt_addr s OR 1) 2"
    using aligned_bits [OF p] by (simp_all add: bit_simps)
  have t: "page_table s ! table_index a =
      (if table_index a = VIDEO_PAGE_OFF then VIDEO OR 1 else of_nat (table_index a) * 0x1000)"
    by (rule kernel_mapsD(5) [OF assms(1) table_index_less])
  have pte: "\<not> bit (of_nat (table_index a) * 0x1000 :: u32) 0" by (simp add: bit_0)
  have v: "a = 0xB8000 + take_bit 12 a" "0xB8000 OR take_bit 12 a = 0xB8000 + take_bit 12 a"
    if "unat a div 0x1000 = 0xB8"
    using in_page [of a 12 "0xB8"] that or_low_add [of 12 "0xB8000" a] by simp_all
  have fr: "frame_of (VIDEO OR 1) = 0xB8000" "bit (VIDEO OR 1) 0" by (simp_all add: frame_of_def VIDEO_def bit_0)
  show ?thesis
    unfolding walk_def Let_def d kernel_mapsD(2,9) [OF assms(1)] kernel_mapsD(7) [OF assms(1)] and_low
    using pde pte v fr t unfolding ti
    by (cases "unat a div 0x1000 = 0xB8") (simp_all add: VIDEO_PAGE_OFF_def)
qed

lemma walk_program:
  assumes "page_directory s ! 32 = f OR 0x87" and "f AND 0xFFC00000 = f" and "unat a div 0x400000 = 32"
  shows "walk s a = Some (f + (a - 0x08000000), True)"
proof -
  have d: "dir_index a = 32" using assms(3) by (simp add: dir_index_div)
  have low: "take_bit 22 f = 0"
  proof -
    have "take_bit 22 f = take_bit 22 f AND take_bit 22 0xFFC00000" by (metis assms(2) take_bit_and)
    then show ?thesis by simp
  qed
  have fr: "(f OR 0x87) AND 0xFFC00000 = f" using assms(2) by (simp add: bit.conj_disj_distrib2)
  have b: "bit (f OR 0x87) 0" "bit (f OR 0x87) 7" "bit (f OR 0x87) 2" by (simp_all add: bit_simps)
  have "take_bit 22 a = a - 0x08000000" using in_page [of a 22 32] assms(3) by (simp add: algebra_simps)
  then show ?thesis
    unfolding walk_def Let_def d assms(1) and_low fr using b or_low_add [OF low, of a] by simp
qed

lemma walk_window:
  assumes "kernel_maps s" and "unat a div 0x400000 = 33"
    and "page_table_2 s ! table_index a = f OR 7" and "frame_of f = f"
  shows "walk s a = Some (f + take_bit 12 a, True)"
proof -
  have d: "dir_index a = 33" using assms(2) by (simp add: dir_index_div)
  have p: "frame_of (pt2_addr s) = pt2_addr s" using assms(1) by (simp add: kernel_maps_def tables_ok_def)
  have pde: "bit (pt2_addr s OR 7) 0" "\<not> bit (pt2_addr s OR 7) 7" "bit (pt2_addr s OR 7) 2"
    using aligned_bits [OF p] by (simp_all add: bit_simps)
  have pte: "bit (f OR 7) 0" "bit (f OR 7) 2" "frame_of (f OR 7) = f"
    using frame_of_flags [OF assms(4), of 7] by (simp_all add: bit_simps frame_of_def)
  show ?thesis
    unfolding walk_def Let_def d kernel_mapsD(4,10) [OF assms(1)] kernel_mapsD(8) [OF assms(1)] and_low
    using pde pte assms(3) or_low_add [OF frame_of_low [OF assms(4)], of a] by simp
qed

lemma walk_window_absent:
  assumes "kernel_maps s" and "unat a div 0x400000 = 33" and "\<not> bit (page_table_2 s ! table_index a) 0"
  shows "walk s a = None"
proof -
  have d: "dir_index a = 33" using assms(2) by (simp add: dir_index_div)
  have p: "frame_of (pt2_addr s) = pt2_addr s" using assms(1) by (simp add: kernel_maps_def tables_ok_def)
  have pde: "bit (pt2_addr s OR 7) 0" "\<not> bit (pt2_addr s OR 7) 7"
    using aligned_bits [OF p] by (simp_all add: bit_simps)
  show ?thesis
    unfolding walk_def Let_def d kernel_mapsD(4,10) [OF assms(1)] kernel_mapsD(8) [OF assms(1)]
    using pde assms(3) by simp
qed

lemma walk_window_None:
  assumes "kernel_maps s" and "unat a div 0x400000 = 33" and "table_index a \<notin> WINDOWS"
  shows "walk s a = None"
  by (rule walk_window_absent [OF assms(1,2)]) (use kernel_mapsD(6) [OF assms(1) table_index_less assms(3)] in \<open>simp add: bit_0\<close>)

lemma walk_unmapped:
  assumes "kernel_maps s" and "unat a div 0x400000 \<notin> {0, 1, 32, 33}"
  shows "walk s a = None"
proof -
  have "page_directory s ! dir_index a = 0"
    by (rule kernel_mapsD(1) [OF assms(1) dir_index_less]) (use assms(2) in \<open>simp add: dir_index_div\<close>)
  then show ?thesis by (simp add: walk_def)
qed

section \<open>Properties\<close>

text \<open>The frame of process slot \<open>p\<close>, and the tables while it runs.\<close>

definition program_frame :: "int \<Rightarrow> u32" where
  "program_frame p = KERNEL + 0x400000 * word_of_int (p + 1)"

definition RESERV_CODE :: u32 where "RESERV_CODE = 0x87"
definition RESERV_CODE_2 :: u32 where "RESERV_CODE_2 = 7"

lemma xl_walk: "tlb s (drop_bit 12 a) = None \<Longrightarrow> walk s a = Some (p, u) \<Longrightarrow> xl s a = p"
  by (simp add: xl_def)

definition runs_slot :: "int \<Rightarrow> 'a paging_scheme \<Rightarrow> bool" where
  "runs_slot p s \<longleftrightarrow> kernel_maps s \<and> page_directory s ! 32 = program_frame p OR RESERV_CODE"

lemma program_frame_nat:
  assumes "0 \<le> p" and "p \<le> 5"
  shows "program_frame p = of_nat (0x400000 * (nat p + 2))" and "program_frame p AND 0xFFC00000 = program_frame p"
proof -
  have "p = 0 \<or> p = 1 \<or> p = 2 \<or> p = 3 \<or> p = 4 \<or> p = 5" using assms by auto
  then show "program_frame p = of_nat (0x400000 * (nat p + 2))"
    and "program_frame p AND 0xFFC00000 = program_frame p"
    by (auto simp: program_frame_def KERNEL_def)
qed

lemma unat_of_nat_small: "n < 2 ^ 32 \<Longrightarrow> unat (of_nat n :: u32) = n"
  by (simp add: unat_of_nat)

lemma runs_slot_walk:
  assumes "runs_slot p s" and "0 \<le> p" and "p \<le> 5" and "unat a div 0x400000 = 32"
  shows "walk s a = Some (program_frame p + (a - 0x08000000), True)"
    and "unat (program_frame p + (a - 0x08000000)) = 0x400000 * (nat p + 2) + unat a mod 0x400000"
proof -
  show "walk s a = Some (program_frame p + (a - 0x08000000), True)"
    using assms program_frame_nat [OF assms(2,3)] walk_program [of s "program_frame p" a]
    by (simp add: runs_slot_def RESERV_CODE_def)
  have "a = 0x08000000 + take_bit 22 a" using in_page [of a 22 32] assms(4) by simp
  then have off: "a - 0x08000000 = take_bit 22 a" by (metis add_diff_cancel_left')
  have id: "of_nat (unat w) = w" for w :: u32 by simp
  have "take_bit 22 a = of_nat (unat a mod 2 ^ 22)"
    by (metis take_bit_eq_mod unsigned_take_bit_eq id)
  then have e: "program_frame p + (a - 0x08000000) =
      of_nat (0x400000 * (nat p + 2) + unat a mod 0x400000)"
    unfolding program_frame_nat(1) [OF assms(2,3)] off by simp
  have lt: "0x400000 * (nat p + 2) + unat a mod 0x400000 < 2 ^ 32"
  proof -
    have "nat p + 2 \<le> 7" using assms(3) by simp
    moreover have "unat a mod 0x400000 < 0x400000" by simp
    moreover have "0x400000 * x + m < 2 ^ 32" if "x \<le> 7" "m < 0x400000" for x m :: nat
      using that by simp
    ultimately show ?thesis by blast
  qed
  show "unat (program_frame p + (a - 0x08000000)) = 0x400000 * (nat p + 2) + unat a mod 0x400000"
    unfolding e using lt by (rule unat_of_nat_small)
qed

lemma video_page_low:
  assumes "n div 0x1000 = (0xB8 :: nat)"
  shows "n div 0x400000 = 0"
proof -
  have "n < 0x400000" using assms by linarith
  then show ?thesis by simp
qed

text \<open>The state before initialisation: zeroed tables, linked at two page addresses.\<close>

definition blank_paging :: paging where
  "blank_paging = \<lparr>phys = (\<lambda>a. 0), io_log = [], iflag = False, read_flag = 0, quantum = 0,
     screen_x = 0, screen_y = 0, tbuffer = replicate 129 0, tbuf = 0, tflag = 0,
     page_directory = replicate page_entries 0, page_table = replicate page_entries 0,
     page_table_2 = replicate page_entries 0, pt_addr = 0x40A000, pt2_addr = 0x40B000,
     tlb = Map.empty, paging_on = False\<rparr>"

lemma blank_paging_ok: "tables_ok blank_paging"
  by (simp add: tables_ok_def blank_paging_def frame_of_def)

lemma runs_slot_setup:
  assumes "kernel_maps s"
  shows "runs_slot p (setupPagingDirectory RESERV_CODE (program_frame p) 32 s)"
  using kernel_maps_directory [OF assms] assms
  by (simp add: runs_slot_def setupPagingDirectory_def kernel_maps_def tables_ok_def page_entries_def)

text \<open>The page tables after start-up and any number of changes the kernel makes to them.\<close>

inductive paging_run :: "'a paging_scheme \<Rightarrow> bool" where
  run_init: "tables_ok s \<Longrightarrow> paging_run (initPaging s)"
| run_program: "paging_run s \<Longrightarrow> paging_run (setupPagingDirectory r a 32 s)"
| run_window: "paging_run s \<Longrightarrow> i \<in> {1, 2, 3} \<Longrightarrow> paging_run (setupPagingDirectoryTable r a i s)"
| run_flush: "paging_run s \<Longrightarrow> paging_run (flushTLB s)"

lemma paging_run_maps: "paging_run s \<Longrightarrow> kernel_maps s"
  by (induction rule: paging_run.induct)
    (blast intro: kernel_maps_init kernel_maps_directory kernel_maps_table kernel_maps_flush)+

text \<open>
  C21. Whatever program and terminals are mapped, the kernel's own 4 MB page and the video page
  are mapped to themselves and closed to user mode, and no other address outside the two user
  regions (128 MB to 136 MB) is mapped at all.
\<close>

theorem kernel_memory_identity:
  assumes "paging_run s" and "unat a div 0x400000 \<notin> {32, 33}"
  shows "walk s a =
    (if unat a div 0x400000 = 1 \<or> unat a div 0x1000 = 0xB8 then Some (a, False) else None)"
  using assms(2) walk_kernel [OF paging_run_maps [OF assms(1)], of a] walk_low [OF paging_run_maps [OF assms(1)], of a]
    video_page_low [of "unat a"] walk_unmapped [OF paging_run_maps [OF assms(1)], of a] by (cases "unat a div 0x400000 = 0") auto

theorem kernel_memory_identity_witness:
  "walk (initPaging blank_paging) 0x400123 = Some (0x400123, False) \<and>
   walk (initPaging blank_paging) 0xB8FFF = Some (0xB8FFF, False) \<and>
   walk (initPaging blank_paging) 0x1000 = None"
  using kernel_memory_identity [OF run_init [OF blank_paging_ok], of "0x400123"]
    kernel_memory_identity [OF run_init [OF blank_paging_ok], of "0xB8FFF"]
    kernel_memory_identity [OF run_init [OF blank_paging_ok], of "0x1000"]
  by simp



text \<open>
  The user's view of memory: with the program page of slot \<open>p\<close> and the three terminal
  windows mapped, user mode reaches its program page, the windows, and nothing else.
\<close>

lemma user_view:
  assumes "runs_slot p s" and "0 \<le> p" and "p \<le> 5"
    and win: "\<forall>i \<in> WINDOWS. page_table_2 s ! i = w i OR RESERV_CODE_2 \<and> frame_of (w i) = w i"
  shows "user_walk s a =
    (if unat a div 0x400000 = 32 then Some (program_frame p + (a - 0x08000000))
     else if unat a div 0x400000 = 33 \<and> table_index a \<in> WINDOWS
     then Some (w (table_index a) + take_bit 12 a) else None)"
proof -
  have k: "kernel_maps s" using assms(1) by (simp add: runs_slot_def)
  have "walk s a = Some (w (table_index a) + take_bit 12 a, True)"
    if "unat a div 0x400000 = 33" "table_index a \<in> WINDOWS"
    using walk_window [OF k that(1)] win that(2) by (simp add: RESERV_CODE_2_def)
  moreover have "walk s a = None \<or> walk s a = Some (a, False)"
    if "unat a div 0x400000 \<noteq> 32" "unat a div 0x400000 \<noteq> 33"
    using that walk_kernel [OF k, of a] walk_low [OF k, of a] walk_unmapped [OF k, of a]
    by (cases "unat a div 0x400000 \<in> {0, 1}") auto
  ultimately show ?thesis
    using runs_slot_walk(1) [OF assms(1-3), of a] walk_window_None [OF k, of a]
    by (cases "unat a div 0x400000 = 33") (auto simp: user_walk_def)
qed

end
