(* ===== verification/Filesystem.thy ===== *)
theory Filesystem
  imports Paging
begin

text \<open>
  The read-only file system of \<^verbatim>\<open>student-distrib/filesystem.c\<close>: an image in memory at
  \<open>FSYSTEM\<close> with a boot block (entry count, inode count, 64-byte directory entries), one
  4096-byte block per inode (length, data block numbers) and the data blocks. Memory is read and
  written through the translation \<open>tr\<close>, as the processor does. The open file table
  \<open>fd\<close> (declared in \<^verbatim>\<open>syscall.h\<close>, defined in \<^verbatim>\<open>syscall.c\<close>) is part of the
  state, because \<^verbatim>\<open>file_read\<close> and \<^verbatim>\<open>directory_read\<close> keep their position in it.
\<close>

section \<open>The open file table\<close>

text \<open>The functions a jump table entry can point to; \<open>NULL\<close> before \<^verbatim>\<open>initFOTP\<close> ran.\<close>

datatype open_fn = open_NULL | open_terminal | open_rtc | open_file
datatype read_fn = read_NULL | read_terminal | read_invalid | read_rtc | read_directory | read_file
datatype write_fn = write_NULL | write_terminal | write_invalid | write_rtc | write_file
datatype close_fn = close_NULL | close_terminal | close_rtc | close_file

record fops_t =
  f_open :: open_fn
  f_read :: read_fn
  f_write :: write_fn
  f_close :: close_fn

record file_t =
  fotp :: fops_t
  inode :: u32
  fposition :: u32
  flags :: u32

record dentry_t =
  de_name :: u32
  de_ftype :: u32
  de_inode :: u32

record files = paging +
  FSYSTEM :: u32
  fd :: "file_t list"

text \<open>The 32-bit value at an address.\<close>

definition rd32 :: "xlat \<Rightarrow> mem \<Rightarrow> u32 \<Rightarrow> u32" where
  "rd32 tr m p = le32 (buf_at tr m p)"

section \<open>Directory entries\<close>

definition dentry_at :: "xlat \<Rightarrow> mem \<Rightarrow> u32 \<Rightarrow> dentry_t" where
  "dentry_at tr m curDir =
     \<lparr>de_name = curDir, de_ftype = ucast (m (tr (curDir + 32))), de_inode = ucast (m (tr (curDir + 36)))\<rparr>"

text \<open>
  The argument of the search by name is \<open>None\<close> for a \<^verbatim>\<open>NULL\<close> pointer (the copy of
  the name into a local array, which nothing reads, is left out). The search loops: \<open>i\<close> is the loop counter, \<open>k\<close> the number of turns left. The first
  one tests the name, the second one the index. \<open>None\<close> is a result of -1; the caller's
  entry is then unchanged.
\<close>

fun find_name :: "xlat \<Rightarrow> mem \<Rightarrow> u32 \<Rightarrow> cbuf \<Rightarrow> nat \<Rightarrow> nat \<Rightarrow> dentry_t option" where
  "find_name tr m dir fname i 0 = None"
| "find_name tr m dir fname i (Suc k) =
     (let curDir = dir + 64 * of_nat i
      in if strncmp (buf_at tr m curDir) fname 32 = 0 then Some (dentry_at tr m curDir)
         else find_name tr m dir fname (Suc i) k)"

definition read_dentry_by_name :: "xlat \<Rightarrow> mem \<Rightarrow> u32 \<Rightarrow> cbuf option \<Rightarrow> dentry_t option" where
  "read_dentry_by_name tr m fs fname =
     (case fname of
        None \<Rightarrow> None
      | Some fname \<Rightarrow> find_name tr m (fs + 64) fname 0 (nat (sint (rd32 tr m fs))))"

fun find_index :: "xlat \<Rightarrow> mem \<Rightarrow> u32 \<Rightarrow> u32 \<Rightarrow> nat \<Rightarrow> nat \<Rightarrow> dentry_t option" where
  "find_index tr m dir idx i 0 = None"
| "find_index tr m dir idx i (Suc k) =
     (if idx = of_nat i then Some (dentry_at tr m (dir + 64 * of_nat i))
      else find_index tr m dir idx (Suc i) k)"

definition read_dentry_by_index :: "xlat \<Rightarrow> mem \<Rightarrow> u32 \<Rightarrow> u32 \<Rightarrow> dentry_t option" where
  "read_dentry_by_index tr m fs idx =
     (let entry_no = rd32 tr m fs
      in if idx > entry_no then None
         else find_index tr m (fs + 64) idx 0 (nat (sint entry_no)))"

section \<open>File data\<close>

text \<open>
  \<open>inode_at\<close> is the address of an inode, \<open>block_base\<close> that of the first data block. The
  copy loop recomputes block and offset at every byte and reads the block number from memory
  each time.
\<close>

definition inode_at :: "u32 \<Rightarrow> u32 \<Rightarrow> u32" where
  "inode_at fs i = fs + 4096 + i * 4096"

definition block_base :: "xlat \<Rightarrow> mem \<Rightarrow> u32 \<Rightarrow> u32" where
  "block_base tr m fs = fs + 4096 + rd32 tr m (fs + 4) * 4096"

fun read_data_loop :: "xlat \<Rightarrow> u32 \<Rightarrow> u32 \<Rightarrow> nat \<Rightarrow> u32 \<Rightarrow> u32 \<Rightarrow> mem \<Rightarrow> mem" where
  "read_data_loop tr node blocks 0 offset buf m = m"
| "read_data_loop tr node blocks (Suc k) offset buf m =
     (let blockoff = offset div 4096; dataoff = offset mod 4096;
          b = m (tr (blocks + rd32 tr m (node + 4 + 4 * blockoff) * 4096 + dataoff))
      in read_data_loop tr node blocks k (offset + 1) (buf + 1) (m(tr buf := b)))"

definition read_data :: "xlat \<Rightarrow> u32 \<Rightarrow> u32 \<Rightarrow> u32 \<Rightarrow> u32 \<Rightarrow> u32 \<Rightarrow> mem \<Rightarrow> int \<times> mem" where
  "read_data tr fs i offset buf len m =
     (let node = inode_at fs i; flen = rd32 tr m node
      in if rd32 tr m (fs + 4) < i \<or> buf = 0 then (-1, m)
         else if offset \<ge> flen then (0, m)
         else let bytesread = (if flen - offset < len then flen - offset else len)
              in (sint bytesread, read_data_loop tr node (block_base tr m fs) (unat bytesread) offset buf m))"

section \<open>The file operations\<close>

text \<open>
  \<open>fdr\<close> is the index \<^verbatim>\<open>read\<close> has checked to be below 8.
\<close>

definition file_read :: "nat \<Rightarrow> u32 \<Rightarrow> u32 \<Rightarrow> 'a files_scheme \<Rightarrow> int \<times> 'a files_scheme" where
  "file_read fdr buf n s =
     (let f = fd s ! fdr;
          (tmp, m) = read_data (xl s) (FSYSTEM s) (inode f) (fposition f) buf n (phys s)
      in (tmp, s\<lparr>phys := m, fd := (fd s)[fdr := f\<lparr>fposition := fposition f + word_of_int tmp\<rparr>]\<rparr>))"

definition directory_read :: "nat \<Rightarrow> u32 \<Rightarrow> u32 \<Rightarrow> 'a files_scheme \<Rightarrow> int \<times> 'a files_scheme" where
  "directory_read fdr buf n s =
     (let f = fd s ! fdr
      in case read_dentry_by_index (xl s) (phys s) (FSYSTEM s) (fposition f) of
           None \<Rightarrow> (0, s)
         | Some cur \<Rightarrow>
             (32, s\<lparr>phys := strncpy (xl s) buf (de_name cur) 32 (phys s),
                    fd := (fd s)[fdr := f\<lparr>fposition := fposition f + 1\<rparr>]\<rparr>))"

definition file_write :: "u32 \<Rightarrow> u32 \<Rightarrow> u32 \<Rightarrow> 'a files_scheme \<Rightarrow> int \<times> 'a files_scheme" where
  "file_write fdr buf n s = (0, s)"

definition file_open :: "u32 \<Rightarrow> 'a files_scheme \<Rightarrow> int \<times> 'a files_scheme" where
  "file_open fname s = (0, s)"

definition file_close :: "nat \<Rightarrow> 'a files_scheme \<Rightarrow> int \<times> 'a files_scheme" where
  "file_close fdr s = (0, s)"

section \<open>The image as directories and files\<close>

text \<open>
  What an image stores: the byte \<open>k\<close> of file \<open>i\<close> and the whole file. \<open>fs_image\<close> is
  the set of bytes an image occupies and \<open>fs_ok\<close> says that it is well formed: all blocks
  fit into the address space, no file is longer than its inode can describe, and every data
  block number of a file is in range.
\<close>

definition data_addr :: "xlat \<Rightarrow> mem \<Rightarrow> u32 \<Rightarrow> u32 \<Rightarrow> u32 \<Rightarrow> u32" where
  "data_addr tr m node blocks off =
     tr (blocks + rd32 tr m (node + 4 + 4 * (off div 4096)) * 4096 + off mod 4096)"

definition file_len :: "xlat \<Rightarrow> mem \<Rightarrow> u32 \<Rightarrow> u32 \<Rightarrow> nat" where
  "file_len tr m fs i = unat (rd32 tr m (inode_at fs i))"

definition file_bytes :: "xlat \<Rightarrow> mem \<Rightarrow> u32 \<Rightarrow> u32 \<Rightarrow> u8 list" where
  "file_bytes tr m fs i =
     map (\<lambda>k. m (data_addr tr m (inode_at fs i) (block_base tr m fs) (of_nat k))) [0..<file_len tr m fs i]"

definition fs_size :: "xlat \<Rightarrow> mem \<Rightarrow> u32 \<Rightarrow> nat" where
  "fs_size tr m fs = 4096 * (1 + unat (rd32 tr m (fs + 4)) + unat (rd32 tr m (fs + 8)))"

definition fs_image :: "xlat \<Rightarrow> mem \<Rightarrow> u32 \<Rightarrow> u32 set" where
  "fs_image tr m fs = tr ` region fs (fs_size tr m fs)"

definition fs_ok :: "xlat \<Rightarrow> mem \<Rightarrow> u32 \<Rightarrow> bool" where
  "fs_ok tr m fs \<longleftrightarrow> fs_size tr m fs \<le> 2 ^ 32 \<and> unat (rd32 tr m fs) \<le> 63 \<and>
     (\<forall>i < unat (rd32 tr m (fs + 4)). file_len tr m fs (of_nat i) \<le> 1023 * 4096 \<and>
        (\<forall>b < 1023. b * 4096 < file_len tr m fs (of_nat i) \<longrightarrow>
           unat (rd32 tr m (inode_at fs (of_nat i) + 4 + 4 * of_nat b)) < unat (rd32 tr m (fs + 8))))"

lemma rd32_cong:
  assumes "\<And>l. l < 4 \<Longrightarrow> m (tr (p + of_nat l)) = m' (tr (p + of_nat l))"
  shows "rd32 tr m p = rd32 tr m' p"
proof -
  have "m (tr p) = m' (tr p)" "m (tr (p + 1)) = m' (tr (p + 1))" "m (tr (p + 2)) = m' (tr (p + 2))"
    "m (tr (p + 3)) = m' (tr (p + 3))"
    using assms [of 0] assms [of 1] assms [of 2] assms [of 3] by simp_all
  then show ?thesis by (simp add: rd32_def le32_def buf_at_def)
qed

text \<open>
  The copy loop, on a destination that shares no byte with a set \<open>I\<close> that holds
  everything the loop reads.
\<close>

lemma read_data_loop_frame:
  "a \<notin> tr ` region buf k \<Longrightarrow> read_data_loop tr node blocks k off buf m a = m a"
  by (induction k arbitrary: off buf m) (auto simp: region_Suc Let_def)

lemma read_data_loop_val:
  assumes "inj_on tr (region buf k)" and "k \<le> 2 ^ 32" and "tr ` region buf k \<inter> I = {}"
    and "\<And>a. a \<in> I \<Longrightarrow> m a = m0 a"
    and "\<And>j. j < k \<Longrightarrow> data_addr tr m0 node blocks (off + of_nat j) \<in> I"
    and "\<And>j l. j < k \<Longrightarrow> l < 4 \<Longrightarrow> tr (node + 4 + 4 * ((off + of_nat j) div 4096) + of_nat l) \<in> I"
    and "j < k"
  shows "read_data_loop tr node blocks k off buf m (tr (buf + of_nat j)) =
    m0 (data_addr tr m0 node blocks (off + of_nat j))"
  using assms
proof (induction k arbitrary: off buf m j)
  case 0
  then show ?case by simp
next
  case (Suc k)
  have rd: "rd32 tr m (node + 4 + 4 * (off div 4096)) = rd32 tr m0 (node + 4 + 4 * (off div 4096))"
    by (rule rd32_cong) (use Suc.prems(4) Suc.prems(6) [of 0] in simp)
  have b: "m (data_addr tr m0 node blocks off) = m0 (data_addr tr m0 node blocks off)"
    using Suc.prems(4) Suc.prems(5) [of 0] by simp
  let ?m = "m(tr buf := m0 (data_addr tr m0 node blocks off))"
  have step: "read_data_loop tr node blocks (Suc k) off buf m =
      read_data_loop tr node blocks k (off + 1) (buf + 1) ?m"
    using b by (simp add: Let_def rd data_addr_def)
  have notin: "tr buf \<notin> tr ` region (buf + 1) k"
  proof
    assume "tr buf \<in> tr ` region (buf + 1) k"
    then have "buf \<in> region (buf + 1) k"
      using Suc.prems(1) by (auto simp: region_Suc inj_on_def)
    then obtain i where "i < k" "buf = buf + of_nat (Suc i)" by (auto simp: region_def algebra_simps)
    then show False using of_nat_u32_inj [of 0 "Suc i"] Suc.prems(2) by simp
  qed
  show ?case
  proof (cases j)
    case 0
    then show ?thesis unfolding step using read_data_loop_frame [OF notin] by simp
  next
    case (Suc i)
    have "read_data_loop tr node blocks k (off + 1) (buf + 1) ?m (tr (buf + 1 + of_nat i)) =
        m0 (data_addr tr m0 node blocks (off + 1 + of_nat i))"
    proof (rule Suc.IH)
      show "inj_on tr (region (buf + 1) k)" "k \<le> 2 ^ 32" "tr ` region (buf + 1) k \<inter> I = {}" "i < k"
        using Suc.prems(1,2,3,7) Suc by (auto simp: region_Suc inj_on_def)
      show "?m a = m0 a" if "a \<in> I" for a
        using that Suc.prems(3,4) by (auto simp: region_Suc)
      show "data_addr tr m0 node blocks (off + 1 + of_nat j) \<in> I" if "j < k" for j
        using Suc.prems(5) [of "Suc j"] that by (simp add: algebra_simps)
      show "tr (node + 4 + 4 * ((off + 1 + of_nat j) div 4096) + of_nat l) \<in> I" if "j < k" "l < 4" for j l
        using Suc.prems(6) [of "Suc j" l] that by (simp add: algebra_simps)
    qed
    then show ?thesis unfolding step Suc by (simp add: algebra_simps)
  qed
qed

lemma of_nat_div_mod:
  assumes "k < 2 ^ 32"
  shows "(of_nat k :: u32) div 4096 = of_nat (k div 4096)" and "(of_nat k :: u32) mod 4096 = of_nat (k mod 4096)"
proof -
  have id: "of_nat (unat w) = w" for w :: u32 by simp
  have u: "unat (of_nat k :: u32) = k" using assms by (simp add: unat_of_nat)
  have "unat ((of_nat k :: u32) div 4096) = k div 4096" "unat ((of_nat k :: u32) mod 4096) = k mod 4096"
    by (simp_all add: unat_div unat_mod u)
  then show "(of_nat k :: u32) div 4096 = of_nat (k div 4096)" "(of_nat k :: u32) mod 4096 = of_nat (k mod 4096)"
    by (metis id)+
qed

lemma in_image: "o' < fs_size tr m fs \<Longrightarrow> a = fs + of_nat o' \<Longrightarrow> tr a \<in> fs_image tr m fs"
  unfolding fs_image_def by blast

lemma block_bound: "d < e \<Longrightarrow> r < 4096 \<Longrightarrow> 4096 * (1 + x + d) + r < 4096 * (1 + x + e)" for x d e r :: nat
proof -
  assume "d < e" "r < 4096"
  then have "4096 * (1 + x + Suc d) \<le> 4096 * (1 + x + e)" by (intro mult_le_mono2) simp
  moreover have "4096 * (1 + x + Suc d) = 4096 * (1 + x + d) + 4096" by simp
  ultimately show ?thesis using \<open>r < 4096\<close> by simp
qed

text \<open>Everything a read of file \<open>i\<close> looks at lies in the image.\<close>

lemma file_in_image:
  assumes ok: "fs_ok tr m fs" and i: "i < unat (rd32 tr m (fs + 4))" and k: "k < file_len tr m fs (of_nat i)"
  shows "l < 4 \<Longrightarrow> tr (inode_at fs (of_nat i) + 4 + 4 * (of_nat k div 4096) + of_nat l) \<in> fs_image tr m fs"
    and "data_addr tr m (inode_at fs (of_nat i)) (block_base tr m fs) (of_nat k) \<in> fs_image tr m fs"
proof -
  let ?N = "unat (rd32 tr m (fs + 4))" and ?D = "unat (rd32 tr m (fs + 8))" and ?b = "k div 4096"
  have len: "file_len tr m fs (of_nat i) \<le> 1023 * 4096" using ok i by (simp add: fs_ok_def)
  have b: "?b < 1023" "?b * 4096 < file_len tr m fs (of_nat i)"
    using k len by (simp_all add: less_mult_imp_div_less)
  have kk: "k < 2 ^ 32" using k len by simp
  note dm = of_nat_div_mod [OF kk]
  have size: "fs_size tr m fs = 4096 * (1 + ?N + ?D)" by (simp add: fs_size_def)
  show "tr (inode_at fs (of_nat i) + 4 + 4 * (of_nat k div 4096) + of_nat l) \<in> fs_image tr m fs" if "l < 4"
  proof (rule in_image)
    show "4096 * (1 + i) + 4 + 4 * ?b + l < fs_size tr m fs" unfolding size using b(1) i that by simp
    show "inode_at fs (of_nat i) + 4 + 4 * (of_nat k div 4096) + of_nat l =
        fs + of_nat (4096 * (1 + i) + 4 + 4 * ?b + l)"
      unfolding dm by (simp add: inode_at_def algebra_simps)
  qed
  define d where "d = unat (rd32 tr m (inode_at fs (of_nat i) + 4 + 4 * of_nat ?b))"
  have d: "d < ?D" using ok i b unfolding fs_ok_def d_def by blast
  have de: "rd32 tr m (inode_at fs (of_nat i) + 4 + 4 * of_nat ?b) = of_nat d" by (simp add: d_def)
  have Ne: "rd32 tr m (fs + 4) = of_nat ?N" by simp
  show "data_addr tr m (inode_at fs (of_nat i)) (block_base tr m fs) (of_nat k) \<in> fs_image tr m fs"
    unfolding data_addr_def
  proof (rule in_image)
    show "4096 * (1 + ?N + d) + k mod 4096 < fs_size tr m fs"
      unfolding size using d by (rule block_bound) simp
    show "block_base tr m fs + rd32 tr m (inode_at fs (of_nat i) + 4 + 4 * (of_nat k div 4096)) * 4096 +
        of_nat k mod 4096 = fs + of_nat (4096 * (1 + ?N + d) + k mod 4096)"
      unfolding dm de block_base_def by (subst Ne) (simp add: algebra_simps)
  qed
qed

text \<open>
  A buffer of \<open>n\<close> bytes the caller passes: told apart by the translation and not part of the
  image.
\<close>

definition user_buf :: "xlat \<Rightarrow> mem \<Rightarrow> u32 \<Rightarrow> u32 \<Rightarrow> nat \<Rightarrow> bool" where
  "user_buf tr m fs buf n \<longleftrightarrow> buf \<noteq> 0 \<and> inj_on tr (region buf n) \<and> tr ` region buf n \<inter> fs_image tr m fs = {}"

lemma user_buf_mono: "user_buf tr m fs buf n \<Longrightarrow> k \<le> n \<Longrightarrow> user_buf tr m fs buf k"
  unfolding user_buf_def using region_mono [of k n buf] by (blast intro: inj_on_subset)

lemma length_file_bytes [simp]: "length (file_bytes tr m fs i) = file_len tr m fs i"
  by (simp add: file_bytes_def)

lemma read_data_spec:
  assumes ok: "fs_ok tr m fs" and i: "i < unat (rd32 tr m (fs + 4))"
    and bs: "bs = take (unat len) (drop (unat offset) (file_bytes tr m fs (of_nat i)))"
    and buf: "user_buf tr m fs buf (length bs)"
  shows "fst (read_data tr fs (of_nat i) offset buf len m) = int (length bs) \<and>
    (\<forall>j < length bs. snd (read_data tr fs (of_nat i) offset buf len m) (tr (buf + of_nat j)) = bs ! j) \<and>
    (\<forall>a. a \<notin> tr ` region buf (length bs) \<longrightarrow> snd (read_data tr fs (of_nat i) offset buf len m) a = m a)"
proof -
  let ?node = "inode_at fs (of_nat i)" and ?flen = "rd32 tr m (inode_at fs (of_nat i))"
  let ?n = "if ?flen - offset < len then ?flen - offset else len"
  have flen: "unat ?flen \<le> 1023 * 4096" using ok i by (simp add: fs_ok_def file_len_def)
  have lenbs: "length bs = min (unat len) (unat ?flen - unat offset)" by (simp add: bs file_len_def)
  have ni: "\<not> rd32 tr m (fs + 4) < of_nat i"
    using i by (simp add: word_less_nat_alt unat_of_nat not_less take_bit_nat_less_eq_self order_trans [OF take_bit_nat_less_eq_self less_imp_le])
  have nz: "buf \<noteq> 0" using buf by (simp add: user_buf_def)
  show ?thesis
  proof (cases "offset \<ge> ?flen")
    case True
    then have "read_data tr fs (of_nat i) offset buf len m = (0, m)"
      using ni nz by (simp add: read_data_def)
    moreover have "bs = []" using True by (simp add: bs file_len_def word_le_nat_alt)
    ultimately show ?thesis by simp
  next
    case False
    then have lt: "unat offset < unat ?flen" by (simp add: word_le_nat_alt)
    have diff: "unat (?flen - offset) = unat ?flen - unat offset"
      using lt by (simp add: unat_sub word_le_nat_alt)
    have n: "unat ?n = length bs" using diff by (auto simp: lenbs word_less_nat_alt)
    have "uint ?n < 2 ^ 31"
      using n lenbs flen by (simp add: uint_nat)
    then have sn: "sint ?n = int (length bs)" using n by (simp add: sint_u32 uint_nat)
    have rd: "read_data tr fs (of_nat i) offset buf len m =
        (sint ?n, read_data_loop tr ?node (block_base tr m fs) (unat ?n) offset buf m)"
      using ni nz False by (simp add: read_data_def Let_def)
    have in_file: "unat offset + j < file_len tr m fs (of_nat i)" "offset + of_nat j = of_nat (unat offset + j)"
      if "j < length bs" for j
      using that lenbs by (auto simp: file_len_def)
    have val: "read_data_loop tr ?node (block_base tr m fs) (length bs) offset buf m (tr (buf + of_nat j)) = bs ! j"
      if j: "j < length bs" for j
    proof -
      have "read_data_loop tr ?node (block_base tr m fs) (length bs) offset buf m (tr (buf + of_nat j)) =
          m (data_addr tr m ?node (block_base tr m fs) (offset + of_nat j))"
      proof (rule read_data_loop_val [where I = "fs_image tr m fs"])
        show "inj_on tr (region buf (length bs))" "tr ` region buf (length bs) \<inter> fs_image tr m fs = {}"
          using buf by (simp_all add: user_buf_def)
        show "length bs \<le> 2 ^ 32" using lenbs flen by simp
      qed (use j file_in_image [OF ok i in_file(1)] in_file(2) in \<open>simp_all only:\<close>)
      also have "\<dots> = bs ! j"
        using j in_file [OF j] by (simp add: bs file_bytes_def)
      finally show ?thesis .
    qed
    show ?thesis unfolding rd n sn using val read_data_loop_frame by simp
  qed
qed

text \<open>
  C22. \<^verbatim>\<open>read_data\<close> on a well-formed image and an existing inode: it returns the number of
  bytes between the offset and the end of the file, at most \<open>len\<close>, writes exactly these
  bytes of the file into the buffer (across block boundaries), and changes nothing else.
\<close>

theorem read_data_correct:
  assumes ok: "fs_ok tr m fs" and i: "i < unat (rd32 tr m (fs + 4))"
    and bs: "bs = take (unat len) (drop (unat offset) (file_bytes tr m fs (of_nat i)))"
    and buf: "user_buf tr m fs buf (length bs)"
  shows "fst (read_data tr fs (of_nat i) offset buf len m) = int (length bs) \<and>
    (\<forall>j < length bs. snd (read_data tr fs (of_nat i) offset buf len m) (tr (buf + of_nat j)) = bs ! j) \<and>
    (\<forall>a. a \<notin> tr ` region buf (length bs) \<longrightarrow> snd (read_data tr fs (of_nat i) offset buf len m) a = m a)"
  using assms by (rule read_data_spec)

section \<open>Directory lookup\<close>

definition entry_at :: "u32 \<Rightarrow> nat \<Rightarrow> u32" where
  "entry_at fs i = fs + 64 + 64 * of_nat i"

definition entry_name :: "xlat \<Rightarrow> mem \<Rightarrow> u32 \<Rightarrow> nat \<Rightarrow> u8 list" where
  "entry_name tr m fs i = cprefix 32 (buf_at tr m (entry_at fs i))"

definition entries :: "xlat \<Rightarrow> mem \<Rightarrow> u32 \<Rightarrow> nat" where
  "entries tr m fs = nat (sint (rd32 tr m fs))"

lemma find_name_find:
  "find_name tr m (fs + 64) fname i k = map_option (\<lambda>i. dentry_at tr m (entry_at fs i))
     (List.find (\<lambda>i. entry_name tr m fs i = cprefix 32 fname) [i..<i + k])"
proof (induction k arbitrary: i)
  case 0
  then show ?case by simp
next
  case (Suc k)
  have "[i..<i + Suc k] = i # [Suc i..<Suc i + k]" by (simp add: upt_conv_Cons del: upt_Suc)
  then show ?case using Suc.IH [of "Suc i"]
    by (simp add: Let_def strncmp_eq_0 entry_name_def entry_at_def del: upt_Suc)
qed

text \<open>
  Lookup by name finds the first directory entry whose 32-byte name field equals the
  argument as a C string cut at 32 bytes, and fails exactly when there is none or the argument
  is \<^verbatim>\<open>NULL\<close>.
\<close>

theorem read_dentry_by_name_first:
  "read_dentry_by_name tr m fs None = None \<and>
   read_dentry_by_name tr m fs (Some fname) = map_option (\<lambda>i. dentry_at tr m (entry_at fs i))
     (List.find (\<lambda>i. entry_name tr m fs i = cprefix 32 fname) [0..<entries tr m fs])"
  by (simp add: read_dentry_by_name_def find_name_find entries_def)

lemma find_index_nth:
  "i + k \<le> 2 ^ 32 \<Longrightarrow> find_index tr m (fs + 64) idx i k =
     (if i \<le> unat idx \<and> unat idx < i + k then Some (dentry_at tr m (entry_at fs (unat idx))) else None)"
proof (induction k arbitrary: i)
  case 0
  then show ?case by simp
next
  case (Suc k)
  have i: "unat (of_nat i :: u32) = i" using Suc.prems by (simp add: unat_of_nat)
  then have "idx = of_nat i \<longleftrightarrow> unat idx = i" by auto
  then show ?case using Suc.IH [of "Suc i"] Suc.prems by (auto simp: entry_at_def)
qed

lemma read_dentry_by_index_nth:
  "read_dentry_by_index tr m fs idx =
     (if unat idx < entries tr m fs then Some (dentry_at tr m (entry_at fs (unat idx))) else None)"
proof -
  have le: "entries tr m fs \<le> 2 ^ 32" "entries tr m fs \<le> unat (rd32 tr m fs)"
    using unat_nonneg [of "rd32 tr m fs"] unat_u32_le [of "rd32 tr m fs"]
    by (cases "sint (rd32 tr m fs) < 0"; simp add: entries_def)+
  then show ?thesis
    unfolding read_dentry_by_index_def Let_def
    using find_index_nth [of 0 "entries tr m fs" tr m fs idx]
    by (auto simp: word_less_nat_alt entries_def)
qed

section \<open>Reading a file to its end\<close>

text \<open>The parts of the image a write outside it leaves alone.\<close>

lemma rd32_agree:
  assumes "\<And>a. a \<in> fs_image tr m fs \<Longrightarrow> m' a = m a" and "p = fs + of_nat o'" and "o' + 4 \<le> fs_size tr m fs"
  shows "rd32 tr m' p = rd32 tr m p"
proof (rule rd32_cong)
  fix l :: nat
  assume "l < 4"
  then have "tr (p + of_nat l) \<in> fs_image tr m fs"
    by (intro in_image [of "o' + l"]) (use assms(2,3) in simp_all)
  then show "m' (tr (p + of_nat l)) = m (tr (p + of_nat l))" by (rule assms(1))
qed

lemma image_agree:
  assumes ok: "fs_ok tr m fs" and eq: "\<And>a. a \<in> fs_image tr m fs \<Longrightarrow> m' a = m a"
  shows "rd32 tr m' (fs + 4) = rd32 tr m (fs + 4)" and "rd32 tr m' (fs + 8) = rd32 tr m (fs + 8)"
    and "rd32 tr m' fs = rd32 tr m fs"
    and "i < unat (rd32 tr m (fs + 4)) \<Longrightarrow> file_bytes tr m' fs (of_nat i) = file_bytes tr m fs (of_nat i)"
    and "fs_image tr m' fs = fs_image tr m fs" and "fs_ok tr m' fs"
proof -
  have size: "4096 \<le> fs_size tr m fs" by (simp add: fs_size_def)
  show four: "rd32 tr m' (fs + 4) = rd32 tr m (fs + 4)" and eight: "rd32 tr m' (fs + 8) = rd32 tr m (fs + 8)"
    and zero: "rd32 tr m' fs = rd32 tr m fs"
    using rd32_agree [OF eq, where p = "fs + 4" and o' = 4] rd32_agree [OF eq, where p = "fs + 8" and o' = 8]
      rd32_agree [OF eq, where p = fs and o' = 0] size
    by simp_all
  have fss: "fs_size tr m' fs = fs_size tr m fs" by (simp add: fs_size_def four eight)
  show "fs_image tr m' fs = fs_image tr m fs" by (simp add: fs_image_def fss)
  have node: "4096 * (1 + i) + 4096 \<le> fs_size tr m fs" if "i < unat (rd32 tr m (fs + 4))" for i
    using that by (simp add: fs_size_def)
  have len: "file_len tr m' fs (of_nat i) = file_len tr m fs (of_nat i)" if "i < unat (rd32 tr m (fs + 4))" for i
    unfolding file_len_def
  proof (subst rd32_agree [OF eq, where o' = "4096 * (1 + i)"])
    show "4096 * (1 + i) + 4 \<le> fs_size tr m fs" using node [OF that] by (rule order_trans [rotated]) simp
  qed (simp_all add: inode_at_def algebra_simps)
  have blk: "rd32 tr m' (inode_at fs (of_nat i) + 4 + 4 * of_nat b) = rd32 tr m (inode_at fs (of_nat i) + 4 + 4 * of_nat b)"
    if "i < unat (rd32 tr m (fs + 4))" "b < 1023" for i b
  proof (rule rd32_agree [OF eq, where o' = "4096 * (1 + i) + 4 + 4 * b"])
    show "4096 * (1 + i) + 4 + 4 * b + 4 \<le> fs_size tr m fs"
      using node [OF that(1)] by (rule order_trans [rotated]) (use that(2) in simp)
  qed (simp_all add: inode_at_def algebra_simps)
  show "fs_ok tr m' fs"
    using ok len blk unfolding fs_ok_def four eight zero fss by simp
  show "file_bytes tr m' fs (of_nat i) = file_bytes tr m fs (of_nat i)" if i: "i < unat (rd32 tr m (fs + 4))"
    unfolding file_bytes_def len [OF i]
  proof (intro map_cong refl)
    fix k
    assume "k \<in> set [0..<file_len tr m fs (of_nat i)]"
    then have k: "k < file_len tr m fs (of_nat i)" by simp
    have "rd32 tr m' (inode_at fs (of_nat i) + 4 + 4 * (of_nat k div 4096)) =
        rd32 tr m (inode_at fs (of_nat i) + 4 + 4 * (of_nat k div 4096))"
      by (rule rd32_cong) (use eq file_in_image(1) [OF ok i k] in blast)
    then have "data_addr tr m' (inode_at fs (of_nat i)) (block_base tr m' fs) (of_nat k) =
        data_addr tr m (inode_at fs (of_nat i)) (block_base tr m fs) (of_nat k)"
      by (simp add: data_addr_def block_base_def four)
    then show "m' (data_addr tr m' (inode_at fs (of_nat i)) (block_base tr m' fs) (of_nat k)) =
        m (data_addr tr m (inode_at fs (of_nat i)) (block_base tr m fs) (of_nat k))"
      using eq file_in_image(2) [OF ok i k] by simp
  qed
qed

text \<open>
  The interface a program sees when it reads sequentially: \<open>read n\<close> returns a count and
  moves on; \<open>got s k\<close> is what the buffer holds; \<open>rest\<close> is the part not yet read.
\<close>

fun read_all :: "('s \<Rightarrow> int \<times> 's) \<Rightarrow> ('s \<Rightarrow> nat \<Rightarrow> 'a list) \<Rightarrow> nat \<Rightarrow> 's \<Rightarrow> 'a list option" where
  "read_all rd got 0 s = None"
| "read_all rd got (Suc fuel) s =
     (let (cnt, t) = rd s
      in if cnt = 0 then Some []
         else if cnt = -1 then None
         else map_option (\<lambda>bs. got t (nat cnt) @ bs) (read_all rd got fuel t))"

locale stream_reader =
  fixes rd :: "'s \<Rightarrow> int \<times> 's" and inv :: "'s \<Rightarrow> bool" and rest :: "'s \<Rightarrow> 'a list"
    and got :: "'s \<Rightarrow> nat \<Rightarrow> 'a list"
  assumes at_end: "inv s \<Longrightarrow> rest s = [] \<Longrightarrow> fst (rd s) = 0"
    and more_count: "inv s \<Longrightarrow> rest s \<noteq> [] \<Longrightarrow> 0 < fst (rd s)"
    and more_inv: "inv s \<Longrightarrow> rest s \<noteq> [] \<Longrightarrow> inv (snd (rd s))"
    and more_got: "inv s \<Longrightarrow> rest s \<noteq> [] \<Longrightarrow> got (snd (rd s)) (nat (fst (rd s))) @ rest (snd (rd s)) = rest s"
    and more_rest: "inv s \<Longrightarrow> rest s \<noteq> [] \<Longrightarrow> length (rest (snd (rd s))) < length (rest s)"
begin

lemma read_to_end: "inv s \<Longrightarrow> length (rest s) < fuel \<Longrightarrow> read_all rd got fuel s = Some (rest s)"
proof (induction fuel arbitrary: s)
  case 0
  then show ?case by simp
next
  case (Suc fuel)
  show ?case
  proof (cases "rest s = []")
    case True
    then show ?thesis using at_end [OF Suc.prems(1)] by (simp add: case_prod_unfold Let_def)
  next
    case False
    note more = more_count more_inv more_got more_rest
    note m = more [OF Suc.prems(1) False]
    have "read_all rd got fuel (snd (rd s)) = Some (rest (snd (rd s)))"
      using Suc.IH [OF m(2)] m(4) Suc.prems(2) by simp
    then show ?thesis using m(1,3) by (simp add: case_prod_unfold Let_def)
  qed
qed

end

text \<open>Reading bytes in chunks: the contract of one read, and that any chunk size gives a reader.\<close>

locale byte_stream =
  fixes read :: "nat \<Rightarrow> 's \<Rightarrow> int \<times> 's" and inv :: "'s \<Rightarrow> bool" and rest :: "'s \<Rightarrow> u8 list"
    and got :: "'s \<Rightarrow> nat \<Rightarrow> u8 list" and cap :: nat
  assumes read_count: "inv s \<Longrightarrow> n \<le> cap \<Longrightarrow> fst (read n s) = int (length (take n (rest s)))"
    and read_inv: "inv s \<Longrightarrow> n \<le> cap \<Longrightarrow> inv (snd (read n s))"
    and read_rest: "inv s \<Longrightarrow> n \<le> cap \<Longrightarrow> rest (snd (read n s)) = drop n (rest s)"
    and read_got: "inv s \<Longrightarrow> n \<le> cap \<Longrightarrow> got (snd (read n s)) (length (take n (rest s))) = take n (rest s)"
begin

lemma chunk_reader:
  assumes "0 < n" and "n \<le> cap"
  shows "stream_reader (read n) inv rest got"
proof
  fix s
  assume s: "inv s"
  note r = read_count [OF s assms(2)] read_inv [OF s assms(2)] read_rest [OF s assms(2)] read_got [OF s assms(2)]
  show "rest s = [] \<Longrightarrow> fst (read n s) = 0" using r(1) by simp
  assume ne: "rest s \<noteq> []"
  show "0 < fst (read n s)" using r(1) ne assms(1) by simp
  show "inv (snd (read n s))" by (rule r(2))
  show "got (snd (read n s)) (nat (fst (read n s))) @ rest (snd (read n s)) = rest s"
    unfolding r(1,3) nat_int r(4) by simp
  show "length (rest (snd (read n s))) < length (rest s)" using r(3) ne assms(1) by (cases "rest s") auto
qed

lemmas chunks_to_end = stream_reader.read_to_end [OF chunk_reader]

end

text \<open>Reading an open regular file through one buffer is such a stream.\<close>

definition file_buf :: "u32 \<Rightarrow> 'a files_scheme \<Rightarrow> nat \<Rightarrow> u8 list" where
  "file_buf buf s k = map (\<lambda>j. phys s (xl s (buf + of_nat j))) [0..<k]"

definition file_rest :: "nat \<Rightarrow> 'a files_scheme \<Rightarrow> u8 list" where
  "file_rest fdr s = drop (unat (fposition (fd s ! fdr)))
     (file_bytes (xl s) (phys s) (FSYSTEM s) (inode (fd s ! fdr)))"

definition file_inv :: "nat \<Rightarrow> u32 \<Rightarrow> nat \<Rightarrow> 'a files_scheme \<Rightarrow> bool" where
  "file_inv fdr buf cap s \<longleftrightarrow> fdr < length (fd s) \<and> cap < 2 ^ 32 \<and>
     fs_ok (xl s) (phys s) (FSYSTEM s) \<and>
     unat (inode (fd s ! fdr)) < unat (rd32 (xl s) (phys s) (FSYSTEM s + 4)) \<and>
     user_buf (xl s) (phys s) (FSYSTEM s) buf cap"

lemma xl_more [simp]: "xl (s\<lparr>phys := m\<rparr>) = xl s"
  by (rule xl_cong) simp_all

lemma xl_fd [simp]: "xl (s\<lparr>fd := f\<rparr>) = xl s"
  by (rule xl_cong) simp_all

lemma file_read_step:
  assumes inv: "file_inv fdr buf cap s" and n: "n \<le> cap"
  shows "fst (file_read fdr buf (of_nat n) s) = int (length (take n (file_rest fdr s)))"
    and "file_inv fdr buf cap (snd (file_read fdr buf (of_nat n) s))"
    and "file_rest fdr (snd (file_read fdr buf (of_nat n) s)) = drop n (file_rest fdr s)"
    and "file_buf buf (snd (file_read fdr buf (of_nat n) s)) (length (take n (file_rest fdr s))) =
      take n (file_rest fdr s)"
proof -
  let ?tr = "xl s" and ?m = "phys s" and ?fs = "FSYSTEM s" and ?f = "fd s ! fdr"
  let ?i = "unat (inode ?f)" and ?off = "fposition ?f" and ?bs = "take n (file_rest fdr s)"
  let ?rd = "read_data ?tr ?fs (inode ?f) ?off buf (of_nat n) ?m" and ?t = "snd (file_read fdr buf (of_nat n) s)"
  have ok: "fs_ok ?tr ?m ?fs" and i: "?i < unat (rd32 ?tr ?m (?fs + 4))" and cap: "cap < 2 ^ 32"
    and ub: "user_buf ?tr ?m ?fs buf cap" and fdr: "fdr < length (fd s)"
    using inv by (simp_all add: file_inv_def)
  have un: "unat (of_nat n :: u32) = n" using n cap by (simp add: unat_of_nat)
  have bs: "?bs = take (unat (of_nat n :: u32)) (drop (unat ?off) (file_bytes ?tr ?m ?fs (of_nat ?i)))"
    unfolding un by (simp add: file_rest_def)
  have "user_buf ?tr ?m ?fs buf (length ?bs)" by (rule user_buf_mono [OF ub]) (use n in simp)
  moreover have "of_nat ?i = inode ?f" by simp
  ultimately have rd: "fst ?rd = int (length ?bs)" "\<forall>j < length ?bs. snd ?rd (?tr (buf + of_nat j)) = ?bs ! j"
    and frame: "\<forall>a. a \<notin> ?tr ` region buf (length ?bs) \<longrightarrow> snd ?rd a = ?m a"
    using read_data_spec [OF ok i bs] by metis+
  have fr: "file_read fdr buf (of_nat n) s = (fst ?rd,
      s\<lparr>phys := snd ?rd, fd := (fd s)[fdr := ?f\<lparr>fposition := ?off + word_of_int (fst ?rd)\<rparr>]\<rparr>)"
    by (simp add: file_read_def Let_def case_prod_unfold)
  show "fst (file_read fdr buf (of_nat n) s) = int (length ?bs)"
    unfolding fr using rd by simp
  have t: "?t = s\<lparr>phys := snd ?rd, fd := (fd s)[fdr := ?f\<lparr>fposition := ?off + of_nat (length ?bs)\<rparr>]\<rparr>"
    unfolding fr using rd by simp
  have same: "snd ?rd a = ?m a" if "a \<in> fs_image ?tr ?m ?fs" for a
  proof -
    have "a \<notin> ?tr ` region buf cap" using ub that by (auto simp: user_buf_def)
    moreover have "region buf (length ?bs) \<subseteq> region buf cap" by (rule region_mono) (use n in simp)
    ultimately have "a \<notin> ?tr ` region buf (length ?bs)" by blast
    then show ?thesis using frame by blast
  qed
  note agree = image_agree [OF ok same]
  have xt: "xl ?t = ?tr" unfolding t by simp
  show "file_inv fdr buf cap ?t"
    using inv agree unfolding file_inv_def xt by (simp add: t user_buf_def)
  have "file_bytes (xl ?t) (phys ?t) ?fs (inode ?f) = file_bytes ?tr ?m ?fs (inode ?f)"
    unfolding xt using image_agree(4) [OF ok same i] by (simp add: t)
  then have rest: "file_rest fdr ?t = drop (unat (?off + of_nat (length ?bs))) (file_bytes ?tr ?m ?fs (inode ?f))"
    using fdr by (simp add: file_rest_def t)
  show "file_rest fdr ?t = drop n (file_rest fdr s)"
  proof (cases "?bs = []")
    case True
    then show ?thesis unfolding rest by (auto simp: file_rest_def)
  next
    case False
    then have pos: "unat ?off + length ?bs \<le> file_len ?tr ?m ?fs (inode ?f)"
      by (auto simp: file_rest_def)
    have "unat ?off + length ?bs < 2 ^ 32"
      by (rule le_less_trans [OF pos]) (use unsigned_less [of "rd32 ?tr ?m (inode_at ?fs (inode ?f))", where ?'a = nat] in \<open>simp add: file_len_def\<close>)
    then have "unat (?off + of_nat (length ?bs)) = unat ?off + length ?bs" by (rule unat_addr_off)
    then show ?thesis unfolding rest by (auto simp: file_rest_def add.commute min_def)
  qed
  show "file_buf buf ?t (length ?bs) = ?bs"
    using rd by (auto simp: file_buf_def xt t intro!: nth_equalityI)
qed

interpretation fstream: byte_stream "\<lambda>n. file_read fdr buf (of_nat n)" "file_inv fdr buf cap" "file_rest fdr" "file_buf buf" cap
  for fdr buf cap
  by unfold_locales (rule file_read_step; assumption)+

text \<open>
  A program that reads an open regular file in chunks of any positive size until
  \<^verbatim>\<open>read\<close> returns 0 obtains exactly the rest of the file, from the position the
  descriptor had, in order and without loss, and the loop ends.
\<close>

theorem file_read_to_end:
  assumes "file_inv fdr buf cap s" and "0 < n" and "n \<le> cap" and "length (file_rest fdr s) < fuel"
  shows "read_all (file_read fdr buf (of_nat n)) (file_buf buf) fuel s = Some (file_rest fdr s)"
  using assms(2,3,1,4) by (rule fstream.chunks_to_end)

section \<open>Listing the directory\<close>

definition dir_inv :: "nat \<Rightarrow> u32 \<Rightarrow> 'a files_scheme \<Rightarrow> bool" where
  "dir_inv fdr buf s \<longleftrightarrow> fdr < length (fd s) \<and> fs_ok (xl s) (phys s) (FSYSTEM s) \<and>
     user_buf (xl s) (phys s) (FSYSTEM s) buf 32"

definition dir_rest :: "nat \<Rightarrow> 'a files_scheme \<Rightarrow> u8 list list" where
  "dir_rest fdr s = map (entry_name (xl s) (phys s) (FSYSTEM s))
     [unat (fposition (fd s ! fdr))..<entries (xl s) (phys s) (FSYSTEM s)]"

text \<open>The name in the buffer, after any count.\<close>

definition dir_buf :: "u32 \<Rightarrow> 'a files_scheme \<Rightarrow> nat \<Rightarrow> u8 list list" where
  "dir_buf buf s k = [cprefix 32 (buf_at (xl s) (phys s) buf)]"

lemma entries_le: "fs_ok tr m fs \<Longrightarrow> entries tr m fs \<le> 63"
  using unat_nonneg [of "rd32 tr m fs"] by (cases "sint (rd32 tr m fs) < 0") (auto simp: fs_ok_def entries_def)

lemma entry_in_image:
  assumes "fs_ok tr m fs" and "i < entries tr m fs" and "l < 64"
  shows "tr (entry_at fs i + of_nat l) \<in> fs_image tr m fs"
proof (rule in_image)
  have "i < 63" using entries_le [OF assms(1)] assms(2) by simp
  then have "64 + 64 * i + l < 4096" using assms(3) by simp
  also have "4096 \<le> fs_size tr m fs" by (simp add: fs_size_def)
  finally show "64 + 64 * i + l < fs_size tr m fs" .
  show "entry_at fs i + of_nat l = fs + of_nat (64 + 64 * i + l)" by (simp add: entry_at_def)
qed

lemma entry_name_agree:
  assumes "fs_ok tr m fs" and "\<And>a. a \<in> fs_image tr m fs \<Longrightarrow> m' a = m a" and "i < entries tr m fs"
  shows "entry_name tr m' fs i = entry_name tr m fs i"
  unfolding entry_name_def
  by (rule cprefix_cong) (use assms(2) entry_in_image [OF assms(1,3)] in \<open>simp add: buf_at_def\<close>)

lemma padded_lit: "padded p = lit p"
  by (intro ext) (simp add: padded_def lit_def)

lemma directory_read_step:
  assumes inv: "dir_inv fdr buf s" and more: "dir_rest fdr s \<noteq> []"
  shows "fst (directory_read fdr buf n s) = 32" and "dir_inv fdr buf (snd (directory_read fdr buf n s))"
    and "dir_buf buf (snd (directory_read fdr buf n s)) k @ dir_rest fdr (snd (directory_read fdr buf n s)) =
      dir_rest fdr s"
proof -
  let ?tr = "xl s" and ?m = "phys s" and ?fs = "FSYSTEM s" and ?f = "fd s ! fdr"
  let ?p = "unat (fposition ?f)" and ?t = "snd (directory_read fdr buf n s)"
  let ?src = "entry_at ?fs ?p" and ?N = "entries ?tr ?m ?fs"
  have ok: "fs_ok ?tr ?m ?fs" and ub: "user_buf ?tr ?m ?fs buf 32" and fdr: "fdr < length (fd s)"
    using inv by (simp_all add: dir_inv_def)
  have p: "?p < ?N" using more by (simp add: dir_rest_def)
  then have rd: "read_dentry_by_index ?tr ?m ?fs (fposition ?f) = Some (dentry_at ?tr ?m ?src)"
    by (simp add: read_dentry_by_index_nth)
  show "fst (directory_read fdr buf n s) = 32" by (simp add: directory_read_def rd Let_def)
  define m' where "m' = strncpy ?tr buf ?src 32 ?m"
  have t: "?t = s\<lparr>phys := m', fd := (fd s)[fdr := ?f\<lparr>fposition := fposition ?f + 1\<rparr>]\<rparr>"
    by (simp add: directory_read_def rd dentry_at_def m'_def Let_def)
  have xt: "xl ?t = ?tr" unfolding t by simp
  have "?tr ` region ?src 32 \<subseteq> fs_image ?tr ?m ?fs"
    using entry_in_image [OF ok p] by (auto simp: region_def)
  then have "separate ?tr buf ?src (unat (32 :: u32))"
    using ub by (auto simp: separate_def user_buf_def)
  note sc = strncpy_copy_val [OF this unat_u32_le] strncpy_copy_frame
  have same: "m' a = ?m a" if "a \<in> fs_image ?tr ?m ?fs" for a
    using ub that unfolding m'_def strncpy_def by (subst strncpy_copy_frame) (auto simp: user_buf_def)
  note agree = image_agree [OF ok same]
  show "dir_inv fdr buf ?t"
    using inv agree unfolding dir_inv_def xt by (simp add: t user_buf_def)
  have N: "entries ?tr m' ?fs = ?N" using agree(3) by (simp add: entries_def)
  have "unat (fposition ?f + 1) = Suc ?p"
    using unat_addr_off [of "fposition ?f" 1] p entries_le [OF ok] by simp
  then have rest: "dir_rest fdr ?t = map (entry_name ?tr ?m ?fs) [Suc ?p..<?N]"
    using fdr entry_name_agree [OF ok same] by (simp add: dir_rest_def xt) (simp add: t N)
  have "cprefix 32 (buf_at ?tr m' buf) = cprefix 32 (padded (entry_name ?tr ?m ?fs ?p))"
    by (rule cprefix_cong) (use sc(1) in \<open>simp add: buf_at_def m'_def strncpy_def entry_name_def\<close>)
  also have "\<dots> = entry_name ?tr ?m ?fs ?p"
    unfolding entry_name_def padded_lit by (rule cprefix_lit) (use cprefix_nonzero cprefix_length in blast)+
  finally have "dir_buf buf ?t k = [entry_name ?tr ?m ?fs ?p]" by (simp add: dir_buf_def xt) (simp add: t)
  then show "dir_buf buf ?t k @ dir_rest fdr ?t = dir_rest fdr s"
    unfolding rest using p by (simp add: dir_rest_def upt_conv_Cons)
qed

lemma directory_read_end: "dir_rest fdr s = [] \<Longrightarrow> fst (directory_read fdr buf n s) = 0"
  by (auto simp: directory_read_def dir_rest_def read_dentry_by_index_nth Let_def)

interpretation dstream: stream_reader "directory_read fdr buf n" "dir_inv fdr buf" "dir_rest fdr" "dir_buf buf"
  for fdr buf n
proof
  fix s :: "'a files_scheme"
  assume s: "dir_inv fdr buf s"
  show "dir_rest fdr s = [] \<Longrightarrow> fst (directory_read fdr buf n s) = 0" by (rule directory_read_end)
  assume ne: "dir_rest fdr s \<noteq> []"
  note st = directory_read_step [OF s ne]
  show "0 < fst (directory_read fdr buf n s)" using st(1) by simp
  show "dir_inv fdr buf (snd (directory_read fdr buf n s))" by (rule st(2))
  show "dir_buf buf (snd (directory_read fdr buf n s)) (nat (fst (directory_read fdr buf n s))) @
      dir_rest fdr (snd (directory_read fdr buf n s)) = dir_rest fdr s" by (rule st(3))
  show "length (dir_rest fdr (snd (directory_read fdr buf n s))) < length (dir_rest fdr s)"
    using st(3) [of n 0] by (metis dir_buf_def append_Cons append_Nil length_Cons lessI)
qed

text \<open>
  Listing: reading an open directory until \<^verbatim>\<open>read\<close> returns 0 yields the names of all
  directory entries from the current position on, in order, each once, whatever count is asked
  for.
\<close>

theorem directory_read_to_end:
  assumes "dir_inv fdr buf s" and "length (dir_rest fdr s) < fuel"
  shows "read_all (directory_read fdr buf n) (dir_buf buf) fuel s = Some (dir_rest fdr s)"
  using assms by (rule dstream.read_to_end)

text \<open>An image with one file, \<^verbatim>\<open>f\<close>, that holds the three bytes \<^verbatim>\<open>abc\<close>.\<close>

definition tiny_fs :: mem where
  "tiny_fs = (\<lambda>a. 0)(0x500000 := 1, 0x500004 := 1, 0x500008 := 1, 0x500040 := 0x66, 0x500060 := 2,
     0x501000 := 3, 0x502000 := 97, 0x502001 := 98, 0x502002 := 99)"

lemma tiny_fs_rd:
  "rd32 id tiny_fs 0x500000 = 1" "rd32 id tiny_fs 0x500004 = 1" "rd32 id tiny_fs 0x500008 = 1"
  "rd32 id tiny_fs 0x501000 = 3" "rd32 id tiny_fs 0x501004 = 0"
  by (simp_all add: rd32_def le32_def buf_at_def tiny_fs_def)

lemma tiny_fs_ok: "fs_ok id tiny_fs 0x500000"
proof -
  have "unat (rd32 id tiny_fs (0x501004 + 4 * of_nat b)) = 0" if "b * 4096 < 3" for b
    using that tiny_fs_rd by (cases b) simp_all
  then show ?thesis
    using tiny_fs_rd by (auto simp: fs_ok_def fs_size_def file_len_def inode_at_def)
qed

lemma tiny_fs_bytes: "file_bytes id tiny_fs 0x500000 0 = [97, 98, 99]"
proof -
  have "[0..<3] = [0, 1, 2 :: nat]" by code_simp
  then show ?thesis
    using tiny_fs_rd
    by (simp add: file_bytes_def file_len_def inode_at_def data_addr_def block_base_def tiny_fs_def)
qed

lemma tiny_image: "fs_image id tiny_fs 0x500000 = region 0x500000 12288"
  using tiny_fs_rd by (simp add: fs_image_def fs_size_def)

lemma tiny_user_buf: "n \<le> 4096 \<Longrightarrow> user_buf id tiny_fs 0x500000 0x600000 n"
  by (auto simp: user_buf_def tiny_image region_nowrap)

theorem read_data_correct_witness:
  "fst (read_data id 0x500000 0 1 0x600000 100 tiny_fs) = 2 \<and>
   snd (read_data id 0x500000 0 1 0x600000 100 tiny_fs) 0x600001 = 99"
proof -
  have i: "0 < unat (rd32 id tiny_fs (0x500000 + 4))" using tiny_fs_rd by simp
  have bs: "[98, 99] = take (unat (100 :: u32)) (drop (unat (1 :: u32)) (file_bytes id tiny_fs 0x500000 (of_nat 0)))"
    by (simp add: tiny_fs_bytes)
  have buf: "user_buf id tiny_fs 0x500000 0x600000 (length [98, 99 :: u8])" by (rule tiny_user_buf) simp
  note r = read_data_correct [OF tiny_fs_ok i bs buf]
  show ?thesis using r [THEN conjunct1] r [THEN conjunct2, THEN conjunct1, rule_format, of 1] by simp
qed

theorem file_read_to_end_witness:
  "\<exists>s :: files. read_all (file_read 2 0x600000 (of_nat 2)) (file_buf 0x600000) 4 s = Some [97, 98, 99]"
proof -
  let ?f = "\<lparr>fotp = \<lparr>f_open = open_file, f_read = read_file, f_write = write_file, f_close = close_file\<rparr>,
    inode = 0, fposition = 0, flags = 1\<rparr>"
  let ?s = "paging.extend (blank_paging\<lparr>phys := tiny_fs\<rparr>) \<lparr>FSYSTEM = 0x500000, fd = replicate 8 ?f\<rparr> :: files"
  have xl: "xl ?s = id"
    by (intro ext) (simp add: xl_def walk_def paging.defs blank_paging_def dir_index_less)
  have inv: "file_inv 2 0x600000 2 ?s"
    unfolding file_inv_def xl
    using tiny_fs_ok tiny_user_buf [of 2] tiny_fs_rd by (simp add: paging.defs blank_paging_def)
  have rest: "file_rest 2 ?s = [97, 98, 99]"
    unfolding file_rest_def xl by (simp add: paging.defs blank_paging_def tiny_fs_bytes)
  have "read_all (file_read 2 0x600000 (of_nat 2)) (file_buf 0x600000) 4 ?s = Some (file_rest 2 ?s)"
    by (rule file_read_to_end [OF inv]) (simp_all add: rest)
  then show ?thesis unfolding rest by blast
qed

lemma tiny_state:
  fixes f :: file_t
  defines "s \<equiv> paging.extend (blank_paging\<lparr>phys := tiny_fs\<rparr>) \<lparr>FSYSTEM = 0x500000, fd = replicate 8 f\<rparr> :: files"
  shows "xl s = id" and "phys s = tiny_fs" and "FSYSTEM s = 0x500000" and "fd s = replicate 8 f"
  unfolding s_def
  by (intro ext, simp add: xl_def walk_def paging.defs blank_paging_def dir_index_less)
     (simp_all add: paging.defs blank_paging_def)

theorem directory_read_to_end_witness:
  "\<exists>s :: files. read_all (directory_read 2 0x600000 32) (dir_buf 0x600000) 2 s = Some [bytes_of ''f'']"
proof -
  let ?f = "\<lparr>fotp = \<lparr>f_open = open_file, f_read = read_directory, f_write = write_file, f_close = close_file\<rparr>,
    inode = 0, fposition = 0, flags = 1\<rparr>"
  let ?s = "paging.extend (blank_paging\<lparr>phys := tiny_fs\<rparr>) \<lparr>FSYSTEM = 0x500000, fd = replicate 8 ?f\<rparr> :: files"
  have "entries id tiny_fs 0x500000 = 1" using tiny_fs_rd by (simp add: entries_def)
  moreover have "is_cstr (buf_at id tiny_fs 0x500040) 1" by (simp add: is_cstr_def buf_at_def tiny_fs_def)
  then have "entry_name id tiny_fs 0x500000 0 = [0x66]"
    using cprefix_is_cstr [of _ 1 32] by (simp add: entry_name_def entry_at_def buf_at_def tiny_fs_def)
  ultimately have rest: "dir_rest 2 ?s = [bytes_of ''f'']"
    unfolding dir_rest_def tiny_state by (simp add: bytes_of_def)
  have inv: "dir_inv 2 0x600000 ?s"
    unfolding dir_inv_def tiny_state using tiny_fs_ok tiny_user_buf [of 32] by simp
  show ?thesis using directory_read_to_end [OF inv, of 2 32] unfolding rest by auto
qed

end
