(* ===== verification/Kernel_State.thy ===== *)
theory Kernel_State
  imports Filesystem
begin

text \<open>
  The global variables of the kernel above the drivers: process control blocks and the terminal
  processes (\<^verbatim>\<open>syscall.h\<close>, \<^verbatim>\<open>scheduling.h\<close>), the variables of
  \<^verbatim>\<open>syscall.c\<close>, \<^verbatim>\<open>scheduling.c\<close> and \<^verbatim>\<open>keyboard.c\<close>, and the one field of
  the task state segment the kernel changes. A control block lives at a fixed address per slot;
  the blocks are a store indexed by that address. The three \<^verbatim>\<open>process_t\<close> variables and
  the pointers between them are a three-element type and a function. Calls that do not return to
  their caller (a jump to user mode, a switch to another kernel stack) are values of
  \<open>outcome\<close>.
\<close>

datatype proc_id = process1 | process2 | process3

record pcb_t =
  pcb_fd :: "file_t list"
  pid :: int
  pcb_filename :: cbuf
  stack :: u32
  parent :: u32
  oldebp :: u32
  oldesp :: u32
  haltebp :: u32
  haltesp :: u32

record process_t =
  pcb :: u32
  screen :: int
  ebp :: u32
  esp :: u32
  next_proc :: "proc_id option"

text \<open>What \<^verbatim>\<open>scheduling.c\<close> keeps per terminal: \<^verbatim>\<open>screenNx\<close>, \<^verbatim>\<open>screenNy\<close>, \<^verbatim>\<open>tbufN\<close>, \<^verbatim>\<open>bufferN\<close>.\<close>

record saved_screen =
  saved_x :: int
  saved_y :: int
  saved_tbuf :: int
  saved_buffer :: "u8 list"

record kernel = files +
  pnum :: int
  pnumarr :: "int list"
  curr_pcb :: u32
  pcbs :: "u32 \<Rightarrow> pcb_t"
  trfotp :: fops_t
  twfotp :: fops_t
  rfotp :: fops_t
  dfotp :: fops_t
  ffotp :: fops_t
  filename :: "u8 list"
  arg :: "u8 list"
  dentry :: dentry_t
  dt :: dentry_t
  addrPage :: u32
  tss_esp0 :: u32
  indicator :: int
  fts_1 :: int
  fts_2 :: int
  fts_3 :: int
  active :: int
  saved1 :: saved_screen
  saved2 :: saved_screen
  saved3 :: saved_screen
  procs :: "proc_id \<Rightarrow> process_t"
  head :: "proc_id option"
  shift_flag :: bool
  ctrl_flag :: bool
  alt_flag :: bool
  caps_lock :: bool

text \<open>
  How a kernel entry ends: an ordinary return; a jump to user mode at an entry point; a return
  on the kernel stack of the parent process with a status; a memory access the processor
  refuses or the C code leaves undefined.
\<close>

datatype outcome = Returned int | EnterUser u32 | ResumeParent u32 u32 u8 | Fault

section \<open>Stores through the translation\<close>

fun store_bytes :: "xlat \<Rightarrow> u32 \<Rightarrow> u8 list \<Rightarrow> mem \<Rightarrow> mem" where
  "store_bytes tr p [] m = m"
| "store_bytes tr p (b # bs) m = store_bytes tr (p + 1) bs (m(tr p := b))"

lemma store_bytes_frame: "a \<notin> tr ` region p (length bs) \<Longrightarrow> store_bytes tr p bs m a = m a"
  by (induction bs arbitrary: p m) (auto simp: region_Suc)

lemma store_bytes_val:
  assumes "inj_on tr (region p (length bs))" and "length bs \<le> 2 ^ 32" and "j < length bs"
  shows "store_bytes tr p bs m (tr (p + of_nat j)) = bs ! j"
  using assms
proof (induction bs arbitrary: p m j)
  case Nil
  then show ?case by simp
next
  case (Cons b bs)
  show ?case
  proof (cases j)
    case 0
    have "p \<notin> region (p + 1) (length bs)"
    proof
      assume "p \<in> region (p + 1) (length bs)"
      then obtain i where "i < length bs" "p = p + of_nat (Suc i)" by (auto simp: region_def algebra_simps)
      then show False using of_nat_u32_inj [of 0 "Suc i"] Cons.prems(2) by simp
    qed
    then have "tr p \<notin> tr ` region (p + 1) (length bs)"
      using Cons.prems(1) by (auto simp: region_Suc inj_on_def)
    then show ?thesis using 0 by (simp add: store_bytes_frame)
  next
    case (Suc i)
    have "inj_on tr (region (p + 1) (length bs))" using Cons.prems(1) by (simp add: region_Suc inj_on_def)
    then have "store_bytes tr (p + 1) bs (m(tr p := b)) (tr (p + 1 + of_nat i)) = bs ! i"
      using Cons.prems(2,3) Suc by (intro Cons.IH) simp_all
    then show ?thesis using Suc by (simp add: algebra_simps)
  qed
qed

section \<open>The initial state\<close>

text \<open>
  The state the boot loader leaves: zeroed variables except the initialised ones
  (\<^verbatim>\<open>indicator\<close>, \<^verbatim>\<open>active\<close>, \<^verbatim>\<open>tss.esp0\<close>), over a memory \<open>m\<close> with a file system image at
  \<open>fs\<close>.
\<close>

definition null_fops :: fops_t where
  "null_fops = \<lparr>f_open = open_NULL, f_read = read_NULL, f_write = write_NULL, f_close = close_NULL\<rparr>"

definition null_file :: file_t where
  "null_file = \<lparr>fotp = null_fops, inode = 0, fposition = 0, flags = 0\<rparr>"

definition null_pcb :: pcb_t where
  "null_pcb = \<lparr>pcb_fd = replicate 8 null_file, pid = 0, pcb_filename = (\<lambda>i. 0), stack = 0, parent = 0,
     oldebp = 0, oldesp = 0, haltebp = 0, haltesp = 0\<rparr>"

definition null_screen :: saved_screen where
  "null_screen = \<lparr>saved_x = 0, saved_y = 0, saved_tbuf = 0, saved_buffer = replicate 129 0\<rparr>"

definition null_dentry :: dentry_t where
  "null_dentry = \<lparr>de_name = 0, de_ftype = 0, de_inode = 0\<rparr>"

definition blank_kernel :: "mem \<Rightarrow> u32 \<Rightarrow> kernel" where
  "blank_kernel m fs = \<lparr>phys = m, io_log = [], iflag = False, read_flag = 0, quantum = 0,
     screen_x = 0, screen_y = 0, tbuffer = replicate 129 0, tbuf = 0, tflag = 0,
     page_directory = replicate page_entries 0, page_table = replicate page_entries 0,
     page_table_2 = replicate page_entries 0, pt_addr = 0x40A000, pt2_addr = 0x40B000,
     tlb = Map.empty, paging_on = False, FSYSTEM = fs, fd = replicate 8 null_file,
     pnum = 0, pnumarr = replicate 6 0, curr_pcb = 0, pcbs = (\<lambda>a. null_pcb),
     trfotp = null_fops, twfotp = null_fops, rfotp = null_fops, dfotp = null_fops, ffotp = null_fops,
     filename = replicate 32 0, arg = replicate 32 0, dentry = null_dentry, dt = null_dentry,
     addrPage = 0, tss_esp0 = 0x800000, indicator = 1, fts_1 = 0, fts_2 = 0, fts_3 = 0, active = 1,
     saved1 = null_screen, saved2 = null_screen, saved3 = null_screen,
     procs = (\<lambda>p. \<lparr>pcb = 0, screen = 0, ebp = 0, esp = 0, next_proc = None\<rparr>), head = None,
     shift_flag = False, ctrl_flag = False, alt_flag = False, caps_lock = False\<rparr>"

lemma blank_kernel_xl: "xl (blank_kernel m fs) = id"
  by (intro ext) (simp add: xl_def walk_def blank_kernel_def dir_index_less)

lemma blank_kernel_tables: "tables_ok (blank_kernel m fs)"
  by (simp add: tables_ok_def blank_kernel_def frame_of_def)

end
