(* ===== verification/Terminal.thy ===== *)
theory Terminal
  imports Kernel_State
begin

text \<open>
  The terminal driver, \<^verbatim>\<open>student-distrib/terminal.c\<close>. Both blocking loops are runs over the
  interrupt handlers that arrive meanwhile (\<open>await\<close>); \<open>None\<close> is a call that still
  waits. Buffers of the caller are reached through the page tables (\<open>xl\<close>).
\<close>

definition terminal_read ::
    "(kernel \<Rightarrow> kernel) list \<Rightarrow> u32 \<Rightarrow> int \<Rightarrow> kernel \<Rightarrow> (int \<times> kernel) option" where
  "terminal_read irqs buf n s =
     (case await (\<lambda>s. tflag s = 0) irqs (s\<lparr>tbuf := 0, tflag := 1\<rparr>) of
        None \<Rightarrow> None
      | Some s \<Rightarrow>
          let s = s\<lparr>phys := byte_fill (xl s) 129 buf 0 (phys s)\<rparr>;
              s = (if tbuf s < 128 then s\<lparr>tbuffer := (tbuffer s)[nat (tbuf s) := 10]\<rparr>
                   else s\<lparr>tbuffer := (tbuffer s)[128 := 10], tbuf := 127\<rparr>)
          in if tbuf s > n
             then let m = store_bytes (xl s) buf (take (nat n) (tbuffer s)) (phys s)
                  in Some (n, s\<lparr>phys := m(xl s (buf + word_of_int n) := 10)\<rparr>)
             else let m = store_bytes (xl s) buf (take (nat (tbuf s)) (tbuffer s)) (phys s)
                  in Some (tbuf s + 1, s\<lparr>phys := m(xl s (buf + word_of_int (tbuf s)) := 10)\<rparr>))"

text \<open>
  \<^verbatim>\<open>terminal_write\<close> first waits until the terminal of the running process is the one on
  the screen; \<^verbatim>\<open>head\<close> is dereferenced, which faults when there is no process.
\<close>

definition terminal_write ::
    "(kernel \<Rightarrow> kernel) list \<Rightarrow> u32 \<Rightarrow> int \<Rightarrow> kernel \<Rightarrow> (outcome \<times> kernel) option" where
  "terminal_write irqs buf n s =
     (if head s = None then Some (Fault, s)
      else case await (\<lambda>s. case head s of None \<Rightarrow> False | Some h \<Rightarrow> indicator s = screen (procs s h)) irqs s of
        None \<Rightarrow> None
      | Some s \<Rightarrow>
          Some (Returned 0, fold (\<lambda>i s. putc (phys s (xl s (buf + of_nat i))) s) [0..<nat n] s))"

definition terminal_invalid_read :: "kernel \<Rightarrow> int \<times> kernel" where
  "terminal_invalid_read s = (-1, s)"

definition terminal_invalid_write :: "kernel \<Rightarrow> int \<times> kernel" where
  "terminal_invalid_write s = (-1, s)"

definition terminal_open :: "kernel \<Rightarrow> int \<times> kernel" where
  "terminal_open s = (-1, s)"

definition terminal_close :: "kernel \<Rightarrow> int \<times> kernel" where
  "terminal_close s = (-1, s)"

section \<open>Reading a line\<close>

text \<open>Typing: the characters of a line, none of them a line end, then a line feed.\<close>

lemma await_typing:
  assumes "tflag s \<noteq> 0" and "\<forall>c \<in> set cs. c \<noteq> 10 \<and> c \<noteq> 13" and "console_ok s"
    and "\<forall>c \<in> set cs. c \<noteq> 8"
  shows "await (\<lambda>s. tflag s = 0) (map putc (cs @ [10])) s = Some (fold putc (cs @ [10]) s)"
  using assms
proof (induction cs arbitrary: s)
  case Nil
  then show ?case by (simp add: putc_def putc_newline_def Let_def)
next
  case (Cons c cs)
  have "tflag (putc c s) \<noteq> 0" using Cons.prems by (simp add: putc_def putc_print_line)
  moreover have "console_ok (putc c s)" using Cons.prems by (simp add: console_ok_putc)
  ultimately show ?case using Cons by simp
qed

lemma byte_fill_zero: "byte_fill tr n p 0 m a = (if a \<in> tr ` region p n then 0 else m a)"
  by (simp add: byte_fill_val byte_fill_frame)

text \<open>The 129 bytes the driver hands over for the line \<open>l\<close>.\<close>

lemma inj_region_off:
  assumes "inj_on tr (region p n)" and "i < n" and "j < n" and "n \<le> 2 ^ 32"
  shows "tr (p + of_nat i) = tr (p + of_nat j) \<longleftrightarrow> i = j"
proof
  assume "tr (p + of_nat i) = tr (p + of_nat j)"
  then have "p + of_nat i = p + of_nat j"
    by (rule inj_onD [OF assms(1) _ region_memI [OF assms(2)] region_memI [OF assms(3)]])
  then show "i = j" using assms(2-4) of_nat_u32_inj [of i j] by simp
qed simp

lemma store_line:
  assumes inj: "inj_on tr (region p 129)" and l: "length l \<le> 128" and j: "j < 129"
  shows "((store_bytes tr p l (byte_fill tr 129 p 0 m))(tr (p + of_nat (length l)) := 10)) (tr (p + of_nat j)) =
    padded (l @ [10]) j"
proof -
  have off: "tr (p + of_nat j) = tr (p + of_nat i) \<longleftrightarrow> j = i" if "i < 129" for i
    using inj_region_off [OF inj j that] by simp
  have inj': "inj_on tr (region p (length l))"
    by (rule inj_on_subset [OF inj]) (rule region_mono, use l in simp)
  have "store_bytes tr p l (byte_fill tr 129 p 0 m) (tr (p + of_nat j)) = (if j < length l then l ! j else 0)"
  proof (cases "j < length l")
    case True
    then show ?thesis using store_bytes_val [OF inj' _ True] l by simp
  next
    case False
    have "tr (p + of_nat j) \<notin> tr ` region p (length l)"
    proof
      assume "tr (p + of_nat j) \<in> tr ` region p (length l)"
      then obtain i where "i < length l" "tr (p + of_nat j) = tr (p + of_nat i)" by blast
      then show False using off [of i] l False by simp
    qed
    then show ?thesis using False j by (auto simp: store_bytes_frame byte_fill_zero)
  qed
  then show ?thesis using off [of "length l"] l by (auto simp: padded_def nth_append)
qed

lemma terminal_read_result:
  assumes aw: "await (\<lambda>s. tflag s = 0) irqs (s\<lparr>tbuf := 0, tflag := 1\<rparr>) = Some t"
    and l: "0 \<le> tbuf t" "tbuf t \<le> 127" "length (tbuffer t) = 129" and n: "tbuf t \<le> n"
    and inj: "inj_on (xl t) (region buf 129)"
  obtains u where "terminal_read irqs buf n s = Some (int (length (line t)) + 1, u)"
    and "\<forall>j < 129. phys u (xl t (buf + of_nat j)) = padded (line t @ [10]) j"
proof -
  have len: "int (length (line t)) = tbuf t" using l by (simp add: line_def)
  let ?m = "byte_fill (xl t) 129 buf 0 (phys t)"
  let ?m' = "(store_bytes (xl t) buf (line t) ?m)(xl t (buf + word_of_int (tbuf t)) := 10)"
  let ?u = "t\<lparr>phys := ?m', tbuffer := (tbuffer t)[nat (tbuf t) := 10]\<rparr>"
  have x: "xl (t\<lparr>phys := a, tbuffer := b\<rparr>) = xl t" for a b by (rule xl_cong) simp_all
  have tk: "take (nat (tbuf t)) ((tbuffer t)[nat (tbuf t) := 10]) = line t" by (simp add: line_def)
  have "terminal_read irqs buf n s = Some (tbuf t + 1, ?u)"
    unfolding terminal_read_def aw using l(2) n by (simp add: Let_def x tk)
  moreover have "\<forall>j < 129. phys ?u (xl t (buf + of_nat j)) = padded (line t @ [10]) j"
  proof -
    have w: "word_of_int (tbuf t) = (of_nat (length (line t)) :: u32)" unfolding len [symmetric] by simp
    show ?thesis unfolding w using store_line [OF inj, of "line t"] len l(2) by simp
  qed
  ultimately show ?thesis using that len by simp
qed

text \<open>
  Typing a line: when the characters \<open>cs\<close> (at most 127, without backspace and line
  ends) and a line feed arrive while \<^verbatim>\<open>terminal_read\<close> waits, it returns
  \<open>length cs + 1\<close> and its buffer holds the line with its line feed, followed by zeros up to
  129 bytes.
\<close>

theorem terminal_read_typed_line:
  assumes "console_ok s" and "\<forall>c \<in> set cs. c \<notin> {8, 10, 13}" and "length cs \<le> 127"
    and "int (length cs) \<le> n" and "inj_on (xl s) (region buf 129)"
  shows "\<exists>u. terminal_read (map putc (cs @ [10])) buf n s = Some (int (length cs) + 1, u) \<and>
    (\<forall>j < 129. phys u (xl s (buf + of_nat j)) = padded (cs @ [10]) j)"
proof -
  let ?s = "s\<lparr>tbuf := 0, tflag := 1\<rparr>" and ?t = "fold putc (cs @ [10]) (s\<lparr>tbuf := 0, tflag := 1\<rparr>)"
  have ok: "console_ok ?s" using assms(1) by (auto simp: console_simps)
  have aw: "await (\<lambda>s. tflag s = 0) (map putc (cs @ [10])) ?s = Some ?t"
    using assms(2) ok by (intro await_typing) auto
  have okt: "console_ok ?t" using sink.put_all [OF ok, of "cs @ [10]"] assms(2) by auto
  have "editing (fold putc cs u) = (line u @ cs, True)" if "editing u = (line u, True)" "console_ok u"
    "length (line u @ cs) \<le> 127" "\<forall>c \<in> set cs. c \<notin> {8, 10, 13}" for u :: kernel and cs
    using that
  proof (induction cs arbitrary: u)
    case (Cons c cs)
    have e: "editing (putc c u) = (line u @ [c], True)"
      using Cons.prems putc_edit [OF Cons.prems(2), of c] by simp
    then have l: "line (putc c u) = line u @ [c]" by (simp add: editing_def)
    show ?case using Cons.IH [of "putc c u"] Cons.prems e l by (simp add: console_ok_putc)
  qed simp
  from this [of ?s cs] have "editing (fold putc cs ?s) = (cs, True)"
    using ok assms(2,3) by (simp add: editing_def line_def)
  then have "editing ?t = (cs, False)"
    using sink.put_all [OF ok, of cs] assms(2) putc_edit [of "fold putc cs ?s" 10] by simp
  then have lt: "line ?t = cs" by (simp add: editing_def)
  have tb: "tbuf ?t = int (length cs)"
    using length_line [OF okt] console_okD(3) [OF okt] unfolding lt by simp
  have "console_change ?s ?t" by (rule console_change_fold)
  then have "xl ?t = xl ?s" by (rule console_change_paging)
  also have "\<dots> = xl s" by (rule xl_cong) simp_all
  finally have x: "xl ?t = xl s" .
  obtain u where "terminal_read (map putc (cs @ [10])) buf n s = Some (int (length (line ?t)) + 1, u)"
    "\<forall>j < 129. phys u (xl ?t (buf + of_nat j)) = padded (line ?t @ [10]) j"
    by (rule terminal_read_result [OF aw]) (use tb console_okD(5) [OF okt] assms(3,4,5) x in simp_all)
  then show ?thesis unfolding lt x by blast
qed

theorem terminal_read_typed_line_witness:
  "\<exists>u. terminal_read (map putc (bytes_of ''ls'' @ [10])) 0x600000 128 (blank_kernel (\<lambda>a. 0) 0x500000) = Some (3, u) \<and>
    phys u 0x600001 = 115 \<and> phys u 0x600002 = 10 \<and> phys u 0x600003 = 0"
proof -
  let ?s = "blank_kernel (\<lambda>a. 0) 0x500000"
  have x: "xl ?s = id" by (rule blank_kernel_xl)
  have ok: "console_ok ?s" by (simp add: console_simps blank_kernel_def)
  have cs: "\<forall>c \<in> set (bytes_of ''ls''). c \<notin> {8, 10, 13}" by (simp add: bytes_of_def)
  have n: "length (bytes_of ''ls'') \<le> 127" "int (length (bytes_of ''ls'')) \<le> 128" by (simp_all add: bytes_of_def)
  have "inj_on (xl ?s) (region 0x600000 129)" unfolding x by simp
  from terminal_read_typed_line [OF ok cs n this] obtain u where
    u: "terminal_read (map putc (bytes_of ''ls'' @ [10])) 0x600000 128 ?s = Some (int (length (bytes_of ''ls'')) + 1, u)"
    "\<forall>j < 129. phys u (xl ?s (0x600000 + of_nat j)) = padded (bytes_of ''ls'' @ [10]) j" by blast
  have "phys u 0x600001 = 115" "phys u 0x600002 = 10" "phys u 0x600003 = 0"
    using u(2) [rule_format, of 1] u(2) [rule_format, of 2] u(2) [rule_format, of 3]
    unfolding x by (simp_all add: padded_def bytes_of_def)
  with u(1) show ?thesis by (auto simp: bytes_of_def)
qed

section \<open>Writing\<close>

lemma write_loop:
  fixes s :: kernel
  assumes "console_ok s" and "\<forall>i \<in> set is. a i \<notin> region VIDEO 4002 \<and> phys s (a i) \<noteq> 8"
  shows "fold (\<lambda>i s. putc (phys s (a i)) s) is s = fold putc (map (\<lambda>i. phys s (a i)) is) s"
  using assms
proof (induction "is" arbitrary: s)
  case Nil
  then show ?case by simp
next
  case (Cons i "is")
  let ?t = "putc (phys s (a i)) s"
  have ok: "console_ok ?t" using Cons.prems by (simp add: console_ok_putc)
  have "video_only s ?t" using Cons.prems by (simp add: putc_video_only)
  then have same: "phys ?t (a j) = phys s (a j)" if "j \<in> set is" for j
    using that Cons.prems(2) by (simp add: video_only_def)
  have m: "map (\<lambda>i. phys ?t (a i)) is = map (\<lambda>i. phys s (a i)) is" using same by simp
  have "fold (\<lambda>i s. putc (phys s (a i)) s) is ?t = fold putc (map (\<lambda>i. phys ?t (a i)) is) ?t"
    by (rule Cons.IH [OF ok]) (use Cons.prems(2) same in auto)
  then show ?case unfolding m by simp
qed

lemma write_loop_xl:
  fixes s t :: kernel
  assumes "xl t = xl s"
  shows "fold (\<lambda>i s. putc (phys s (xl s (b i))) s) is t = fold (\<lambda>i u. putc (phys u (xl s (b i))) u) is t"
  using assms
proof (induction "is" arbitrary: t)
  case (Cons i "is")
  have "xl (putc (phys t (xl s (b i))) t) = xl s"
    using console_change_paging(7) [OF console_change_putc, of "phys t (xl s (b i))" t] Cons.prems by simp
  then show ?case using Cons by simp
qed simp

lemma terminal_write_ok:
  assumes "head s = Some h" and "screen (procs s h) = indicator s" and "console_ok s"
    and "\<forall>i < nat n. xl s (buf + of_nat i) \<notin> region VIDEO 4002 \<and> phys s (xl s (buf + of_nat i)) \<noteq> 8"
  shows "\<exists>t. terminal_write irqs buf n s = Some (Returned 0, t) \<and>
    t = fold putc (map (\<lambda>i. phys s (xl s (buf + of_nat i))) [0..<nat n]) s \<and> console_ok t \<and> video_only s t"
proof -
  have "await (\<lambda>s. case head s of None \<Rightarrow> False | Some h \<Rightarrow> indicator s = screen (procs s h)) irqs s = Some s"
    using assms(1,2) by (cases irqs) simp_all
  moreover have "fold (\<lambda>i s. putc (phys s (xl s (buf + of_nat i))) s) [0..<nat n] s =
      fold putc (map (\<lambda>i. phys s (xl s (buf + of_nat i))) [0..<nat n]) s"
    using assms(3,4) by (subst write_loop_xl [where s = s], simp, intro write_loop) auto
  moreover have "console_ok (fold putc (map (\<lambda>i. phys s (xl s (buf + of_nat i))) [0..<nat n]) s) \<and>
      video_only s (fold putc (map (\<lambda>i. phys s (xl s (buf + of_nat i))) [0..<nat n]) s)"
    by (rule sink.put_all [OF assms(3)]) (use assms(4) in auto)
  ultimately show ?thesis using assms(1) by (simp add: terminal_write_def)
qed

text \<open>
  \<^verbatim>\<open>terminal_write\<close> on the terminal that is on the screen returns 0 and prints exactly the
  bytes of the caller's buffer, in order; the console invariant is kept and no memory but the
  video memory changes.
\<close>

theorem terminal_write_prints:
  assumes "head s = Some h" and "screen (procs s h) = indicator s" and "console_ok s"
    and "\<forall>i < nat n. xl s (buf + of_nat i) \<notin> region VIDEO 4002 \<and> phys s (xl s (buf + of_nat i)) \<noteq> 8"
  shows "\<exists>t. terminal_write irqs buf n s = Some (Returned 0, t) \<and>
    t = fold putc (map (\<lambda>i. phys s (xl s (buf + of_nat i))) [0..<nat n]) s \<and> console_ok t \<and> video_only s t"
  using assms by (rule terminal_write_ok)

theorem terminal_write_prints_witness:
  "\<exists>s t. terminal_write [] 0x600000 1 s = Some (Returned 0, t) \<and> phys t VIDEO = 65"
proof -
  let ?p = "\<lparr>pcb = 0, screen = 1, ebp = 0, esp = 0, next_proc = Some process1\<rparr>"
  let ?s = "(blank_kernel (\<lambda>a. 65) 0x500000)\<lparr>head := Some process1, procs := (\<lambda>p. ?p)\<rparr>"
  have x: "xl ?s = id" using blank_kernel_xl by (subst xl_cong [of _ "blank_kernel (\<lambda>a. 65) 0x500000"]) simp_all
  have h: "head ?s = Some process1" and i: "screen (procs ?s process1) = indicator ?s"
    and p: "phys ?s = (\<lambda>a. 65)" by (simp_all add: blank_kernel_def)
  have ok: "console_ok ?s" by (simp add: console_simps blank_kernel_def)
  have "\<forall>i < nat 1. xl ?s (0x600000 + of_nat i) \<notin> region VIDEO 4002 \<and> phys ?s (xl ?s (0x600000 + of_nat i)) \<noteq> 8"
    unfolding x p by (simp add: region_nowrap VIDEO_def)
  from terminal_write_prints [OF h i ok this, of "[]"] obtain t where
    t: "terminal_write [] 0x600000 1 ?s = Some (Returned 0, t)" "t = putc 65 ?s" by (auto simp: p)
  have "phys t VIDEO = 65" unfolding t(2)
    by (simp add: putc_def putc_print_def blank_kernel_def Let_def NUM_COLS_def cell_def)
  with t(1) show ?thesis by blast
qed

end
