(* ===== verification/Exec.thy ===== *)
theory Exec
  imports Terminal
begin

text \<open>
  Starting a program: the part of \<^verbatim>\<open>student-distrib/syscall.c\<close> that \<^verbatim>\<open>execute\<close> uses.
  What a call depends on besides the kernel state is in \<open>env\<close>: the devices, the interrupt
  handlers that arrive while the call waits, the stack address of its local array, and the
  stack registers at the calls of \<^verbatim>\<open>Save\<close> and \<^verbatim>\<open>contextSwitch\<close>, which store them.
\<close>

definition KERNELBOT :: int where "KERNELBOT = 0x800000"
definition STACKSIZE :: int where "STACKSIZE = 0x8000"
definition EXEC_LOCATION :: u32 where "EXEC_LOCATION = 0x08048000"
definition TASK_SIZE :: u32 where "TASK_SIZE = 1024 * 4096"
definition CONTEXTSWITCH_OFF :: u32 where "CONTEXTSWITCH_OFF = 24"
definition VM_VIRTUAL_OFF :: nat where "VM_VIRTUAL_OFF = 32"
definition USER_VIDEO :: u32 where "USER_VIDEO = 0x084B8000"

record env =
  dev :: device
  irqs :: "(kernel \<Rightarrow> kernel) list"
  stk :: u32
  save_regs :: "u32 \<times> u32"
  switch_regs :: "u32 \<times> u32"

section \<open>Splitting the command\<close>

text \<open>
  The inner loop of \<^verbatim>\<open>parse_arg\<close> copies a word to index \<open>i\<close> on; the arrays have 32
  bytes, and \<open>None\<close> is a store behind the end. The outer loop is a step function: \<open>in_arg\<close>
  tells which array \<^verbatim>\<open>curr\<close> points to. It only ends by itself in the file name or at
  index 32, so after an argument it goes on behind the terminator.
\<close>

function copy_word :: "cbuf \<Rightarrow> nat \<Rightarrow> nat \<Rightarrow> u8 list \<Rightarrow> (nat \<times> nat \<times> u8 list) option" where
  "copy_word buf i c cur =
     (if buf c \<noteq> 0 \<and> buf c \<noteq> 32 then
        (if i < 32 then copy_word buf (Suc i) (Suc c) (cur[i := buf c]) else None)
      else Some (i, c, cur))"
  by pat_completeness auto
termination by (relation "measure (\<lambda>(buf, i, c, cur). 32 - i)") auto

declare copy_word.simps [simp del]

datatype parsed = Parsed "u8 list" "u8 list" | Overflow

definition parse_step :: "cbuf \<Rightarrow> bool \<times> nat \<times> nat \<times> u8 list \<times> u8 list \<Rightarrow>
    parsed + (bool \<times> nat \<times> nat \<times> u8 list \<times> u8 list)" where
  "parse_step buf st =
     (let (in_arg, i, c, fname, argument) = st
      in if \<not> i < 32 then Inl (Parsed fname argument)
         else case copy_word buf i c (if in_arg then argument else fname) of
             None \<Rightarrow> Inl Overflow
           | Some (i, c, cur) \<Rightarrow>
               if \<not> i < 32 then Inl Overflow
               else let cur = cur[i := 0];
                        fname = (if in_arg then fname else cur);
                        argument = (if in_arg then cur else argument)
                    in if buf c = 32 then Inr (True, 0, Suc c, fname, argument)
                       else if \<not> in_arg then Inl (Parsed fname (argument[0 := 0]))
                       else Inr (in_arg, Suc i, Suc c, fname, argument))"

partial_function (option) parse_loop ::
    "cbuf \<Rightarrow> bool \<times> nat \<times> nat \<times> u8 list \<times> u8 list \<Rightarrow> parsed option" where
  "parse_loop buf st = (case parse_step buf st of Inl r \<Rightarrow> Some r | Inr st' \<Rightarrow> parse_loop buf st')"

definition parse_arg :: "cbuf \<Rightarrow> kernel \<Rightarrow> (parsed \<times> kernel) option" where
  "parse_arg buf s = map_option (\<lambda>r. (r, case r of
       Parsed fname argument \<Rightarrow> s\<lparr>filename := fname, arg := argument\<rparr>
     | Overflow \<Rightarrow> s)) (parse_loop buf (False, 0, 0, filename s, arg s))"

section \<open>Checking and placing the program\<close>

definition checkFile :: "env \<Rightarrow> kernel \<Rightarrow> int \<times> kernel" where
  "checkFile e s =
     (case read_dentry_by_name (xl s) (phys s) (FSYSTEM s) (Some (lit (filename s))) of
        None \<Rightarrow> (-1, s)
      | Some d \<Rightarrow>
          let s = s\<lparr>dentry := d\<rparr>;
              s = s\<lparr>phys := snd (read_data (xl s) (FSYSTEM s) (de_inode d) 0 (stk e) 4 (phys s))\<rparr>;
              buf = buf_at (xl s) (phys s) (stk e)
          in if buf 0 = 0x7f \<and> buf 1 = 0x45 \<and> buf 2 = 0x4c \<and> buf 3 = 0x46 then (0, s) else (-1, s))"

definition take_slot :: "nat \<Rightarrow> kernel \<Rightarrow> int \<times> kernel" where
  "take_slot i s = (0, s\<lparr>pnumarr := (pnumarr s)[i := 1], pnum := int i\<rparr>)"

fun free_slot :: "int list \<Rightarrow> nat \<Rightarrow> nat \<Rightarrow> nat option" where
  "free_slot a i 0 = None"
| "free_slot a i (Suc k) = (if a ! i = 0 then Some i else free_slot a (Suc i) k)"

definition setPnum :: "kernel \<Rightarrow> int \<times> kernel" where
  "setPnum s =
     (if indicator s = 1 \<and> pnumarr s ! 0 = 0 then take_slot 0 s
      else if indicator s = 2 \<and> pnumarr s ! 1 = 0 then take_slot 1 s
      else if indicator s = 3 \<and> pnumarr s ! 2 = 0 then take_slot 2 s
      else case free_slot (pnumarr s) 3 3 of Some i \<Rightarrow> take_slot i s | None \<Rightarrow> (-1, s))"

definition setupPage :: "kernel \<Rightarrow> kernel" where
  "setupPage s =
     (let s = s\<lparr>addrPage := KERNEL + TASK_SIZE * word_of_int (pnum s + 1)\<rparr>;
          s = setupPagingDirectory RESERV_CODE (addrPage s) VM_VIRTUAL_OFF s
      in flushTLB s)"

definition parentPage :: "kernel \<Rightarrow> kernel" where
  "parentPage s =
     (let s = s\<lparr>addrPage := KERNEL + TASK_SIZE * word_of_int (pnum s + 1)\<rparr>;
          s = setupPagingDirectory RESERV_CODE (addrPage s) VM_VIRTUAL_OFF s
      in flushTLB s)"

definition loadFile :: "kernel \<Rightarrow> kernel" where
  "loadFile s =
     s\<lparr>phys := snd (read_data (xl s) (FSYSTEM s) (de_inode (dentry s)) 0 EXEC_LOCATION TASK_SIZE (phys s))\<rparr>"

definition initFOTP :: "kernel \<Rightarrow> kernel" where
  "initFOTP s =
     (let tr = \<lparr>f_open = open_terminal, f_read = read_terminal, f_write = write_invalid, f_close = close_terminal\<rparr>;
          tw = \<lparr>f_open = open_terminal, f_read = read_invalid, f_write = write_terminal, f_close = close_terminal\<rparr>;
          r = \<lparr>f_open = open_rtc, f_read = read_rtc, f_write = write_rtc, f_close = close_rtc\<rparr>;
          d = \<lparr>f_open = open_file, f_read = read_directory, f_write = write_file, f_close = close_file\<rparr>;
          f = \<lparr>f_open = open_file, f_read = read_file, f_write = write_file, f_close = close_file\<rparr>
      in s\<lparr>trfotp := tr, twfotp := tw, rfotp := r, dfotp := d, ffotp := f,
           fd := (fd s)[0 := \<lparr>fotp = tr, inode = 0, fposition = 0, flags = 1\<rparr>,
                        1 := \<lparr>fotp = tw, inode = 0, fposition = 1, flags = 1\<rparr>]\<rparr>)"

section \<open>Process control blocks\<close>

definition set_pcb :: "u32 \<Rightarrow> (pcb_t \<Rightarrow> pcb_t) \<Rightarrow> kernel \<Rightarrow> kernel" where
  "set_pcb a f s = s\<lparr>pcbs := (pcbs s)(a := f (pcbs s a))\<rparr>"

definition set_proc :: "proc_id \<Rightarrow> (process_t \<Rightarrow> process_t) \<Rightarrow> kernel \<Rightarrow> kernel" where
  "set_proc p f s = s\<lparr>procs := (procs s)(p := f (procs s p))\<rparr>"

text \<open>\<^verbatim>\<open>strcpy\<close> between the 32-byte name arrays.\<close>

definition copy_name :: "cbuf \<Rightarrow> cbuf \<Rightarrow> cbuf" where
  "copy_name src dst = (\<lambda>i. if i \<le> length (cprefix 32 src) then src i else dst i)"

text \<open>
  The search for the process of the current terminal, \<open>k\<close> turns left: \<open>None\<close> follows a
  \<^verbatim>\<open>NULL\<close> pointer, \<open>Some None\<close> is not found.
\<close>

fun find_screen :: "nat \<Rightarrow> proc_id option \<Rightarrow> kernel \<Rightarrow> proc_id option option" where
  "find_screen 0 cur s = Some None"
| "find_screen (Suc k) cur s =
     (case cur of
        None \<Rightarrow> None
      | Some p \<Rightarrow> if screen (procs s p) = indicator s then Some (Some p)
                 else find_screen k (next_proc (procs s p)) s)"

definition current_process :: "kernel \<Rightarrow> proc_id option option" where
  "current_process s = (if head s = None then Some None else find_screen 3 (head s) s)"

definition pcb_at :: "int \<Rightarrow> u32" where
  "pcb_at p = word_of_int (KERNELBOT - STACKSIZE * (p + 1))"

definition stack_top :: "int \<Rightarrow> u32" where
  "stack_top p = word_of_int (KERNELBOT - STACKSIZE * p - 1)"

definition entry_point :: "kernel \<Rightarrow> u32" where
  "entry_point s = rd32 (xl s) (phys s) (EXEC_LOCATION + CONTEXTSWITCH_OFF)"

text \<open>
  A new terminal process: \<open>new\<close> is entered into the ring, \<open>save\<close> is the process whose
  control block receives the registers. The last case leaves \<^verbatim>\<open>save\<close> uninitialised.
\<close>

definition new_process :: "kernel \<Rightarrow> (proc_id option \<times> kernel) option" where
  "new_process s =
     (let p = \<lparr>pcb = curr_pcb s, screen = indicator s, ebp = stack_top (pnum s), esp = stack_top (pnum s),
               next_proc = Some process1\<rparr>
      in if active s = 1 then
           Some (Some process1, (set_proc process1 (\<lambda>q. p) s)\<lparr>head := Some process1\<rparr>)
         else if active s = 2 then
           Some (Some process1, (set_proc process1 (\<lambda>q. q\<lparr>next_proc := Some process2\<rparr>)
             (set_proc process2 (\<lambda>q. p) s))\<lparr>head := Some process2\<rparr>)
         else if active s = 3 then
           Some (head s, (set_proc process2 (\<lambda>q. q\<lparr>next_proc := Some process3\<rparr>)
             (set_proc process3 (\<lambda>q. p) s))\<lparr>head := Some process3\<rparr>)
         else None)"

definition fill_pcb :: "kernel \<Rightarrow> kernel" where
  "fill_pcb s =
     (let a = pcb_at (pnum s);
          s = set_pcb a (\<lambda>p. p\<lparr>pcb_fd := fd s, stack := stack_top (pnum s), parent := curr_pcb s, pid := pnum s,
                 pcb_filename := copy_name (lit (filename s)) (pcb_filename p)\<rparr>) s
      in s\<lparr>curr_pcb := a, tss_esp0 := stack_top (pnum s)\<rparr>)"

definition start_new :: "env \<Rightarrow> kernel \<Rightarrow> outcome \<times> kernel" where
  "start_new e s =
     (case new_process s of
        Some (Some save, s) \<Rightarrow>
          if pcb (procs s save) = 0 then (Fault, s)
          else (EnterUser (entry_point s),
                set_pcb (pcb (procs s save)) (\<lambda>p. p\<lparr>oldesp := fst (switch_regs e), oldebp := snd (switch_regs e)\<rparr>) s)
      | _ \<Rightarrow> (Fault, s))"

definition start_found :: "env \<Rightarrow> proc_id \<Rightarrow> kernel \<Rightarrow> outcome \<times> kernel" where
  "start_found e cur s =
     (let s = set_proc cur (\<lambda>q. q\<lparr>pcb := curr_pcb s, ebp := stack_top (pnum s), esp := stack_top (pnum s)\<rparr>) s;
          s = s\<lparr>head := Some cur\<rparr>;
          s = set_pcb (pcb (procs s cur)) (\<lambda>p. p\<lparr>oldesp := fst (save_regs e), oldebp := snd (save_regs e)\<rparr>) s
      in (EnterUser (entry_point s),
          set_pcb (pcb (procs s cur)) (\<lambda>p. p\<lparr>haltesp := fst (switch_regs e), haltebp := snd (switch_regs e)\<rparr>) s))"

definition createPCB :: "env \<Rightarrow> kernel \<Rightarrow> outcome \<times> kernel" where
  "createPCB e s =
     (let s = fill_pcb s
      in case current_process s of
           None \<Rightarrow> (Fault, s)
         | Some None \<Rightarrow> start_new e s
         | Some (Some cur) \<Rightarrow> start_found e cur s)"

section \<open>execute\<close>

definition too_many :: "u8 list" where
  "too_many = bytes_of ''Too many processes. Execute exit!'' @ [10]"

definition execute :: "env \<Rightarrow> cbuf \<Rightarrow> kernel \<Rightarrow> (outcome \<times> kernel) option" where
  "execute e buf s =
     (case parse_arg buf s of
        None \<Rightarrow> None
      | Some (Overflow, s) \<Rightarrow> Some (Fault, s)
      | Some (Parsed f a, s) \<Rightarrow>
          let (r, s) = checkFile e s
          in if r \<noteq> 0 then Some (Returned (-1), s)
             else let (r, s) = setPnum s
                  in if r \<noteq> 0 then
                       map_option (\<lambda>(n, s). (Returned 0, s)) (printf (\<lambda>p. lit []) (lit too_many) (\<lambda>k. 0) s)
                     else Some (createPCB e (initFOTP (loadFile (setupPage s)))))"

section \<open>Slot allocation\<close>

text \<open>
  The contract process slots and file descriptors share: an allocator that hands out a slot of
  a pool that is not busy, and fails only when there is none.
\<close>

fun alloc_many :: "('s \<Rightarrow> nat option \<times> 's) \<Rightarrow> nat \<Rightarrow> 's \<Rightarrow> nat list \<times> 's" where
  "alloc_many alloc 0 s = ([], s)"
| "alloc_many alloc (Suc k) s =
     (case alloc s of
        (None, t) \<Rightarrow> ([], t)
      | (Some i, t) \<Rightarrow> let (is, u) = alloc_many alloc k t in (i # is, u))"

locale slot_alloc =
  fixes alloc :: "'s \<Rightarrow> nat option \<times> 's" and inv :: "'s \<Rightarrow> bool" and busy :: "'s \<Rightarrow> nat set"
    and pool :: "'s \<Rightarrow> nat set"
  assumes alloc_fresh: "inv s \<Longrightarrow> alloc s = (Some i, t) \<Longrightarrow> i \<in> pool s \<and> i \<notin> busy s"
    and alloc_busy: "inv s \<Longrightarrow> alloc s = (Some i, t) \<Longrightarrow> busy t = insert i (busy s) \<and> pool t = pool s"
    and alloc_inv: "inv s \<Longrightarrow> alloc s = (Some i, t) \<Longrightarrow> inv t"
    and alloc_full: "inv s \<Longrightarrow> alloc s = (None, t) \<Longrightarrow> pool s \<subseteq> busy s \<and> t = s"
    and pool_finite: "inv s \<Longrightarrow> finite (pool s)"
begin

lemma alloc_iff: "inv s \<Longrightarrow> fst (alloc s) = None \<longleftrightarrow> pool s \<subseteq> busy s"
  using alloc_fresh [of s "the (fst (alloc s))" "snd (alloc s)"] alloc_full [of s "snd (alloc s)"]
  by (cases "alloc s"; cases "fst (alloc s)") auto

text \<open>Allocating \<open>k\<close> times: distinct free slots, and as many as there are.\<close>

lemma alloc_many_spec:
  "inv s \<Longrightarrow> alloc_many alloc k s = (is, t) \<Longrightarrow>
     distinct is \<and> set is \<subseteq> pool s - busy s \<and> length is = min k (card (pool s - busy s)) \<and>
     busy t = busy s \<union> set is"
proof (induction k arbitrary: s "is" t)
  case 0
  then show ?case by simp
next
  case (Suc k)
  note fin = pool_finite [OF Suc.prems(1)]
  show ?case
  proof (cases "alloc s")
    case (Pair r u)
    show ?thesis
    proof (cases r)
      case None
      with Pair Suc.prems alloc_full [of s u] have "is = []" "t = u" "pool s - busy s = {}" "u = s" by auto
      then show ?thesis by (metis card.empty distinct.simps(1) empty_subsetI list.set(1) list.size(3) min_0R sup_bot_right)
    next
      case (Some i)
      with Pair have a: "alloc s = (Some i, u)" by simp
      obtain js v where js: "alloc_many alloc k u = (js, v)" by (cases "alloc_many alloc k u")
      with Suc.prems a have is_js: "is = i # js" and tv: "t = v" by auto
      note st = alloc_fresh [OF Suc.prems(1) a] alloc_busy [OF Suc.prems(1) a] alloc_inv [OF Suc.prems(1) a]
      note IH = Suc.IH [OF st(3) js]
      have free: "pool u - busy u = pool s - busy s - {i}" using st(2) by auto
      have "card (pool s - busy s) = Suc (card (pool u - busy u))"
        unfolding free using st(1) fin by (subst card.remove [of _ i]) auto
      then have "length is = min (Suc k) (card (pool s - busy s))" using IH is_js by simp
      moreover have "distinct is" "set is \<subseteq> pool s - busy s"
        using IH st(1) unfolding is_js free by auto
      moreover have "busy t = busy s \<union> set is" using IH st(2) unfolding is_js tv by simp
      ultimately show ?thesis by blast
    qed
  qed
qed

end

text \<open>Process slots: the terminal's own slot and the three shared ones.\<close>

definition pnum_alloc :: "kernel \<Rightarrow> nat option \<times> kernel" where
  "pnum_alloc s = (let (r, t) = setPnum s in (if r = 0 then Some (nat (pnum t)) else None, t))"

definition pnum_ok :: "kernel \<Rightarrow> bool" where
  "pnum_ok s \<longleftrightarrow> length (pnumarr s) = 6 \<and> indicator s \<in> {1, 2, 3}"

definition pnum_pool :: "kernel \<Rightarrow> nat set" where
  "pnum_pool s = {nat (indicator s - 1), 3, 4, 5}"

definition pnum_busy :: "kernel \<Rightarrow> nat set" where
  "pnum_busy s = {i. i < 6 \<and> pnumarr s ! i \<noteq> 0}"

lemma free_slot_3: "free_slot a 3 3 =
   (if a ! 3 = 0 then Some 3 else if a ! 4 = 0 then Some 4 else if a ! 5 = 0 then Some 5 else None)"
  by (simp add: eval_nat_numeral)

lemma setPnum_unfold:
  assumes "pnum_ok s"
  defines "b \<equiv> nat (indicator s - 1)"
  shows "setPnum s =
    (if pnumarr s ! b = 0 then take_slot b s else if pnumarr s ! 3 = 0 then take_slot 3 s
     else if pnumarr s ! 4 = 0 then take_slot 4 s else if pnumarr s ! 5 = 0 then take_slot 5 s else (-1, s))"
  using assms by (auto simp: pnum_ok_def setPnum_def free_slot_3)

lemma pnum_alloc_cases:
  assumes "pnum_ok s"
  shows "pnum_alloc s = (None, s) \<and> pnum_pool s \<subseteq> pnum_busy s \<or>
    (\<exists>i \<in> pnum_pool s. i < 6 \<and> pnumarr s ! i = 0 \<and>
      pnum_alloc s = (Some i, s\<lparr>pnumarr := (pnumarr s)[i := 1], pnum := int i\<rparr>))"
proof -
  have "nat (indicator s - 1) < 6" using assms by (auto simp: pnum_ok_def)
  then show ?thesis
    unfolding pnum_alloc_def setPnum_unfold [OF assms] take_slot_def
    by (auto simp: pnum_pool_def pnum_busy_def)
qed

interpretation pslot: slot_alloc pnum_alloc pnum_ok pnum_busy pnum_pool
proof
  fix s t :: kernel and i
  assume s: "pnum_ok s"
  note c = pnum_alloc_cases [OF s]
  have len: "length (pnumarr s) = 6" using s by (simp add: pnum_ok_def)
  assume a: "pnum_alloc s = (Some i, t)"
  then have i: "i \<in> pnum_pool s" "i < 6" "pnumarr s ! i = 0"
    and t: "t = s\<lparr>pnumarr := (pnumarr s)[i := 1], pnum := int i\<rparr>" using c by auto
  show "i \<in> pnum_pool s \<and> i \<notin> pnum_busy s" using i by (simp add: pnum_busy_def)
  show "pnum_busy t = insert i (pnum_busy s) \<and> pnum_pool t = pnum_pool s"
    using i len by (auto simp: t pnum_busy_def pnum_pool_def nth_list_update)
  show "pnum_ok t" using s by (simp add: t pnum_ok_def)
next
  fix s t :: kernel
  assume "pnum_ok s" and "pnum_alloc s = (None, t)"
  then show "pnum_pool s \<subseteq> pnum_busy s \<and> t = s" using pnum_alloc_cases [of s] by auto
next
  show "finite (pnum_pool s)" for s by (simp add: pnum_pool_def)
qed

text \<open>
  C30. Process slots: starting programs from one terminal until it fails hands out pairwise
  distinct slots that were free, exactly as many as were free among the terminal's own slot and
  the three shared ones, and marks exactly these.
\<close>

theorem process_slots:
  assumes "pnum_ok s" and "alloc_many pnum_alloc k s = (is, t)"
  shows "distinct is \<and> set is \<subseteq> pnum_pool s - pnum_busy s \<and>
    length is = min k (card (pnum_pool s - pnum_busy s)) \<and> pnum_busy t = pnum_busy s \<union> set is"
  using assms by (rule pslot.alloc_many_spec)

theorem process_slots_witness:
  "length (fst (alloc_many pnum_alloc 9 (blank_kernel (\<lambda>a. 0) 0))) = 4"
proof -
  let ?s = "blank_kernel (\<lambda>a. 0) 0"
  have ok: "pnum_ok ?s" by (simp add: pnum_ok_def blank_kernel_def)
  have "pnum_busy ?s = {}" by (auto simp: pnum_busy_def blank_kernel_def)
  moreover have "card (pnum_pool ?s) = 4" by (simp add: pnum_pool_def blank_kernel_def)
  moreover obtain "is" t where it: "alloc_many pnum_alloc 9 ?s = (is, t)" by (cases "alloc_many pnum_alloc 9 ?s")
  ultimately show ?thesis using process_slots [OF ok it] by simp
qed

section \<open>What parse_arg splits\<close>

lemma copy_word_end: "buf c = 0 \<or> buf c = 32 \<Longrightarrow> copy_word buf i c d = Some (i, c, d)"
  by (subst copy_word.simps) auto

lemma copy_word_spec:
  assumes "\<forall>k < length w. buf (c + k) = w ! k" and "0 \<notin> set w" and "32 \<notin> set w"
    and "buf (c + length w) = 0 \<or> buf (c + length w) = 32" and "i + length w \<le> 32" and "length d = 32"
  shows "copy_word buf i c d = Some (i + length w, c + length w, take i d @ w @ drop (i + length w) d)"
  using assms
proof (induction w arbitrary: i c d)
  case Nil
  then show ?case by (simp add: copy_word_end)
next
  case (Cons x w)
  have x: "buf c = x" using Cons.prems(1) by (metis add.right_neutral length_greater_0_conv list.distinct(1) nth_Cons_0)
  have "buf (Suc c + k) = w ! k" if "k < length w" for k
    using Cons.prems(1) [rule_format, of "Suc k"] that by simp
  then have "copy_word buf (Suc i) (Suc c) (d[i := x]) =
      Some (Suc i + length w, Suc c + length w, take (Suc i) (d[i := x]) @ w @ drop (Suc i + length w) (d[i := x]))"
    using Cons.prems by (intro Cons.IH) simp_all
  moreover have "take (Suc i) (d[i := x]) = take i d @ [x]"
    using Cons.prems(5,6) by (simp add: take_upd_append)
  ultimately show ?case using Cons.prems(2,3,5) x by (subst copy_word.simps) simp
qed

lemma parse_tail:
  assumes "\<forall>k. c \<le> k \<and> k < c + (32 - i) \<longrightarrow> buf k = 0" and "i \<le> 32" and "length ar = 32"
  shows "parse_loop buf (True, i, c, fn, ar) = Some (Parsed fn (take i ar @ replicate (32 - i) 0))"
  using assms
proof (induction "32 - i" arbitrary: i c ar)
  case 0
  then show ?case by (subst parse_loop.simps) (simp add: parse_step_def)
next
  case (Suc n)
  then have i: "i < 32" by simp
  have "parse_step buf (True, i, c, fn, ar) = Inr (True, Suc i, Suc c, fn, ar[i := 0])"
    using i Suc.prems(1) by (simp add: parse_step_def copy_word_end)
  moreover have "parse_loop buf (True, Suc i, Suc c, fn, ar[i := 0]) =
      Some (Parsed fn (take (Suc i) (ar[i := 0]) @ replicate (32 - Suc i) 0))"
  proof (rule Suc.hyps(1))
    show "\<forall>k. Suc c \<le> k \<and> k < Suc c + (32 - Suc i) \<longrightarrow> buf k = 0" using Suc.prems(1) i by auto
  qed (use Suc.hyps(2) Suc.prems(3) i in simp_all)
  moreover have "take (Suc i) (ar[i := 0]) @ replicate (32 - Suc i) 0 = take i ar @ replicate (32 - i) 0"
    using i Suc.prems(3) by (simp add: take_upd_append replicate_app_Cons_same Suc_diff_Suc flip: replicate_Suc)
  ultimately show ?case by (subst parse_loop.simps) simp
qed

lemma cprefix_word:
  assumes "0 \<notin> set w" and "length w < 32" and "take (Suc (length w)) d = w @ [0]"
  shows "cprefix 32 (lit d) = w"
proof -
  have n: "length w < length d" using arg_cong [OF assms(3), of length] by simp
  have nth: "d ! k = (w @ [0]) ! k" if "k \<le> length w" for k
    using assms(3) that by (metis le_imp_less_Suc nth_take)
  have "is_cstr (lit d) (length w)"
    using nth n assms(1) by (auto simp: is_cstr_def lit_def nth_append) (metis nth_mem)
  then have "cprefix 32 (lit d) = map (lit d) [0..<length w]"
    using assms(2) by (intro cprefix_is_cstr) simp_all
  also have "\<dots> = w" using nth n by (intro nth_equalityI) (auto simp: lit_def nth_append)
  finally show ?thesis .
qed

lemma parse_arg_buf:
  assumes "0 \<notin> set name" "32 \<notin> set name" "length name < 32" and "0 \<notin> set a" "32 \<notin> set a" "length a < 32"
    and "cmd = name @ 32 # a \<or> (cmd = name \<and> a = [])"
    and "length (filename s) = 32" "length (arg s) = 32" and buf: "\<forall>j < 100. buf j = lit cmd j"
  shows "\<exists>fn ar. parse_arg buf s = Some (Parsed fn ar, s\<lparr>filename := fn, arg := ar\<rparr>) \<and>
    length fn = 32 \<and> length ar = 32 \<and> cprefix 32 (lit fn) = name \<and> cprefix 32 (lit ar) = a"
proof -
  let ?fn = "(name @ drop (length name) (filename s))[length name := 0]"
  have len: "length ?fn = 32" using assms(3,8) by simp
  have word: "buf (0 + k) = name ! k" if "k < length name" for k
    using assms(3,7) that buf by (auto simp: lit_def nth_append)
  have stop: "buf (0 + length name) = 0 \<or> buf (0 + length name) = 32"
    using assms(3,7) buf by (auto simp: lit_def nth_append)
  have cw: "copy_word buf 0 0 (filename s) =
      Some (length name, length name, name @ drop (length name) (filename s))"
    using copy_word_spec [of name buf 0 0 "filename s"] word stop assms(1-3,8) by simp
  have fn: "cprefix 32 (lit ?fn) = name"
    by (rule cprefix_word [OF assms(1,3)]) (use assms(3,8) in \<open>simp add: take_upd_append\<close>)
  show ?thesis
  proof (cases "cmd = name \<and> a = []")
    case True
    then have "buf (length name) = 0" using assms(3) buf by (simp add: lit_def)
    then have "parse_loop buf (False, 0, 0, filename s, arg s) = Some (Parsed ?fn ((arg s)[0 := 0]))"
      using assms(3) by (subst parse_loop.simps) (simp add: parse_step_def cw)
    moreover have "cprefix 32 (lit ((arg s)[0 := 0])) = []"
      by (rule cprefix_word) (use assms(9) in \<open>auto simp: take_Suc_conv_app_nth\<close>)
    ultimately show ?thesis using fn len assms(9) True by (auto simp: parse_arg_def)
  next
    case False
    then have cmd: "cmd = name @ 32 # a" using assms(7) by blast
    let ?ar = "(a @ drop (length a) (arg s))[length a := 0]"
    have sp: "buf (length name) = 32" using assms(3) buf by (simp add: cmd lit_def nth_append)
    have w2: "buf (Suc (length name) + k) = a ! k" if "k < length a" for k
      using that assms(3,6) buf by (simp add: cmd lit_def nth_append)
    have z: "buf k = 0" if "Suc (length name) + length a \<le> k" "k < 100" for k
      using that buf by (simp add: cmd lit_def)
    have cw2: "copy_word buf 0 (Suc (length name)) (arg s) =
        Some (length a, Suc (length name) + length a, a @ drop (length a) (arg s))"
      using copy_word_spec [of a buf "Suc (length name)" 0 "arg s"] w2 z [of "Suc (length name) + length a"] assms(3-6,9) by simp
    have "parse_loop buf (False, 0, 0, filename s, arg s) =
        parse_loop buf (True, 0, Suc (length name), ?fn, arg s)"
      using assms(3) sp by (subst parse_loop.simps) (simp add: parse_step_def cw)
    also have "\<dots> = parse_loop buf (True, Suc (length a), Suc (Suc (length name) + length a), ?fn, ?ar)"
      using assms(3,6) z [of "Suc (length name) + length a"]
      by (subst parse_loop.simps) (simp add: parse_step_def cw2)
    also have "\<dots> = Some (Parsed ?fn (take (Suc (length a)) ?ar @ replicate (32 - Suc (length a)) 0))"
      by (rule parse_tail) (use z assms(3,6,9) in auto)
    finally have p: "parse_loop buf (False, 0, 0, filename s, arg s) =
        Some (Parsed ?fn (take (Suc (length a)) ?ar @ replicate (32 - Suc (length a)) 0))" .
    have "take (Suc (length a)) ?ar = a @ [0]" using assms(6,9) by (simp add: take_upd_append)
    then have "cprefix 32 (lit (take (Suc (length a)) ?ar @ replicate (32 - Suc (length a)) 0)) = a"
      by (intro cprefix_word [OF assms(4,6)]) simp
    then show ?thesis using p fn len assms(6,9) by (auto simp: parse_arg_def)
  qed
qed

lemma parse_arg_ok:
  assumes "0 \<notin> set name" "32 \<notin> set name" "length name < 32" and "0 \<notin> set a" "32 \<notin> set a" "length a < 32"
    and "cmd = name @ 32 # a \<or> (cmd = name \<and> a = [])"
    and "length (filename s) = 32" "length (arg s) = 32"
  shows "\<exists>fn ar. parse_arg (lit cmd) s = Some (Parsed fn ar, s\<lparr>filename := fn, arg := ar\<rparr>) \<and>
    length fn = 32 \<and> length ar = 32 \<and> cprefix 32 (lit fn) = name \<and> cprefix 32 (lit ar) = a"
  using assms by (rule parse_arg_buf) simp

text \<open>
  \<^verbatim>\<open>parse_arg\<close> returns on every command line \<open>name\<close> or \<open>name argument\<close> whose
  words are shorter than 32 bytes and that is followed by zero bytes, and leaves the two words
  in \<^verbatim>\<open>filename\<close> and \<^verbatim>\<open>arg\<close> (the empty string if there is no argument).
\<close>

theorem parse_arg_splits:
  assumes "0 \<notin> set name" "32 \<notin> set name" "length name < 32" and "0 \<notin> set a" "32 \<notin> set a" "length a < 32"
    and "cmd = name @ 32 # a \<or> (cmd = name \<and> a = [])"
    and "length (filename s) = 32" "length (arg s) = 32"
  shows "\<exists>fn ar. parse_arg (lit cmd) s = Some (Parsed fn ar, s\<lparr>filename := fn, arg := ar\<rparr>) \<and>
    length fn = 32 \<and> length ar = 32 \<and> cprefix 32 (lit fn) = name \<and> cprefix 32 (lit ar) = a"
  using assms by (rule parse_arg_ok)

theorem parse_arg_splits_witness:
  "\<exists>fn ar s. parse_arg (lit (bytes_of ''cat x'')) s = Some (Parsed fn ar, s\<lparr>filename := fn, arg := ar\<rparr>) \<and>
    cprefix 32 (lit fn) = bytes_of ''cat'' \<and> cprefix 32 (lit ar) = bytes_of ''x''"
proof -
  let ?s = "blank_kernel (\<lambda>a. 0) 0"
  have "bytes_of ''cat x'' = bytes_of ''cat'' @ 32 # bytes_of ''x''" by (simp add: bytes_of_def)
  then have "\<exists>fn ar. parse_arg (lit (bytes_of ''cat x'')) ?s = Some (Parsed fn ar, ?s\<lparr>filename := fn, arg := ar\<rparr>) \<and>
      length fn = 32 \<and> length ar = 32 \<and> cprefix 32 (lit fn) = bytes_of ''cat'' \<and> cprefix 32 (lit ar) = bytes_of ''x''"
    by (intro parse_arg_splits disjI1) (simp_all add: bytes_of_def blank_kernel_def)
  then show ?thesis by blast
qed

end
