(* ===== verification/Loader.thy ===== *)
theory Loader
  imports Exec
begin

text \<open>
  What \<^verbatim>\<open>execute\<close> achieves: the file system image seen through the page tables, the loading
  of a program into its slot, and the theorem that ties name lookup, slot allocation, paging,
  loading and the jump to user mode together.
\<close>

section \<open>The image through the page tables\<close>

text \<open>The translation cache holds no entry that the tables contradict.\<close>

definition tlb_coherent :: "'a paging_scheme \<Rightarrow> bool" where
  "tlb_coherent s \<longleftrightarrow> (\<forall>a f. tlb s (drop_bit 12 a) = Some f \<longrightarrow> (\<exists>u. walk s a = Some (f OR (a AND 0xFFF), u)))"

lemma xl_coherent: "tlb_coherent s \<Longrightarrow> walk s a = Some (p, u) \<Longrightarrow> xl s a = p"
  by (cases "tlb s (drop_bit 12 a)") (fastforce simp: xl_def tlb_coherent_def)+

lemma tlb_coherent_flush: "tlb_coherent (flushTLB s)"
  by (simp add: tlb_coherent_def flushTLB_def)

text \<open>Everything the file system reads, it reads through the view \<open>m \<circ> tr\<close>.\<close>

lemma rd32_view: "rd32 tr m p = rd32 id (m \<circ> tr) p"
  by (simp add: rd32_def buf_at_def)

lemma fs_view:
  "file_len tr m fs i = file_len id (m \<circ> tr) fs i" "file_bytes tr m fs i = file_bytes id (m \<circ> tr) fs i"
  "fs_size tr m fs = fs_size id (m \<circ> tr) fs" "fs_ok tr m fs = fs_ok id (m \<circ> tr) fs"
  "entries tr m fs = entries id (m \<circ> tr) fs" "entry_name tr m fs k = entry_name id (m \<circ> tr) fs k"
proof -
  show l: "file_len tr m fs i = file_len id (m \<circ> tr) fs i" for i
    unfolding file_len_def rd32_view [of tr] ..
  show "file_bytes tr m fs i = file_bytes id (m \<circ> tr) fs i"
    unfolding file_bytes_def l data_addr_def block_base_def rd32_view [of tr] by simp
  show s: "fs_size tr m fs = fs_size id (m \<circ> tr) fs" unfolding fs_size_def rd32_view [of tr] ..
  show "fs_ok tr m fs = fs_ok id (m \<circ> tr) fs" unfolding fs_ok_def s l rd32_view [of tr] ..
  show "entries tr m fs = entries id (m \<circ> tr) fs" unfolding entries_def rd32_view [of tr] ..
  show "entry_name tr m fs k = entry_name id (m \<circ> tr) fs k" by (simp add: entry_name_def buf_at_def)
qed

text \<open>The image lies in the kernel's own page, where the boot loader puts it.\<close>

definition image_resident :: "'a files_scheme \<Rightarrow> bool" where
  "image_resident s \<longleftrightarrow> fs_ok id (phys s) (FSYSTEM s) \<and> 0x400000 \<le> unat (FSYSTEM s) \<and>
     unat (FSYSTEM s) + fs_size id (phys s) (FSYSTEM s) \<le> 0x800000"

lemma div_page_1: "0x400000 \<le> n \<Longrightarrow> n < 0x800000 \<Longrightarrow> n div 0x400000 = 1" for n :: nat
  by (simp add: div_if)

lemma xl_kernel:
  assumes "kernel_maps s" and "tlb_coherent s" and "0x400000 \<le> unat a" and "unat a < 0x800000"
  shows "xl s a = a"
  using xl_coherent [OF assms(2) walk_kernel [OF assms(1) div_page_1 [OF assms(3,4)]]] .

lemma resident_region:
  assumes "image_resident s" and "a \<in> region (FSYSTEM s) (fs_size id (phys s) (FSYSTEM s))"
  shows "0x400000 \<le> unat a" and "unat a < 0x800000"
proof -
  have "unat (FSYSTEM s) + fs_size id (phys s) (FSYSTEM s) \<le> 2 ^ 32" using assms(1) by (simp add: image_resident_def)
  from region_nowrap [OF this, of a] assms show "0x400000 \<le> unat a" "unat a < 0x800000"
    by (simp_all add: image_resident_def)
qed

lemma resident_view:
  assumes "image_resident s" and "kernel_maps s" and "tlb_coherent s"
  defines "fs \<equiv> FSYSTEM s" and "m \<equiv> phys s"
  shows "fs_ok (xl s) m fs" and "rd32 (xl s) m (fs + 4) = rd32 id m (fs + 4)"
    and "i < unat (rd32 id m (fs + 4)) \<Longrightarrow> file_bytes (xl s) m fs (of_nat i) = file_bytes id m fs (of_nat i)"
    and "fs_image (xl s) m fs = region fs (fs_size id m fs)"
proof -
  have ok: "fs_ok id m fs" using assms(1) by (simp add: image_resident_def fs_def m_def)
  have id: "xl s a = a" if "a \<in> region fs (fs_size id m fs)" for a
    using xl_kernel [OF assms(2,3)] resident_region [OF assms(1), of a] that by (simp add: fs_def m_def)
  then have agree: "(m \<circ> xl s) a = m a" if "a \<in> fs_image id m fs" for a
    using that by (simp add: fs_image_def)
  note a = image_agree [OF ok agree]
  show "fs_ok (xl s) m fs" using a(6) fs_view(4) by metis
  show "rd32 (xl s) m (fs + 4) = rd32 id m (fs + 4)" using a(1) rd32_view by metis
  show "file_bytes (xl s) m fs (of_nat i) = file_bytes id m fs (of_nat i)" if "i < unat (rd32 id m (fs + 4))"
    using a(4) [OF _ that] fs_view(2) by metis
  have "fs_size (xl s) m fs = fs_size id m fs"
    using a(1,2) unfolding fs_view(3) [of "xl s"] by (simp add: fs_size_def comp_def)
  then show "fs_image (xl s) m fs = region fs (fs_size id m fs)"
    using id by (auto simp: fs_image_def image_iff)
qed

section \<open>Loading the program\<close>

lemma read_data_frame:
  assumes "a \<notin> tr ` region buf (unat len)"
  shows "snd (read_data tr fs i off buf len m) a = m a"
proof -
  have "a \<notin> tr ` region buf (unat k)" if "unat k \<le> unat len" for k :: u32
    using assms region_mono [OF that, of buf] by blast
  then show ?thesis
    by (auto simp: read_data_def Let_def read_data_loop_frame word_less_nat_alt)
qed

lemma runs_slot_flush: "runs_slot p (flushTLB s) = runs_slot p s"
  by (simp add: runs_slot_def kernel_maps_def tables_ok_def flushTLB_def)

lemma setupPage_maps:
  assumes "kernel_maps s"
  shows "runs_slot (pnum s) (setupPage s)" and "tlb_coherent (setupPage s)"
proof -
  let ?s = "s\<lparr>addrPage := KERNEL + TASK_SIZE * word_of_int (pnum s + 1)\<rparr>"
  have k: "kernel_maps ?s" using assms by (simp add: kernel_maps_def tables_ok_def)
  have f: "addrPage ?s = program_frame (pnum s)" by (simp add: program_frame_def TASK_SIZE_def)
  have "runs_slot (pnum s) (flushTLB (setupPagingDirectory RESERV_CODE (program_frame (pnum s)) 32 ?s))"
    using runs_slot_setup [OF k, of "pnum s"] by (simp only: runs_slot_flush)
  then show "runs_slot (pnum s) (setupPage s)"
    unfolding setupPage_def Let_def f VM_VIRTUAL_OFF_def .
  show "tlb_coherent (setupPage s)" by (simp add: setupPage_def Let_def tlb_coherent_flush)
qed

lemma setupPage_fields [simp]:
  "phys (setupPage s) = phys s" "pnum (setupPage s) = pnum s" "FSYSTEM (setupPage s) = FSYSTEM s"
  "dentry (setupPage s) = dentry s" "pnumarr (setupPage s) = pnumarr s" "fd (setupPage s) = fd s"
  "filename (setupPage s) = filename s" "curr_pcb (setupPage s) = curr_pcb s" "pcbs (setupPage s) = pcbs s"
  by (simp_all add: setupPage_def Let_def setupPagingDirectory_def flushTLB_def)

text \<open>Addresses of the program page from the load address on.\<close>

definition load_addr :: "int \<Rightarrow> nat \<Rightarrow> u32" where
  "load_addr p j = program_frame p + of_nat (0x48000 + j)"

lemma exec_page: "j < 0x3B8000 \<Longrightarrow> unat (EXEC_LOCATION + of_nat j) div 0x400000 = 32"
proof -
  assume j: "j < 0x3B8000"
  then have "unat (EXEC_LOCATION + of_nat j) = 0x08048000 + j"
    by (subst unat_addr_off) (simp_all add: EXEC_LOCATION_def)
  then show ?thesis using j by (simp add: div_if)
qed

lemma xl_exec:
  assumes "runs_slot p s" and "tlb_coherent s" and "0 \<le> p" and "p \<le> 5" and "j < 0x3B8000"
  shows "xl s (EXEC_LOCATION + of_nat j) = load_addr p j"
    and "user_walk s (EXEC_LOCATION + of_nat j) = Some (load_addr p j)"
    and "unat (load_addr p j) = 0x400000 * (nat p + 2) + 0x48000 + j"
proof -
  note w = runs_slot_walk [OF assms(1,3,4) exec_page [OF assms(5)]]
  have e: "program_frame p + (EXEC_LOCATION + of_nat j - 0x08000000) = load_addr p j"
    by (simp add: load_addr_def EXEC_LOCATION_def algebra_simps)
  show "xl s (EXEC_LOCATION + of_nat j) = load_addr p j" using xl_coherent [OF assms(2) w(1)] e by simp
  show "user_walk s (EXEC_LOCATION + of_nat j) = Some (load_addr p j)" using w(1) e by (simp add: user_walk_def)
  have u: "unat (EXEC_LOCATION + of_nat j) = 0x08048000 + j"
    using assms(5) by (subst unat_addr_off) (simp_all add: EXEC_LOCATION_def)
  have "(0x08048000 + j) mod 0x400000 = 0x48000 + j" using assms(5) by (simp add: mod_if)
  then show "unat (load_addr p j) = 0x400000 * (nat p + 2) + 0x48000 + j"
    using w(2) unfolding u e by simp
qed

lemma loadFile_loads:
  assumes slot: "runs_slot p s" "0 \<le> p" "p \<le> 5" and tlb: "tlb_coherent s" and res: "image_resident s"
    and i: "i < unat (rd32 id (phys s) (FSYSTEM s + 4))" "de_inode (dentry s) = of_nat i"
    and bs: "bs = file_bytes id (phys s) (FSYSTEM s) (of_nat i)" and fits: "length bs < 0x3B8000"
  shows "\<forall>j < length bs. phys (loadFile s) (load_addr p j) = bs ! j"
    and "\<forall>a. a \<notin> load_addr p ` {..<length bs} \<longrightarrow> phys (loadFile s) a = phys s a"
proof -
  have k: "kernel_maps s" using slot(1) by (simp add: runs_slot_def)
  note view = resident_view [OF res k tlb]
  have bs': "bs = take (unat TASK_SIZE) (drop (unat (0 :: u32)) (file_bytes (xl s) (phys s) (FSYSTEM s) (of_nat i)))"
    using fits unfolding view(3) [OF i(1)] bs by (simp add: TASK_SIZE_def)
  have reg: "region EXEC_LOCATION (length bs) = (\<lambda>j. EXEC_LOCATION + of_nat j) ` {..<length bs}"
    by (simp add: region_def)
  have x: "xl s (EXEC_LOCATION + of_nat j) = load_addr p j" "unat (load_addr p j) = 0x400000 * (nat p + 2) + 0x48000 + j"
    if "j < length bs" for j
    using xl_exec [OF slot(1) tlb slot(2,3), of j] that fits by simp_all
  have img: "xl s ` region EXEC_LOCATION (length bs) = load_addr p ` {..<length bs}"
    unfolding reg using x(1) by (force simp: image_iff)
  have buf: "user_buf (xl s) (phys s) (FSYSTEM s) EXEC_LOCATION (length bs)"
    unfolding user_buf_def
  proof (intro conjI)
    show "EXEC_LOCATION \<noteq> 0" by (simp add: EXEC_LOCATION_def)
    show "inj_on (xl s) (region EXEC_LOCATION (length bs))"
      unfolding reg
    proof (rule inj_onI, elim imageE)
      fix a b j k
      assume "xl s a = xl s b" "a = EXEC_LOCATION + of_nat j" "j \<in> {..<length bs}"
        "b = EXEC_LOCATION + of_nat k" "k \<in> {..<length bs}"
      then have "unat (load_addr p j) = unat (load_addr p k)" and ab: "j < length bs" "k < length bs"
        using x(1) [of j] x(1) [of k] by simp_all
      then have "j = k" unfolding x(2) [OF ab(1)] x(2) [OF ab(2)] by linarith
      then show "a = b" using \<open>a = _\<close> \<open>b = _\<close> by simp
    qed
    have "\<not> unat (load_addr p j) < 0x800000" if "j < length bs" for j using x(2) [OF that] by simp
    then show "xl s ` region EXEC_LOCATION (length bs) \<inter> fs_image (xl s) (phys s) (FSYSTEM s) = {}"
      unfolding img view(4) using resident_region(2) [OF res] by fastforce
  qed
  have lt: "i < unat (rd32 (xl s) (phys s) (FSYSTEM s + 4))" using i(1) view(2) by simp
  note rd = read_data_spec [OF view(1) lt bs' buf]
  show "\<forall>j < length bs. phys (loadFile s) (load_addr p j) = bs ! j"
    using rd x(1) by (simp add: loadFile_def i(2))
  show "\<forall>a. a \<notin> load_addr p ` {..<length bs} \<longrightarrow> phys (loadFile s) a = phys s a"
    using rd unfolding img by (simp add: loadFile_def i(2))
qed

section \<open>A program that has been started\<close>

text \<open>The part of the state that process bookkeeping never changes.\<close>

definition core where
  "core s = (phys s, (page_directory s, page_table s, page_table_2 s, pt_addr s, pt2_addr s, tlb s),
     FSYSTEM s, fd s, (pnum s, pnumarr s), dentry s, (filename s, arg s), indicator s)"

lemma coreD:
  assumes "core s = core t"
  shows "phys s = phys t" "xl s = xl t" "walk s = walk t" "FSYSTEM s = FSYSTEM t" "pnum s = pnum t" "pnumarr s = pnumarr t"
    "page_directory s = page_directory t" "kernel_maps s = kernel_maps t" "runs_slot p s = runs_slot p t"
    "fd s = fd t" "filename s = filename t" "arg s = arg t" "dentry s = dentry t" "indicator s = indicator t"
proof -
  have f: "phys s = phys t" "page_directory s = page_directory t" "page_table s = page_table t"
    "page_table_2 s = page_table_2 t" "pt_addr s = pt_addr t" "pt2_addr s = pt2_addr t" "tlb s = tlb t"
    "FSYSTEM s = FSYSTEM t" "pnum s = pnum t" "pnumarr s = pnumarr t" "fd s = fd t" "filename s = filename t"
    "arg s = arg t" "dentry s = dentry t" "indicator s = indicator t"
    using assms by (simp_all add: core_def)
  show "xl s = xl t" by (rule xl_cong) (rule f)+
  show "walk s = walk t" by (rule walk_cong) (rule f)+
  show "kernel_maps s = kernel_maps t" using f by (simp add: kernel_maps_def tables_ok_def)
  then show "runs_slot p s = runs_slot p t" using f by (simp add: runs_slot_def)
qed (use assms in \<open>simp_all add: core_def\<close>)

lemma core_simps [simp]:
  "core (set_pcb a f s) = core s" "core (set_proc p g s) = core s" "core (s\<lparr>head := h\<rparr>) = core s"
  "core (s\<lparr>curr_pcb := a, tss_esp0 := b\<rparr>) = core s"
  by (simp_all add: core_def set_pcb_def set_proc_def)

lemma entry_point_core: "core s = core t \<Longrightarrow> entry_point s = entry_point t"
  using coreD(1,2) [of s t] by (simp add: entry_point_def)

lemma new_process_core: "new_process s = Some (h, t) \<Longrightarrow> core t = core s"
  unfolding new_process_def Let_def
  by (cases "active s = 1"; cases "active s = 2"; cases "active s = 3"; clarsimp)

lemma fill_pcb_core: "core (fill_pcb s) = core s"
  by (simp add: fill_pcb_def Let_def)

lemma start_new_core:
  assumes "start_new e s = (r, t)"
  shows "core t = core s \<and> (\<forall>ep. r = EnterUser ep \<longrightarrow> ep = entry_point s)"
proof (cases "new_process s")
  case None
  then show ?thesis using assms by (auto simp: start_new_def)
next
  case (Some hv)
  obtain h v where hv: "hv = (h, v)" by (cases hv)
  then have c: "core v = core s" using new_process_core Some by blast
  show ?thesis using assms Some hv c entry_point_core [OF c]
    by (cases h) (auto simp: start_new_def split: if_splits)
qed

lemma start_found_core:
  assumes "start_found e cur s = (r, t)"
  shows "core t = core s \<and> (\<forall>ep. r = EnterUser ep \<longrightarrow> ep = entry_point s)"
proof -
  let ?v = "(set_proc cur (\<lambda>q. q\<lparr>pcb := curr_pcb s, ebp := stack_top (pnum s), esp := stack_top (pnum s)\<rparr>) s)\<lparr>head := Some cur\<rparr>"
  let ?w = "set_pcb (pcb (procs ?v cur)) (\<lambda>p. p\<lparr>oldesp := fst (save_regs e), oldebp := snd (save_regs e)\<rparr>) ?v"
  have c: "core ?w = core s" by (simp only: core_simps)
  have "r = EnterUser (entry_point ?w)" "core t = core ?w"
    using assms unfolding start_found_def Let_def prod.inject by (metis, metis core_simps(1))
  then show ?thesis using entry_point_core [OF c] c by simp
qed

lemma createPCB_core:
  assumes "createPCB e s = (r, t)"
  shows "core t = core s \<and> (\<forall>ep. r = EnterUser ep \<longrightarrow> ep = entry_point s)"
proof -
  note f = fill_pcb_core [of s]
  have e: "entry_point (fill_pcb s) = entry_point s" by (rule entry_point_core [OF f])
  show ?thesis
    using assms start_new_core [of e "fill_pcb s" r t] start_found_core [of e _ "fill_pcb s" r t] f e
    by (auto simp: createPCB_def Let_def split: option.splits)
qed

lemma initFOTP_fields [simp]:
  "phys (initFOTP s) = phys s" "xl (initFOTP s) = xl s" "walk (initFOTP s) = walk s" "pnum (initFOTP s) = pnum s"
  "runs_slot p (initFOTP s) = runs_slot p s" "pnumarr (initFOTP s) = pnumarr s"
proof -
  show "xl (initFOTP s) = xl s" by (rule xl_cong) (simp_all add: initFOTP_def Let_def)
  show "walk (initFOTP s) = walk s" by (rule walk_cong) (simp_all add: initFOTP_def Let_def)
  show "runs_slot p (initFOTP s) = runs_slot p s"
    by (simp add: runs_slot_def kernel_maps_def tables_ok_def initFOTP_def Let_def)
qed (simp_all add: initFOTP_def Let_def)

lemma loadFile_fields [simp]:
  "xl (loadFile s) = xl s" "walk (loadFile s) = walk s" "pnum (loadFile s) = pnum s"
  "runs_slot p (loadFile s) = runs_slot p s" "pnumarr (loadFile s) = pnumarr s"
proof -
  show "xl (loadFile s) = xl s" by (rule xl_cong) (simp_all add: loadFile_def)
  show "walk (loadFile s) = walk s" by (rule walk_cong) (simp_all add: loadFile_def)
  show "runs_slot p (loadFile s) = runs_slot p s"
    by (simp add: runs_slot_def kernel_maps_def tables_ok_def loadFile_def)
qed (simp_all add: loadFile_def)

lemma checkFile_ok:
  assumes "checkFile e s = (0, t)"
  obtains d where "read_dentry_by_name (xl s) (phys s) (FSYSTEM s) (Some (lit (filename s))) = Some d"
    and "t = s\<lparr>dentry := d, phys := snd (read_data (xl s) (FSYSTEM s) (de_inode d) 0 (stk e) 4 (phys s))\<rparr>"
    and "\<forall>k < 4. phys t (xl s (stk e + of_nat k)) = [0x7f, 0x45, 0x4c, 0x46] ! k"
proof -
  obtain d where d: "read_dentry_by_name (xl s) (phys s) (FSYSTEM s) (Some (lit (filename s))) = Some d"
    using assms by (auto simp: checkFile_def split: option.splits)
  have x: "xl (s\<lparr>dentry := d\<rparr>) = xl s" "xl (s\<lparr>dentry := d, phys := m\<rparr>) = xl s" for m
    by (rule xl_cong; simp)+
  let ?t = "s\<lparr>dentry := d, phys := snd (read_data (xl s) (FSYSTEM s) (de_inode d) 0 (stk e) 4 (phys s))\<rparr>"
  let ?b = "buf_at (xl s) (phys ?t) (stk e)"
  have c: "t = ?t" "?b 0 = 0x7f" "?b 1 = 0x45" "?b 2 = 0x4c" "?b 3 = 0x46"
    using assms d by (auto simp: checkFile_def Let_def x split: if_splits)
  have "phys ?t (xl s (stk e + of_nat k)) = [0x7f, 0x45, 0x4c, 0x46] ! k" if lt: "k < 4" for k
  proof -
    consider "k = 0" | "k = 1" | "k = 2" | "k = 3" using lt by linarith
    then show ?thesis using c(2-5) by cases (simp_all add: buf_at_def)
  qed
  then show thesis using that d c(1) by blast
qed

text \<open>The stack address is in the kernel page and outside the image.\<close>

definition stack_ok :: "env \<Rightarrow> kernel \<Rightarrow> bool" where
  "stack_ok e s \<longleftrightarrow> 0x400000 \<le> unat (stk e) \<and> unat (stk e) + 4 \<le> 0x800000 \<and>
     region (stk e) 4 \<inter> region (FSYSTEM s) (fs_size id (phys s) (FSYSTEM s)) = {}"

lemma xl_stack:
  assumes "stack_ok e s" and "kernel_maps s" and "tlb_coherent s"
  shows "a \<in> region (stk e) 4 \<Longrightarrow> xl s a = a" and "xl s ` region (stk e) 4 = region (stk e) 4"
proof -
  have "unat (stk e) + 4 \<le> 2 ^ 32" using assms(1) by (simp add: stack_ok_def)
  from region_nowrap [OF this] show id: "xl s a = a" if "a \<in> region (stk e) 4" for a
    using xl_kernel [OF assms(2,3), of a] assms(1) that by (simp add: stack_ok_def)
  then show "xl s ` region (stk e) 4 = region (stk e) 4" by force
qed

text \<open>The four bytes the check looks at are the first ones of the file.\<close>

lemma check_reads:
  assumes st: "stack_ok e s" and k: "kernel_maps s" and tlb: "tlb_coherent s" and res: "image_resident s"
    and i: "unat n < unat (rd32 id (phys s) (FSYSTEM s + 4))" and bs: "bs = file_bytes id (phys s) (FSYSTEM s) n"
    and j: "j < length (take 4 bs)"
  shows "snd (read_data (xl s) (FSYSTEM s) n 0 (stk e) 4 (phys s)) (xl s (stk e + of_nat j)) = take 4 bs ! j"
proof -
  let ?fs = "FSYSTEM s" and ?m = "phys s"
  note view = resident_view [OF res k tlb]
  have i': "unat n < unat (rd32 (xl s) ?m (?fs + 4))" using i view(2) by simp
  have bs4: "take 4 bs = take (unat (4 :: u32)) (drop (unat (0 :: u32)) (file_bytes (xl s) ?m ?fs (of_nat (unat n))))"
    unfolding view(3) [OF i] using bs by simp
  have "stk e \<noteq> 0" using st by (auto simp: stack_ok_def)
  moreover have "inj_on (xl s) (region (stk e) 4)" using xl_stack(1) [OF st k tlb] by (simp add: inj_on_def)
  ultimately have "user_buf (xl s) ?m ?fs (stk e) 4"
    using st unfolding user_buf_def view(4) by (simp add: xl_stack(2) [OF st k tlb] stack_ok_def)
  then have buf: "user_buf (xl s) ?m ?fs (stk e) (length (take 4 bs))" by (rule user_buf_mono) simp
  from read_data_spec [OF view(1) i' bs4 buf, THEN conjunct2, THEN conjunct1, rule_format, OF j]
  show ?thesis by simp
qed

lemma checkFile_loads:
  assumes c: "checkFile e s = (0, t)" and st: "stack_ok e s" and k: "kernel_maps s" and tlb: "tlb_coherent s"
    and res: "image_resident s"
  shows "image_resident t" and "fs_size id (phys t) (FSYSTEM t) = fs_size id (phys s) (FSYSTEM s)"
    and "rd32 id (phys t) (FSYSTEM t + 4) = rd32 id (phys s) (FSYSTEM s + 4)"
    and "i < unat (rd32 id (phys s) (FSYSTEM s + 4)) \<Longrightarrow>
      file_bytes id (phys t) (FSYSTEM t) (of_nat i) = file_bytes id (phys s) (FSYSTEM s) (of_nat i)"
    and "unat (de_inode (dentry t)) < unat (rd32 id (phys s) (FSYSTEM s + 4)) \<Longrightarrow>
      bs = file_bytes id (phys s) (FSYSTEM s) (de_inode (dentry t)) \<Longrightarrow>
      4 \<le> length bs \<Longrightarrow> take 4 bs = [0x7f, 0x45, 0x4c, 0x46]"
proof -
  let ?fs = "FSYSTEM s" and ?m = "phys s"
  obtain d where d: "t = s\<lparr>dentry := d, phys := snd (read_data (xl s) ?fs (de_inode d) 0 (stk e) 4 ?m)\<rparr>"
    and magic: "\<forall>k < 4. phys t (xl s (stk e + of_nat k)) = [0x7f, 0x45, 0x4c, 0x46] ! k"
    by (rule checkFile_ok [OF c]) blast
  have frame: "phys t a = ?m a" if "a \<notin> region (stk e) 4" for a
    using read_data_frame [of a "xl s" "stk e" 4] xl_stack(2) [OF st k tlb] that by (simp add: d)
  have ok: "fs_ok id ?m ?fs" using res by (simp add: image_resident_def)
  have same: "phys t a = ?m a" if "a \<in> fs_image id ?m ?fs" for a
    using that st frame [of a] by (auto simp: fs_image_def stack_ok_def)
  note agree = image_agree [OF ok same]
  have fs: "FSYSTEM t = ?fs" by (simp add: d)
  show size: "fs_size id (phys t) (FSYSTEM t) = fs_size id ?m ?fs" unfolding fs using agree(1,2) by (simp add: fs_size_def)
  show "image_resident t" using res size agree(6) by (simp add: image_resident_def fs)
  show "rd32 id (phys t) (FSYSTEM t + 4) = rd32 id ?m (?fs + 4)" unfolding fs using agree(1) by blast
  show "file_bytes id (phys t) (FSYSTEM t) (of_nat i) = file_bytes id ?m ?fs (of_nat i)"
    if "i < unat (rd32 id ?m (?fs + 4))" unfolding fs using agree(4) [OF _ that] by blast
  assume i: "unat (de_inode (dentry t)) < unat (rd32 id ?m (?fs + 4))"
    and bs: "bs = file_bytes id ?m ?fs (de_inode (dentry t))" and len: "4 \<le> length bs"
  have i': "unat (de_inode d) < unat (rd32 id ?m (?fs + 4))" and bs': "bs = file_bytes id ?m ?fs (de_inode d)"
    using i bs by (simp_all add: d)
  note rd = check_reads [OF st k tlb res i' bs']
  show "take 4 bs = [0x7f, 0x45, 0x4c, 0x46]"
  proof (rule nth_equalityI)
    show "length (take 4 bs) = length [0x7f, 0x45, 0x4c, 0x46 :: u8]" using len by simp
    fix j
    assume j: "j < length (take 4 bs)"
    then have "phys t (xl s (stk e + of_nat j)) = take 4 bs ! j" using rd by (simp add: d)
    moreover have "j < 4" using j by simp
    ultimately show "take 4 bs ! j = [0x7f, 0x45, 0x4c, 0x46] ! j" using magic by metis
  qed
qed

lemma execute_success:
  assumes ex: "execute e buf s = Some (EnterUser ep, t)"
  obtains f a s2 s3 where "checkFile e (s\<lparr>filename := f, arg := a\<rparr>) = (0, s2)" and "setPnum s2 = (0, s3)"
    and "createPCB e (initFOTP (loadFile (setupPage s3))) = (EnterUser ep, t)"
proof -
  obtain f a s1 where p: "parse_arg buf s = Some (Parsed f a, s1)"
    using ex by (auto simp: execute_def split: option.splits prod.splits parsed.splits)
  then have s1: "s1 = s\<lparr>filename := f, arg := a\<rparr>" by (auto simp: parse_arg_def)
  obtain r2 s2 where c: "checkFile e s1 = (r2, s2)" by (cases "checkFile e s1")
  obtain r3 s3 where n: "setPnum s2 = (r3, s3)" by (cases "setPnum s2")
  have "r2 = 0" using ex p c by (auto simp: execute_def Let_def split: if_splits)
  moreover have "r3 = 0" "createPCB e (initFOTP (loadFile (setupPage s3))) = (EnterUser ep, t)"
    using ex p c n \<open>r2 = 0\<close> by (auto simp: execute_def Let_def split: if_splits)
  ultimately show thesis using that c n s1 by blast
qed

lemma program_started:
  assumes cr: "createPCB e (initFOTP (loadFile (setupPage s))) = (EnterUser ep, t)"
    and k: "kernel_maps s" and res: "image_resident s" and p: "0 \<le> pnum s" "pnum s \<le> 5"
    and i: "unat (de_inode (dentry s)) < unat (rd32 id (phys s) (FSYSTEM s + 4))"
    and bs: "bs = file_bytes id (phys s) (FSYSTEM s) (de_inode (dentry s))"
    and fits: "28 \<le> length bs" "length bs < 0x3B8000"
  shows "pnum t = pnum s" "pnumarr t = pnumarr s" "runs_slot (pnum s) t" "dentry t = dentry s"
    and "\<forall>j < length bs. user_walk t (EXEC_LOCATION + of_nat j) = Some (load_addr (pnum s) j) \<and>
       phys t (load_addr (pnum s) j) = bs ! j"
    and "ep = le32 (\<lambda>j. bs ! (24 + j))"
proof -
  let ?u = "setupPage s" and ?v = "initFOTP (loadFile (setupPage s))"
  note core = createPCB_core [OF cr] and maps = setupPage_maps [OF k]
  have res': "image_resident ?u" using res by (simp add: image_resident_def)
  have i': "unat (de_inode (dentry s)) < unat (rd32 id (phys ?u) (FSYSTEM ?u + 4))"
    "de_inode (dentry ?u) = of_nat (unat (de_inode (dentry s)))"
    "bs = file_bytes id (phys ?u) (FSYSTEM ?u) (of_nat (unat (de_inode (dentry s))))"
    using i bs by simp_all
  note load = loadFile_loads [OF maps(1) p maps(2) res' i' fits(2)]
  have c: "core t = core ?v" using core by blast
  note cD = coreD [OF c]
  show "pnum t = pnum s" "pnumarr t = pnumarr s" "runs_slot (pnum s) t" using cD(5,6,9) maps(1) by simp_all
  show "dentry t = dentry s" using cD(13) by (simp add: initFOTP_def loadFile_def Let_def)
  have x: "xl ?u (EXEC_LOCATION + of_nat j) = load_addr (pnum s) j"
    "user_walk ?u (EXEC_LOCATION + of_nat j) = Some (load_addr (pnum s) j)" if "j < length bs" for j
    using xl_exec [OF maps p, of j] that fits(2) by simp_all
  have "user_walk t = user_walk ?u" using cD(3) by (simp add: fun_eq_iff user_walk_def)
  then show "\<forall>j < length bs. user_walk t (EXEC_LOCATION + of_nat j) = Some (load_addr (pnum s) j) \<and>
       phys t (load_addr (pnum s) j) = bs ! j"
    using cD(1) load(1) x(2) by simp
  have b: "phys (loadFile ?u) (xl ?u (EXEC_LOCATION + of_nat j)) = bs ! j" if "j < length bs" for j
    using x(1) [OF that] load(1) that by simp
  have "ep = entry_point ?v" using core by blast
  also have "\<dots> = le32 (\<lambda>j. phys (loadFile ?u) (xl ?u (EXEC_LOCATION + of_nat (24 + j))))"
    by (simp add: entry_point_def rd32_def buf_at_def CONTEXTSWITCH_OFF_def algebra_simps)
  also have "\<dots> = le32 (\<lambda>j. bs ! (24 + j))"
    using b [of 24] b [of 25] b [of 26] b [of 27] fits(1) by (simp add: le32_def)
  finally show "ep = le32 (\<lambda>j. bs ! (24 + j))" .
qed

lemma execute_started:
  assumes ex: "execute e buf s = Some (EnterUser ep, t)"
    and k: "kernel_maps s" and tlb: "tlb_coherent s" and res: "image_resident s" and pn: "pnum_ok s"
    and st: "stack_ok e s"
    and i: "unat (de_inode (dentry t)) < unat (rd32 id (phys s) (FSYSTEM s + 4))"
    and bs: "bs = file_bytes id (phys s) (FSYSTEM s) (de_inode (dentry t))"
    and fits: "28 \<le> length bs" "length bs < 0x3B8000"
  shows "0 \<le> pnum t \<and> pnum t \<le> 5 \<and> pnumarr s ! nat (pnum t) = 0 \<and> pnumarr t = (pnumarr s)[nat (pnum t) := 1] \<and>
    runs_slot (pnum t) t \<and> take 4 bs = [0x7f, 0x45, 0x4c, 0x46] \<and>
    (\<forall>j < length bs. user_walk t (EXEC_LOCATION + of_nat j) = Some (load_addr (pnum t) j) \<and>
       phys t (load_addr (pnum t) j) = bs ! j) \<and>
    ep = le32 (\<lambda>j. bs ! (24 + j))"
proof -
  obtain f a s2 s3 where c: "checkFile e (s\<lparr>filename := f, arg := a\<rparr>) = (0, s2)" and n: "setPnum s2 = (0, s3)"
    and cr: "createPCB e (initFOTP (loadFile (setupPage s3))) = (EnterUser ep, t)"
    by (rule execute_success [OF ex])
  let ?s = "s\<lparr>filename := f, arg := a\<rparr>"
  have x: "xl ?s = xl s" by (rule xl_cong) simp_all
  have pre: "stack_ok e ?s" "kernel_maps ?s" "tlb_coherent ?s" "image_resident ?s"
    using st k tlb res walk_cong [of ?s s]
    by (simp_all add: stack_ok_def kernel_maps_def tables_ok_def tlb_coherent_def image_resident_def)
  note ch = checkFile_loads [OF c pre]
  obtain d m where s2: "s2 = ?s\<lparr>dentry := d, phys := m\<rparr>" by (rule checkFile_ok [OF c]) blast
  have "pnum_ok s2" using pn by (simp add: s2 pnum_ok_def)
  from pnum_alloc_cases [OF this] n obtain j where j: "j < 6" "pnumarr s2 ! j = 0"
    and s3: "s3 = s2\<lparr>pnumarr := (pnumarr s2)[j := 1], pnum := int j\<rparr>" by (auto simp: pnum_alloc_def)
  have f: "pnum s3 = int j" "pnumarr s3 = (pnumarr s)[j := 1]" "FSYSTEM s2 = FSYSTEM s" "FSYSTEM s3 = FSYSTEM s"
    "phys s3 = phys s2" "dentry s3 = dentry s2" "pnumarr s2 = pnumarr s"
    by (simp_all add: s3 s2)
  have d: "dentry t = dentry s3"
    using coreD(13) [OF createPCB_core [OF cr, THEN conjunct1]] by (simp add: initFOTP_def loadFile_def Let_def)
  have k3: "kernel_maps s3" using k by (simp add: s3 s2 kernel_maps_def tables_ok_def)
  have r3: "image_resident s3" using ch(1) by (simp add: image_resident_def f)
  have rd: "rd32 id (phys s3) (FSYSTEM s3 + 4) = rd32 id (phys s) (FSYSTEM s + 4)" using ch(3) by (simp add: f)
  have i3: "unat (de_inode (dentry s3)) < unat (rd32 id (phys s3) (FSYSTEM s3 + 4))" using i unfolding rd d .
  have b3: "bs = file_bytes id (phys s3) (FSYSTEM s3) (de_inode (dentry s3))"
    using ch(4) [of "unat (de_inode (dentry s3))"] i unfolding bs d by (simp add: f)
  have p3: "0 \<le> pnum s3" "pnum s3 \<le> 5" using j(1) by (simp_all add: f)
  note st = program_started [OF cr k3 r3 p3 i3 b3 fits]
  have m: "take 4 bs = [0x7f, 0x45, 0x4c, 0x46]"
    by (rule ch(5)) (use i bs fits(1) d f in simp_all)
  show ?thesis using st m j p3 unfolding st(1) by (simp add: f)
qed


section \<open>When a program can be started\<close>

text \<open>
  The ring of terminal processes as the kernel ever builds it: \<^verbatim>\<open>active\<close> is never changed, so
  only \<open>process1\<close> is used and it points to itself.
\<close>

definition ring_ok :: "kernel \<Rightarrow> bool" where
  "ring_ok s \<longleftrightarrow> active s = 1 \<and>
     (head s = None \<or> head s = Some process1 \<and> next_proc (procs s process1) = Some process1)"

lemma current_process_ring:
  "ring_ok s \<Longrightarrow> current_process s = (if head s = Some process1 \<and> screen (procs s process1) = indicator s
     then Some (Some process1) else Some None)"
  by (auto simp: ring_ok_def current_process_def eval_nat_numeral)

lemma pcb_at_nonzero: "0 \<le> p \<Longrightarrow> p \<le> 5 \<Longrightarrow> pcb_at p \<noteq> 0"
proof -
  assume "0 \<le> p" "p \<le> 5"
  then consider "p = 0" | "p = 1" | "p = 2" | "p = 3" | "p = 4" | "p = 5" by linarith
  then show ?thesis by cases (simp_all add: pcb_at_def KERNELBOT_def STACKSIZE_def)
qed

lemma fill_pcb_fields [simp]:
  "active (fill_pcb s) = active s" "head (fill_pcb s) = head s" "procs (fill_pcb s) = procs s"
  "curr_pcb (fill_pcb s) = pcb_at (pnum s)" "pnum (fill_pcb s) = pnum s" "indicator (fill_pcb s) = indicator s"
  by (simp_all add: fill_pcb_def Let_def set_pcb_def)

lemma createPCB_enters:
  assumes "ring_ok s" and "0 \<le> pnum s" and "pnum s \<le> 5"
  shows "\<exists>ep t. createPCB e s = (EnterUser ep, t) \<and> ring_ok t \<and> head t = Some process1 \<and>
    pcb (procs t process1) = pcb_at (pnum s) \<and> screen (procs t process1) = indicator s \<and>
    curr_pcb t = pcb_at (pnum s) \<and> parent (pcbs t (pcb_at (pnum s))) = curr_pcb s \<and>
    pid (pcbs t (pcb_at (pnum s))) = pnum s"
proof -
  have r: "ring_ok (fill_pcb s)" using assms(1) by (simp add: ring_ok_def)
  have p: "parent (pcbs (fill_pcb s) (pcb_at (pnum s))) = curr_pcb s" "pid (pcbs (fill_pcb s) (pcb_at (pnum s))) = pnum s"
    by (simp_all add: fill_pcb_def Let_def set_pcb_def)
  show ?thesis
  proof (cases "head s = Some process1 \<and> screen (procs s process1) = indicator s")
    case True
    then have "createPCB e s = start_found e process1 (fill_pcb s)"
      by (simp add: createPCB_def Let_def current_process_ring [OF r])
    moreover have "ring_ok (snd (start_found e process1 (fill_pcb s)))"
      using r True by (simp add: ring_ok_def start_found_def Let_def set_proc_def set_pcb_def)
    ultimately show ?thesis using True p
      by (auto simp: start_found_def Let_def set_proc_def set_pcb_def)
  next
    case False
    have n: "createPCB e s = start_new e (fill_pcb s)"
      unfolding createPCB_def Let_def current_process_ring [OF r] using False by auto
    have "active (fill_pcb s) = 1" using assms(1) by (simp add: ring_ok_def)
    then show ?thesis unfolding n using p pcb_at_nonzero [OF assms(2,3)] assms(1)
      by (auto simp: start_new_def new_process_def Let_def set_proc_def set_pcb_def ring_ok_def)
  qed
qed

lemma lookup_name:
  "read_dentry_by_name tr m fs (Some b) = map_option (\<lambda>k. dentry_at tr m (entry_at fs k))
     (List.find (\<lambda>k. entry_name tr m fs k = cprefix 32 b) [0..<entries tr m fs])"
  by (simp add: read_dentry_by_name_def find_name_find entries_def)

lemma lookup_agree:
  assumes ok: "fs_ok tr m fs" and agree: "\<And>a. a \<in> fs_image tr m fs \<Longrightarrow> m' a = m a"
  shows "read_dentry_by_name tr m' fs (Some b) = read_dentry_by_name tr m fs (Some b)"
proof -
  have e: "entries tr m' fs = entries tr m fs" using image_agree(3) [OF ok agree] by (simp add: entries_def)
  have d: "dentry_at tr m' (entry_at fs j) = dentry_at tr m (entry_at fs j)" if "j < entries tr m fs" for j
    using entry_in_image [OF ok that, of 32] entry_in_image [OF ok that, of 36] agree by (simp add: dentry_at_def)
  have f: "List.find (\<lambda>k. entry_name tr m' fs k = cprefix 32 b) [0..<entries tr m fs] =
      List.find (\<lambda>k. entry_name tr m fs k = cprefix 32 b) [0..<entries tr m fs]"
    using entry_name_agree [OF ok agree] by (intro find_cong) auto
  have "j < entries tr m fs"
    if "List.find (\<lambda>k. entry_name tr m fs k = cprefix 32 b) [0..<entries tr m fs] = Some j" for j
    using that by (auto simp: find_Some_iff)
  then show ?thesis unfolding lookup_name e f using d
    by (cases "List.find (\<lambda>k. entry_name tr m fs k = cprefix 32 b) [0..<entries tr m fs]") auto
qed

lemma resident_lookup:
  assumes res: "image_resident s" and k: "kernel_maps s" and tlb: "tlb_coherent s"
  shows "read_dentry_by_name (xl s) (phys s) (FSYSTEM s) (Some b) = read_dentry_by_name id (phys s) (FSYSTEM s) (Some b)"
proof -
  let ?fs = "FSYSTEM s" and ?m = "phys s"
  have ok: "fs_ok id ?m ?fs" using res by (simp add: image_resident_def)
  have agree: "(?m \<circ> xl s) a = ?m a" if "a \<in> fs_image id ?m ?fs" for a
    using that xl_kernel [OF k tlb] resident_region [OF res] by (simp add: fs_image_def)
  have "read_dentry_by_name (xl s) ?m ?fs (Some b) = read_dentry_by_name id (?m \<circ> xl s) ?fs (Some b)"
    unfolding lookup_name fs_view(5,6) [of "xl s"] by (simp add: dentry_at_def comp_def)
  also have "\<dots> = read_dentry_by_name id ?m ?fs (Some b)" by (rule lookup_agree [OF ok agree])
  finally show ?thesis .
qed

lemma checkFile_succeeds:
  assumes st: "stack_ok e s" and k: "kernel_maps s" and tlb: "tlb_coherent s" and res: "image_resident s"
    and d: "read_dentry_by_name id (phys s) (FSYSTEM s) (Some (lit (filename s))) = Some d"
    and i: "unat (de_inode d) < unat (rd32 id (phys s) (FSYSTEM s + 4))"
    and bs: "take 4 (file_bytes id (phys s) (FSYSTEM s) (de_inode d)) = [0x7f, 0x45, 0x4c, 0x46]"
  shows "\<exists>m. checkFile e s = (0, s\<lparr>dentry := d, phys := m\<rparr>)"
proof -
  have x: "xl (s\<lparr>dentry := d\<rparr>) = xl s" "xl (s\<lparr>dentry := d, phys := m\<rparr>) = xl s" for m
    by (rule xl_cong; simp)+
  have l: "read_dentry_by_name (xl s) (phys s) (FSYSTEM s) (Some (lit (filename s))) = Some d"
    unfolding resident_lookup [OF res k tlb] by (rule d)
  let ?m = "snd (read_data (xl s) (FSYSTEM s) (de_inode d) 0 (stk e) 4 (phys s))"
  have "?m (xl s (stk e + of_nat j)) = [0x7f, 0x45, 0x4c, 0x46] ! j" if "j < 4" for j
    using check_reads [OF st k tlb res i refl, of j] that unfolding bs by simp
  from this [of 0] this [of 1] this [of 2] this [of 3] have "checkFile e s = (0, s\<lparr>dentry := d, phys := ?m\<rparr>)"
    by (simp add: checkFile_def l Let_def x buf_at_def)
  then show ?thesis by blast
qed

lemma setPnum_free:
  assumes "pnum_ok s" and "\<not> pnum_pool s \<subseteq> pnum_busy s"
  shows "\<exists>q \<in> pnum_pool s. q < 6 \<and> pnumarr s ! q = 0 \<and>
    setPnum s = (0, s\<lparr>pnumarr := (pnumarr s)[q := 1], pnum := int q\<rparr>)"
proof -
  have "nat (indicator s - 1) < 6" using assms(1) by (auto simp: pnum_ok_def)
  then show ?thesis
    using assms(2) unfolding setPnum_unfold [OF assms(1)] take_slot_def
    by (auto simp: pnum_pool_def pnum_busy_def)
qed

lemma execute_runs_buf:
  assumes cmd: "0 \<notin> set name" "32 \<notin> set name" "length name < 32" "0 \<notin> set a" "32 \<notin> set a" "length a < 32"
      "cmd = name @ 32 # a \<or> (cmd = name \<and> a = [])" "length (filename s) = 32" "length (arg s) = 32"
    and buf: "\<forall>j < 100. buf j = lit cmd j"
    and mem: "kernel_maps s" "tlb_coherent s" "image_resident s" "stack_ok e s"
    and found: "read_dentry_by_name id (phys s) (FSYSTEM s) (Some (lit name)) = Some d"
      "unat (de_inode d) < unat (rd32 id (phys s) (FSYSTEM s + 4))"
    and elf: "bs = file_bytes id (phys s) (FSYSTEM s) (de_inode d)" "take 4 bs = [0x7f, 0x45, 0x4c, 0x46]"
      "28 \<le> length bs" "length bs < 0x3B8000"
    and slot: "pnum_ok s" "\<not> pnum_pool s \<subseteq> pnum_busy s" and ring: "ring_ok s"
  shows "\<exists>t p. execute e buf s = Some (EnterUser (le32 (\<lambda>j. bs ! (24 + j))), t) \<and>
    pnum t = p \<and> 0 \<le> p \<and> nat p \<in> pnum_pool s - pnum_busy s \<and> pnumarr t = (pnumarr s)[nat p := 1] \<and> runs_slot p t \<and>
    (\<forall>j < length bs. user_walk t (EXEC_LOCATION + of_nat j) = Some (load_addr p j) \<and>
       phys t (load_addr p j) = bs ! j) \<and>
    curr_pcb t = pcb_at p \<and> parent (pcbs t (pcb_at p)) = curr_pcb s \<and> ring_ok t"
proof -
  obtain fn ar where p: "parse_arg buf s = Some (Parsed fn ar, s\<lparr>filename := fn, arg := ar\<rparr>)"
    and fn: "cprefix 32 (lit fn) = name" using parse_arg_buf [OF cmd buf] by blast
  let ?s = "s\<lparr>filename := fn, arg := ar\<rparr>"
  have pre: "stack_ok e ?s" "kernel_maps ?s" "tlb_coherent ?s" "image_resident ?s"
    using mem walk_cong [of ?s s]
    by (simp_all add: stack_ok_def kernel_maps_def tables_ok_def tlb_coherent_def image_resident_def)
  have "cprefix 32 (lit name) = name" using cmd(1,3) by (intro cprefix_lit) simp_all
  then have "read_dentry_by_name id (phys s) (FSYSTEM s) (Some (lit fn)) = Some d"
    using found(1) fn unfolding lookup_name by simp
  then obtain m where c: "checkFile e ?s = (0, ?s\<lparr>dentry := d, phys := m\<rparr>)"
    using checkFile_succeeds [OF pre] found(2) elf by fastforce
  let ?s2 = "?s\<lparr>dentry := d, phys := m\<rparr>"
  have pn: "pnum_ok ?s2" "pnum_pool ?s2 = pnum_pool s" "pnum_busy ?s2 = pnum_busy s"
    using slot(1) by (simp_all add: pnum_ok_def pnum_pool_def pnum_busy_def)
  then obtain q where q: "q \<in> pnum_pool s" "q < 6" "pnumarr s ! q = 0"
    and n: "setPnum ?s2 = (0, ?s2\<lparr>pnumarr := (pnumarr s)[q := 1], pnum := int q\<rparr>)"
    using setPnum_free [OF pn(1)] slot(2) by auto
  let ?s3 = "?s2\<lparr>pnumarr := (pnumarr s)[q := 1], pnum := int q\<rparr>"
  let ?s6 = "initFOTP (loadFile (setupPage ?s3))"
  have ex: "execute e buf s = Some (createPCB e ?s6)" by (simp add: execute_def p c n)
  have f6: "ring_ok ?s6" "pnum ?s6 = int q" "curr_pcb ?s6 = curr_pcb s"
    using ring by (simp_all add: ring_ok_def initFOTP_def loadFile_def setupPage_def setupPagingDirectory_def flushTLB_def Let_def)
  obtain ep t where t: "createPCB e ?s6 = (EnterUser ep, t)" "ring_ok t" "curr_pcb t = pcb_at (int q)"
    "parent (pcbs t (pcb_at (int q))) = curr_pcb s"
    using createPCB_enters [OF f6(1), of e] q(2) f6 by auto
  note ch = checkFile_loads [OF c pre]
  have "image_resident ?s3" "kernel_maps ?s3"
    using ch(1) mem(1) by (simp_all add: image_resident_def kernel_maps_def tables_ok_def)
  moreover have "unat (de_inode (dentry ?s3)) < unat (rd32 id (phys ?s3) (FSYSTEM ?s3 + 4))"
    using ch(3) found(2) by simp
  moreover have "bs = file_bytes id (phys ?s3) (FSYSTEM ?s3) (de_inode (dentry ?s3))"
    using ch(4) [of "unat (de_inode d)"] found(2) elf(1) by simp
  ultimately have st: "pnum t = pnum ?s3" "pnumarr t = pnumarr ?s3" "runs_slot (pnum ?s3) t"
    "\<forall>j < length bs. user_walk t (EXEC_LOCATION + of_nat j) = Some (load_addr (pnum ?s3) j) \<and>
       phys t (load_addr (pnum ?s3) j) = bs ! j" "ep = le32 (\<lambda>j. bs ! (24 + j))"
    using program_started [OF t(1) _ _ _ _ _ _ elf(3,4)] q(2) by simp_all
  show ?thesis
    using ex t st q by (intro exI [of _ t] exI [of _ "int q"]) (simp add: pnum_busy_def)
qed

lemma execute_runs:
  assumes cmd: "0 \<notin> set name" "32 \<notin> set name" "length name < 32" "0 \<notin> set a" "32 \<notin> set a" "length a < 32"
      "cmd = name @ 32 # a \<or> (cmd = name \<and> a = [])" "length (filename s) = 32" "length (arg s) = 32"
    and mem: "kernel_maps s" "tlb_coherent s" "image_resident s" "stack_ok e s"
    and found: "read_dentry_by_name id (phys s) (FSYSTEM s) (Some (lit name)) = Some d"
      "unat (de_inode d) < unat (rd32 id (phys s) (FSYSTEM s + 4))"
    and elf: "bs = file_bytes id (phys s) (FSYSTEM s) (de_inode d)" "take 4 bs = [0x7f, 0x45, 0x4c, 0x46]"
      "28 \<le> length bs" "length bs < 0x3B8000"
    and slot: "pnum_ok s" "\<not> pnum_pool s \<subseteq> pnum_busy s" and ring: "ring_ok s"
  shows "\<exists>t p. execute e (lit cmd) s = Some (EnterUser (le32 (\<lambda>j. bs ! (24 + j))), t) \<and>
    pnum t = p \<and> 0 \<le> p \<and> nat p \<in> pnum_pool s - pnum_busy s \<and> pnumarr t = (pnumarr s)[nat p := 1] \<and> runs_slot p t \<and>
    (\<forall>j < length bs. user_walk t (EXEC_LOCATION + of_nat j) = Some (load_addr p j) \<and>
       phys t (load_addr p j) = bs ! j) \<and>
    curr_pcb t = pcb_at p \<and> parent (pcbs t (pcb_at p)) = curr_pcb s \<and> ring_ok t"
  using assms by (intro execute_runs_buf [OF cmd]) simp_all

text \<open>
  C2. \<^verbatim>\<open>execute\<close> starts a program: for a command \<open>name\<close> or \<open>name argument\<close> whose name the
  directory lists with an ELF file that fits, and with a process slot left, it jumps to user
  mode. Then the program occupies a slot that was free, its page is the one mapped at 128 MB,
  user mode sees the bytes of the file from \<^verbatim>\<open>0x08048000\<close> on, the jump goes to the entry
  point stored at offset 24 of the file, and the new control block remembers the parent.
\<close>

theorem execute_starts_program:
  assumes cmd: "0 \<notin> set name" "32 \<notin> set name" "length name < 32" "0 \<notin> set a" "32 \<notin> set a" "length a < 32"
      "cmd = name @ 32 # a \<or> (cmd = name \<and> a = [])" "length (filename s) = 32" "length (arg s) = 32"
    and mem: "kernel_maps s" "tlb_coherent s" "image_resident s" "stack_ok e s"
    and found: "read_dentry_by_name id (phys s) (FSYSTEM s) (Some (lit name)) = Some d"
      "unat (de_inode d) < unat (rd32 id (phys s) (FSYSTEM s + 4))"
    and elf: "bs = file_bytes id (phys s) (FSYSTEM s) (de_inode d)" "take 4 bs = [0x7f, 0x45, 0x4c, 0x46]"
      "28 \<le> length bs" "length bs < 0x3B8000"
    and slot: "pnum_ok s" "\<not> pnum_pool s \<subseteq> pnum_busy s" and ring: "ring_ok s"
  shows "\<exists>t p. execute e (lit cmd) s = Some (EnterUser (le32 (\<lambda>j. bs ! (24 + j))), t) \<and>
    pnum t = p \<and> 0 \<le> p \<and> nat p \<in> pnum_pool s - pnum_busy s \<and> pnumarr t = (pnumarr s)[nat p := 1] \<and> runs_slot p t \<and>
    (\<forall>j < length bs. user_walk t (EXEC_LOCATION + of_nat j) = Some (load_addr p j) \<and>
       phys t (load_addr p j) = bs ! j) \<and>
    curr_pcb t = pcb_at p \<and> parent (pcbs t (pcb_at p)) = curr_pcb s \<and> ring_ok t"
  using assms by (rule execute_runs)

text \<open>An image with one program, \<^verbatim>\<open>shell\<close>: 28 bytes with the magic number and an entry point.\<close>

definition elf_fs :: mem where
  "elf_fs = (\<lambda>a. 0)(0x500000 := 1, 0x500004 := 1, 0x500008 := 1, 0x500040 := 115, 0x500041 := 104, 0x500042 := 101, 0x500043 := 108,
     0x500044 := 108, 0x500060 := 2,
     0x501000 := 28, 0x502000 := 0x7f, 0x502001 := 0x45, 0x502002 := 0x4c, 0x502003 := 0x46,
     0x502019 := 0x80, 0x50201A := 0x04, 0x50201B := 0x08)"

lemma elf_fs_rd:
  "rd32 id elf_fs 0x500000 = 1" "rd32 id elf_fs 0x500004 = 1" "rd32 id elf_fs 0x500008 = 1"
  "rd32 id elf_fs 0x501000 = 28" "rd32 id elf_fs 0x501004 = 0"
  by (simp_all add: rd32_def le32_def buf_at_def elf_fs_def)

lemma elf_fs_ok: "fs_ok id elf_fs 0x500000"
proof -
  have "unat (rd32 id elf_fs (0x501004 + 4 * of_nat b)) = 0" if "b * 4096 < 28" for b
    using that elf_fs_rd by (cases b) simp_all
  then show ?thesis
    using elf_fs_rd by (auto simp: fs_ok_def fs_size_def file_len_def inode_at_def)
qed

lemma elf_fs_bytes:
  "length (file_bytes id elf_fs 0x500000 0) = 28"
  "k < 28 \<Longrightarrow> file_bytes id elf_fs 0x500000 0 ! k = elf_fs (0x502000 + of_nat k)"
proof -
  show l: "length (file_bytes id elf_fs 0x500000 0) = 28"
    using elf_fs_rd by (simp add: file_len_def inode_at_def)
  assume k: "k < 28"
  then have "(of_nat k :: u32) div 4096 = 0" "(of_nat k :: u32) mod 4096 = of_nat k"
    using of_nat_div_mod [of k] by simp_all
  then show "file_bytes id elf_fs 0x500000 0 ! k = elf_fs (0x502000 + of_nat k)"
    using k elf_fs_rd l by (simp add: file_bytes_def data_addr_def block_base_def inode_at_def)
qed

lemma elf_fs_magic:
  "take 4 (file_bytes id elf_fs 0x500000 0) = [0x7f, 0x45, 0x4c, 0x46]"
  "le32 (\<lambda>j. file_bytes id elf_fs 0x500000 0 ! (24 + j)) = 0x08048000"
proof -
  let ?bs = "file_bytes id elf_fs 0x500000 0"
  show "take 4 ?bs = [0x7f, 0x45, 0x4c, 0x46]"
  proof (rule nth_equalityI)
    show "length (take 4 ?bs) = length [0x7f, 0x45, 0x4c, 0x46 :: u8]" using elf_fs_bytes(1) by simp
    fix j
    assume "j < length (take 4 ?bs)"
    then have j: "j < 4" by simp
    then consider "j = 0" | "j = 1" | "j = 2" | "j = 3" by linarith
    then show "take 4 ?bs ! j = [0x7f, 0x45, 0x4c, 0x46] ! j"
      by cases (simp_all add: elf_fs_bytes(2), simp_all add: elf_fs_def)
  qed
  show "le32 (\<lambda>j. ?bs ! (24 + j)) = 0x08048000"
    by (simp add: le32_def elf_fs_bytes(2)) (simp add: elf_fs_def)
qed

lemma elf_fs_lookup: "read_dentry_by_name id elf_fs 0x500000 (Some (lit (bytes_of ''shell''))) = Some (dentry_at id elf_fs 0x500040)"
proof -
  have c: "cprefix 32 (lit (bytes_of ''shell'')) = bytes_of ''shell''" by (rule cprefix_lit) (simp_all add: bytes_of_def)
  have "buf_at id elf_fs 0x500040 j \<noteq> 0" if j: "j < 5" for j
  proof -
    consider "j = 0" | "j = 1" | "j = 2" | "j = 3" | "j = 4" using j by linarith
    then show ?thesis by cases (simp_all add: buf_at_def elf_fs_def)
  qed
  then have "is_cstr (buf_at id elf_fs 0x500040) 5" by (simp add: is_cstr_def) (simp add: buf_at_def elf_fs_def)
  then have "cprefix 32 (buf_at id elf_fs 0x500040) = map (buf_at id elf_fs 0x500040) [0..<5]"
    by (rule cprefix_is_cstr) simp
  moreover have "[0..<5] = [0, 1, 2, 3, 4 :: nat]" by code_simp
  ultimately have "entry_name id elf_fs 0x500000 0 = bytes_of ''shell''"
    by (simp add: entry_name_def entry_at_def buf_at_def elf_fs_def bytes_of_def)
  then show ?thesis
    unfolding lookup_name c using elf_fs_rd by (simp add: entries_def entry_at_def)
qed

theorem execute_starts_program_witness:
  "\<exists>t. execute \<lparr>dev = (\<lambda>l p. 0), irqs = [], stk = 0x7FF000, save_regs = (0x7FF010, 0x7FF020), switch_regs = (0x7FF000, 0x7FF020)\<rparr>
     (lit (bytes_of ''shell'')) (initPaging (blank_kernel elf_fs 0x500000)) = Some (EnterUser 0x08048000, t) \<and> runs_slot (pnum t) t"
proof -
  let ?e = "\<lparr>dev = (\<lambda>l p. 0), irqs = [], stk = 0x7FF000, save_regs = (0x7FF010, 0x7FF020), switch_regs = (0x7FF000, 0x7FF020)\<rparr> :: env"
  let ?b = "blank_kernel elf_fs 0x500000"
  let ?s = "initPaging ?b" and ?bs = "file_bytes id elf_fs 0x500000 0"
  have f: "phys ?b = elf_fs" "phys ?s = elf_fs" "FSYSTEM ?s = 0x500000" "filename ?s = replicate 32 0" "arg ?s = replicate 32 0"
    "pnumarr ?s = replicate 6 0" "indicator ?s = 1" "active ?s = 1" "head ?s = None"
    by (simp_all add: initPaging_def enablePaging_def fill_directory_def fill_table_def Let_def
        fill_table_fold fill_directory_fold blank_kernel_def del: initPaging_fields)
  have size: "fs_size id elf_fs 0x500000 = 12288" using elf_fs_rd by (simp add: fs_size_def)
  have l: "read_dentry_by_name id elf_fs 0x500000 (Some (lit [115, 104, 101, 108, 108])) = Some (dentry_at id elf_fs 0x500040)"
    using elf_fs_lookup by (simp add: bytes_of_def)
  have d: "de_inode (dentry_at id elf_fs 0x500040) = 0" by (simp add: dentry_at_def elf_fs_def)
  have "kernel_maps ?s" by (rule kernel_maps_init [OF blank_kernel_tables])
  moreover have "tlb_coherent ?s" by (simp add: tlb_coherent_def)
  moreover have "image_resident ?s" using elf_fs_ok by (simp add: image_resident_def f size)
  moreover have "stack_ok ?e ?s" by (auto simp: stack_ok_def f size region_nowrap)
  moreover have "take 4 ?bs = [0x7f, 0x45, 0x4c, 0x46]" by (rule elf_fs_magic)
  moreover have "le32 (\<lambda>j. ?bs ! (24 + j)) = 0x08048000" by (rule elf_fs_magic)
  moreover have "pnum_ok ?s" "ring_ok ?s" by (simp_all add: pnum_ok_def ring_ok_def f)
  moreover have "\<not> pnum_pool ?s \<subseteq> pnum_busy ?s" by (simp add: pnum_pool_def pnum_busy_def f)
  ultimately have "\<exists>t p. execute ?e (lit (bytes_of ''shell'')) ?s = Some (EnterUser (le32 (\<lambda>j. ?bs ! (24 + j))), t) \<and>
      pnum t = p \<and> 0 \<le> p \<and> nat p \<in> pnum_pool ?s - pnum_busy ?s \<and> pnumarr t = (pnumarr ?s)[nat p := 1] \<and> runs_slot p t \<and>
      (\<forall>j < length ?bs. user_walk t (EXEC_LOCATION + of_nat j) = Some (load_addr p j) \<and> phys t (load_addr p j) = ?bs ! j) \<and>
      curr_pcb t = pcb_at p \<and> parent (pcbs t (pcb_at p)) = curr_pcb ?s \<and> ring_ok t"
    by (intro execute_starts_program [where name = "bytes_of ''shell''" and a = "[]" and d = "dentry_at id elf_fs 0x500040"])
      (simp_all add: f bytes_of_def l d elf_fs_rd elf_fs_bytes(1) del: length_file_bytes)
  then show ?thesis using \<open>le32 _ = _\<close> by auto
qed

text \<open>The same image started from any state over it.\<close>

lemma elf_execute:
  assumes s: "phys s = elf_fs" "FSYSTEM s = 0x500000" "length (filename s) = 32" "length (arg s) = 32"
    and m: "kernel_maps s" "tlb_coherent s" and slot: "pnum_ok s" "\<not> pnum_pool s \<subseteq> pnum_busy s" "ring_ok s"
    and e: "stk e = 0x7FF000"
  shows "\<exists>t. execute e (lit (bytes_of ''shell'')) s = Some (EnterUser 0x08048000, t)"
proof -
  let ?bs = "file_bytes id elf_fs 0x500000 0" and ?d = "dentry_at id elf_fs 0x500040"
  have size: "fs_size id elf_fs 0x500000 = 12288" using elf_fs_rd by (simp add: fs_size_def)
  have l: "read_dentry_by_name id elf_fs 0x500000 (Some (lit [115, 104, 101, 108, 108])) = Some ?d"
    using elf_fs_lookup by (simp add: bytes_of_def)
  have d: "de_inode ?d = 0" by (simp add: dentry_at_def elf_fs_def)
  have "image_resident s" using elf_fs_ok by (simp add: image_resident_def s size)
  moreover have "stack_ok e s" by (auto simp: stack_ok_def s size e region_nowrap)
  ultimately have "\<exists>t p. execute e (lit (bytes_of ''shell'')) s = Some (EnterUser (le32 (\<lambda>j. ?bs ! (24 + j))), t) \<and>
      pnum t = p \<and> 0 \<le> p \<and> nat p \<in> pnum_pool s - pnum_busy s \<and> pnumarr t = (pnumarr s)[nat p := 1] \<and> runs_slot p t \<and>
      (\<forall>j < length ?bs. user_walk t (EXEC_LOCATION + of_nat j) = Some (load_addr p j) \<and> phys t (load_addr p j) = ?bs ! j) \<and>
      curr_pcb t = pcb_at p \<and> parent (pcbs t (pcb_at p)) = curr_pcb s \<and> ring_ok t"
    using m slot elf_fs_magic(1)
    by (intro execute_runs [where name = "bytes_of ''shell''" and a = "[]" and d = ?d])
      (simp_all add: s bytes_of_def l d elf_fs_rd elf_fs_bytes(1) del: length_file_bytes)
  then show ?thesis using elf_fs_magic(2) by auto
qed

end
