(* ===== verification/Syscall.thy ===== *)
theory Syscall
  imports Loader
begin

text \<open>
  The system calls of \<^verbatim>\<open>student-distrib/syscall.c\<close> and the dispatcher \<^verbatim>\<open>syscall_link\<close> of
  \<^verbatim>\<open>wrappers.S\<close>. A call through a jump table entry is a case distinction over the functions the
  kernel stores there; a \<^verbatim>\<open>NULL\<close> entry faults. \<open>None\<close> is a call that still waits.
\<close>

section \<open>Opening and closing\<close>

fun free_fd :: "file_t list \<Rightarrow> nat \<Rightarrow> nat \<Rightarrow> nat option" where
  "free_fd t i 0 = None"
| "free_fd t i (Suc k) = (if flags (t ! i) = 0 then Some i else free_fd t (Suc i) k)"

definition createFD :: "int \<Rightarrow> kernel \<Rightarrow> int \<times> kernel" where
  "createFD d s =
     (let ops = (if d = 0 then rfotp s else if d = 1 then dfotp s else ffotp s)
      in case free_fd (fd s) 2 6 of
           None \<Rightarrow> (-1, s)
         | Some i \<Rightarrow>
             (int i, s\<lparr>fd := (fd s)[i := \<lparr>fotp = ops, inode = (if d = 2 then de_inode (dt s) else 0),
                                          fposition = 0, flags = 1\<rparr>]\<rparr>))"

definition c_string :: "u32 \<Rightarrow> kernel \<Rightarrow> cbuf option" where
  "c_string p s = (if p = 0 then None else Some (buf_at (xl s) (phys s) p))"

definition sys_open :: "u32 \<Rightarrow> kernel \<Rightarrow> int \<times> kernel" where
  "sys_open fname s =
     (case read_dentry_by_name (xl s) (phys s) (FSYSTEM s) (c_string fname s) of
        None \<Rightarrow> (-1, s)
      | Some d \<Rightarrow> let s = s\<lparr>dt := d\<rparr> in createFD (sint (de_ftype (dt s))) s)"

fun call_close :: "close_fn \<Rightarrow> nat \<Rightarrow> kernel \<Rightarrow> outcome \<times> kernel" where
  "call_close close_NULL fdr s = (Fault, s)"
| "call_close close_terminal fdr s = (let (r, s) = terminal_close s in (Returned r, s))"
| "call_close close_rtc fdr s = (let (r, s) = rtc_close (int fdr) s in (Returned r, s))"
| "call_close close_file fdr s = (let (r, s) = file_close fdr s in (Returned r, s))"

text \<open>The bound in the source is 8, one more than the last entry of the table.\<close>

definition sys_close :: "int \<Rightarrow> kernel \<Rightarrow> outcome \<times> kernel" where
  "sys_close fdr s =
     (if fdr \<ge> 2 \<and> fdr \<le> 8 then
        let i = nat fdr
        in if \<not> i < length (fd s) then (Fault, s)
           else if flags (fd s ! i) = 0 then (Returned (-1), s)
           else let s = s\<lparr>fd := (fd s)[i := (fd s ! i)\<lparr>flags := 0\<rparr>]\<rparr>
                in call_close (f_close (fotp (fd s ! i))) i s
      else (Returned (-1), s))"

section \<open>Reading and writing\<close>

fun call_read :: "env \<Rightarrow> read_fn \<Rightarrow> nat \<Rightarrow> u32 \<Rightarrow> int \<Rightarrow> kernel \<Rightarrow> (outcome \<times> kernel) option" where
  "call_read e read_NULL fdr buf n s = Some (Fault, s)"
| "call_read e read_terminal fdr buf n s = map_option (\<lambda>(r, s). (Returned r, s)) (terminal_read (irqs e) buf n s)"
| "call_read e read_invalid fdr buf n s = (let (r, s) = terminal_invalid_read s in Some (Returned r, s))"
| "call_read e read_rtc fdr buf n s = map_option (\<lambda>(r, s). (Returned r, s)) (rtc_read (irqs e) s)"
| "call_read e read_directory fdr buf n s = (let (r, s) = directory_read fdr buf (word_of_int n) s in Some (Returned r, s))"
| "call_read e read_file fdr buf n s = (let (r, s) = file_read fdr buf (word_of_int n) s in Some (Returned r, s))"

definition sys_read :: "env \<Rightarrow> int \<Rightarrow> u32 \<Rightarrow> int \<Rightarrow> kernel \<Rightarrow> (outcome \<times> kernel) option" where
  "sys_read e fdr buf n s =
     (if buf = 0 \<or> fdr < 0 \<or> fdr > 7 then Some (Returned (-1), s)
      else if flags (fd s ! nat fdr) \<noteq> 0
      then call_read e (f_read (fotp (fd s ! nat fdr))) (nat fdr) buf n s
      else Some (Returned (-1), s))"

fun call_write :: "env \<Rightarrow> write_fn \<Rightarrow> u32 \<Rightarrow> u32 \<Rightarrow> int \<Rightarrow> kernel \<Rightarrow> (outcome \<times> kernel) option" where
  "call_write e write_NULL i buf n s = Some (Fault, s)"
| "call_write e write_terminal i buf n s = terminal_write (irqs e) buf n s"
| "call_write e write_invalid i buf n s = (let (r, s) = terminal_invalid_write s in Some (Returned r, s))"
| "call_write e write_rtc i buf n s =
     (let (r, s) = rtc_write (dev e) (buf_at (xl s) (phys s) buf) s in Some (Returned r, s))"
| "call_write e write_file i buf n s = (let (r, s) = file_write i buf (word_of_int n) s in Some (Returned r, s))"

definition sys_write :: "env \<Rightarrow> int \<Rightarrow> u32 \<Rightarrow> int \<Rightarrow> kernel \<Rightarrow> (outcome \<times> kernel) option" where
  "sys_write e fdr buf n s =
     (if buf = 0 \<or> fdr < 0 \<or> fdr > 7 then Some (Returned (-1), s)
      else if flags (fd s ! nat fdr) \<noteq> 0
      then call_write e (f_write (fotp (fd s ! nat fdr))) (inode (fd s ! nat fdr)) buf n s
      else Some (Returned (-1), s))"

section \<open>Ending a program\<close>

text \<open>\<^verbatim>\<open>halt\<close> ignores what the closes return; a fault in one of them is a fault.\<close>

fun close_all :: "nat list \<Rightarrow> kernel \<Rightarrow> kernel option" where
  "close_all [] s = Some s"
| "close_all (j # js) s = (case sys_close (int j) s of (Returned r, s) \<Rightarrow> close_all js s | _ \<Rightarrow> None)"

definition relink :: "kernel \<Rightarrow> kernel option" where
  "relink s =
     (case current_process s of
        None \<Rightarrow> None
      | Some None \<Rightarrow>
          Some (if active s = 2 then set_proc process2 (\<lambda>q. q\<lparr>next_proc := Some process1\<rparr>) s
                else if active s = 1 then set_proc process1 (\<lambda>q. q\<lparr>next_proc := Some process1\<rparr>) s
                else if active s = 0 then (set_proc process1 (\<lambda>q. q\<lparr>next_proc := None\<rparr>) s)\<lparr>head := None\<rparr>
                else s)
      | Some (Some cur) \<Rightarrow> Some (set_proc cur (\<lambda>q. q\<lparr>pcb := curr_pcb s\<rparr>) s))"

definition to_parent :: "kernel \<Rightarrow> kernel" where
  "to_parent s =
     (let p = pcbs s (curr_pcb s);
          s = s\<lparr>pnum := pid p, fd := pcb_fd p,
                filename := map (copy_name (pcb_filename p) (lit (filename s))) [0..<32]\<rparr>
      in parentPage s)"

definition leave :: "u8 \<Rightarrow> kernel \<Rightarrow> outcome \<times> kernel" where
  "leave status s =
     (if curr_pcb s = 0 then (Fault, s)
      else let p = pcbs s (curr_pcb s);
               s = s\<lparr>tss_esp0 := oldesp p\<rparr>
           in case close_all [2..<8] s of
                None \<Rightarrow> (Fault, s)
              | Some s \<Rightarrow>
                  let s = s\<lparr>curr_pcb := parent p\<rparr>
                  in if curr_pcb s = 0 then (Fault, s)
                     else case relink (to_parent s) of
                         None \<Rightarrow> (Fault, s)
                       | Some s \<Rightarrow> (ResumeParent (haltesp p) (haltebp p) status, s))"

definition sys_halt :: "env \<Rightarrow> u8 \<Rightarrow> kernel \<Rightarrow> (outcome \<times> kernel) option" where
  "sys_halt e status s =
     (let s = s\<lparr>pnumarr := (pnumarr s)[nat (pnum s) := 0]\<rparr>
      in if pnum s < 3 then
           (case execute e (lit (bytes_of ''shell'')) s of
              None \<Rightarrow> None
            | Some (Returned r, s) \<Rightarrow> Some (leave status s)
            | Some (x, s) \<Rightarrow> Some (x, s))
         else Some (leave status s))"

section \<open>The remaining calls\<close>

text \<open>\<^verbatim>\<open>sizeof\<close> is unsigned, so the count is compared as an unsigned number.\<close>

definition getargs :: "u32 \<Rightarrow> int \<Rightarrow> kernel \<Rightarrow> outcome \<times> kernel" where
  "getargs buf nbytes s =
     (if (32 :: u32) \<ge> word_of_int nbytes \<or> arg s ! 0 = 0 then (Returned (-1), s)
      else let bs = cprefix 32 (lit (arg s))
           in if \<not> length bs < 32 then (Fault, s)
              else (Returned 0, s\<lparr>phys := store_bytes (xl s) buf (bs @ [0]) (phys s)\<rparr>))"

definition vidmap :: "u32 \<Rightarrow> kernel \<Rightarrow> int \<times> kernel" where
  "vidmap screen_start s =
     (if screen_start = 0 \<or> screen_start < EXEC_LOCATION div 4 \<or> screen_start \<ge> USER_VIDEO then (-1, s)
      else let s = s\<lparr>addrPage := VIDEO\<rparr>;
               v = USER_VIDEO + word_of_int (indicator s) * 4096
           in (0, s\<lparr>phys := store_bytes (xl s) screen_start (map (byte_of v) [0..<4]) (phys s)\<rparr>))"

definition set_handler :: "int \<Rightarrow> u32 \<Rightarrow> kernel \<Rightarrow> int \<times> kernel" where
  "set_handler signum handler s = (-1, s)"

definition sigreturn :: "kernel \<Rightarrow> int \<times> kernel" where
  "sigreturn s = (-1, s)"

text \<open>
  The dispatcher: call number in \<^verbatim>\<open>eax\<close>, arguments in \<^verbatim>\<open>ebx\<close>, \<^verbatim>\<open>ecx\<close>,
  \<^verbatim>\<open>edx\<close>. The number is decremented and compared unsigned, so 0 is out of range too.
\<close>

definition returned :: "int \<times> kernel \<Rightarrow> (outcome \<times> kernel) option" where
  "returned r = Some (Returned (fst r), snd r)"

definition syscall_link :: "env \<Rightarrow> u32 \<Rightarrow> u32 \<Rightarrow> u32 \<Rightarrow> u32 \<Rightarrow> kernel \<Rightarrow> (outcome \<times> kernel) option" where
  "syscall_link e eax ebx ecx edx s =
     (let n = eax - 1
      in if n \<ge> 10 then Some (Returned (-1), s)
         else if n = 0 then sys_halt e (ucast ebx) s
         else if n = 1 then execute e (buf_at (xl s) (phys s) ebx) s
         else if n = 2 then sys_read e (sint ebx) ecx (sint edx) s
         else if n = 3 then sys_write e (sint ebx) ecx (sint edx) s
         else if n = 4 then returned (sys_open ebx s)
         else if n = 5 then Some (sys_close (sint ebx) s)
         else if n = 6 then Some (getargs ebx (sint ecx) s)
         else if n = 7 then returned (vidmap ebx s)
         else if n = 8 then returned (set_handler (sint ebx) ecx s)
         else returned (sigreturn s))"

section \<open>File descriptors\<close>

text \<open>Descriptors are slots of the same kind as process numbers.\<close>

definition fd_alloc :: "int \<Rightarrow> kernel \<Rightarrow> nat option \<times> kernel" where
  "fd_alloc d s = (let (r, t) = createFD d s in (if r = -1 then None else Some (nat r), t))"

definition fd_ok :: "kernel \<Rightarrow> bool" where
  "fd_ok s \<longleftrightarrow> length (fd s) = 8"

definition fd_pool :: "kernel \<Rightarrow> nat set" where
  "fd_pool s = {2..<8}"

definition fd_busy :: "kernel \<Rightarrow> nat set" where
  "fd_busy s = {i. i < 8 \<and> flags (fd s ! i) \<noteq> 0}"

lemma free_fd_Some: "free_fd t i k = Some j \<Longrightarrow> i \<le> j \<and> j < i + k \<and> flags (t ! j) = 0"
  by (induction k arbitrary: i) (auto split: if_splits, fastforce+)

lemma free_fd_None: "free_fd t i k = None \<longleftrightarrow> (\<forall>j \<in> {i..<i + k}. flags (t ! j) \<noteq> 0)"
proof (induction k arbitrary: i)
  case (Suc k)
  have "{i..<i + Suc k} = insert i {Suc i..<Suc i + k}" by auto
  then show ?case using Suc.IH [of "Suc i"] by simp
qed simp

definition new_fd :: "int \<Rightarrow> kernel \<Rightarrow> file_t" where
  "new_fd d s = \<lparr>fotp = (if d = 0 then rfotp s else if d = 1 then dfotp s else ffotp s),
     inode = (if d = 2 then de_inode (dt s) else 0), fposition = 0, flags = 1\<rparr>"

lemma createFD_alt: "createFD d s = (case free_fd (fd s) 2 6 of None \<Rightarrow> (-1, s)
    | Some i \<Rightarrow> (int i, s\<lparr>fd := (fd s)[i := new_fd d s]\<rparr>))"
  unfolding createFD_def new_fd_def Let_def ..

interpretation fslot: slot_alloc "fd_alloc d" fd_ok fd_busy fd_pool
  for d
proof
  fix s t :: kernel and i
  assume s: "fd_ok s" and a: "fd_alloc d s = (Some i, t)"
  then obtain j where j: "free_fd (fd s) 2 6 = Some j"
    by (auto simp: fd_alloc_def createFD_alt Let_def split: option.splits if_splits)
  then have i: "i = j" and t: "t = s\<lparr>fd := (fd s)[i := new_fd d s]\<rparr>"
    using a by (auto simp: fd_alloc_def createFD_alt Let_def)
  have r: "2 \<le> i" "i < 8" "flags (fd s ! i) = 0" using free_fd_Some [OF j] i by auto
  show "i \<in> fd_pool s \<and> i \<notin> fd_busy s" using r by (simp add: fd_pool_def fd_busy_def)
  show "fd_busy t = insert i (fd_busy s) \<and> fd_pool t = fd_pool s"
    using r s by (auto simp: t fd_busy_def fd_pool_def fd_ok_def nth_list_update new_fd_def)
  show "fd_ok t" using s by (simp add: t fd_ok_def)
next
  fix s t :: kernel
  assume "fd_ok s" and a: "fd_alloc d s = (None, t)"
  then have "free_fd (fd s) 2 6 = None" "t = s"
    by (auto simp: fd_alloc_def createFD_alt Let_def split: option.splits if_splits)
  then show "fd_pool s \<subseteq> fd_busy s \<and> t = s"
    by (auto simp: free_fd_None fd_pool_def fd_busy_def)
next
  show "finite (fd_pool s)" for s by (simp add: fd_pool_def)
qed

text \<open>
  C31. File descriptors: creating descriptors until it fails hands out pairwise distinct
  numbers between 2 and 7 that were free (never 0 or 1, the terminal), exactly as many as were
  free, and marks exactly these as open.
\<close>

theorem descriptors_distinct:
  assumes "fd_ok s" and "alloc_many (fd_alloc d) k s = (is, t)"
  shows "distinct is \<and> set is \<subseteq> {2..<8} - fd_busy s \<and> length is = min k (card ({2..<8} - fd_busy s)) \<and>
    fd_busy t = fd_busy s \<union> set is"
  using fslot.alloc_many_spec [OF assms] by (simp add: fd_pool_def)

theorem descriptors_distinct_witness:
  "length (fst (alloc_many (fd_alloc 2) 9 (initFOTP (blank_kernel (\<lambda>a. 0) 0)))) = 6"
proof -
  let ?s = "initFOTP (blank_kernel (\<lambda>a. 0) 0)"
  have ok: "fd_ok ?s" by (simp add: fd_ok_def initFOTP_def Let_def blank_kernel_def)
  have "{2..<8} - fd_busy ?s = {2..<8}"
    by (auto simp: fd_busy_def initFOTP_def Let_def blank_kernel_def nth_list_update null_file_def)
  moreover obtain "is" t where it: "alloc_many (fd_alloc 2) 9 ?s = (is, t)" by (cases "alloc_many (fd_alloc 2) 9 ?s")
  ultimately show ?thesis using descriptors_distinct [OF ok it] by simp
qed

section \<open>Files through the dispatcher\<close>

text \<open>A system call as the program sees it: the value in \<^verbatim>\<open>eax\<close> when it returns.\<close>

definition user_call :: "env \<Rightarrow> u32 \<Rightarrow> u32 \<Rightarrow> u32 \<Rightarrow> u32 \<Rightarrow> kernel \<Rightarrow> int \<times> kernel" where
  "user_call e n b c d s = (case syscall_link e n b c d s of Some (Returned r, t) \<Rightarrow> (r, t) | _ \<Rightarrow> (-1, s))"

lemma small_sint: "n < 2 ^ 31 \<Longrightarrow> sint (of_nat n :: u32) = int n"
  by (simp add: sint_u32 unat_of_nat uint_nat del: of_nat_unat)

lemma user_call_read:
  "user_call e 3 b c d s = (case sys_read e (sint b) c (sint d) s of Some (Returned r, t) \<Rightarrow> (r, t) | _ \<Rightarrow> (-1, s))"
  by (simp add: user_call_def syscall_link_def)

lemma user_call_open: "user_call e 5 b c d s = sys_open b s"
  by (simp add: user_call_def syscall_link_def returned_def)

definition open_inv :: "nat \<Rightarrow> u32 \<Rightarrow> nat \<Rightarrow> kernel \<Rightarrow> bool" where
  "open_inv i buf cap s \<longleftrightarrow> file_inv i buf cap s \<and> i < 8 \<and> cap < 2 ^ 31 \<and> flags (fd s ! i) \<noteq> 0 \<and>
     f_read (fotp (fd s ! i)) = read_file"

lemma read_call_file:
  assumes "open_inv i buf cap s" and "n \<le> cap"
  shows "user_call e 3 (of_nat i) buf (of_nat n) s = file_read i buf (of_nat n) s"
proof -
  have i: "sint (of_nat i :: u32) = int i" using assms(1) by (intro small_sint) (simp add: open_inv_def)
  have "buf \<noteq> 0" using assms(1) by (simp add: open_inv_def file_inv_def user_buf_def)
  then show ?thesis using assms
    by (simp add: user_call_read sys_read_def i open_inv_def Let_def case_prod_unfold)
qed

lemma read_call_inv:
  assumes "open_inv i buf cap s" and "n \<le> cap"
  shows "open_inv i buf cap (snd (file_read i buf (of_nat n) s))"
  using assms file_read_step(2) [of i buf cap s n]
  by (auto simp: open_inv_def file_read_def Let_def case_prod_unfold file_inv_def)

interpretation sysread: byte_stream "\<lambda>n. user_call e 3 (of_nat i) buf (of_nat n)" "open_inv i buf cap" "file_rest i" "file_buf buf" cap
  for e i buf cap
proof
  fix s n
  assume s: "open_inv i buf cap s" and n: "n \<le> cap"
  then have f: "file_inv i buf cap s" by (simp add: open_inv_def)
  note st = file_read_step [OF f n, folded read_call_file [OF s n, of e]]
  show "fst (user_call e 3 (of_nat i) buf (of_nat n) s) = int (length (take n (file_rest i s)))" by (rule st(1))
  show "open_inv i buf cap (snd (user_call e 3 (of_nat i) buf (of_nat n) s))"
    unfolding read_call_file [OF s n] by (rule read_call_inv [OF s n])
  show "file_rest i (snd (user_call e 3 (of_nat i) buf (of_nat n) s)) = drop n (file_rest i s)" by (rule st(3))
  show "file_buf buf (snd (user_call e 3 (of_nat i) buf (of_nat n) s)) (length (take n (file_rest i s))) = take n (file_rest i s)"
    by (rule st(4))
qed

lemma sys_open_ok:
  assumes "fd_ok s" and "\<not> fd_pool s \<subseteq> fd_busy s" and "p \<noteq> 0"
    and "read_dentry_by_name (xl s) (phys s) (FSYSTEM s) (Some (buf_at (xl s) (phys s) p)) = Some d"
  shows "\<exists>i. 2 \<le> i \<and> i < 8 \<and> flags (fd s ! i) = 0 \<and>
    sys_open p s = (int i, s\<lparr>dt := d, fd := (fd s)[i := new_fd (sint (de_ftype d)) (s\<lparr>dt := d\<rparr>)]\<rparr>)"
proof -
  obtain i where i: "free_fd (fd s) 2 6 = Some i"
    using assms(2) by (cases "free_fd (fd s) 2 6") (auto simp: free_fd_None fd_pool_def fd_busy_def)
  then show ?thesis using free_fd_Some [OF i] assms(3,4)
    by (auto simp: sys_open_def c_string_def createFD_alt Let_def)
qed

lemma xl_dt_fd [simp]: "xl (s\<lparr>dt := d, fd := f\<rparr>) = xl s" for s :: kernel
  by (rule xl_cong) simp_all

lemma open_file_stream:
  assumes "fd_ok s" and "\<not> fd_pool s \<subseteq> fd_busy s" and "p \<noteq> 0"
    and d: "read_dentry_by_name (xl s) (phys s) (FSYSTEM s) (Some (buf_at (xl s) (phys s) p)) = Some d"
    and reg: "de_ftype d = 2" "f_read (ffotp s) = read_file"
    and fs: "fs_ok (xl s) (phys s) (FSYSTEM s)" "unat (de_inode d) < unat (rd32 (xl s) (phys s) (FSYSTEM s + 4))"
    and buf: "user_buf (xl s) (phys s) (FSYSTEM s) buf n" "n < 2 ^ 31"
  obtains i f where "sys_open p s = (int i, s\<lparr>dt := d, fd := (fd s)[i := f]\<rparr>)" "2 \<le> i" "i < 8" "flags (fd s ! i) = 0"
    "open_inv i buf n (s\<lparr>dt := d, fd := (fd s)[i := f]\<rparr>)"
    "file_rest i (s\<lparr>dt := d, fd := (fd s)[i := f]\<rparr>) = file_bytes (xl s) (phys s) (FSYSTEM s) (de_inode d)"
    "fotp f = ffotp s" "flags f \<noteq> 0"
proof -
  obtain i where i: "2 \<le> i" "i < 8" "flags (fd s ! i) = 0"
    and o: "sys_open p s = (int i, s\<lparr>dt := d, fd := (fd s)[i := new_fd (sint (de_ftype d)) (s\<lparr>dt := d\<rparr>)]\<rparr>)"
    using sys_open_ok [OF assms(1-3) d] by blast
  let ?t = "s\<lparr>dt := d, fd := (fd s)[i := new_fd (sint (de_ftype d)) (s\<lparr>dt := d\<rparr>)]\<rparr>"
  have f: "fd ?t ! i = \<lparr>fotp = ffotp s, inode = de_inode d, fposition = 0, flags = 1\<rparr>"
    using i(2) assms(1) reg(1) by (simp add: fd_ok_def new_fd_def)
  have inv: "open_inv i buf n ?t"
    unfolding open_inv_def file_inv_def f xl_dt_fd using i(2) assms(1) fs reg(2) buf by (simp add: fd_ok_def)
  have rest: "file_rest i ?t = file_bytes (xl s) (phys s) (FSYSTEM s) (de_inode d)" unfolding file_rest_def f xl_dt_fd by simp
  show thesis by (rule that [OF o i inv rest]) (simp_all add: new_fd_def reg(1))
qed

text \<open>
  C17. Reading a file through system calls: opening the name of a regular file succeeds while a
  descriptor is free, and reading the new descriptor in chunks of any positive size until the
  call returns 0 yields exactly the bytes the image stores for the file.
\<close>

theorem open_read_whole_file:
  assumes "fd_ok s" and "\<not> fd_pool s \<subseteq> fd_busy s" and "p \<noteq> 0"
    and d: "read_dentry_by_name (xl s) (phys s) (FSYSTEM s) (Some (buf_at (xl s) (phys s) p)) = Some d"
    and reg: "de_ftype d = 2" "f_read (ffotp s) = read_file"
    and fs: "fs_ok (xl s) (phys s) (FSYSTEM s)" "unat (de_inode d) < unat (rd32 (xl s) (phys s) (FSYSTEM s + 4))"
    and buf: "user_buf (xl s) (phys s) (FSYSTEM s) buf n" "0 < n" "n < 2 ^ 31"
    and bs: "bs = file_bytes (xl s) (phys s) (FSYSTEM s) (de_inode d)" "length bs < fuel"
  shows "\<exists>i t. user_call e 5 p 0 0 s = (int i, t) \<and> 2 \<le> i \<and> i < 8 \<and> i \<notin> fd_busy s \<and>
    read_all (user_call e 3 (of_nat i) buf (of_nat n)) (file_buf buf) fuel t = Some bs"
proof -
  obtain i f where o: "sys_open p s = (int i, s\<lparr>dt := d, fd := (fd s)[i := f]\<rparr>)" "2 \<le> i" "i < 8" "flags (fd s ! i) = 0"
    and inv: "open_inv i buf n (s\<lparr>dt := d, fd := (fd s)[i := f]\<rparr>)" and rest: "file_rest i (s\<lparr>dt := d, fd := (fd s)[i := f]\<rparr>) = bs"
    using open_file_stream [OF assms(1-3) d reg fs buf(1,3)] bs(1) by blast
  have "read_all (user_call e 3 (of_nat i) buf (of_nat n)) (file_buf buf) fuel (s\<lparr>dt := d, fd := (fd s)[i := f]\<rparr>) = Some bs"
    using sysread.chunks_to_end [OF buf(2) order_refl inv, of fuel e] bs(2) unfolding rest by simp
  then show ?thesis using o by (auto simp: user_call_open fd_busy_def)
qed

section \<open>Listing the directory through the dispatcher\<close>

definition list_inv :: "nat \<Rightarrow> u32 \<Rightarrow> kernel \<Rightarrow> bool" where
  "list_inv i buf s \<longleftrightarrow> dir_inv i buf s \<and> i < 8 \<and> flags (fd s ! i) \<noteq> 0 \<and> f_read (fotp (fd s ! i)) = read_directory"

lemma read_call_directory:
  assumes "list_inv i buf s"
  shows "user_call e 3 (of_nat i) buf n s = directory_read i buf n s"
proof -
  have i: "sint (of_nat i :: u32) = int i" using assms by (intro small_sint) (simp add: list_inv_def)
  have "buf \<noteq> 0" using assms by (simp add: list_inv_def dir_inv_def user_buf_def)
  then show ?thesis using assms
    by (simp add: user_call_read sys_read_def i list_inv_def Let_def case_prod_unfold)
qed

lemma list_inv_step: "list_inv i buf s \<Longrightarrow> dir_rest i s \<noteq> [] \<Longrightarrow> list_inv i buf (snd (directory_read i buf n s))"
  using directory_read_step(2) [of i buf s n]
  by (auto simp: list_inv_def directory_read_def Let_def dir_inv_def split: option.splits)

interpretation syslist: stream_reader "user_call e 3 (of_nat i) buf n" "list_inv i buf" "dir_rest i" "dir_buf buf"
  for e i buf n
proof
  fix s
  assume s: "list_inv i buf s"
  then have d: "dir_inv i buf s" by (simp add: list_inv_def)
  note c = read_call_directory [OF s, of e n]
  show "dir_rest i s = [] \<Longrightarrow> fst (user_call e 3 (of_nat i) buf n s) = 0"
    unfolding c by (rule dstream.at_end [OF d])
  assume ne: "dir_rest i s \<noteq> []"
  show "0 < fst (user_call e 3 (of_nat i) buf n s)" unfolding c by (rule dstream.more_count [OF d ne])
  show "list_inv i buf (snd (user_call e 3 (of_nat i) buf n s))" unfolding c by (rule list_inv_step [OF s ne])
  show "dir_buf buf (snd (user_call e 3 (of_nat i) buf n s)) (nat (fst (user_call e 3 (of_nat i) buf n s))) @
      dir_rest i (snd (user_call e 3 (of_nat i) buf n s)) = dir_rest i s" unfolding c by (rule dstream.more_got [OF d ne])
  show "length (dir_rest i (snd (user_call e 3 (of_nat i) buf n s))) < length (dir_rest i s)"
    unfolding c by (rule dstream.more_rest [OF d ne])
qed

lemma open_directory_stream:
  assumes "fd_ok s" and "\<not> fd_pool s \<subseteq> fd_busy s" and "p \<noteq> 0"
    and d: "read_dentry_by_name (xl s) (phys s) (FSYSTEM s) (Some (buf_at (xl s) (phys s) p)) = Some d"
    and dir: "de_ftype d = 1" "f_read (dfotp s) = read_directory"
    and fs: "fs_ok (xl s) (phys s) (FSYSTEM s)" and buf: "user_buf (xl s) (phys s) (FSYSTEM s) buf 32"
  obtains i f where "sys_open p s = (int i, s\<lparr>dt := d, fd := (fd s)[i := f]\<rparr>)" "2 \<le> i" "i < 8" "flags (fd s ! i) = 0"
    "list_inv i buf (s\<lparr>dt := d, fd := (fd s)[i := f]\<rparr>)"
    "dir_rest i (s\<lparr>dt := d, fd := (fd s)[i := f]\<rparr>) =
      map (entry_name (xl s) (phys s) (FSYSTEM s)) [0..<entries (xl s) (phys s) (FSYSTEM s)]"
proof -
  obtain i where i: "2 \<le> i" "i < 8" "flags (fd s ! i) = 0"
    and o: "sys_open p s = (int i, s\<lparr>dt := d, fd := (fd s)[i := new_fd (sint (de_ftype d)) (s\<lparr>dt := d\<rparr>)]\<rparr>)"
    using sys_open_ok [OF assms(1-3) d] by blast
  let ?t = "s\<lparr>dt := d, fd := (fd s)[i := new_fd (sint (de_ftype d)) (s\<lparr>dt := d\<rparr>)]\<rparr>"
  have f: "fd ?t ! i = \<lparr>fotp = dfotp s, inode = 0, fposition = 0, flags = 1\<rparr>"
    using i(2) assms(1) dir(1) by (simp add: fd_ok_def new_fd_def)
  have inv: "list_inv i buf ?t"
    unfolding list_inv_def dir_inv_def f xl_dt_fd using i(2) assms(1) fs dir(2) buf by (simp add: fd_ok_def)
  have rest: "dir_rest i ?t = map (entry_name (xl s) (phys s) (FSYSTEM s)) [0..<entries (xl s) (phys s) (FSYSTEM s)]"
    unfolding dir_rest_def f xl_dt_fd by simp
  show thesis by (rule that [OF o i inv rest])
qed

text \<open>
  Listing through system calls: opening a directory entry of type 1 and reading the new
  descriptor until the call returns 0 yields the names of all directory entries in order.
\<close>

theorem open_list_directory:
  assumes "fd_ok s" and "\<not> fd_pool s \<subseteq> fd_busy s" and "p \<noteq> 0"
    and d: "read_dentry_by_name (xl s) (phys s) (FSYSTEM s) (Some (buf_at (xl s) (phys s) p)) = Some d"
    and dir: "de_ftype d = 1" "f_read (dfotp s) = read_directory"
    and fs: "fs_ok (xl s) (phys s) (FSYSTEM s)" and buf: "user_buf (xl s) (phys s) (FSYSTEM s) buf 32"
    and fuel: "entries (xl s) (phys s) (FSYSTEM s) < fuel"
  shows "\<exists>i t. user_call e 5 p 0 0 s = (int i, t) \<and> 2 \<le> i \<and> i < 8 \<and> i \<notin> fd_busy s \<and>
    read_all (user_call e 3 (of_nat i) buf n) (dir_buf buf) fuel t =
      Some (map (entry_name (xl s) (phys s) (FSYSTEM s)) [0..<entries (xl s) (phys s) (FSYSTEM s)])"
proof -
  obtain i f where o: "sys_open p s = (int i, s\<lparr>dt := d, fd := (fd s)[i := f]\<rparr>)" "2 \<le> i" "i < 8" "flags (fd s ! i) = 0"
    and inv: "list_inv i buf (s\<lparr>dt := d, fd := (fd s)[i := f]\<rparr>)"
    and rest: "dir_rest i (s\<lparr>dt := d, fd := (fd s)[i := f]\<rparr>) =
      map (entry_name (xl s) (phys s) (FSYSTEM s)) [0..<entries (xl s) (phys s) (FSYSTEM s)]"
    using open_directory_stream [OF assms(1-3) d dir fs buf] by blast
  have "read_all (user_call e 3 (of_nat i) buf n) (dir_buf buf) fuel (s\<lparr>dt := d, fd := (fd s)[i := f]\<rparr>) =
      Some (dir_rest i (s\<lparr>dt := d, fd := (fd s)[i := f]\<rparr>))"
    by (rule syslist.read_to_end [OF inv]) (use fuel rest in simp)
  then show ?thesis using o rest by (auto simp: user_call_open fd_busy_def)
qed

text \<open>The image of theory \<^verbatim>\<open>Filesystem\<close> with a second entry, the directory \<^verbatim>\<open>.\<close>.\<close>

definition list_fs :: mem where
  "list_fs = tiny_fs(0x500000 := 2, 0x500080 := 0x2E, 0x5000A0 := 1)"

definition list_kernel :: kernel where
  "list_kernel = initFOTP (blank_kernel list_fs 0x500000)"

lemma list_fs_rd:
  "rd32 id list_fs 0x500000 = 2" "rd32 id list_fs 0x500004 = 1" "rd32 id list_fs 0x500008 = 1"
  "rd32 id list_fs 0x501000 = 3" "rd32 id list_fs 0x501004 = 0"
  by (simp_all add: rd32_def le32_def buf_at_def list_fs_def tiny_fs_def)

lemma list_fs_ok: "fs_ok id list_fs 0x500000"
proof -
  have "unat (rd32 id list_fs (0x501004 + 4 * of_nat b)) = 0" if "b * 4096 < 3" for b
    using that list_fs_rd by (cases b) simp_all
  then show ?thesis
    using list_fs_rd by (auto simp: fs_ok_def fs_size_def file_len_def inode_at_def)
qed

lemma list_fs_bytes: "file_bytes id list_fs 0x500000 0 = [97, 98, 99]"
proof -
  have "[0..<3] = [0, 1, 2 :: nat]" by code_simp
  then show ?thesis
    using list_fs_rd
    by (simp add: file_bytes_def file_len_def inode_at_def data_addr_def block_base_def list_fs_def tiny_fs_def)
qed

lemma list_fs_names: "entries id list_fs 0x500000 = 2"
  "entry_name id list_fs 0x500000 0 = [0x66]" "entry_name id list_fs 0x500000 1 = [0x2E]"
proof -
  show "entries id list_fs 0x500000 = 2" using list_fs_rd by (simp add: entries_def)
  have "is_cstr (buf_at id list_fs 0x500040) 1" "is_cstr (buf_at id list_fs 0x500080) 1"
    by (simp_all add: is_cstr_def buf_at_def list_fs_def tiny_fs_def)
  then show "entry_name id list_fs 0x500000 0 = [0x66]" "entry_name id list_fs 0x500000 1 = [0x2E]"
    using cprefix_is_cstr [of _ 1 32] by (simp_all add: entry_name_def entry_at_def buf_at_def list_fs_def tiny_fs_def)
qed

lemma list_lookup:
  "read_dentry_by_name id list_fs 0x500000 (Some (buf_at id list_fs 0x500040)) = Some (dentry_at id list_fs 0x500040)"
  "read_dentry_by_name id list_fs 0x500000 (Some (buf_at id list_fs 0x500080)) = Some (dentry_at id list_fs 0x500080)"
proof -
  have c: "cprefix 32 (buf_at id list_fs 0x500040) = [0x66]" "cprefix 32 (buf_at id list_fs 0x500080) = [0x2E]"
    using list_fs_names by (simp_all add: entry_name_def entry_at_def)
  have u: "[0..<2] = [0, 1 :: nat]" by code_simp
  show "read_dentry_by_name id list_fs 0x500000 (Some (buf_at id list_fs 0x500040)) = Some (dentry_at id list_fs 0x500040)"
    "read_dentry_by_name id list_fs 0x500000 (Some (buf_at id list_fs 0x500080)) = Some (dentry_at id list_fs 0x500080)"
    unfolding lookup_name list_fs_names(1) u c by (simp_all add: list_fs_names(2,3) [simplified] entry_at_def)
qed

lemma list_kernel_fields:
  "xl list_kernel = id" "phys list_kernel = list_fs" "FSYSTEM list_kernel = 0x500000" "fd_ok list_kernel"
  "f_read (ffotp list_kernel) = read_file" "f_read (dfotp list_kernel) = read_directory"
  "\<not> fd_pool list_kernel \<subseteq> fd_busy list_kernel"
proof -
  have "xl list_kernel = xl (blank_kernel list_fs 0x500000)"
    unfolding list_kernel_def by (rule xl_cong) (simp_all add: initFOTP_def Let_def)
  then show "xl list_kernel = id" by (simp add: blank_kernel_xl)
  have "2 \<in> fd_pool list_kernel" "2 \<notin> fd_busy list_kernel"
    by (simp_all add: fd_pool_def fd_busy_def list_kernel_def initFOTP_def Let_def blank_kernel_def null_file_def)
  then show "\<not> fd_pool list_kernel \<subseteq> fd_busy list_kernel" by blast
qed (simp_all add: list_kernel_def initFOTP_def Let_def blank_kernel_def fd_ok_def)

lemma list_user_buf: "n \<le> 4096 \<Longrightarrow> user_buf id list_fs 0x500000 0x600000 n"
  using list_fs_rd by (auto simp: user_buf_def fs_image_def fs_size_def region_nowrap)

theorem open_read_whole_file_witness:
  "\<exists>i t. user_call \<lparr>dev = (\<lambda>l p. 0), irqs = [], stk = 0x7FF000, save_regs = (0, 0), switch_regs = (0, 0)\<rparr> 5 0x500040 0 0 list_kernel = (int i, t) \<and>
    read_all (user_call \<lparr>dev = (\<lambda>l p. 0), irqs = [], stk = 0x7FF000, save_regs = (0, 0), switch_regs = (0, 0)\<rparr> 3 (of_nat i) 0x600000 (of_nat 2))
      (file_buf 0x600000) 4 t = Some [97, 98, 99]"
proof -
  let ?e = "\<lparr>dev = (\<lambda>l p. 0), irqs = [], stk = 0x7FF000, save_regs = (0, 0), switch_regs = (0, 0)\<rparr> :: env"
  let ?d = "dentry_at id list_fs 0x500040"
  have d: "de_ftype ?d = 2" "de_inode ?d = 0" by (simp_all add: dentry_at_def list_fs_def tiny_fs_def)
  note f = list_kernel_fields
  have "\<exists>i t. user_call ?e 5 0x500040 0 0 list_kernel = (int i, t) \<and> 2 \<le> i \<and> i < 8 \<and> i \<notin> fd_busy list_kernel \<and>
    read_all (user_call ?e 3 (of_nat i) 0x600000 (of_nat 2)) (file_buf 0x600000) 4 t = Some [97, 98, 99]"
    by (rule open_read_whole_file [where d = ?d])
      (simp_all add: f d list_lookup list_fs_ok list_fs_rd list_fs_bytes list_user_buf)
  then show ?thesis by blast
qed

theorem open_list_directory_witness:
  "\<exists>i t. user_call \<lparr>dev = (\<lambda>l p. 0), irqs = [], stk = 0x7FF000, save_regs = (0, 0), switch_regs = (0, 0)\<rparr> 5 0x500080 0 0 list_kernel = (int i, t) \<and>
    read_all (user_call \<lparr>dev = (\<lambda>l p. 0), irqs = [], stk = 0x7FF000, save_regs = (0, 0), switch_regs = (0, 0)\<rparr> 3 (of_nat i) 0x600000 32)
      (dir_buf 0x600000) 3 t = Some [bytes_of ''f'', bytes_of ''.'']"
proof -
  let ?e = "\<lparr>dev = (\<lambda>l p. 0), irqs = [], stk = 0x7FF000, save_regs = (0, 0), switch_regs = (0, 0)\<rparr> :: env"
  let ?d = "dentry_at id list_fs 0x500080" and ?s = list_kernel
  have d: "de_ftype ?d = 1" by (simp add: dentry_at_def list_fs_def tiny_fs_def)
  note f = list_kernel_fields
  have "[0..<2] = [0, 1 :: nat]" by code_simp
  then have n: "map (entry_name (xl ?s) (phys ?s) (FSYSTEM ?s)) [0..<entries (xl ?s) (phys ?s) (FSYSTEM ?s)] = [bytes_of ''f'', bytes_of ''.'']"
    using list_fs_names by (simp add: f bytes_of_def)
  have "\<exists>i t. user_call ?e 5 0x500080 0 0 ?s = (int i, t) \<and> 2 \<le> i \<and> i < 8 \<and> i \<notin> fd_busy ?s \<and>
    read_all (user_call ?e 3 (of_nat i) 0x600000 32) (dir_buf 0x600000) 3 t =
      Some (map (entry_name (xl ?s) (phys ?s) (FSYSTEM ?s)) [0..<entries (xl ?s) (phys ?s) (FSYSTEM ?s)])"
    by (rule open_list_directory [where d = ?d])
      (simp_all add: f d list_lookup list_fs_ok list_fs_names list_user_buf)
  then show ?thesis unfolding n by blast
qed

end
