(* ===== verification/Halt.thy ===== *)
theory Halt
  imports Syscall
begin

text \<open>
  Ending a program: what \<^verbatim>\<open>execute\<close> leaves in the control blocks is what \<^verbatim>\<open>halt\<close> needs to
  return to the caller, whatever the program did in between with its memory and its files.
\<close>

section \<open>Closing every descriptor\<close>

definition closable :: "kernel \<Rightarrow> bool" where
  "closable s \<longleftrightarrow> length (fd s) = 8 \<and> (\<forall>i < 8. flags (fd s ! i) \<noteq> 0 \<longrightarrow> f_close (fotp (fd s ! i)) \<noteq> close_NULL)"

lemma sys_close_open:
  assumes "closable s" and "2 \<le> j" and "j < 8"
  shows "\<exists>r. sys_close (int j) s = (Returned r, s\<lparr>fd := (fd s)[j := (fd s ! j)\<lparr>flags := 0\<rparr>]\<rparr>)"
proof (cases "flags (fd s ! j) = 0")
  case True
  have "(fd s ! j)\<lparr>flags := flags (fd s ! j)\<rparr> = fd s ! j" by simp
  then have "s\<lparr>fd := (fd s)[j := (fd s ! j)\<lparr>flags := 0\<rparr>]\<rparr> = s" unfolding True by simp
  moreover have "sys_close (int j) s = (Returned (-1), s)"
    using assms True by (simp add: sys_close_def closable_def Let_def)
  ultimately show ?thesis by simp
next
  case False
  then have "f_close (fotp (fd s ! j)) \<noteq> close_NULL" using assms by (simp add: closable_def)
  then show ?thesis using assms False
    by (cases "f_close (fotp (fd s ! j))")
      (auto simp: sys_close_def closable_def Let_def terminal_close_def rtc_close_def file_close_def)
qed

lemma closable_close: "closable s \<Longrightarrow> closable (s\<lparr>fd := (fd s)[j := (fd s ! j)\<lparr>flags := 0\<rparr>]\<rparr>)"
  by (cases "j < 8") (auto simp: closable_def nth_list_update)

lemma close_all_ok:
  "closable s \<Longrightarrow> set js \<subseteq> {2..<8} \<Longrightarrow>
     \<exists>f. close_all js s = Some (s\<lparr>fd := f\<rparr>) \<and> length f = 8 \<and> (\<forall>j < 8. flags (f ! j) = (if j \<in> set js then 0 else flags (fd s ! j)))"
proof (induction js arbitrary: s)
  case Nil
  show ?case by (rule exI [of _ "fd s"]) (use Nil in \<open>simp add: closable_def\<close>)
next
  case (Cons j js)
  let ?s = "s\<lparr>fd := (fd s)[j := (fd s ! j)\<lparr>flags := 0\<rparr>]\<rparr>"
  have j: "2 \<le> j" "j < 8" using Cons.prems(2) by auto
  obtain r where c: "sys_close (int j) s = (Returned r, ?s)" using sys_close_open [OF Cons.prems(1) j] by blast
  obtain f where f: "close_all js ?s = Some (?s\<lparr>fd := f\<rparr>)" "length f = 8"
    "\<forall>i < 8. flags (f ! i) = (if i \<in> set js then 0 else flags (fd ?s ! i))"
    using Cons.IH [OF closable_close [OF Cons.prems(1)]] Cons.prems(2) by fastforce
  have "flags (f ! i) = (if i \<in> set (j # js) then 0 else flags (fd s ! i))" if "i < 8" for i
    using f(3) that Cons.prems(1) by (auto simp: closable_def nth_list_update)
  then show ?case using c f(1,2) by auto
qed

section \<open>The control data of a running program\<close>

text \<open>
  What a program in user mode cannot change: the process tables, the control blocks and the
  terminal it runs on.
\<close>

definition control where
  "control s = (pnum s, pnumarr s, (curr_pcb s, pcbs s), (procs s, head s), indicator s, active s)"

definition running :: "kernel \<Rightarrow> bool" where
  "running s \<longleftrightarrow> ring_ok s \<and> head s = Some process1 \<and> screen (procs s process1) = indicator s \<and>
     0 \<le> pnum s \<and> pnum s \<le> 5 \<and> curr_pcb s = pcb_at (pnum s) \<and> pcb (procs s process1) = curr_pcb s \<and>
     pid (pcbs s (curr_pcb s)) = pnum s \<and> pnumarr s ! nat (pnum s) \<noteq> 0"

lemma pcb_at_inj: "0 \<le> p \<Longrightarrow> p \<le> 5 \<Longrightarrow> 0 \<le> q \<Longrightarrow> q \<le> 5 \<Longrightarrow> pcb_at p = pcb_at q \<Longrightarrow> p = q"
proof -
  assume r: "0 \<le> p" "p \<le> 5" "0 \<le> q" "q \<le> 5" and e: "pcb_at p = pcb_at q"
  have u: "uint (pcb_at x) = 0x800000 - 0x8000 * (x + 1)" if "x \<in> {0, 1, 2, 3, 4, 5}" for x
    using that by (auto simp: pcb_at_def KERNELBOT_def STACKSIZE_def)
  have "p \<in> {0, 1, 2, 3, 4, 5}" "q \<in> {0, 1, 2, 3, 4, 5}" using r by auto
  note u [OF this(1)] u [OF this(2)]
  then have "0x800000 - 0x8000 * (p + 1) = 0x800000 - 0x8000 * (q + 1)" unfolding e by linarith
  then show "p = q" by simp
qed

text \<open>Starting a program from a running one records the way back.\<close>

lemma createPCB_child:
  assumes run: "ring_ok s" "head s = Some process1" "screen (procs s process1) = indicator s"
    and p: "0 \<le> pnum s" "pnum s \<le> 5" and c: "createPCB e s = (r, t)"
  defines "a \<equiv> pcb_at (pnum s)"
  shows "curr_pcb t = a" "\<And>b. b \<noteq> a \<Longrightarrow> pcbs t b = pcbs s b" "parent (pcbs t a) = curr_pcb s"
    "pid (pcbs t a) = pnum s" "haltesp (pcbs t a) = fst (switch_regs e)" "haltebp (pcbs t a) = snd (switch_regs e)"
    "head t = Some process1" "pcb (procs t process1) = a" "screen (procs t process1) = screen (procs s process1)"
    "next_proc (procs t process1) = next_proc (procs s process1)" "active t = active s"
proof -
  have r: "ring_ok (fill_pcb s)" using run(1) by (simp add: ring_ok_def)
  have "createPCB e s = start_found e process1 (fill_pcb s)"
    using run by (simp add: createPCB_def Let_def current_process_ring [OF r])
  then have t: "t = snd (start_found e process1 (fill_pcb s))" using c by (metis snd_conv)
  note d = t start_found_def Let_def set_proc_def set_pcb_def a_def
  show "curr_pcb t = a" "\<And>b. b \<noteq> a \<Longrightarrow> pcbs t b = pcbs s b" "parent (pcbs t a) = curr_pcb s"
    "pid (pcbs t a) = pnum s" "haltesp (pcbs t a) = fst (switch_regs e)" "haltebp (pcbs t a) = snd (switch_regs e)"
    "head t = Some process1" "pcb (procs t process1) = a" "screen (procs t process1) = screen (procs s process1)"
    "next_proc (procs t process1) = next_proc (procs s process1)" "active t = active s"
    by (simp_all add: d fill_pcb_def)
qed

section \<open>Returning to the parent\<close>

lemma parentPage_setupPage: "parentPage s = setupPage s"
  by (simp add: parentPage_def setupPage_def)

lemma setupPage_control [simp]:
  "curr_pcb (setupPage s) = curr_pcb s" "pcbs (setupPage s) = pcbs s" "procs (setupPage s) = procs s"
  "head (setupPage s) = head s" "indicator (setupPage s) = indicator s" "active (setupPage s) = active s"
  "fd (setupPage s) = fd s"
  by (simp_all add: setupPage_def Let_def setupPagingDirectory_def flushTLB_def)

lemma to_parent_fields:
  "pnum (to_parent s) = pid (pcbs s (curr_pcb s))" "fd (to_parent s) = pcb_fd (pcbs s (curr_pcb s))"
  "curr_pcb (to_parent s) = curr_pcb s" "pcbs (to_parent s) = pcbs s" "procs (to_parent s) = procs s"
  "head (to_parent s) = head s" "indicator (to_parent s) = indicator s" "active (to_parent s) = active s"
  "pnumarr (to_parent s) = pnumarr s"
  by (simp_all add: to_parent_def Let_def parentPage_setupPage)

lemma to_parent_maps:
  assumes "kernel_maps s"
  shows "runs_slot (pid (pcbs s (curr_pcb s))) (to_parent s)"
proof -
  let ?p = "pcbs s (curr_pcb s)"
  let ?s = "s\<lparr>pnum := pid ?p, fd := pcb_fd ?p, filename := map (copy_name (pcb_filename ?p) (lit (filename s))) [0..<32]\<rparr>"
  have "kernel_maps ?s" using assms by (simp add: kernel_maps_def tables_ok_def)
  from setupPage_maps(1) [OF this] show ?thesis by (simp add: to_parent_def Let_def parentPage_setupPage)
qed

text \<open>
  The last part of \<^verbatim>\<open>halt\<close>, for a program whose control block names a parent on the same
  terminal.
\<close>

lemma leave_ok:
  assumes run: "ring_ok s" "head s = Some process1" "screen (procs s process1) = indicator s"
    and cl: "closable s" and maps: "kernel_maps s" and nz: "curr_pcb s \<noteq> 0" "parent (pcbs s (curr_pcb s)) \<noteq> 0"
  defines "a \<equiv> curr_pcb s" and "b \<equiv> parent (pcbs s (curr_pcb s))"
  shows "\<exists>v. leave status s = (ResumeParent (haltesp (pcbs s a)) (haltebp (pcbs s a)) status, v) \<and>
    pnum v = pid (pcbs s b) \<and> pnumarr v = pnumarr s \<and> curr_pcb v = b \<and> pcbs v = pcbs s \<and>
    fd v = pcb_fd (pcbs s b) \<and> runs_slot (pid (pcbs s b)) v \<and> tss_esp0 v = oldesp (pcbs s a) \<and>
    head v = Some process1 \<and> pcb (procs v process1) = b \<and> screen (procs v process1) = indicator v \<and> ring_ok v"
proof -
  let ?s1 = "s\<lparr>tss_esp0 := oldesp (pcbs s a)\<rparr>"
  have "closable ?s1" using cl by (simp add: closable_def)
  then obtain f where f: "close_all [2..<8] ?s1 = Some (?s1\<lparr>fd := f\<rparr>)" using close_all_ok [of ?s1 "[2..<8]"] by auto
  let ?s2 = "?s1\<lparr>fd := f, curr_pcb := b\<rparr>"
  note tp = to_parent_fields [of ?s2]
  have ring: "ring_ok (to_parent ?s2)" using run(1) tp by (simp add: ring_ok_def)
  have "current_process (to_parent ?s2) = Some (Some process1)"
    unfolding current_process_ring [OF ring] using run tp by simp
  then have rl: "relink (to_parent ?s2) = Some (set_proc process1 (\<lambda>q. q\<lparr>pcb := b\<rparr>) (to_parent ?s2))"
    using tp by (simp add: relink_def)
  have l: "leave status s = (ResumeParent (haltesp (pcbs s a)) (haltebp (pcbs s a)) status,
      set_proc process1 (\<lambda>q. q\<lparr>pcb := b\<rparr>) (to_parent ?s2))"
    using nz f rl by (simp add: leave_def Let_def a_def b_def)
  have "kernel_maps ?s2" using maps by (simp add: kernel_maps_def tables_ok_def)
  from to_parent_maps [OF this] have m: "runs_slot (pid (pcbs s b)) (to_parent ?s2)" by simp
  have "tss_esp0 (to_parent ?s2) = oldesp (pcbs s a)"
    by (simp add: to_parent_def Let_def parentPage_setupPage setupPage_def setupPagingDirectory_def flushTLB_def)
  then show ?thesis
    unfolding l using tp m run ring
    by (simp add: set_proc_def ring_ok_def runs_slot_def kernel_maps_def tables_ok_def)
qed

text \<open>What a successful \<^verbatim>\<open>execute\<close> from a running program leaves behind.\<close>

lemma execute_child:
  assumes run: "running s" and pn: "pnum_ok s" "pnumarr s ! nat (indicator s - 1) \<noteq> 0"
    and ex: "execute e cmd s = Some (EnterUser ep, t)"
  defines "a \<equiv> pcb_at (pnum t)"
  shows "3 \<le> pnum t" "pnum t \<le> 5" "pnumarr s ! nat (pnum t) = 0" "pnumarr t = (pnumarr s)[nat (pnum t) := 1]"
    "curr_pcb t = a" "parent (pcbs t a) = curr_pcb s" "pcbs t (curr_pcb s) = pcbs s (curr_pcb s)"
    "haltesp (pcbs t a) = fst (switch_regs e)" "haltebp (pcbs t a) = snd (switch_regs e)"
    "ring_ok t" "head t = Some process1" "screen (procs t process1) = indicator t"
proof -
  obtain f ar s2 s3 where c: "checkFile e (s\<lparr>filename := f, arg := ar\<rparr>) = (0, s2)" and n: "setPnum s2 = (0, s3)"
    and p: "createPCB e (initFOTP (loadFile (setupPage s3))) = (EnterUser ep, t)"
    using execute_success [OF ex] .
  obtain d m where s2: "s2 = s\<lparr>filename := f, arg := ar, dentry := d, phys := m\<rparr>"
    using c by (rule checkFile_ok) simp
  have pn2: "pnum_ok s2" "pnum_pool s2 = pnum_pool s" using pn(1) by (simp_all add: s2 pnum_ok_def pnum_pool_def)
  have "pnum_alloc s2 = (Some (nat (pnum s3)), s3)" by (simp add: pnum_alloc_def n)
  then obtain q where q: "q \<in> pnum_pool s" "q < 6" "pnumarr s ! q = 0"
    and s3: "s3 = s2\<lparr>pnumarr := (pnumarr s)[q := 1], pnum := int q\<rparr>"
    using pnum_alloc_cases [OF pn2(1)] pn2(2) by (auto simp: s2)
  have q3: "3 \<le> q" using q pn(2) by (auto simp: pnum_pool_def)
  let ?w = "initFOTP (loadFile (setupPage s3))"
  have w: "pnum ?w = int q" "ring_ok ?w" "head ?w = Some process1" "screen (procs ?w process1) = indicator ?w"
    "curr_pcb ?w = curr_pcb s" "pcbs ?w = pcbs s" "procs ?w = procs s" "indicator ?w = indicator s" "active ?w = active s"
    using run by (auto simp: running_def ring_ok_def initFOTP_def loadFile_def Let_def s3 s2)
  note ch = createPCB_child [OF w(2-4) _ _ p]
  note co = coreD [OF conjunct1 [OF createPCB_core [OF p]]]
  have pt: "pnum t = int q" using co(5) w(1) by simp
  show "3 \<le> pnum t" "pnum t \<le> 5" "pnumarr s ! nat (pnum t) = 0" using q q3 pt by simp_all
  show "pnumarr t = (pnumarr s)[nat (pnum t) := 1]" using co(6) pt by (simp add: s3)
  have le: "0 \<le> pnum ?w" "pnum ?w \<le> 5" using w(1) q(2) by simp_all
  have a: "a = pcb_at (pnum ?w)" unfolding a_def pt w(1) ..
  note ch = ch [OF le, folded a]
  have "curr_pcb s \<noteq> a"
  proof
    assume "curr_pcb s = a"
    moreover have "curr_pcb s = pcb_at (pnum s)" "0 \<le> pnum s" "pnum s \<le> 5" "pnumarr s ! nat (pnum s) \<noteq> 0"
      using run unfolding running_def by blast+
    ultimately have "pnum s = int q" using le pcb_at_inj unfolding a w(1) by metis
    then show False using \<open>pnumarr s ! nat (pnum s) \<noteq> 0\<close> q(3) by simp
  qed
  then show "pcbs t (curr_pcb s) = pcbs s (curr_pcb s)" using ch(2) w(6) by simp
  show "curr_pcb t = a" "parent (pcbs t a) = curr_pcb s" "haltesp (pcbs t a) = fst (switch_regs e)"
    "haltebp (pcbs t a) = snd (switch_regs e)" "head t = Some process1"
    using ch w(5) by simp_all
  show "screen (procs t process1) = indicator t" using ch(9) w(4) co(14) by simp
  show "ring_ok t" using ch(7,10,11) w(2) w(3) by (simp add: ring_ok_def)
qed

lemma halt_resumes:
  assumes run: "running s" and pn: "pnum_ok s" "pnumarr s ! nat (indicator s - 1) \<noteq> 0"
    and ex: "execute e cmd s = Some (EnterUser ep, t)"
    and child: "control u = control t" "closable u" "kernel_maps u"
  shows "\<exists>v. sys_halt e' status u = Some (ResumeParent (fst (switch_regs e)) (snd (switch_regs e)) status, v) \<and>
    running v \<and> runs_slot (pnum s) v \<and> pnum v = pnum s \<and> pnumarr v = pnumarr s \<and> curr_pcb v = curr_pcb s \<and>
    fd v = pcb_fd (pcbs s (curr_pcb s))"
proof -
  note x = execute_child [OF run pn ex]
  have u: "pnum u = pnum t" "pnumarr u = pnumarr t" "curr_pcb u = curr_pcb t" "pcbs u = pcbs t" "procs u = procs t"
    "head u = head t" "indicator u = indicator t" "active u = active t" using child(1) by (simp_all add: control_def)
  let ?u = "u\<lparr>pnumarr := (pnumarr u)[nat (pnum u) := 0]\<rparr>"
  have h: "sys_halt e' status u = Some (leave status ?u)" using x(1) u by (simp add: sys_halt_def)
  have len: "nat (pnum t) < length (pnumarr s)" using x(1,2) pn(1) by (simp add: pnum_ok_def)
  have arr: "pnumarr ?u = pnumarr s" using u x(3,4) list_update_id [of "pnumarr s" "nat (pnum t)"] by simp
  have cs: "curr_pcb s = pcb_at (pnum s)" "0 \<le> pnum s" "pnum s \<le> 5" "pid (pcbs s (curr_pcb s)) = pnum s"
    "pnumarr s ! nat (pnum s) \<noteq> 0"
    using run unfolding running_def by blast+
  have pu: "parent (pcbs ?u (curr_pcb ?u)) = curr_pcb s" using u x(5,6) by simp
  have "ring_ok ?u" "head ?u = Some process1" "screen (procs ?u process1) = indicator ?u"
    using u x(10-12) by (simp_all add: ring_ok_def)
  moreover have "closable ?u" "kernel_maps ?u" using child(2,3) by (simp_all add: closable_def kernel_maps_def tables_ok_def)
  moreover have "curr_pcb ?u \<noteq> 0" using u x(1,2,5) pcb_at_nonzero [of "pnum t"] by simp
  moreover have "parent (pcbs ?u (curr_pcb ?u)) \<noteq> 0" using pu cs pcb_at_nonzero [of "pnum s"] by simp
  ultimately obtain v where v: "leave status ?u =
      (ResumeParent (haltesp (pcbs ?u (curr_pcb ?u))) (haltebp (pcbs ?u (curr_pcb ?u))) status, v)"
    "pnum v = pid (pcbs ?u (curr_pcb s))" "pnumarr v = pnumarr ?u" "curr_pcb v = curr_pcb s" "pcbs v = pcbs ?u"
    "fd v = pcb_fd (pcbs ?u (curr_pcb s))" "runs_slot (pid (pcbs ?u (curr_pcb s))) v"
    "head v = Some process1" "pcb (procs v process1) = curr_pcb s" "screen (procs v process1) = indicator v" "ring_ok v"
    using leave_ok [of ?u status] unfolding pu by blast
  have pc: "pcbs ?u (curr_pcb s) = pcbs s (curr_pcb s)" using u x(7) by simp
  have "running v" using v cs arr pc by (simp add: running_def)
  moreover have "haltesp (pcbs ?u (curr_pcb ?u)) = fst (switch_regs e)" "haltebp (pcbs ?u (curr_pcb ?u)) = snd (switch_regs e)"
    using u x(5,8,9) by simp_all
  ultimately show ?thesis using h v(1-7) arr cs pc by auto
qed

text \<open>
  C3. \<^verbatim>\<open>execute\<close> and \<^verbatim>\<open>halt\<close> are inverse to each other: when a running program starts
  another one on its terminal and that one, whatever it did to memory and files, halts, the
  processor returns on the kernel stack \<^verbatim>\<open>execute\<close> had saved with the status that was given;
  the caller is the current process again with its own page at 128 MB, the slot of the child
  is free again, and the open file table is the one in the caller's control block.
\<close>

theorem halt_returns_to_parent:
  assumes run: "running s" and pn: "pnum_ok s" "pnumarr s ! nat (indicator s - 1) \<noteq> 0"
    and ex: "execute e cmd s = Some (EnterUser ep, t)"
    and child: "control u = control t" "closable u" "kernel_maps u"
  shows "\<exists>v. sys_halt e' status u = Some (ResumeParent (fst (switch_regs e)) (snd (switch_regs e)) status, v) \<and>
    running v \<and> runs_slot (pnum s) v \<and> pnum v = pnum s \<and> pnumarr v = pnumarr s \<and> curr_pcb v = curr_pcb s \<and>
    fd v = pcb_fd (pcbs s (curr_pcb s))"
  using assms by (rule halt_resumes)

text \<open>A shell in slot 0 of terminal 1 over the image of theory \<^verbatim>\<open>Loader\<close>.\<close>

definition elf_shell :: kernel where
  "elf_shell = (initPaging (blank_kernel elf_fs 0x500000))\<lparr>pnumarr := [1, 0, 0, 0, 0, 0], curr_pcb := pcb_at 0,
     head := Some process1, procs := (\<lambda>p. \<lparr>pcb = pcb_at 0, screen = 1, ebp = 0, esp = 0, next_proc = Some process1\<rparr>)\<rparr>"

definition plain_env :: env where
  "plain_env = \<lparr>dev = (\<lambda>l p. 0), irqs = [], stk = 0x7FF000, save_regs = (0x7FF010, 0x7FF020), switch_regs = (0x7FF100, 0x7FF200)\<rparr>"

lemma elf_shell_fields:
  "phys elf_shell = elf_fs" "FSYSTEM elf_shell = 0x500000" "length (filename elf_shell) = 32" "length (arg elf_shell) = 32"
  "kernel_maps elf_shell" "tlb_coherent elf_shell" "pnum_ok elf_shell" "\<not> pnum_pool elf_shell \<subseteq> pnum_busy elf_shell"
  "ring_ok elf_shell" "running elf_shell" "pnumarr elf_shell ! nat (indicator elf_shell - 1) \<noteq> 0"
proof -
  let ?b = "blank_kernel elf_fs 0x500000"
  have b: "phys ?b = elf_fs" by (simp add: blank_kernel_def)
  then have f: "phys (initPaging ?b) = elf_fs" by simp
  have "FSYSTEM (initPaging ?b) = 0x500000" "filename (initPaging ?b) = replicate 32 0"
    "arg (initPaging ?b) = replicate 32 0" "indicator (initPaging ?b) = 1" "active (initPaging ?b) = 1" "pnum (initPaging ?b) = 0"
    "pcbs (initPaging ?b) = (\<lambda>a. null_pcb)" "tlb (initPaging ?b) = Map.empty"
    by (simp_all add: initPaging_def enablePaging_def fill_directory_def fill_table_def Let_def
        fill_table_fold fill_directory_fold blank_kernel_def del: initPaging_fields)
  note f = f this
  show "phys elf_shell = elf_fs" "FSYSTEM elf_shell = 0x500000" "length (filename elf_shell) = 32" "length (arg elf_shell) = 32"
    "pnum_ok elf_shell" "ring_ok elf_shell" "running elf_shell" "pnumarr elf_shell ! nat (indicator elf_shell - 1) \<noteq> 0"
    by (simp_all add: elf_shell_def f b pnum_ok_def ring_ok_def running_def null_pcb_def)
  show "\<not> pnum_pool elf_shell \<subseteq> pnum_busy elf_shell" by (simp add: elf_shell_def f pnum_pool_def pnum_busy_def)
  show "tlb_coherent elf_shell" by (simp add: elf_shell_def f tlb_coherent_def)
  show "kernel_maps elf_shell" using kernel_maps_init [OF blank_kernel_tables, of elf_fs "0x500000"]
    by (simp add: elf_shell_def kernel_maps_def tables_ok_def)
qed

lemma setPnum_frame: "setPnum s = (r, t) \<Longrightarrow> \<exists>a q. t = s\<lparr>pnumarr := a, pnum := q\<rparr>"
proof -
  assume n: "setPnum s = (r, t)"
  have "(r, t) = (-1, s) \<or> (\<exists>i. (r, t) = take_slot i s)"
    unfolding n [symmetric] setPnum_def by (auto split: option.splits)
  then show ?thesis
  proof
    assume "(r, t) = (-1, s)"
    then show ?thesis by (intro exI [of _ "pnumarr s"] exI [of _ "pnum s"]) simp
  qed (auto simp: take_slot_def)
qed

lemma execute_closable:
  assumes "execute e cmd s = Some (EnterUser ep, t)" and "length (fd s) = 8" and "\<forall>i < 8. flags (fd s ! i) = 0" and "kernel_maps s"
  shows "closable t" "kernel_maps t"
proof -
  obtain f ar s2 s3 where c: "checkFile e (s\<lparr>filename := f, arg := ar\<rparr>) = (0, s2)" and n: "setPnum s2 = (0, s3)"
    and p: "createPCB e (initFOTP (loadFile (setupPage s3))) = (EnterUser ep, t)"
    using execute_success [OF assms(1)] .
  obtain d m where s2: "s2 = s\<lparr>filename := f, arg := ar, dentry := d, phys := m\<rparr>"
    using c by (rule checkFile_ok) simp
  obtain a q where "s3 = s2\<lparr>pnumarr := a, pnum := q\<rparr>" using setPnum_frame [OF n] by blast
  then have "fd s3 = fd s" "kernel_maps s3" using assms(4) by (simp_all add: s2 kernel_maps_def tables_ok_def)
  note co = coreD [OF conjunct1 [OF createPCB_core [OF p]]]
  show "closable t"
    using co(10) assms(2,3) \<open>fd s3 = fd s\<close>
    by (auto simp: closable_def initFOTP_def Let_def loadFile_def nth_list_update)
  have "runs_slot (pnum s3) t" using co(9) setupPage_maps(1) [OF \<open>kernel_maps s3\<close>] by simp
  then show "kernel_maps t" by (simp add: runs_slot_def)
qed

theorem halt_returns_to_parent_witness:
  "\<exists>t v. execute plain_env (lit (bytes_of ''shell'')) elf_shell = Some (EnterUser 0x08048000, t) \<and>
    sys_halt plain_env 7 t = Some (ResumeParent 0x7FF100 0x7FF200 7, v) \<and> pnum v = 0 \<and> pnumarr v = [1, 0, 0, 0, 0, 0]"
proof -
  obtain t where t: "execute plain_env (lit (bytes_of ''shell'')) elf_shell = Some (EnterUser 0x08048000, t)"
    using elf_execute [of elf_shell plain_env] elf_shell_fields by (auto simp: plain_env_def)
  have p: "pnum elf_shell = 0" "pnumarr elf_shell = [1, 0, 0, 0, 0, 0]" "fd elf_shell = replicate 8 null_file"
    by (simp_all add: elf_shell_def initPaging_def enablePaging_def fill_directory_def fill_table_def Let_def
        fill_table_fold fill_directory_fold blank_kernel_def del: initPaging_fields)
  then have "closable t" "kernel_maps t"
    using execute_closable [OF t] elf_shell_fields(5) by (simp_all add: null_file_def)
  from halt_returns_to_parent [OF elf_shell_fields(10,7,11) t refl this, of plain_env 7] show ?thesis
    using t p by (auto simp: plain_env_def)
qed

end
