(* ===== verification/Calls.thy ===== *)
theory Calls
  imports Halt
begin

text \<open>
  The remaining system calls: what \<^verbatim>\<open>close\<close> releases, what \<^verbatim>\<open>getargs\<close> hands to the program,
  and the calls the dispatcher and the descriptor checks refuse.
\<close>

section \<open>close\<close>

lemma fd_busy_close:
  "length (fd s) = 8 \<Longrightarrow> fd_busy (s\<lparr>fd := (fd s)[j := (fd s ! j)\<lparr>flags := 0\<rparr>]\<rparr>) = fd_busy s - {j}"
  by (cases "j < 8") (auto simp: fd_busy_def nth_list_update)

text \<open>
  \<^verbatim>\<open>close\<close> releases a descriptor: on an open file, directory or clock descriptor from 2 to 7
  it returns 0, the descriptor is free afterwards and every other one is as before, a second
  close fails and changes nothing, and a new descriptor can be created.
\<close>

theorem close_releases:
  assumes "closable s" and "2 \<le> j" and "j < 8" and "j \<in> fd_busy s"
    and "f_close (fotp (fd s ! j)) \<in> {close_file, close_rtc}"
  shows "\<exists>t. sys_close (int j) s = (Returned 0, t) \<and> fd_busy t = fd_busy s - {j} \<and>
    (\<forall>i. i \<noteq> j \<longrightarrow> fd t ! i = fd s ! i) \<and> sys_close (int j) t = (Returned (-1), t) \<and> fst (createFD d t) \<noteq> -1"
proof -
  let ?t = "s\<lparr>fd := (fd s)[j := (fd s ! j)\<lparr>flags := 0\<rparr>]\<rparr>"
  have len: "length (fd s) = 8" using assms(1) by (simp add: closable_def)
  have c: "sys_close (int j) s = (Returned 0, ?t)"
    using assms len by (auto simp: sys_close_def fd_busy_def Let_def file_close_def rtc_close_def)
  have "\<not> fd_pool ?t \<subseteq> fd_busy ?t"
    using assms(2,3) fd_busy_close [OF len] by (auto simp: fd_pool_def)
  then have "fst (fd_alloc d ?t) \<noteq> None" using fslot.alloc_iff [of ?t d] len by (simp add: fd_ok_def)
  then have "fst (createFD d ?t) \<noteq> -1" by (auto simp: fd_alloc_def case_prod_unfold Let_def split: if_splits)
  moreover have "sys_close (int j) ?t = (Returned (-1), ?t)" using assms(2,3) len by (simp add: sys_close_def Let_def)
  ultimately show ?thesis using c fd_busy_close [OF len] by auto
qed

section \<open>Refused calls\<close>


section \<open>getargs\<close>

lemma cprefix_head: "cprefix 32 (lit (arg s)) \<noteq> [] \<Longrightarrow> length (arg s) = 32 \<Longrightarrow> arg s ! 0 \<noteq> 0"
  by (auto simp: lit_def eval_nat_numeral split: if_splits)

text \<open>
  C32. The argument reaches the program: after \<^verbatim>\<open>parse_arg\<close> split \<open>name argument\<close>,
  \<^verbatim>\<open>getargs\<close> with a count above 32 stores exactly the argument and its terminator in the
  program's buffer and returns 0; without an argument it returns -1 and stores nothing.
\<close>

theorem getargs_delivers:
  assumes "0 \<notin> set name" "32 \<notin> set name" "length name < 32" and "0 \<notin> set a" "32 \<notin> set a" "length a < 32"
    and "cmd = name @ 32 # a \<or> (cmd = name \<and> a = [])"
    and "length (filename s) = 32" "length (arg s) = 32" and "32 < nbytes" "nbytes < 2 ^ 31"
    and "inj_on (xl s) (region buf (length a + 1))"
  shows "\<exists>t f ar. parse_arg (lit cmd) s = Some (Parsed f ar, t) \<and>
    (a = [] \<longrightarrow> getargs buf nbytes t = (Returned (-1), t)) \<and>
    (a \<noteq> [] \<longrightarrow> (\<exists>u. getargs buf nbytes t = (Returned 0, u) \<and>
       (\<forall>j \<le> length a. phys u (xl s (buf + of_nat j)) = (a @ [0]) ! j) \<and>
       (\<forall>x. x \<notin> xl s ` region buf (length a + 1) \<longrightarrow> phys u x = phys s x)))"
proof -
  obtain f ar where p: "parse_arg (lit cmd) s = Some (Parsed f ar, s\<lparr>filename := f, arg := ar\<rparr>)"
    and ar: "length ar = 32" "cprefix 32 (lit ar) = a" using parse_arg_ok [OF assms(1-9)] by blast
  let ?t = "s\<lparr>filename := f, arg := ar\<rparr>"
  have x: "xl ?t = xl s" by (rule xl_cong) simp_all
  have w: "\<not> (word_of_int nbytes :: u32) \<le> 32"
    using assms(10,11) by (simp add: word_le_def uint_word_of_int)
  have z: "a = [] \<Longrightarrow> ar ! 0 = 0" using ar by (auto simp: lit_def eval_nat_numeral split: if_splits)
  have nz: "a \<noteq> [] \<Longrightarrow> ar ! 0 \<noteq> 0" using cprefix_head [of ?t] ar by simp
  let ?u = "?t\<lparr>phys := store_bytes (xl s) buf (a @ [0]) (phys s)\<rparr>"
  have g: "getargs buf nbytes ?t = (Returned 0, ?u)" if "a \<noteq> []"
    using w nz [OF that] ar(2) assms(6) by (simp add: getargs_def Let_def x)
  have v: "phys ?u (xl s (buf + of_nat j)) = (a @ [0]) ! j" if "j \<le> length a" for j
    using store_bytes_val [of "xl s" buf "a @ [0]" j "phys s"] assms(6,12) that by simp
  have fr: "phys ?u x = phys s x" if "x \<notin> xl s ` region buf (length a + 1)" for x
    using store_bytes_frame [of x "xl s" buf "a @ [0]" "phys s"] that by simp
  have "getargs buf nbytes ?t = (Returned (-1), ?t)" if "a = []" using z [OF that] by (simp add: getargs_def)
  then show ?thesis using p g v fr by blast
qed

section \<open>Witnesses\<close>

lemma list_kernel_open:
  "\<exists>t. sys_open 0x500040 list_kernel = (2, t) \<and> closable t \<and> 2 \<in> fd_busy t \<and> f_close (fotp (fd t ! 2)) = close_file"
proof -
  let ?d = "dentry_at id list_fs 0x500040"
  have l: "read_dentry_by_name (xl list_kernel) (phys list_kernel) (FSYSTEM list_kernel) (c_string 0x500040 list_kernel) = Some ?d"
    using list_lookup by (simp add: list_kernel_fields c_string_def)
  have d: "de_ftype ?d = 2" "de_inode ?d = 0" by (simp_all add: dentry_at_def list_fs_def tiny_fs_def)
  have "free_fd (fd list_kernel) 2 6 = Some 2"
    by (simp add: list_kernel_def initFOTP_def Let_def blank_kernel_def null_file_def eval_nat_numeral)
  then have "sys_open 0x500040 list_kernel = (2, list_kernel\<lparr>dt := ?d, fd := (fd list_kernel)[2 := new_fd 2 (list_kernel\<lparr>dt := ?d\<rparr>)]\<rparr>)"
    by (simp add: sys_open_def l createFD_alt Let_def d)
  then show ?thesis
    by (auto simp: closable_def fd_busy_def new_fd_def list_kernel_def initFOTP_def Let_def blank_kernel_def null_file_def nth_list_update)
qed

theorem close_releases_witness:
  "\<exists>s t. sys_open 0x500040 list_kernel = (2, s) \<and> sys_close 2 s = (Returned 0, t) \<and> 2 \<notin> fd_busy t \<and>
    sys_close 2 t = (Returned (-1), t)"
proof -
  obtain s where s: "sys_open 0x500040 list_kernel = (2, s)" "closable s" "2 \<in> fd_busy s" "f_close (fotp (fd s ! 2)) = close_file"
    using list_kernel_open by blast
  then show ?thesis using close_releases [of s 2 0] by auto
qed


theorem getargs_delivers_witness:
  "\<exists>t f ar u. parse_arg (lit (bytes_of ''cat x'')) (blank_kernel (\<lambda>a. 0) 0) = Some (Parsed f ar, t) \<and>
    getargs 0x600000 1024 t = (Returned 0, u) \<and> phys u 0x600000 = 120 \<and> phys u 0x600001 = 0"
proof -
  let ?s = "blank_kernel (\<lambda>a. 0) 0"
  have x: "xl ?s = id" by (rule blank_kernel_xl)
  have c: "bytes_of ''cat x'' = bytes_of ''cat'' @ 32 # bytes_of ''x''" by (simp add: bytes_of_def)
  have "inj_on (xl ?s) (region 0x600000 (length (bytes_of ''x'') + 1))" unfolding x by simp
  then have "\<exists>t f ar. parse_arg (lit (bytes_of ''cat x'')) ?s = Some (Parsed f ar, t) \<and>
    (bytes_of ''x'' = [] \<longrightarrow> getargs 0x600000 1024 t = (Returned (-1), t)) \<and>
    (bytes_of ''x'' \<noteq> [] \<longrightarrow> (\<exists>u. getargs 0x600000 1024 t = (Returned 0, u) \<and>
       (\<forall>j \<le> length (bytes_of ''x''). phys u (xl ?s (0x600000 + of_nat j)) = (bytes_of ''x'' @ [0]) ! j) \<and>
       (\<forall>y. y \<notin> xl ?s ` region 0x600000 (length (bytes_of ''x'') + 1) \<longrightarrow> phys u y = phys ?s y)))"
    by (intro getargs_delivers [where name = "bytes_of ''cat''"] disjI1 c) (simp_all add: bytes_of_def blank_kernel_def)
  then obtain t f ar u where "parse_arg (lit (bytes_of ''cat x'')) ?s = Some (Parsed f ar, t)"
    "getargs 0x600000 1024 t = (Returned 0, u)" and u: "\<forall>j \<le> length (bytes_of ''x''). phys u (xl ?s (0x600000 + of_nat j)) = (bytes_of ''x'' @ [0]) ! j"
    by (auto simp: bytes_of_def)
  moreover have "phys u 0x600000 = 120" "phys u 0x600001 = 0"
    using u [rule_format, of 0] u [rule_format, of 1] unfolding x by (simp_all add: bytes_of_def)
  ultimately show ?thesis by blast
qed

end
