(* ===== verification/Scheduling.thy ===== *)
theory Scheduling
  imports Calls
begin

text \<open>
  The three terminals and the process switch, \<^verbatim>\<open>student-distrib/scheduling.c\<close>. Each terminal has
  a page of physical memory that holds its screen while another terminal is displayed, and a
  user-visible window page (entries \<^verbatim>\<open>0xB9\<close> to \<^verbatim>\<open>0xBB\<close> of the second page table) that points to
  video memory while the terminal is displayed and to that page otherwise. The copies run
  through the windows, so they see the translation cache.
\<close>

definition SCREEN1_MEM :: u32 where "SCREEN1_MEM = 0x2000000"
definition SCREEN2_MEM :: u32 where "SCREEN2_MEM = 0x2001000"
definition SCREEN3_MEM :: u32 where "SCREEN3_MEM = 0x2002000"
definition SCREEN1_VIR :: u32 where "SCREEN1_VIR = 0x84B9000"
definition SCREEN2_VIR :: u32 where "SCREEN2_VIR = 0x84BA000"
definition SCREEN3_VIR :: u32 where "SCREEN3_VIR = 0x84BB000"
definition SIZE_VID_MEM :: u32 where "SIZE_VID_MEM = 4000"

lemmas screen_consts = SCREEN1_MEM_def SCREEN2_MEM_def SCREEN3_MEM_def SCREEN1_VIR_def SCREEN2_VIR_def
  SCREEN3_VIR_def SIZE_VID_MEM_def RESERV_CODE_2_def

section \<open>Saving and restoring\<close>

text \<open>The copies of the 129-byte line buffers copy the whole list.\<close>

definition live :: "kernel \<Rightarrow> saved_screen" where
  "live s = \<lparr>saved_x = screen_x s, saved_y = screen_y s, saved_tbuf = tbuf s, saved_buffer = tbuffer s\<rparr>"

definition getCursorandBuffer :: "kernel \<Rightarrow> kernel" where
  "getCursorandBuffer s =
     (if indicator s = 1 then s\<lparr>saved1 := live s\<rparr>
      else if indicator s = 2 then s\<lparr>saved2 := live s\<rparr>
      else if indicator s = 3 then s\<lparr>saved3 := live s\<rparr> else s)"

definition load_screen :: "saved_screen \<Rightarrow> kernel \<Rightarrow> kernel" where
  "load_screen c s = s\<lparr>screen_x := saved_x c, screen_y := saved_y c, tbuf := saved_tbuf c, tbuffer := saved_buffer c\<rparr>"

definition setCursorandBuffer :: "kernel \<Rightarrow> kernel" where
  "setCursorandBuffer s =
     (if indicator s = 1 then load_screen (saved1 s) s
      else if indicator s = 2 then load_screen (saved2 s) s
      else if indicator s = 3 then load_screen (saved3 s) s else s)"

definition copy_bytes :: "u32 \<Rightarrow> u32 \<Rightarrow> kernel \<Rightarrow> kernel" where
  "copy_bytes dest src s = s\<lparr>phys := memcpy (xl s) dest src SIZE_VID_MEM (phys s)\<rparr>"

definition copyFromVideo :: "kernel \<Rightarrow> kernel" where
  "copyFromVideo s =
     (if indicator s = 1 then copy_bytes SCREEN1_VIR VIDEO (setupPagingDirectoryTable RESERV_CODE_2 SCREEN1_MEM 1 s)
      else if indicator s = 2 then copy_bytes SCREEN2_VIR VIDEO (setupPagingDirectoryTable RESERV_CODE_2 SCREEN2_MEM 2 s)
      else if indicator s = 3 then copy_bytes SCREEN3_VIR VIDEO (setupPagingDirectoryTable RESERV_CODE_2 SCREEN3_MEM 3 s)
      else s)"

definition copyToVideo :: "kernel \<Rightarrow> kernel" where
  "copyToVideo s =
     (let s = (if indicator s = 1 then copy_bytes VIDEO SCREEN1_VIR s
               else if indicator s = 2 then copy_bytes VIDEO SCREEN2_VIR s
               else if indicator s = 3 then copy_bytes VIDEO SCREEN3_VIR s else s)
      in setupPagingDirectoryTable RESERV_CODE_2 VIDEO (nat (indicator s)) s)"

section \<open>Switching the terminal\<close>

text \<open>
  The three functions share their first half, up to the new value of \<^verbatim>\<open>indicator\<close>, and the two
  ways they end: a terminal that is shown for the first time starts a shell (the value of the
  call is dropped), any other one is copied back to the screen.
\<close>

definition leave_screen :: "int \<Rightarrow> kernel \<Rightarrow> kernel" where
  "leave_screen k s = setCursorandBuffer ((copyFromVideo (getCursorandBuffer (cli s)))\<lparr>indicator := k\<rparr>)"

definition first_shell :: "env \<Rightarrow> kernel \<Rightarrow> (outcome \<times> kernel) option" where
  "first_shell e s =
     (let s = reset_screen s;
          s = setupPagingDirectoryTable RESERV_CODE_2 VIDEO (nat (indicator s)) s;
          s = flushTLB s
      in map_option (\<lambda>(r, s). (case r of Returned v \<Rightarrow> Returned 0 | _ \<Rightarrow> r, s)) (execute e (lit (bytes_of ''shell'')) s))"

definition show_screen :: "kernel \<Rightarrow> (outcome \<times> kernel) option" where
  "show_screen s = Some (Returned 0, sti (flushTLB (copyToVideo s)))"

definition screen1 :: "env \<Rightarrow> kernel \<Rightarrow> (outcome \<times> kernel) option" where
  "screen1 e s =
     (let s = leave_screen 1 s;
          s = update_cursor (saved_x (saved1 s)) (saved_y (saved1 s)) s
      in if fts_1 s = 0 then first_shell e (s\<lparr>fts_1 := 1\<rparr>) else show_screen s)"

definition screen2 :: "env \<Rightarrow> kernel \<Rightarrow> (outcome \<times> kernel) option" where
  "screen2 e s =
     (let s = leave_screen 2 s;
          s = update_cursor (saved_x (saved2 s)) (saved_y (saved2 s)) s
      in if fts_2 s = 0 then first_shell e (s\<lparr>fts_2 := 1\<rparr>) else show_screen s)"

definition screen3 :: "env \<Rightarrow> kernel \<Rightarrow> (outcome \<times> kernel) option" where
  "screen3 e s =
     (let s = leave_screen 3 s;
          s = update_cursor (saved_x (saved3 s)) (saved_y (saved3 s)) s
      in if fts_3 s = 0 then first_shell e (s\<lparr>fts_3 := 1\<rparr>) else show_screen s)"

definition init_screen_memory :: "env \<Rightarrow> kernel \<Rightarrow> (outcome \<times> kernel) option" where
  "init_screen_memory e s =
     (let s = setupPagingDirectoryTable RESERV_CODE_2 VIDEO 1 s;
          s = setupPagingDirectoryTable RESERV_CODE_2 SCREEN2_MEM 2 s;
          s = setupPagingDirectoryTable RESERV_CODE_2 SCREEN3_MEM 3 s
      in screen1 e s)"

section \<open>Switching the process\<close>

text \<open>
  \<^verbatim>\<open>processSwitch\<close> stores the stack registers of the caller in the old control block and
  continues on the stack of the new one; nothing calls \<^verbatim>\<open>pSwitch\<close> (the call in the timer
  handler is commented out). \<open>None\<close> dereferences a null pointer.
\<close>

definition pSwitch :: "env \<Rightarrow> kernel \<Rightarrow> ((u32 \<times> u32) \<times> kernel) option" where
  "pSwitch e s =
     (case head s of
        None \<Rightarrow> None
      | Some old \<Rightarrow>
          (case next_proc (procs s old) of
             None \<Rightarrow> None
           | Some new \<Rightarrow>
               if pcb (procs s new) = 0 \<or> pcb (procs s old) = 0 then None
               else let s = s\<lparr>head := Some new, pnum := pid (pcbs s (pcb (procs s new)))\<rparr>;
                        s = setupPage s;
                        p = pcbs s (pcb (procs s new));
                        s = s\<lparr>tss_esp0 := oldesp p\<rparr>
                    in Some ((oldesp p, oldebp p),
                         set_pcb (pcb (procs s old)) (\<lambda>q. q\<lparr>oldesp := fst (switch_regs e), oldebp := snd (switch_regs e)\<rparr>) s)))"

section \<open>Windows and copies\<close>

lemma kernel_maps_cong:
  assumes "page_directory s = page_directory t" and "page_table s = page_table t"
    and "page_table_2 s = page_table_2 t" and "pt_addr s = pt_addr t" and "pt2_addr s = pt2_addr t"
  shows "kernel_maps s = kernel_maps t"
  using assms by (simp add: kernel_maps_def tables_ok_def)

text \<open>The same constants and fields by terminal number.\<close>

definition scr_mem :: "nat \<Rightarrow> u32" where
  "scr_mem k = (if k = 1 then SCREEN1_MEM else if k = 2 then SCREEN2_MEM else SCREEN3_MEM)"

definition scr_vir :: "nat \<Rightarrow> u32" where
  "scr_vir k = (if k = 1 then SCREEN1_VIR else if k = 2 then SCREEN2_VIR else SCREEN3_VIR)"

definition saved_of :: "nat \<Rightarrow> kernel \<Rightarrow> saved_screen" where
  "saved_of k s = (if k = 1 then saved1 s else if k = 2 then saved2 s else saved3 s)"

lemma page_off:
  fixes a :: u32
  assumes "unat a = 4096 * q" and "q < 2 ^ 20" and "i < 4096"
  shows "unat (a + of_nat i) = 4096 * q + i" and "drop_bit 12 (a + of_nat i) = drop_bit 12 a"
    and "take_bit 12 (a + of_nat i) = of_nat i" and "unat (a + of_nat i) div 4096 = q"
proof -
  have "4096 * q + i < 4096 * (q + 1)" using assms(3) by simp
  also have "\<dots> \<le> 4096 * 2 ^ 20" using assms(2) by (intro mult_le_mono2) simp
  finally have lt: "4096 * q + i < 2 ^ 32" by simp
  show u: "unat (a + of_nat i) = 4096 * q + i" using unat_addr_off [of a i] assms(1) lt by simp
  then show q: "unat (a + of_nat i) div 4096 = q" using assms(3) by simp
  have "unat (drop_bit 12 (a + of_nat i)) = unat (drop_bit 12 a)"
    using q assms(1) by (simp add: drop_bit_eq_div unat_div)
  then show "drop_bit 12 (a + of_nat i) = drop_bit 12 a" by (simp add: word_unat_eq_iff)
  have "unat (take_bit 12 (a + of_nat i)) = i"
    using u assms(3) by (simp add: take_bit_eq_mod unat_mod)
  then show "take_bit 12 (a + of_nat i) = of_nat i" 
    by (metis of_nat_unat ucast_id)
qed

definition is_page :: "u32 \<Rightarrow> bool" where
  "is_page a \<longleftrightarrow> (\<exists>q < 2 ^ 20. unat a = 4096 * q)"

lemma pages: "is_page VIDEO" "is_page (scr_mem k)" "is_page (scr_vir k)"
  by (auto simp: is_page_def VIDEO_def scr_mem_def scr_vir_def screen_consts
      intro: exI [of _ "0xB8"] exI [of _ "0x2000"] exI [of _ "0x2001"] exI [of _ "0x2002"]
        exI [of _ "0x84B9"] exI [of _ "0x84BA"] exI [of _ "0x84BB"])

lemma frames: "frame_of VIDEO = VIDEO" "frame_of (scr_mem k) = scr_mem k"
  by (simp_all add: frame_of_def VIDEO_def scr_mem_def screen_consts)

lemma xl_window:
  assumes "kernel_maps s" and "k \<in> {1, 2, 3}" and "tlb s (drop_bit 12 (scr_vir k)) = None"
    and "page_table_2 s ! (VIDEO_PAGE_OFF + k) = f OR RESERV_CODE_2" and "frame_of f = f" and "i < 4096"
  shows "xl s (scr_vir k + of_nat i) = f + of_nat i" "walk s (scr_vir k + of_nat i) = Some (f + of_nat i, True)"
proof -
  let ?a = "scr_vir k + of_nat i"
  have u: "unat (scr_vir k) = 4096 * (0x84B8 + k)" "0x84B8 + k < 2 ^ 20" using assms(2) by (auto simp: scr_vir_def screen_consts)
  note p = page_off [OF u assms(6)]
  have "unat ?a div 0x400000 = unat ?a div 4096 div 1024" by (simp flip: div_mult2_eq)
  then have d: "unat ?a div 0x400000 = 33" using p(4) assms(2) by auto
  have ti: "table_index ?a = VIDEO_PAGE_OFF + k" using p(4) assms(2) by (auto simp: table_index_mod VIDEO_PAGE_OFF_def)
  show w: "walk s ?a = Some (f + of_nat i, True)"
    using walk_window [OF assms(1) d _ assms(5)] assms(4) unfolding ti p(3) by (simp add: RESERV_CODE_2_def)
  show "xl s ?a = f + of_nat i" by (rule xl_walk [OF _ w]) (use assms(3) p(2) in simp)
qed

lemma xl_video:
  assumes "kernel_maps s" and "tlb s (drop_bit 12 VIDEO) \<in> {None, Some VIDEO}" and "i < 4096"
  shows "xl s (VIDEO + of_nat i) = VIDEO + of_nat i"
proof -
  have u: "unat VIDEO = 4096 * 0xB8" "0xB8 < (2 :: nat) ^ 20" by (simp_all add: VIDEO_def)
  note p = page_off [OF u assms(3)]
  have w: "walk s (VIDEO + of_nat i) = Some (VIDEO + of_nat i, False)"
    using walk_low [OF assms(1), of "VIDEO + of_nat i"] video_page_low p(4) by simp
  have "VIDEO OR of_nat i = VIDEO + of_nat i"
    using or_low_add [of 12 VIDEO "VIDEO + of_nat i"] p(3) by (simp add: VIDEO_def)
  then show ?thesis
    using assms(2) p(2,3) w by (auto simp: xl_def and_low)
qed

text \<open>Copying 4000 bytes between two pages, seen in physical memory.\<close>

lemma disjoint_pages:
  assumes "is_page f" "is_page g" and "f \<noteq> g" and "i < 4096" "j < 4096"
  shows "f + of_nat i \<noteq> g + of_nat j"
proof
  obtain q r where q: "unat f = 4096 * q" "q < 2 ^ 20" and r: "unat g = 4096 * r" "r < 2 ^ 20"
    using assms(1,2) by (auto simp: is_page_def)
  assume "f + of_nat i = g + of_nat j"
  then have "q = r" using page_off(4) [OF q assms(4)] page_off(4) [OF r assms(5)] by simp
  then show False using q r assms(3) by (simp add: word_unat_eq_iff)
qed

lemma copy_pages:
  assumes d: "\<And>i. i < 4096 \<Longrightarrow> xl s (d + of_nat i) = f + of_nat i" and g: "\<And>i. i < 4096 \<Longrightarrow> xl s (c + of_nat i) = g + of_nat i"
    and p: "is_page f" "is_page g" "f \<noteq> g"
  shows "i < 4000 \<Longrightarrow> phys (copy_bytes d c s) (f + of_nat i) = phys s (g + of_nat i)"
    and "a \<notin> region f 4000 \<Longrightarrow> phys (copy_bytes d c s) a = phys s a"
proof -
  have n: "unat SIZE_VID_MEM = 4000" by (simp add: SIZE_VID_MEM_def)
  have im: "xl s ` region d 4000 = region f 4000" "xl s ` region c 4000 = region g 4000"
    using d g by (auto simp: region_def image_image)
  have inj: "inj_on (xl s) (region d 4000)"
  proof (rule inj_onI)
    fix x y
    assume "x \<in> region d 4000" "y \<in> region d 4000" and e: "xl s x = xl s y"
    then obtain i j where ij: "i < 4000" "x = d + of_nat i" "j < 4000" "y = d + of_nat j" by (elim region_memE)
    then have "f + of_nat i = f + of_nat j" using d [of i] d [of j] e by simp
    then have "i = j" using addr_off_inj [of i j f] ij(1,3) by simp
    then show "x = y" using ij by simp
  qed
  have "region f 4000 \<inter> region g 4000 = {}"
    using disjoint_pages [OF p] by (fastforce elim!: region_memE)
  then have sep: "separate (xl s) d c (unat SIZE_VID_MEM)" using inj im unfolding separate_def n by simp
  show "phys (copy_bytes d c s) (f + of_nat i) = phys s (g + of_nat i)" if "i < 4000"
    using bc.copy_val [OF sep, of i "phys s"] d [of i] g [of i] that by (simp add: copy_bytes_def n)
  show "phys (copy_bytes d c s) a = phys s a" if "a \<notin> region f 4000"
    using bc.copy_frame [OF sep, of a "phys s"] that im by (simp add: copy_bytes_def n)
qed

section \<open>What a terminal shows\<close>

text \<open>
  The abstract state of terminal \<open>k\<close>: the 4000 bytes of its screen, its cursor and the line being
  typed, taken from video memory and the console variables while it is displayed and from its
  backup page and saved variables otherwise.
\<close>

definition screen_bytes :: "u32 \<Rightarrow> kernel \<Rightarrow> u8 list" where
  "screen_bytes f s = map (\<lambda>i. phys s (f + of_nat i)) [0..<4000]"

definition terminal_view :: "nat \<Rightarrow> kernel \<Rightarrow> u8 list \<times> saved_screen" where
  "terminal_view k s =
     (if indicator s = int k then (screen_bytes VIDEO s, live s) else (screen_bytes (scr_mem k) s, saved_of k s))"

text \<open>The windows point where they should, and no stale translation of a window is cached.\<close>

definition windows_ok :: "kernel \<Rightarrow> bool" where
  "windows_ok s \<longleftrightarrow> kernel_maps s \<and> indicator s \<in> {1, 2, 3} \<and> (\<forall>k \<in> {1, 2, 3}.
     page_table_2 s ! (VIDEO_PAGE_OFF + k) = (if indicator s = int k then VIDEO else scr_mem k) OR RESERV_CODE_2)"

definition windows_uncached :: "kernel \<Rightarrow> bool" where
  "windows_uncached s \<longleftrightarrow> (\<forall>k \<in> {1, 2, 3}. tlb s (drop_bit 12 (scr_vir k)) = None) \<and>
     tlb s (drop_bit 12 VIDEO) \<in> {None, Some VIDEO}"

definition screen_fn :: "nat \<Rightarrow> env \<Rightarrow> kernel \<Rightarrow> (outcome \<times> kernel) option" where
  "screen_fn k = (if k = 1 then screen1 else if k = 2 then screen2 else screen3)"

definition shown_before :: "nat \<Rightarrow> kernel \<Rightarrow> bool" where
  "shown_before k s \<longleftrightarrow> (if k = 1 then fts_1 s else if k = 2 then fts_2 s else fts_3 s) \<noteq> 0"

lemma getCursorandBuffer_saved:
  assumes "indicator s = int k" and "k \<in> {1, 2, 3}" and "j \<in> {1, 2, 3}"
  shows "saved_of j (getCursorandBuffer s) = (if j = k then live s else saved_of j s)"
  using assms by (auto simp: getCursorandBuffer_def saved_of_def)

lemma getCursorandBuffer_fields [simp]:
  "phys (getCursorandBuffer s) = phys s" "page_table_2 (getCursorandBuffer s) = page_table_2 s"
  "indicator (getCursorandBuffer s) = indicator s" "tlb (getCursorandBuffer s) = tlb s"
  "kernel_maps (getCursorandBuffer s) = kernel_maps s" "fts_1 (getCursorandBuffer s) = fts_1 s"
  "fts_2 (getCursorandBuffer s) = fts_2 s" "fts_3 (getCursorandBuffer s) = fts_3 s"
  by (simp_all add: getCursorandBuffer_def kernel_maps_def tables_ok_def)

text \<open>The first half of a switch: the screen that is left is in its backup page.\<close>

lemma copyFromVideo_effect:
  assumes w: "kernel_maps s" "indicator s = int k" "k \<in> {1, 2, 3}" and c: "windows_uncached s"
  defines "t \<equiv> copyFromVideo s"
  shows "i < 4000 \<Longrightarrow> phys t (scr_mem k + of_nat i) = phys s (VIDEO + of_nat i)"
    and "a \<notin> region (scr_mem k) 4000 \<Longrightarrow> phys t a = phys s a"
    and "page_table_2 t = (page_table_2 s)[VIDEO_PAGE_OFF + k := scr_mem k OR RESERV_CODE_2]"
    and "kernel_maps t"
    and "t = s\<lparr>phys := phys t, page_table_2 := page_table_2 t\<rparr>"
proof -
  let ?u = "setupPagingDirectoryTable RESERV_CODE_2 (scr_mem k) k s"
  have t: "t = copy_bytes (scr_vir k) VIDEO ?u"
    using w(2,3) by (auto simp: t_def copyFromVideo_def scr_mem_def scr_vir_def)
  have k: "kernel_maps ?u" by (rule kernel_maps_table [OF w(1,3)])
  have f: "phys ?u = phys s" "tlb ?u = tlb s" by (simp_all add: setupPagingDirectoryTable_def)
  have len: "length (page_table_2 s) = page_entries" using w(1) by (simp add: kernel_maps_def tables_ok_def)
  have p: "page_table_2 ?u = (page_table_2 s)[VIDEO_PAGE_OFF + k := scr_mem k OR RESERV_CODE_2]"
    by (simp add: setupPagingDirectoryTable_def)
  then have e: "page_table_2 ?u ! (VIDEO_PAGE_OFF + k) = scr_mem k OR RESERV_CODE_2"
    using w(3) len by (auto simp: page_entries_def VIDEO_PAGE_OFF_def)
  have tl: "tlb ?u (drop_bit 12 (scr_vir k)) = None" "tlb ?u (drop_bit 12 VIDEO) \<in> {None, Some VIDEO}"
    using c w(3) by (auto simp: windows_uncached_def f)
  have ne: "scr_mem k \<noteq> VIDEO" by (simp add: scr_mem_def VIDEO_def screen_consts)
  note cp = copy_pages [OF xl_window(1) [OF k w(3) tl(1) e frames(2)] xl_video [OF k tl(2)] pages(2,1) ne, folded t, unfolded f]
  show "i < 4000 \<Longrightarrow> phys t (scr_mem k + of_nat i) = phys s (VIDEO + of_nat i)" by (rule cp(1))
  show "a \<notin> region (scr_mem k) 4000 \<Longrightarrow> phys t a = phys s a" by (rule cp(2))
  show "page_table_2 t = (page_table_2 s)[VIDEO_PAGE_OFF + k := scr_mem k OR RESERV_CODE_2]"
    by (simp add: t copy_bytes_def p)
  show "kernel_maps t" using k by (simp add: t copy_bytes_def kernel_maps_def tables_ok_def)
  show "t = s\<lparr>phys := phys t, page_table_2 := page_table_2 t\<rparr>"
    by (simp add: t copy_bytes_def setupPagingDirectoryTable_def)
qed

text \<open>The second half: the backup page of the new terminal is on the screen.\<close>

lemma copyToVideo_effect:
  assumes w: "kernel_maps s" "indicator s = int k" "k \<in> {1, 2, 3}" and c: "windows_uncached s"
    and e: "page_table_2 s ! (VIDEO_PAGE_OFF + k) = scr_mem k OR RESERV_CODE_2"
  defines "t \<equiv> copyToVideo s"
  shows "i < 4000 \<Longrightarrow> phys t (VIDEO + of_nat i) = phys s (scr_mem k + of_nat i)"
    and "a \<notin> region VIDEO 4000 \<Longrightarrow> phys t a = phys s a"
    and "page_table_2 t = (page_table_2 s)[VIDEO_PAGE_OFF + k := VIDEO OR RESERV_CODE_2]"
    and "kernel_maps t"
    and "t = s\<lparr>phys := phys t, page_table_2 := page_table_2 t\<rparr>"
proof -
  let ?u = "copy_bytes VIDEO (scr_vir k) s"
  have t: "t = setupPagingDirectoryTable RESERV_CODE_2 VIDEO k ?u"
    using w(2,3) by (auto simp: t_def copyToVideo_def scr_vir_def copy_bytes_def)
  have tl: "tlb s (drop_bit 12 (scr_vir k)) = None" "tlb s (drop_bit 12 VIDEO) \<in> {None, Some VIDEO}"
    using c w(3) by (auto simp: windows_uncached_def)
  have ne: "VIDEO \<noteq> scr_mem k" by (simp add: scr_mem_def VIDEO_def screen_consts)
  note cp = copy_pages [OF xl_video [OF w(1) tl(2)] xl_window(1) [OF w(1,3) tl(1) e frames(2)] pages(1,2) ne]
  have p: "phys t = phys ?u" "kernel_maps ?u"
    using w(1) by (simp_all add: t setupPagingDirectoryTable_def copy_bytes_def kernel_maps_def tables_ok_def)
  show "i < 4000 \<Longrightarrow> phys t (VIDEO + of_nat i) = phys s (scr_mem k + of_nat i)" unfolding p by (rule cp(1))
  show "a \<notin> region VIDEO 4000 \<Longrightarrow> phys t a = phys s a" unfolding p by (rule cp(2))
  show "page_table_2 t = (page_table_2 s)[VIDEO_PAGE_OFF + k := VIDEO OR RESERV_CODE_2]"
    by (simp add: t copy_bytes_def setupPagingDirectoryTable_def)
  show "kernel_maps t" unfolding t by (rule kernel_maps_table [OF p(2) w(3)])
  show "t = s\<lparr>phys := phys t, page_table_2 := page_table_2 t\<rparr>"
    by (simp add: t copy_bytes_def setupPagingDirectoryTable_def)
qed

lemma setCursorandBuffer_load:
  "indicator s = int k \<Longrightarrow> k \<in> {1, 2, 3} \<Longrightarrow> setCursorandBuffer s = load_screen (saved_of k s) s"
  by (auto simp: setCursorandBuffer_def saved_of_def)

lemma screen_fn_show:
  assumes "shown_before k s" and "k \<in> {1, 2, 3}"
  defines "u \<equiv> leave_screen (int k) s"
  shows "screen_fn k e s = show_screen (update_cursor (saved_x (saved_of k u)) (saved_y (saved_of k u)) u)"
proof -
  have "fts_1 (leave_screen j s) = fts_1 s" "fts_2 (leave_screen j s) = fts_2 s" "fts_3 (leave_screen j s) = fts_3 s" for j
    by (simp_all add: leave_screen_def setCursorandBuffer_def load_screen_def copyFromVideo_def copy_bytes_def
        setupPagingDirectoryTable_def cli_def)
  moreover have "fts_1 (update_cursor x y s) = fts_1 s" "fts_2 (update_cursor x y s) = fts_2 s" "fts_3 (update_cursor x y s) = fts_3 s"
    for x y and s :: kernel by (simp_all add: update_cursor_def outb_def Let_def)
  ultimately show ?thesis using assms(1,2)
    by (auto simp: shown_before_def screen_fn_def screen1_def screen2_def screen3_def Let_def u_def saved_of_def)
qed

lemma notin_region: "(\<And>j. j < n \<Longrightarrow> x \<noteq> f + of_nat j) \<Longrightarrow> x \<notin> region f n"
  by (auto elim!: region_memE)

lemma backup_disjoint:
  assumes "j \<in> {1, 2, 3}" and "k \<in> {1, 2, 3}" and "i < 4000"
  shows "j \<noteq> k \<Longrightarrow> scr_mem j + of_nat i \<notin> region (scr_mem k) 4000"
    and "scr_mem j + of_nat i \<notin> region VIDEO 4000" "VIDEO + of_nat i \<notin> region (scr_mem k) 4000"
proof -
  have ne: "j \<noteq> k \<Longrightarrow> scr_mem j \<noteq> scr_mem k" "scr_mem j \<noteq> VIDEO" "VIDEO \<noteq> scr_mem k"
    using assms(1,2) by (auto simp: scr_mem_def VIDEO_def screen_consts)
  show "j \<noteq> k \<Longrightarrow> scr_mem j + of_nat i \<notin> region (scr_mem k) 4000"
    by (intro notin_region disjoint_pages [OF pages(2,2)]) (use assms(3) ne(1) in simp_all)
  show "scr_mem j + of_nat i \<notin> region VIDEO 4000"
    by (intro notin_region disjoint_pages [OF pages(2,1) ne(2)]) (use assms(3) in simp_all)
  show "VIDEO + of_nat i \<notin> region (scr_mem k) 4000"
    by (intro notin_region disjoint_pages [OF pages(1,2) ne(3)]) (use assms(3) in simp_all)
qed

lemma load_fields:
  fixes b :: kernel
  defines "v \<equiv> \<lambda>x y c j. update_cursor x y (load_screen c (b\<lparr>indicator := j\<rparr>))"
  shows "saved_of i (v x y c j) = saved_of i b" "live (v x y c j) = c" "indicator (v x y c j) = j" "phys (v x y c j) = phys b"
    "page_table_2 (v x y c j) = page_table_2 b" "tlb (v x y c j) = tlb b" "kernel_maps (v x y c j) = kernel_maps b"
proof -
  show "kernel_maps (v x y c j) = kernel_maps b"
    by (rule kernel_maps_cong) (simp_all add: v_def update_cursor_def outb_def Let_def load_screen_def)
qed (simp_all add: v_def update_cursor_def outb_def Let_def load_screen_def live_def saved_of_def)

lemma end_fields:
  fixes v w :: kernel
  assumes "w = v\<lparr>phys := m, page_table_2 := p\<rparr>"
  shows "saved_of i (sti (flushTLB w)) = saved_of i v" "live (sti (flushTLB w)) = live v"
    "indicator (sti (flushTLB w)) = indicator v" "phys (sti (flushTLB w)) = phys w"
    "page_table_2 (sti (flushTLB w)) = page_table_2 w" "iflag (sti (flushTLB w))" "tlb (sti (flushTLB w)) = Map.empty"
  by (simp_all add: assms sti_def flushTLB_def live_def saved_of_def)

text \<open>Everything a switch does to memory, tables and console variables.\<close>

lemma switch_effect:
  assumes w: "windows_ok s" "windows_uncached s" and old: "indicator s = int j" "j \<in> {1, 2, 3}"
    and k: "k \<in> {1, 2, 3}" "shown_before k s"
  obtains t where "screen_fn k e s = Some (Returned 0, t)" "indicator t = int k" "iflag t" "tlb t = Map.empty"
    "kernel_maps t" "live t = (if j = k then live s else saved_of k s)"
    "\<And>i. i \<in> {1, 2, 3} \<Longrightarrow> saved_of i t = (if i = j then live s else saved_of i s)"
    "page_table_2 t = (page_table_2 s)[VIDEO_PAGE_OFF + j := scr_mem j OR RESERV_CODE_2, VIDEO_PAGE_OFF + k := VIDEO OR RESERV_CODE_2]"
    "\<And>i. i < 4000 \<Longrightarrow> phys t (VIDEO + of_nat i) = (if j = k then phys s (VIDEO + of_nat i) else phys s (scr_mem k + of_nat i))"
    "\<And>i. i < 4000 \<Longrightarrow> phys t (scr_mem j + of_nat i) = phys s (VIDEO + of_nat i)"
    "\<And>a. a \<notin> region VIDEO 4000 \<Longrightarrow> a \<notin> region (scr_mem j) 4000 \<Longrightarrow> phys t a = phys s a"
proof -
  let ?a = "getCursorandBuffer (cli s)"
  let ?b = "copyFromVideo ?a"
  let ?u = "leave_screen (int k) s"
  let ?v = "update_cursor (saved_x (saved_of k ?u)) (saved_y (saved_of k ?u)) ?u"
  let ?w = "copyToVideo ?v"
  have "kernel_maps (cli s) = kernel_maps s" by (rule kernel_maps_cong) (simp_all add: cli_def)
  then have a: "kernel_maps ?a" "indicator ?a = int j" "windows_uncached ?a" "phys ?a = phys s" "page_table_2 ?a = page_table_2 s"
    using w old by (simp_all add: windows_ok_def windows_uncached_def cli_def)
  have sv: "saved_of i ?a = (if i = j then live s else saved_of i s)" if "i \<in> {1, 2, 3}" for i
    using getCursorandBuffer_saved [of "cli s" j i] old that by (simp add: cli_def live_def saved_of_def)
  note b = copyFromVideo_effect [OF a(1,2) old(2) a(3), unfolded a(4,5)]
  have svb: "saved_of i ?b = saved_of i ?a" for i by (subst b(5)) (simp add: saved_of_def)
  have tb: "tlb ?b = tlb s" by (subst b(5)) (simp add: getCursorandBuffer_def cli_def)
  have u: "?u = load_screen (saved_of k ?b) (?b\<lparr>indicator := int k\<rparr>)"
    using setCursorandBuffer_load [of "?b\<lparr>indicator := int k\<rparr>" k] k(1) by (simp add: leave_screen_def saved_of_def)
  have v: "kernel_maps ?v" "indicator ?v = int k" "phys ?v = phys ?b" "page_table_2 ?v = page_table_2 ?b" "tlb ?v = tlb s"
    "\<And>i. saved_of i ?v = saved_of i ?a" "live ?v = saved_of k ?a"
    unfolding u load_fields svb tb by (rule b(4) refl)+
  have unc: "windows_uncached ?v" using w(2) unfolding windows_uncached_def v(5) .
  have len: "length (page_table_2 s) = page_entries" using a(1) a(5) by (simp add: kernel_maps_def tables_ok_def)
  have ent: "page_table_2 ?v ! (VIDEO_PAGE_OFF + k) = scr_mem k OR RESERV_CODE_2"
    unfolding v(4) b(3) using w(1) old k(1) len by (auto simp: windows_ok_def nth_list_update page_entries_def VIDEO_PAGE_OFF_def)
  note c = copyToVideo_effect [OF v(1,2) k(1) unc ent]
  let ?t = "sti (flushTLB ?w)"
  have t: "screen_fn k e s = Some (Returned 0, ?t)"
    unfolding screen_fn_show [OF k(2,1)] show_screen_def ..
  note f = end_fields(4,5) [OF c(5)] end_fields(3) [OF c(5), unfolded v(2)] end_fields(2) [OF c(5), unfolded v(7)]
    end_fields(1) [OF c(5), unfolded v(6)] end_fields(6,7) [OF c(5)]
  have km: "kernel_maps ?t = kernel_maps ?w" by (rule kernel_maps_cong) (simp_all add: sti_def flushTLB_def)
  show thesis
  proof (rule that [OF t])
    show "indicator ?t = int k" "iflag ?t" "tlb ?t = Map.empty" by (rule f)+
    show "kernel_maps ?t" unfolding km by (rule c(4))
    show "live ?t = (if j = k then live s else saved_of k s)" using f(4) sv [OF k(1)] by auto
    show "\<And>i. i \<in> {1, 2, 3} \<Longrightarrow> saved_of i ?t = (if i = j then live s else saved_of i s)" using f(5) sv by simp
    show "page_table_2 ?t = (page_table_2 s)[VIDEO_PAGE_OFF + j := scr_mem j OR RESERV_CODE_2, VIDEO_PAGE_OFF + k := VIDEO OR RESERV_CODE_2]"
      unfolding f(2) c(3) v(4) b(3) ..
    fix i :: nat
    assume i: "i < 4000"
    show "phys ?t (VIDEO + of_nat i) = (if j = k then phys s (VIDEO + of_nat i) else phys s (scr_mem k + of_nat i))"
      unfolding f(1) c(1) [OF i] v(3) using b(1) [OF i] b(2) backup_disjoint(1) [OF k(1) old(2) i] by auto
    show "phys ?t (scr_mem j + of_nat i) = phys s (VIDEO + of_nat i)"
      unfolding f(1) using c(2) [OF backup_disjoint(2) [OF old(2) old(2) i]] v(3) b(1) [OF i] by simp
  next
    show "\<And>a. a \<notin> region VIDEO 4000 \<Longrightarrow> a \<notin> region (scr_mem j) 4000 \<Longrightarrow> phys ?t a = phys s a"
      unfolding f(1) using c(2) b(2) v(3) by simp
  qed
qed

lemma list_bytes_eqI: "(\<And>i. i < 4000 \<Longrightarrow> phys s (f + of_nat i) = phys t (g + of_nat i)) \<Longrightarrow> screen_bytes f s = screen_bytes g t"
  by (simp add: screen_bytes_def)

text \<open>
  C19. Switching terminals loses nothing: with the windows set up and no window cached, Alt-F1 to
  Alt-F3 on a terminal that was shown before displays that terminal and leaves what every one
  of the three terminals shows (screen bytes, cursor, line being typed) as it was; memory
  outside video memory and the three backup pages is not touched, interrupts are enabled and
  the windows are set up again.
\<close>

theorem switch_keeps_terminals:
  assumes w: "windows_ok s" "windows_uncached s" and k: "k \<in> {1, 2, 3}" "shown_before k s"
  shows "\<exists>t. screen_fn k e s = Some (Returned 0, t) \<and> indicator t = int k \<and> iflag t \<and>
    (\<forall>i \<in> {1, 2, 3}. terminal_view i t = terminal_view i s) \<and> windows_ok t \<and> windows_uncached t \<and>
    (\<forall>a. a \<notin> region VIDEO 4000 \<and> (\<forall>i \<in> {1, 2, 3}. a \<notin> region (scr_mem i) 4000) \<longrightarrow> phys t a = phys s a)"
proof -
  obtain j where j: "indicator s = int j" "j \<in> {1, 2, 3}" using w(1) by (auto simp: windows_ok_def)
  obtain t where t: "screen_fn k e s = Some (Returned 0, t)" "indicator t = int k" "iflag t" "tlb t = Map.empty"
    "kernel_maps t" "live t = (if j = k then live s else saved_of k s)"
    and sv: "\<And>i. i \<in> {1, 2, 3} \<Longrightarrow> saved_of i t = (if i = j then live s else saved_of i s)"
    and pt: "page_table_2 t = (page_table_2 s)[VIDEO_PAGE_OFF + j := scr_mem j OR RESERV_CODE_2, VIDEO_PAGE_OFF + k := VIDEO OR RESERV_CODE_2]"
    and video: "\<And>i. i < 4000 \<Longrightarrow> phys t (VIDEO + of_nat i) = (if j = k then phys s (VIDEO + of_nat i) else phys s (scr_mem k + of_nat i))"
    and backup: "\<And>i. i < 4000 \<Longrightarrow> phys t (scr_mem j + of_nat i) = phys s (VIDEO + of_nat i)"
    and fr: "\<And>a. a \<notin> region VIDEO 4000 \<Longrightarrow> a \<notin> region (scr_mem j) 4000 \<Longrightarrow> phys t a = phys s a"
    using switch_effect [OF w j k, of e] by blast
  have "terminal_view i t = terminal_view i s" if i: "i \<in> {1, 2, 3}" for i
  proof -
    have other: "screen_bytes (scr_mem i) t = screen_bytes (scr_mem i) s" if "i \<noteq> j"
      by (rule list_bytes_eqI) (use backup_disjoint(1,2) [OF i j(2)] fr that in blast)
    have b: "screen_bytes (scr_mem j) t = screen_bytes VIDEO s" by (rule list_bytes_eqI) (rule backup)
    have v: "screen_bytes VIDEO t = (if j = k then screen_bytes VIDEO s else screen_bytes (scr_mem k) s)"
      using video by (auto simp: screen_bytes_def)
    show ?thesis
      using other b v t(2,6) sv [OF i] j(1) by (cases "i = k"; cases "i = j") (auto simp: terminal_view_def)
  qed
  moreover have "windows_ok t"
  proof -
    have len: "length (page_table_2 s) = page_entries" using w(1) by (simp add: windows_ok_def kernel_maps_def tables_ok_def)
    have "page_table_2 t ! (VIDEO_PAGE_OFF + i) = (if i = k then VIDEO else scr_mem i) OR RESERV_CODE_2" if "i \<in> {1, 2, 3}" for i
      unfolding pt using w(1) j k(1) that len by (auto simp: windows_ok_def nth_list_update page_entries_def VIDEO_PAGE_OFF_def)
    then show ?thesis using t(2,5) k(1) by (auto simp: windows_ok_def)
  qed
  moreover have "windows_uncached t" by (simp add: windows_uncached_def t(4))
  ultimately show ?thesis using t(1-3) fr j(2) by (intro exI [of _ t]) blast
qed

section \<open>A stale window\<close>

lemma rep_movsl_self:
  "(\<And>i. i < 4 * k \<Longrightarrow> tr (d + of_nat i) = tr (c + of_nat i)) \<Longrightarrow> rep_movsl tr k d c m = m"
proof (induction k arbitrary: d c m)
  case (Suc k)
  have "tr d = tr c" "tr (d + 1) = tr (c + 1)" "tr (d + 2) = tr (c + 2)" "tr (d + 3) = tr (c + 3)"
    using Suc.prems [of 0] Suc.prems [of 1] Suc.prems [of 2] Suc.prems [of 3] by simp_all
  then have one: "movsl tr d c m = m" by (auto simp: movsl_def)
  have "tr (d + 4 + of_nat i) = tr (c + 4 + of_nat i)" if "i < 4 * k" for i
    using Suc.prems [of "4 + i"] that by (simp add: algebra_simps)
  from Suc.IH [OF this] show ?case by (simp add: one)
qed simp

lemma memcpy_top_aligned: "d AND 3 = 0 \<Longrightarrow> 0 < n \<Longrightarrow> memcpy_top tr n d c m = memcpy_aligned tr n d c m"
  by (cases n) auto

text \<open>
  \<^verbatim>\<open>copyFromVideo\<close> changes the window entry without flushing the translation cache: when the
  cache still holds the window of the displayed terminal (because its program used the mapped
  screen), the copy goes from video memory to video memory, no byte of memory changes, and
  the screen is not saved.
\<close>

theorem stale_window_not_saved:
  assumes "kernel_maps s" and "indicator s = int k" and "k \<in> {1, 2, 3}"
    and "tlb s (drop_bit 12 (scr_vir k)) = Some VIDEO" and "tlb s (drop_bit 12 VIDEO) \<in> {None, Some VIDEO}"
  shows "phys (copyFromVideo s) = phys s"
proof -
  let ?u = "setupPagingDirectoryTable RESERV_CODE_2 (scr_mem k) k s"
  have t: "copyFromVideo s = copy_bytes (scr_vir k) VIDEO ?u"
    using assms(2,3) by (auto simp: copyFromVideo_def scr_mem_def scr_vir_def)
  have km: "kernel_maps ?u" by (rule kernel_maps_table [OF assms(1,3)])
  have f: "tlb ?u = tlb s" "phys ?u = phys s" by (simp_all add: setupPagingDirectoryTable_def)
  have same: "xl ?u (scr_vir k + of_nat i) = xl ?u (VIDEO + of_nat i)" if "i < 4 * 1000" for i
  proof -
    have i: "i < 4096" using that by simp
    have u: "unat (scr_vir k) = 4096 * (0x84B8 + k)" "0x84B8 + k < 2 ^ 20" using assms(3) by (auto simp: scr_vir_def screen_consts)
    note p = page_off [OF u i]
    have v: "unat VIDEO = 4096 * 0xB8" "0xB8 < (2 :: nat) ^ 20" by (simp_all add: VIDEO_def)
    have "VIDEO OR of_nat i = VIDEO + of_nat i"
      using or_low_add [of 12 VIDEO "VIDEO + of_nat i"] page_off(3) [OF v i] by (simp add: VIDEO_def)
    then show ?thesis
      using xl_video [OF km, of i] assms(4,5) i p(2,3) by (simp add: xl_def f and_low)
  qed
  have "scr_vir k AND 3 = 0" using assms(3) by (auto simp: scr_vir_def screen_consts)
  then have "memcpy (xl ?u) (scr_vir k) VIDEO SIZE_VID_MEM (phys ?u) = memcpy_aligned (xl ?u) 4000 (scr_vir k) VIDEO (phys ?u)"
    by (simp add: memcpy_def SIZE_VID_MEM_def memcpy_top_aligned)
  also have "\<dots> = phys ?u"
    using rep_movsl_self [OF same, of 1000] by (simp add: memcpy_aligned_def Let_def)
  finally have "memcpy (xl ?u) (scr_vir k) VIDEO SIZE_VID_MEM (phys ?u) = phys ?u" .
  then show ?thesis by (simp add: t copy_bytes_def f)
qed

section \<open>Video memory for programs\<close>

text \<open>
  \<^verbatim>\<open>vidmap\<close> refuses pointers outside its range; otherwise it stores an address through the
  pointer and returns 0, and with the windows set up the 4096 bytes at that address are video
  memory for the program on the displayed terminal.
\<close>

theorem vidmap_shows_screen:
  assumes "windows_ok s" and "inj_on (xl s) (region p 4)"
  shows "if p < EXEC_LOCATION div 4 \<or> p \<ge> USER_VIDEO then vidmap p s = (-1, s)
    else \<exists>t v. vidmap p s = (0, t) \<and> rd32 (xl s) (phys t) p = v \<and>
      (\<forall>i < 4096. user_walk t (v + of_nat i) = Some (VIDEO + of_nat i)) \<and>
      (\<forall>a. a \<notin> xl s ` region p 4 \<longrightarrow> phys t a = phys s a)"
proof (cases "p < EXEC_LOCATION div 4 \<or> p \<ge> USER_VIDEO")
  case True
  then show ?thesis by (simp add: vidmap_def)
next
  case False
  obtain j where j: "indicator s = int j" "j \<in> {1, 2, 3}" using assms(1) by (auto simp: windows_ok_def)
  have k: "kernel_maps s" and e: "page_table_2 s ! (VIDEO_PAGE_OFF + j) = VIDEO OR RESERV_CODE_2"
    using assms(1) j by (auto simp: windows_ok_def)
  let ?v = "scr_vir j" and ?bs = "map (byte_of (scr_vir j)) [0..<4]"
  let ?t = "s\<lparr>addrPage := VIDEO, phys := store_bytes (xl s) p ?bs (phys s)\<rparr>"
  have x: "xl (s\<lparr>addrPage := VIDEO\<rparr>) = xl s" by (rule xl_cong) simp_all
  have nz: "p \<noteq> 0" using False by (auto simp: EXEC_LOCATION_def)
  have "USER_VIDEO + word_of_int (indicator s) * 4096 = ?v"
    using j by (auto simp: USER_VIDEO_def scr_vir_def screen_consts)
  then have vm: "vidmap p s = (0, ?t)" using False nz by (simp add: vidmap_def Let_def x)
  have bl: "phys ?t (xl s (p + of_nat i)) = byte_of ?v i" if "i < 4" for i
    using store_bytes_val [of "xl s" p ?bs i "phys s"] assms(2) that by simp
  have "rd32 (xl s) (phys ?t) p = ?v"
    using bl [of 0] bl [of 1] bl [of 2] bl [of 3] j(2)
    by (auto simp: rd32_def le32_def buf_at_def byte_of_def scr_vir_def screen_consts)
  moreover have "walk ?t = walk s" by (rule walk_cong) simp_all
  moreover have "user_walk s (?v + of_nat i) = Some (VIDEO + of_nat i)" if "i < 4096" for i
  proof -
    have "walk (s\<lparr>tlb := Map.empty\<rparr>) = walk s" by (rule walk_cong) simp_all
    moreover have "kernel_maps (s\<lparr>tlb := Map.empty\<rparr>)" using k by (simp add: kernel_maps_def tables_ok_def)
    ultimately have "walk s (?v + of_nat i) = Some (VIDEO + of_nat i, True)"
      using xl_window(2) [of "s\<lparr>tlb := Map.empty\<rparr>" j VIDEO i] j(2) e frames(1) that by simp
    then show ?thesis by (simp add: user_walk_def)
  qed
  moreover have "phys ?t a = phys s a" if "a \<notin> xl s ` region p 4" for a
    using store_bytes_frame [of a "xl s" p ?bs "phys s"] that by simp
  ultimately show ?thesis using vm False by (auto simp: user_walk_def)
qed

section \<open>Witnesses\<close>

text \<open>The state after the tables are set up, with a program on the second terminal.\<close>

definition windows_kernel :: kernel where
  "windows_kernel = (setupPagingDirectoryTable RESERV_CODE_2 SCREEN3_MEM 3 (setupPagingDirectoryTable RESERV_CODE_2 SCREEN2_MEM 2
     (setupPagingDirectoryTable RESERV_CODE_2 VIDEO 1 (initPaging (blank_kernel (\<lambda>a. 0) 0)))))\<lparr>fts_2 := 1\<rparr>"

lemma windows_kernel_fields: "indicator windows_kernel = 1" "tlb windows_kernel = Map.empty" "windows_ok windows_kernel"
  "shown_before 2 windows_kernel"
proof -
  let ?b = "initPaging (blank_kernel (\<lambda>a. 0) 0)"
  show i: "indicator windows_kernel = 1" and "tlb windows_kernel = Map.empty" "shown_before 2 windows_kernel"
    by (simp_all add: windows_kernel_def setupPagingDirectoryTable_def initPaging_def enablePaging_def fill_directory_def
        fill_table_def Let_def fill_table_fold fill_directory_fold blank_kernel_def shown_before_def del: initPaging_fields)
  have b: "kernel_maps ?b" by (rule kernel_maps_init [OF blank_kernel_tables])
  have "kernel_maps windows_kernel = kernel_maps (setupPagingDirectoryTable RESERV_CODE_2 SCREEN3_MEM 3
      (setupPagingDirectoryTable RESERV_CODE_2 SCREEN2_MEM 2 (setupPagingDirectoryTable RESERV_CODE_2 VIDEO 1 ?b)))"
    unfolding windows_kernel_def by (rule kernel_maps_cong) simp_all
  moreover have "kernel_maps (setupPagingDirectoryTable RESERV_CODE_2 SCREEN3_MEM 3
      (setupPagingDirectoryTable RESERV_CODE_2 SCREEN2_MEM 2 (setupPagingDirectoryTable RESERV_CODE_2 VIDEO 1 ?b)))"
    by (intro kernel_maps_table b) simp_all
  moreover have "length (page_table_2 ?b) = page_entries" using b by (simp add: kernel_maps_def tables_ok_def)
  then have "page_table_2 windows_kernel ! (VIDEO_PAGE_OFF + k) = (if indicator windows_kernel = int k then VIDEO else scr_mem k) OR RESERV_CODE_2"
    if "k \<in> {1, 2, 3}" for k
    using that unfolding i
    by (auto simp: windows_kernel_def setupPagingDirectoryTable_def scr_mem_def page_entries_def VIDEO_PAGE_OFF_def simp del: initPaging_fields)
  ultimately show "windows_ok windows_kernel" by (simp add: windows_ok_def i)
qed

theorem switch_keeps_terminals_witness:
  "\<exists>t. screen_fn 2 plain_env windows_kernel = Some (Returned 0, t) \<and> indicator t = 2 \<and>
    terminal_view 1 t = terminal_view 1 windows_kernel"
proof -
  have u: "windows_uncached windows_kernel" by (simp add: windows_uncached_def windows_kernel_fields)
  from switch_keeps_terminals [OF windows_kernel_fields(3) u _ windows_kernel_fields(4), of plain_env] show ?thesis by auto
qed

theorem stale_window_not_saved_witness:
  "phys (copyFromVideo (windows_kernel\<lparr>tlb := [0x84B9 \<mapsto> VIDEO]\<rparr>)) = phys windows_kernel"
proof -
  let ?s = "windows_kernel\<lparr>tlb := [0x84B9 \<mapsto> VIDEO]\<rparr>"
  have "kernel_maps ?s = kernel_maps windows_kernel" by (rule kernel_maps_cong) simp_all
  then have k: "kernel_maps ?s" using windows_kernel_fields(3) by (simp add: windows_ok_def)
  have i: "indicator ?s = int 1" by (simp add: windows_kernel_fields)
  have c: "tlb ?s (drop_bit 12 (scr_vir 1)) = Some VIDEO" "tlb ?s (drop_bit 12 VIDEO) \<in> {None, Some VIDEO}"
    by (simp_all add: scr_vir_def screen_consts VIDEO_def)
  have "phys (copyFromVideo ?s) = phys ?s" by (rule stale_window_not_saved [OF k i _ c]) simp
  then show ?thesis by simp
qed

theorem vidmap_shows_screen_witness:
  "\<exists>t. vidmap 0x8049000 windows_kernel = (0, t) \<and>
    user_walk t (rd32 (xl windows_kernel) (phys t) 0x8049000 + of_nat 160) = Some (VIDEO + of_nat 160)"
proof -
  let ?s = windows_kernel
  have "walk ?s a = None" if "unat a div 0x400000 = 32" for a
  proof -
    have "page_directory ?s ! 32 = 0"
      using initPaging_tables(4) [OF blank_kernel_tables, of 32 "\<lambda>a. 0" 0]
      by (simp add: windows_kernel_def setupPagingDirectoryTable_def page_entries_def del: initPaging_fields)
    then show ?thesis using that by (simp add: walk_def dir_index_div)
  qed
  then have "xl ?s a = a" if "unat a div 0x400000 = 32" for a
    using that by (simp add: xl_def windows_kernel_fields)
  then have "xl ?s a = a" if "a \<in> region 0x8049000 4" for a
    using that by (auto simp: region_nowrap intro!: div_nat_eqI)
  then have "inj_on (xl ?s) (region 0x8049000 4)" by (simp add: inj_on_def)
  from vidmap_shows_screen [OF windows_kernel_fields(3) this] obtain t where
    "vidmap 0x8049000 ?s = (0, t)"
    and t: "\<forall>i < 4096. user_walk t (rd32 (xl ?s) (phys t) 0x8049000 + of_nat i) = Some (VIDEO + of_nat i)"
    by (auto simp: EXEC_LOCATION_def USER_VIDEO_def)
  then show ?thesis using t [rule_format, of 160] by auto
qed

section \<open>Switching between two processes\<close>

lemma pSwitch_step:
  assumes "head s = Some a" "next_proc (procs s a) = Some b" "pcb (procs s a) \<noteq> 0" "pcb (procs s b) \<noteq> 0" and k: "kernel_maps s"
  defines "p \<equiv> pcbs s (pcb (procs s b))"
  obtains t where "pSwitch e s = Some ((oldesp p, oldebp p), t)" "head t = Some b" "procs t = procs s"
    "pcbs t = (pcbs s)(pcb (procs s a) := (pcbs s (pcb (procs s a)))\<lparr>oldesp := fst (switch_regs e), oldebp := snd (switch_regs e)\<rparr>)"
    "pnum t = pid p" "runs_slot (pid p) t" "tss_esp0 t = oldesp p"
proof -
  let ?u = "s\<lparr>head := Some b, pnum := pid p\<rparr>"
  let ?v = "(setupPage ?u)\<lparr>tss_esp0 := oldesp p\<rparr>"
  let ?t = "set_pcb (pcb (procs s a)) (\<lambda>q. q\<lparr>oldesp := fst (switch_regs e), oldebp := snd (switch_regs e)\<rparr>) ?v"
  have "kernel_maps ?u = kernel_maps s" by (rule kernel_maps_cong) simp_all
  then have "runs_slot (pid p) (setupPage ?u)" using setupPage_maps(1) [of ?u] k by simp
  moreover have "kernel_maps ?t = kernel_maps (setupPage ?u)" by (rule kernel_maps_cong) (simp_all add: set_pcb_def)
  ultimately have "runs_slot (pid p) ?t" by (simp add: runs_slot_def) (simp add: set_pcb_def)
  moreover have "pSwitch e s = Some ((oldesp p, oldebp p), ?t)"
    using assms(1-4) by (simp add: pSwitch_def Let_def p_def)
  ultimately show thesis using that by (simp add: set_pcb_def)
qed

text \<open>
  C34. Two processes take turns: switching to the next process continues on the stack its control
  block holds, with its page mapped, and switching back continues exactly on the stack the
  first switch saved, with the first process's page mapped again.
\<close>

theorem process_switch_resumes:
  assumes "head s = Some a" "next_proc (procs s a) = Some b" "next_proc (procs s b) = Some a"
    and "pcb (procs s a) \<noteq> 0" "pcb (procs s b) \<noteq> 0" "pcb (procs s a) \<noteq> pcb (procs s b)" and "kernel_maps s"
  shows "\<exists>t u. pSwitch e s = Some ((oldesp (pcbs s (pcb (procs s b))), oldebp (pcbs s (pcb (procs s b)))), t) \<and>
    runs_slot (pid (pcbs s (pcb (procs s b)))) t \<and> pSwitch e' t = Some (switch_regs e, u) \<and> head u = head s \<and>
    pnum u = pid (pcbs s (pcb (procs s a))) \<and> runs_slot (pid (pcbs s (pcb (procs s a)))) u \<and> tss_esp0 u = fst (switch_regs e)"
proof -
  obtain t where t: "pSwitch e s = Some ((oldesp (pcbs s (pcb (procs s b))), oldebp (pcbs s (pcb (procs s b)))), t)"
    "head t = Some b" "procs t = procs s"
    "pcbs t = (pcbs s)(pcb (procs s a) := (pcbs s (pcb (procs s a)))\<lparr>oldesp := fst (switch_regs e), oldebp := snd (switch_regs e)\<rparr>)"
    "runs_slot (pid (pcbs s (pcb (procs s b)))) t"
    using pSwitch_step [OF assms(1,2,4,5,7)] by metis
  have "next_proc (procs t b) = Some a" "pcb (procs t b) \<noteq> 0" "pcb (procs t a) \<noteq> 0" "kernel_maps t"
    using assms(3-5) t(3,5) by (simp_all add: runs_slot_def)
  then obtain u where u: "pSwitch e' t = Some ((oldesp (pcbs t (pcb (procs t a))), oldebp (pcbs t (pcb (procs t a)))), u)"
    "head u = Some a" "pnum u = pid (pcbs t (pcb (procs t a)))" "runs_slot (pid (pcbs t (pcb (procs t a)))) u"
    "tss_esp0 u = oldesp (pcbs t (pcb (procs t a)))"
    using pSwitch_step [of t b a e'] t(2) by metis
  then show ?thesis using t assms(1) by (intro exI [of _ t] exI [of _ u]) simp
qed

theorem process_switch_resumes_witness:
  "\<exists>t u. pSwitch plain_env (windows_kernel\<lparr>head := Some process1, procs := (\<lambda>p. if p = process1
       then \<lparr>pcb = 0x7F8000, screen = 1, ebp = 0, esp = 0, next_proc = Some process2\<rparr>
       else \<lparr>pcb = 0x7F0000, screen = 2, ebp = 0, esp = 0, next_proc = Some process1\<rparr>)\<rparr>) = Some ((0, 0), t) \<and>
     pSwitch plain_env t = Some ((0x7FF100, 0x7FF200), u)"
proof -
  let ?s = "windows_kernel\<lparr>head := Some process1, procs := (\<lambda>p. if p = process1
       then \<lparr>pcb = 0x7F8000, screen = 1, ebp = 0, esp = 0, next_proc = Some process2\<rparr>
       else \<lparr>pcb = 0x7F0000, screen = 2, ebp = 0, esp = 0, next_proc = Some process1\<rparr>)\<rparr>"
  have "kernel_maps ?s = kernel_maps windows_kernel" by (rule kernel_maps_cong) simp_all
  then have k: "kernel_maps ?s" using windows_kernel_fields(3) by (simp add: windows_ok_def)
  have "pcbs ?s = (\<lambda>a. null_pcb)"
    by (simp add: windows_kernel_def setupPagingDirectoryTable_def initPaging_def enablePaging_def fill_directory_def
        fill_table_def Let_def fill_table_fold fill_directory_fold blank_kernel_def del: initPaging_fields)
  then show ?thesis
    using process_switch_resumes [of ?s process1 process2 plain_env plain_env] k by (auto simp: null_pcb_def plain_env_def)
qed

end
