(* ===== verification/Keyboard.thy ===== *)
theory Keyboard
  imports Scheduling
begin

text \<open>
  The keyboard driver, \<^verbatim>\<open>student-distrib/keyboard.c\<close>: scan codes, the two character tables, the
  modifier flags and the special keys. A scan code is a \<^verbatim>\<open>char\<close>, which is signed: a release
  code is negative.
\<close>

section \<open>The tables\<close>

definition array_of_char :: "u8 list" where
  "array_of_char = [0, 27] @ bytes_of ''1234567890-='' @ [8, 9] @ bytes_of ''qwertyuiop[]'' @ [10, 0] @
     bytes_of ''asdfghjkl;'' @ [39, 96, 0, 92] @ bytes_of ''zxcvbnm,./'' @ [0, 42, 0, 32, 0] @
     replicate 15 0 @ [45, 0, 0, 0, 43] @ replicate 49 0"

definition shift_char :: "u8 list" where
  "shift_char = [0, 27] @ bytes_of ''!@#$%^&*()_+'' @ [8, 9] @ bytes_of ''QWERTYUIOP{}'' @ [10, 0] @
     bytes_of ''ASDFGHJKL:'' @ [39, 126, 0, 92] @ bytes_of ''ZXCVBNM<>?'' @ [0, 42, 0, 32, 0] @
     replicate 15 0 @ [45, 0, 0, 0, 43] @ replicate 49 0"

definition keyboard_port :: u16 where "keyboard_port = 0x60"

section \<open>The operations\<close>

definition keyboard_init :: "device \<Rightarrow> kernel \<Rightarrow> kernel" where
  "keyboard_init d s = (enable_irq d 1 s)\<lparr>shift_flag := False, ctrl_flag := False, alt_flag := False, caps_lock := False\<rparr>"

definition getScancode :: "device \<Rightarrow> kernel \<Rightarrow> u8 \<times> kernel" where
  "getScancode d s = inb d keyboard_port s"

text \<open>\<open>None\<close> is an index outside the table, for a release code.\<close>

definition getchar :: "device \<Rightarrow> kernel \<Rightarrow> u8 option \<times> kernel" where
  "getchar d s = (let (z, s) = getScancode d s
     in (if 0 \<le> sint z then Some (array_of_char ! nat (sint z)) else None, s))"

definition key_up :: "int \<Rightarrow> kernel \<Rightarrow> kernel" where
  "key_up z s =
     (let s = (if z = -86 \<or> z = -74 then s\<lparr>shift_flag := False\<rparr> else s);
          s = (if z = -99 then s\<lparr>ctrl_flag := False\<rparr> else s)
      in if z = -72 then s\<lparr>alt_flag := False\<rparr> else s)"

definition known_key :: "int \<Rightarrow> bool" where
  "known_key z \<longleftrightarrow> (z \<ge> 2 \<and> z \<le> 53) \<or> z = 55 \<or> z = 56 \<or> z = 57 \<or> z = 58 \<or> z = 74 \<or> z = 78 \<or> z = 59 \<or> z = 60 \<or>
     z = 61 \<or> z = 62"

definition echo_char :: "int \<Rightarrow> kernel \<Rightarrow> u8" where
  "echo_char z s =
     (if caps_lock s \<and> ((z > 15 \<and> z < 26) \<or> (z > 29 \<and> z < 39) \<or> (z > 43 \<and> z < 51)) then shift_char ! nat z
      else if shift_flag s \<and> z > 1 \<and> z < 54 then shift_char ! nat z
      else array_of_char ! nat z)"

text \<open>
  \<^verbatim>\<open>halt\<close> and a first terminal switch do not come back to the handler: then the outcome of the
  handler is theirs.
\<close>

definition key_down :: "env \<Rightarrow> int \<Rightarrow> kernel \<Rightarrow> (outcome \<times> kernel) option" where
  "key_down e z s =
     (if z = 42 \<or> z = 54 then Some (Returned 0, s\<lparr>shift_flag := True\<rparr>)
      else if z = 29 then Some (Returned 0, s\<lparr>ctrl_flag := True\<rparr>)
      else if z = 56 then Some (Returned 0, s\<lparr>alt_flag := True\<rparr>)
      else if z = 58 then Some (Returned 0, s\<lparr>caps_lock := \<not> caps_lock s\<rparr>)
      else if ctrl_flag s \<and> z = 38 then Some (Returned 0, reset_screen s)
      else if ctrl_flag s \<and> z = 46 then sys_halt e 0 s
      else if alt_flag s \<and> z = 59 then screen1 e s
      else if alt_flag s \<and> z = 60 then screen2 e s
      else if alt_flag s \<and> z = 61 then screen3 e s
      else if z = 59 \<or> z = 60 \<or> z = 61 then Some (Returned 0, s)
      else Some (Returned 0, putc (echo_char z s) s))"

definition keyboard_handler :: "env \<Rightarrow> kernel \<Rightarrow> (outcome \<times> kernel) option" where
  "keyboard_handler e s =
     (let (z, s) = getScancode (dev e) s;
          s = send_eoi 1 s
      in if bit z 7 then Some (Returned 0, key_up (sint z) s)
         else if known_key (sint z) then key_down e (sint z) s
         else Some (Returned 0, s))"

section \<open>Keys as a source of characters\<close>

text \<open>
  The interface between a key source and the reader of a line: pressing a key has the effect of
  \<^verbatim>\<open>putc\<close> on its character, up to the port history, while the source is ready, and output does
  not change whether it is.
\<close>

lemma console_ok_typing: "console_ok s \<Longrightarrow> tflag s \<noteq> 0 \<Longrightarrow> console_ok (putc c s)"
  using console_okD(3) [of s] by (auto simp: putc_def console_ok_print console_ok_newline console_ok_backspace)

lemma editing_log [simp]: "editing (s\<lparr>io_log := l\<rparr>) = editing s"
  by (simp add: editing_def line_def)

lemma console_ok_log [simp]: "console_ok (s\<lparr>io_log := l\<rparr>) = console_ok s"
  by (simp add: console_ok_def cursor_def)

locale key_source =
  fixes press :: "'k \<Rightarrow> kernel \<Rightarrow> kernel" and ch :: "'k \<Rightarrow> u8" and ready :: "kernel \<Rightarrow> bool" and keys :: "'k set"
  assumes press_putc: "ready s \<Longrightarrow> k \<in> keys \<Longrightarrow> \<exists>l. press k s = putc (ch k) (s\<lparr>io_log := l\<rparr>)"
    and ready_output: "ready s \<Longrightarrow> console_change s t \<Longrightarrow> ready t"
begin

lemma press_step:
  assumes "ready s" and "k \<in> keys" and "console_ok s" and "tflag s \<noteq> 0"
  shows "console_change s (press k s)" "ready (press k s)" "console_ok (press k s)" "editing (press k s) = edit (ch k) (editing s)"
proof -
  obtain l where l: "press k s = putc (ch k) (s\<lparr>io_log := l\<rparr>)" using press_putc [OF assms(1,2)] by blast
  have "console_change s (s\<lparr>io_log := l\<rparr>)" by (simp add: console_change_def)
  then show c: "console_change s (press k s)" unfolding l by (rule console_change_trans) (rule console_change_putc)
  then show "ready (press k s)" by (rule ready_output [OF assms(1)])
  show "console_ok (press k s)" unfolding l by (rule console_ok_typing) (use assms in simp_all)
  show "editing (press k s) = edit (ch k) (editing s)"
    unfolding l using putc_edit [of "s\<lparr>io_log := l\<rparr>" "ch k"] assms(3) by simp
qed

lemma typing:
  assumes "ready s" "console_ok s" "tflag s \<noteq> 0" and "\<forall>k \<in> set ks. k \<in> keys \<and> ch k \<notin> {10, 13}" and "r \<in> keys" "ch r = 10"
  shows "\<exists>t. await (\<lambda>s. tflag s = 0) (map press (ks @ [r])) s = Some t \<and> console_change s t \<and> console_ok t \<and>
    line t = fst (fold (\<lambda>k. edit (ch k)) ks (editing s))"
  using assms(1-4)
proof (induction ks arbitrary: s)
  case Nil
  note st = press_step [OF Nil.prems(1) assms(5) Nil.prems(2,3)]
  have "editing s = (line s, True)" using Nil.prems(3) by (simp add: editing_def)
  then have "editing (press r s) = (line s, False)" using st(4) assms(6) by simp
  then show ?case using st Nil.prems(3) by (auto simp: editing_def)
next
  case (Cons k ks)
  have k: "k \<in> keys" "ch k \<noteq> 10" "ch k \<noteq> 13" using Cons.prems(4) by auto
  note st = press_step [OF Cons.prems(1) k(1) Cons.prems(2,3)]
  have "editing s = (line s, True)" using Cons.prems(3) by (simp add: editing_def)
  then have "snd (editing (press k s))" using st(4) k by simp
  then have "tflag (press k s) \<noteq> 0" by (simp add: editing_def)
  from Cons.IH [OF st(2,3) this] Cons.prems(4) obtain t where
    "await (\<lambda>s. tflag s = 0) (map press (ks @ [r])) (press k s) = Some t" "console_change (press k s) t" "console_ok t"
    "line t = fst (fold (\<lambda>k. edit (ch k)) ks (editing (press k s)))" by auto
  then show ?case using Cons.prems(3) st(1,4) console_change_trans by auto
qed

lemma read_typed:
  assumes "ready s" "console_ok s" and "\<forall>k \<in> set ks. k \<in> keys \<and> ch k \<notin> {10, 13}" and "r \<in> keys" "ch r = 10"
    and l: "l = fst (fold (\<lambda>k. edit (ch k)) ks ([], True))" "length l \<le> 127" "int (length l) \<le> n" and inj: "inj_on (xl s) (region buf 129)"
  shows "\<exists>u. terminal_read (map press (ks @ [r])) buf n s = Some (int (length l) + 1, u) \<and>
    (\<forall>j < 129. phys u (xl s (buf + of_nat j)) = padded (l @ [10]) j)"
proof -
  let ?s = "s\<lparr>tbuf := 0, tflag := 1\<rparr>"
  have c: "console_change s ?s" by (simp add: console_change_def)
  have ok: "console_ok ?s" using assms(2) by (auto simp: console_simps)
  obtain t where t: "await (\<lambda>s. tflag s = 0) (map press (ks @ [r])) ?s = Some t" "console_change ?s t" "console_ok t"
    "line t = fst (fold (\<lambda>k. edit (ch k)) ks (editing ?s))"
    using typing [OF ready_output [OF assms(1) c] ok _ assms(3-5)] by auto
  have lt: "line t = l" using t(4) l(1) by (simp add: editing_def line_def)
  have tb: "tbuf t = int (length l)" using length_line [OF t(3)] console_okD(3) [OF t(3)] unfolding lt by simp
  have x: "xl t = xl s" using console_change_paging(7) [OF console_change_trans [OF c t(2)]] .
  obtain u where "terminal_read (map press (ks @ [r])) buf n s = Some (int (length (line t)) + 1, u)"
    "\<forall>j < 129. phys u (xl t (buf + of_nat j)) = padded (line t @ [10]) j"
    by (rule terminal_read_result [OF t(1)]) (use tb console_okD(5) [OF t(3)] l(2,3) inj x in simp_all)
  then show ?thesis unfolding lt x by blast
qed

end

text \<open>
  Pressing the key with scan code \<open>z\<close>: the keyboard interrupt while the controller's data port
  holds \<open>z\<close>.
\<close>

definition key_env :: "u8 \<Rightarrow> env" where
  "key_env z = \<lparr>dev = (\<lambda>l p. z), irqs = [], stk = 0x7FF000, save_regs = (0, 0), switch_regs = (0, 0)\<rparr>"

definition press_key :: "u8 \<Rightarrow> kernel \<Rightarrow> kernel" where
  "press_key z s = (case keyboard_handler (key_env z) s of Some (Returned r, t) \<Rightarrow> t | _ \<Rightarrow> s)"

definition no_modifier :: "bool \<Rightarrow> bool \<Rightarrow> kernel \<Rightarrow> bool" where
  "no_modifier sh cp s \<longleftrightarrow> shift_flag s = sh \<and> caps_lock s = cp \<and> \<not> ctrl_flag s \<and> \<not> alt_flag s"

definition char_keys :: "u8 set" where
  "char_keys = {z. known_key (sint z) \<and> sint z \<notin> {29, 42, 56, 58, 59, 60, 61}}"

definition key_char :: "bool \<Rightarrow> bool \<Rightarrow> u8 \<Rightarrow> u8" where
  "key_char sh cp z = echo_char (sint z) (blank_kernel (\<lambda>a. 0) 0\<lparr>shift_flag := sh, caps_lock := cp\<rparr>)"

lemma console_change_flags:
  assumes "console_change s t"
  shows "shift_flag t = shift_flag s" "ctrl_flag t = ctrl_flag s" "alt_flag t = alt_flag s" "caps_lock t = caps_lock s"
  by (subst console_change_eq [OF assms], simp)+

lemma release_bit: "bit z 7 \<longleftrightarrow> sint z < 0" for z :: u8
  by (simp add: bit_last_iff flip: bit_last_iff)

interpretation keyb: key_source press_key "key_char sh cp" "no_modifier sh cp" char_keys
  for sh cp
proof
  fix s :: kernel and z :: u8
  assume s: "no_modifier sh cp s" and z: "z \<in> char_keys"
  define l where "l = io_log (send_eoi 1 (snd (getScancode (dev (key_env z)) s)))"
  have st: "send_eoi 1 (snd (getScancode (dev (key_env z)) s)) = s\<lparr>io_log := l\<rparr>"
    by (simp add: l_def send_eoi_def getScancode_def inb_def outb_def Let_def)
  have f: "fst (getScancode (dev (key_env z)) s) = z" by (simp add: getScancode_def inb_def key_env_def Let_def)
  have nb: "\<not> bit z 7" unfolding release_bit using z by (auto simp: char_keys_def known_key_def)
  have k: "known_key (sint z)" "sint z \<notin> {29, 42, 56, 58, 59, 60, 61}" "sint z \<noteq> 54"
    using z by (auto simp: char_keys_def known_key_def)
  have e: "echo_char (sint z) (s\<lparr>io_log := l\<rparr>) = key_char sh cp z" using s by (auto simp: key_char_def echo_char_def no_modifier_def)
  have "keyboard_handler (key_env z) s = Some (Returned 0, putc (key_char sh cp z) (s\<lparr>io_log := l\<rparr>))"
    using k nb s unfolding keyboard_handler_def Let_def case_prod_unfold f st
    by (simp add: key_down_def e no_modifier_def)
  then show "\<exists>l. press_key z s = putc (key_char sh cp z) (s\<lparr>io_log := l\<rparr>)" by (auto simp: press_key_def)
next
  fix s t :: kernel
  assume "no_modifier sh cp s" "console_change s t"
  then show "no_modifier sh cp t" by (simp add: no_modifier_def console_change_flags)
qed

lemma zeros:
  "replicate 15 (0 :: u8) = [0, 0, 0, 0, 0, 0, 0, 0, 0, 0, 0, 0, 0, 0, 0]"
  "replicate 49 (0 :: u8) =
    [0, 0, 0, 0, 0, 0, 0, 0, 0, 0, 0, 0, 0, 0, 0, 0, 0, 0, 0, 0, 0, 0, 0, 0, 0, 0, 0, 0, 0, 0, 0, 0, 0, 0, 0, 0, 0, 0, 0, 0, 0, 0, 0, 0, 0, 0, 0, 0, 0]"
  by (simp_all add: eval_nat_numeral)

lemmas key_tables = array_of_char_def shift_char_def bytes_of_def zeros

lemma line_end_keys:
  "\<forall>(i, c) \<in> set (enumerate 0 array_of_char). (c = 10 \<longleftrightarrow> i = 28) \<and> c \<noteq> 13"
  "\<forall>(i, c) \<in> set (enumerate 0 shift_char). (c = 10 \<longleftrightarrow> i = 28) \<and> c \<noteq> 13"
  by (simp_all add: key_tables)

lemma key_char_line_end:
  assumes "z \<in> char_keys"
  shows "key_char sh cp z = 10 \<longleftrightarrow> z = 28" "key_char sh cp z \<noteq> 13"
proof -
  have r: "0 \<le> sint z" "nat (sint z) < 128" using assms by (auto simp: char_keys_def known_key_def)
  have i: "nat (sint z) = 28 \<longleftrightarrow> z = 28"
  proof
    assume "nat (sint z) = 28"
    then have "sint z = sint (28 :: u8)" using r by simp
    then show "z = 28" by (simp only: signed_word_eqI)
  qed simp
  have len: "length array_of_char = 128" "length shift_char = 128"
    by (simp_all add: array_of_char_def shift_char_def bytes_of_def)
  then have "(nat (sint z), array_of_char ! nat (sint z)) \<in> set (enumerate 0 array_of_char)"
    "(nat (sint z), shift_char ! nat (sint z)) \<in> set (enumerate 0 shift_char)"
    using r(2) by (simp_all add: in_set_enumerate_eq)
  then have t: "(array_of_char ! nat (sint z) = 10 \<longleftrightarrow> nat (sint z) = 28) \<and> array_of_char ! nat (sint z) \<noteq> 13"
    "(shift_char ! nat (sint z) = 10 \<longleftrightarrow> nat (sint z) = 28) \<and> shift_char ! nat (sint z) \<noteq> 13"
    using line_end_keys by fast+
  show "key_char sh cp z = 10 \<longleftrightarrow> z = 28" "key_char sh cp z \<noteq> 13" using t i by (auto simp: key_char_def echo_char_def)
qed

text \<open>
  C18. From the keys to the program: when the scan codes \<open>zs\<close> of character keys (letters, digits,
  signs, backspace) and then Enter arrive while \<^verbatim>\<open>terminal_read\<close> waits, it returns the line that the
  line editor \<open>edit\<close> makes of their characters, for any setting of shift and caps lock, followed
  by a line feed and zeros up to 129 bytes.
\<close>

theorem keyboard_types_line:
  assumes "no_modifier sh cp s" "console_ok s"
    and "\<forall>z \<in> set zs. z \<in> char_keys \<and> z \<noteq> 28"
    and "l = fst (fold (\<lambda>z. edit (key_char sh cp z)) zs ([], True))" "length l \<le> 127" "int (length l) \<le> n"
    and "inj_on (xl s) (region buf 129)"
  shows "\<exists>u. terminal_read (map press_key (zs @ [28])) buf n s = Some (int (length l) + 1, u) \<and>
    (\<forall>j < 129. phys u (xl s (buf + of_nat j)) = padded (l @ [10]) j)"
proof (rule keyb.read_typed [OF assms(1,2) _ _ _ assms(4-7)])
  show "\<forall>z \<in> set zs. z \<in> char_keys \<and> key_char sh cp z \<notin> {10, 13}" using assms(3) key_char_line_end by auto
  show e: "28 \<in> char_keys" by (simp add: char_keys_def known_key_def)
  show "key_char sh cp 28 = 10" using key_char_line_end [OF e] by simp
qed

lemma blank_no_modifier: "no_modifier False False (blank_kernel m fs)"
  by (simp add: no_modifier_def blank_kernel_def)

theorem keyboard_types_line_witness:
  "\<exists>u. terminal_read (map press_key ([38, 38, 14, 31] @ [28])) 0x600000 128 (blank_kernel (\<lambda>a. 0) 0x500000) = Some (3, u) \<and>
    phys u 0x600000 = 108 \<and> phys u 0x600001 = 115 \<and> phys u 0x600002 = 10"
proof -
  let ?s = "blank_kernel (\<lambda>a. 0) 0x500000"
  have x: "xl ?s = id" by (rule blank_kernel_xl)
  have ok: "console_ok ?s" by (simp add: console_simps blank_kernel_def)
  have k: "\<forall>z \<in> set [38, 38, 14, 31]. z \<in> char_keys \<and> z \<noteq> 28" by (simp add: char_keys_def known_key_def)
  have "key_char False False 38 = 108" "key_char False False 14 = 8" "key_char False False 31 = 115"
    by (simp_all add: key_char_def echo_char_def blank_kernel_def key_tables)
  then have l: "bytes_of ''ls'' = fst (fold (\<lambda>z. edit (key_char False False z)) [38, 38, 14, 31] ([], True))"
    by (simp add: bytes_of_def)
  have n: "length (bytes_of ''ls'') \<le> 127" "int (length (bytes_of ''ls'')) \<le> 128" by (simp_all add: bytes_of_def)
  have "inj_on (xl ?s) (region 0x600000 129)" unfolding x by simp
  from keyboard_types_line [OF blank_no_modifier ok k l n this] obtain u where
    u: "terminal_read (map press_key ([38, 38, 14, 31] @ [28])) 0x600000 128 ?s = Some (int (length (bytes_of ''ls'')) + 1, u)"
    "\<forall>j < 129. phys u (xl ?s (0x600000 + of_nat j)) = padded (bytes_of ''ls'' @ [10]) j" by blast
  have "phys u 0x600000 = 108" "phys u 0x600001 = 115" "phys u 0x600002 = 10"
    using u(2) [rule_format, of 0] u(2) [rule_format, of 1] u(2) [rule_format, of 2]
    unfolding x by (simp_all add: padded_def bytes_of_def)
  with u(1) show ?thesis by (auto simp: bytes_of_def)
qed

section \<open>Upper case\<close>

lemma table_rows:
  "\<forall>(i, a, b) \<in> set (enumerate 0 (zip array_of_char shift_char)).
     (if 97 \<le> a \<and> a \<le> 122 then b = a - 32 \<and> ((15 < i \<and> i < 26) \<or> (29 < i \<and> i < 39) \<or> (43 < i \<and> i < 51))
      else \<not> ((15 < i \<and> i < 26) \<or> (29 < i \<and> i < 39) \<or> (43 < i \<and> i < 51)))"
  by (simp add: key_tables)

text \<open>
  The character tables: on a letter key, shift or caps lock gives the upper-case letter; caps
  lock changes no other key.
\<close>

theorem shift_and_caps_upper:
  assumes "z \<in> char_keys"
  shows "let c = key_char False False z
    in if 97 \<le> c \<and> c \<le> 122 then key_char True cp z = c - 32 \<and> key_char sh True z = c - 32
       else key_char sh True z = key_char sh False z"
proof -
  let ?i = "nat (sint z)"
  have r: "0 \<le> sint z" "?i < 128" using assms by (auto simp: char_keys_def known_key_def)
  have "length array_of_char = 128" "length shift_char = 128" by (simp_all add: key_tables)
  then have "(?i, array_of_char ! ?i, shift_char ! ?i) \<in> set (enumerate 0 (zip array_of_char shift_char))"
    using r(2) by (simp add: in_set_enumerate_eq)
  from bspec [OF table_rows this] have row:
    "if 97 \<le> array_of_char ! ?i \<and> array_of_char ! ?i \<le> 122
     then shift_char ! ?i = array_of_char ! ?i - 32 \<and> ((15 < ?i \<and> ?i < 26) \<or> (29 < ?i \<and> ?i < 39) \<or> (43 < ?i \<and> ?i < 51))
     else \<not> ((15 < ?i \<and> ?i < 26) \<or> (29 < ?i \<and> ?i < 39) \<or> (43 < ?i \<and> ?i < 51))" by simp
  have "key_char False False z = array_of_char ! ?i" by (simp add: key_char_def echo_char_def blank_kernel_def)
  then show ?thesis using row r(1)
    by (auto simp: Let_def key_char_def echo_char_def split: if_splits)
qed

theorem shift_and_caps_upper_witness: "key_char True False 30 = 65 \<and> key_char False True 2 = 49"
proof -
  have k: "30 \<in> char_keys" "2 \<in> char_keys" by (simp_all add: char_keys_def known_key_def)
  have c: "key_char False False 30 = 97" "key_char False False 2 = 49"
    by (simp_all add: key_char_def echo_char_def blank_kernel_def key_tables)
  show ?thesis using shift_and_caps_upper [OF k(1), of False True] shift_and_caps_upper [OF k(2), of True False] c
    by (simp add: Let_def)
qed

section \<open>Modifier keys\<close>

text \<open>
  A run of the keyboard handler over a sequence of scan codes that neither switches the terminal
  nor halts the program.
\<close>

definition plain_key :: "u8 \<Rightarrow> kernel \<Rightarrow> bool" where
  "plain_key z s \<longleftrightarrow> \<not> (alt_flag s \<and> z \<in> {59, 60, 61}) \<and> \<not> (ctrl_flag s \<and> z = 46)"

inductive key_run :: "kernel \<Rightarrow> u8 list \<Rightarrow> kernel \<Rightarrow> bool" where
  none: "key_run s [] s"
| key: "plain_key z s \<Longrightarrow> keyboard_handler (key_env z) s = Some (Returned 0, t) \<Longrightarrow> key_run t zs u \<Longrightarrow> key_run s (z # zs) u"

inductive_cases key_run_ConsE: "key_run s (z # zs) u"

fun held :: "u8 set \<Rightarrow> u8 set \<Rightarrow> u8 list \<Rightarrow> bool \<Rightarrow> bool" where
  "held D U [] b = b"
| "held D U (z # zs) b = held D U zs (if z \<in> D then True else if z \<in> U then False else b)"

lemma sint_u8_inj: "sint z = sint w \<longleftrightarrow> z = w" for z w :: u8
  by (auto intro: signed_word_eqI)

lemma sint_key:
  "sint z = 42 \<longleftrightarrow> z = 42" "sint z = 54 \<longleftrightarrow> z = 54" "sint z = 29 \<longleftrightarrow> z = 29" "sint z = 56 \<longleftrightarrow> z = 56" "sint z = 58 \<longleftrightarrow> z = 58"
  "sint z = 38 \<longleftrightarrow> z = 38" "sint z = 46 \<longleftrightarrow> z = 46" "sint z = 59 \<longleftrightarrow> z = 59" "sint z = 60 \<longleftrightarrow> z = 60" "sint z = 61 \<longleftrightarrow> z = 61"
  "sint z = -86 \<longleftrightarrow> z = 0xAA" "sint z = -74 \<longleftrightarrow> z = 0xB6" "sint z = -99 \<longleftrightarrow> z = 0x9D" "sint z = -72 \<longleftrightarrow> z = 0xB8" for z :: u8
  using sint_u8_inj [of z 42] sint_u8_inj [of z 54] sint_u8_inj [of z 29] sint_u8_inj [of z 56] sint_u8_inj [of z 58]
    sint_u8_inj [of z 38] sint_u8_inj [of z 46] sint_u8_inj [of z 59] sint_u8_inj [of z 60] sint_u8_inj [of z 61]
    sint_u8_inj [of z "0xAA"] sint_u8_inj [of z "0xB6"] sint_u8_inj [of z "0x9D"] sint_u8_inj [of z "0xB8"]
  by simp_all

lemma handler_steps:
  "keyboard_handler (key_env z) s =
    (let s = s\<lparr>io_log := io_log (send_eoi 1 (snd (getScancode (dev (key_env z)) s)))\<rparr>
     in if bit z 7 then Some (Returned 0, key_up (sint z) s)
        else if known_key (sint z) then key_down (key_env z) (sint z) s else Some (Returned 0, s))"
  by (simp add: keyboard_handler_def getScancode_def inb_def key_env_def Let_def send_eoi_def outb_def)

lemma output_flags:
  "shift_flag (putc c s) = shift_flag s" "ctrl_flag (putc c s) = ctrl_flag s" "alt_flag (putc c s) = alt_flag s"
  "caps_lock (putc c s) = caps_lock s"
  by (rule console_change_flags [OF console_change_putc])+

lemma handler_flags:
  assumes "plain_key z s"
  shows "\<exists>t. keyboard_handler (key_env z) s = Some (Returned 0, t) \<and>
    shift_flag t = held {42} {0xAA, 0xB6} [z] (shift_flag s) \<and> ctrl_flag t = held {29} {0x9D} [z] (ctrl_flag s) \<and>
    alt_flag t = held {56} {0xB8} [z] (alt_flag s) \<and> caps_lock t = (caps_lock s \<noteq> (z = 58))"
proof (cases "bit z 7")
  case True
  then have "sint z < 0" by (simp add: release_bit)
  then have "sint z \<noteq> 42" "sint z \<noteq> 29" "sint z \<noteq> 56" "sint z \<noteq> 58" by linarith+
  then show ?thesis unfolding handler_steps sint_key Let_def using True
    by (simp add: key_up_def sint_key Let_def)
next
  case False
  then have "\<not> sint z < 0" by (simp add: release_bit)
  then have n: "sint z \<noteq> -86" "sint z \<noteq> -74" "sint z \<noteq> -99" "sint z \<noteq> -72" by linarith+
  show ?thesis
  proof (cases "known_key (sint z)")
    case k: False
    then have "sint z \<noteq> 42" "sint z \<noteq> 29" "sint z \<noteq> 56" "sint z \<noteq> 58" by (auto simp: known_key_def)
    then show ?thesis unfolding handler_steps Let_def using False k n by (simp add: sint_key)
  next
    case k: True
    then have "sint z \<noteq> 54" by (auto simp: known_key_def)
    then show ?thesis unfolding handler_steps Let_def using False k n assms
      by (auto simp: key_down_def sint_key plain_key_def reset_screen_def clear_def output_flags)
  qed
qed

lemma held_append: "held D U (z # zs) b = held D U zs (held D U [z] b)"
  by simp

text \<open>
  C33. The modifier flags: after a run of key events other than Alt-F1 to Alt-F3 (which switch the
  terminal) and Ctrl-C (which halts the program), the control and alt flags are set exactly when the
  last event of that key was a press; the shift flag is set by a press of the left shift key and
  cleared by the release of either shift key (a press of the right one is not recognised, so
  its release clears the flag of a left shift key still held); caps lock is the parity of its presses. Without an event of a key its flag
  is as it was before the run. And every such event is handled.
\<close>

theorem modifiers_track_keys:
  assumes "key_run s zs t"
  shows "shift_flag t = held {42} {0xAA, 0xB6} zs (shift_flag s) \<and> ctrl_flag t = held {29} {0x9D} zs (ctrl_flag s) \<and>
    alt_flag t = held {56} {0xB8} zs (alt_flag s) \<and> caps_lock t = (caps_lock s \<noteq> odd (count_list zs 58)) \<and>
    (plain_key z t \<longrightarrow> (\<exists>u. key_run t [z] u))"
proof -
  have "plain_key z t \<Longrightarrow> \<exists>u. key_run t [z] u" using handler_flags by (metis key_run.intros)
  moreover have "shift_flag t = held {42} {0xAA, 0xB6} zs (shift_flag s) \<and> ctrl_flag t = held {29} {0x9D} zs (ctrl_flag s) \<and>
    alt_flag t = held {56} {0xB8} zs (alt_flag s) \<and> caps_lock t = (caps_lock s \<noteq> odd (count_list zs 58))"
    using assms
  proof (induction rule: key_run.induct)
    case (key z s t zs u)
    have "shift_flag t = held {42} {0xAA, 0xB6} [z] (shift_flag s)" "ctrl_flag t = held {29} {0x9D} [z] (ctrl_flag s)"
      "alt_flag t = held {56} {0xB8} [z] (alt_flag s)" and c: "caps_lock t = (caps_lock s \<noteq> (z = 58))"
      using handler_flags [OF key.hyps(1)] key.hyps(2) by simp_all
    moreover have "caps_lock u = (caps_lock s \<noteq> odd (count_list (z # zs) 58))" using key.IH c by auto
    ultimately show ?case using key.IH unfolding held_append [of _ _ z zs] by simp
  qed simp
  ultimately show ?thesis by blast
qed

theorem modifiers_track_keys_witness:
  "\<exists>t. key_run (blank_kernel (\<lambda>a. 0) 0) [42] t \<and> shift_flag t"
proof -
  let ?s = "blank_kernel (\<lambda>a. 0) 0"
  have p: "plain_key 42 ?s" by (simp add: plain_key_def)
  then obtain t where "keyboard_handler (key_env 42) ?s = Some (Returned 0, t)" using handler_flags by blast
  then have "key_run ?s [42] t" by (rule key_run.key [OF p _ key_run.none])
  from modifiers_track_keys [OF this] this show ?thesis by auto
qed

text \<open>
  The right shift key has no effect: its press code, 54, is not among the codes the handler
  accepts, although a later test asks for it; only its release is seen.
\<close>

theorem right_shift_ignored:
  "shift_flag (press_key 54 s) = shift_flag s \<and> shift_flag (press_key 42 s) \<and> \<not> shift_flag (press_key 0xB6 s)"
  unfolding press_key_def handler_steps Let_def by (simp add: known_key_def key_down_def key_up_def)

end
