(* ===== verification/Idt.thy ===== *)
theory Idt
  imports Keyboard
begin

text \<open>
  The interrupt descriptor table and the exception handlers: \<^verbatim>\<open>student-distrib/idt.c\<close> and the
  descriptor types and macros of \<^verbatim>\<open>student-distrib/x86_desc.h\<close>. The addresses the linker gives
  the handlers are a parameter. How the processor reads a gate is defined beside the layout of
  the packed structure.
\<close>

section \<open>Descriptors\<close>

definition KERNEL_CS :: u16 where "KERNEL_CS = 0x10"
definition NUM_VEC :: nat where "NUM_VEC = 256"

record idt_desc_t =
  offset_15_00 :: u16
  seg_selector :: u16
  reserved4 :: u8
  reserved3 :: bool
  reserved2 :: bool
  reserved1 :: bool
  size_bit :: bool
  reserved0 :: bool
  dpl :: "2 word"
  present :: bool
  offset_31_16 :: u16

definition SET_IDT_ENTRY :: "u32 \<Rightarrow> idt_desc_t \<Rightarrow> idt_desc_t" where
  "SET_IDT_ENTRY handler d = d\<lparr>offset_31_16 := ucast (drop_bit 16 (handler AND 0xFFFF0000)),
     offset_15_00 := ucast (handler AND 0xFFFF)\<rparr>"

text \<open>The eight bytes of an entry, with the bit fields of the sixth byte from bit 0 upwards.\<close>

definition access_byte :: "idt_desc_t \<Rightarrow> u8" where
  "access_byte d = of_bool (reserved3 d) OR push_bit 1 (of_bool (reserved2 d)) OR push_bit 2 (of_bool (reserved1 d)) OR
     push_bit 3 (of_bool (size_bit d)) OR push_bit 4 (of_bool (reserved0 d)) OR push_bit 5 (ucast (dpl d)) OR
     push_bit 7 (of_bool (present d))"

definition idt_bytes :: "idt_desc_t \<Rightarrow> u8 list" where
  "idt_bytes d = [ucast (offset_15_00 d), ucast (drop_bit 8 (offset_15_00 d)),
     ucast (seg_selector d), ucast (drop_bit 8 (seg_selector d)), reserved4 d, access_byte d,
     ucast (offset_31_16 d), ucast (drop_bit 8 (offset_31_16 d))]"

section \<open>Filling the table\<close>

datatype handler = divide_error_h | debug_h | NMI_h | breakpoint_h | overflow_h | BOUND_range_exceeded_h
  | invalid_opcode_h | device_not_available_h | double_fault_h | coprocessor_segment_overrun_h | invalid_TSS_h
  | segment_not_present_h | stack_fault_h | general_protection_h | page_fault_h | x87_FPU_floatingpoint_h
  | alignment_check_h | machine_check_h | SIMD_floatingpoint_h | keyboard_wrapper | pit_wrapper | rtc_wrapper
  | syscall_link_h

definition idt_fields :: "nat \<Rightarrow> idt_desc_t \<Rightarrow> idt_desc_t" where
  "idt_fields i d =
     (let d = d\<lparr>present := i < 15 \<or> (i > 15 \<and> i < 20) \<or> i = 33 \<or> i = 0x80 \<or> i = 0x28 \<or> i = 0x20\<rparr>;
          d = (if i < 45 then d\<lparr>dpl := 0, reserved3 := False\<rparr> else d\<lparr>dpl := 3, reserved3 := True\<rparr>)
      in d\<lparr>reserved0 := False, size_bit := True, reserved1 := True, reserved2 := True, reserved4 := 0,
           seg_selector := KERNEL_CS\<rparr>)"

definition idt_handlers :: "(nat \<times> handler) list" where
  "idt_handlers = [(0, divide_error_h), (1, debug_h), (2, NMI_h), (3, breakpoint_h), (4, overflow_h), (5, BOUND_range_exceeded_h),
     (6, invalid_opcode_h), (7, device_not_available_h), (8, double_fault_h), (9, coprocessor_segment_overrun_h),
     (10, invalid_TSS_h), (11, segment_not_present_h), (12, stack_fault_h), (13, general_protection_h), (14, page_fault_h),
     (16, x87_FPU_floatingpoint_h), (17, alignment_check_h), (18, machine_check_h), (19, SIMD_floatingpoint_h),
     (33, keyboard_wrapper), (0x20, pit_wrapper), (0x28, rtc_wrapper), (0x80, syscall_link_h)]"

definition idt_init :: "(handler \<Rightarrow> u32) \<Rightarrow> idt_desc_t list \<Rightarrow> idt_desc_t list" where
  "idt_init adr idt =
     (let idt = fold (\<lambda>i t. t[i := idt_fields i (t ! i)]) [0..<NUM_VEC] idt
      in fold (\<lambda>(i, h) t. t[i := SET_IDT_ENTRY (adr h) (t ! i)]) idt_handlers idt)"

section \<open>Exceptions\<close>

text \<open>Every exception handler prints a line and halts the program with status 0.\<close>

definition report :: "string \<Rightarrow> env \<Rightarrow> kernel \<Rightarrow> (outcome \<times> kernel) option" where
  "report msg e s =
     (case printf (\<lambda>p. lit []) (lit (bytes_of msg @ [10])) (\<lambda>k. 0) s of
        None \<Rightarrow> None
      | Some (n, s) \<Rightarrow> sys_halt e 0 s)"

definition divide_error where "divide_error = report ''Divide by 0 Error?''"
definition debug where "debug = report ''Debug Exception?''"
definition NMI where "NMI = report ''NMI Interrupt?''"
definition breakpoint where "breakpoint = report ''Breakpoint Exception?''"
definition overflow where "overflow = report ''Overflow Exception?''"
definition BOUND_range_exceeded where "BOUND_range_exceeded = report ''BOUND Range Exceeded Exception?''"
definition invalid_opcode where "invalid_opcode = report ''Invalid Opcode Exception?''"
definition device_not_available where "device_not_available = report ''Device Not Available Exception?''"
definition double_fault where "double_fault = report ''Double Fault Exception?''"
definition coprocessor_segment_overrun where "coprocessor_segment_overrun = report ''Coprocessor Segment Overrun?''"
definition invalid_TSS where "invalid_TSS = report ''Invalid TSS Exception?''"
definition segment_not_present where "segment_not_present = report ''Segment Not Present?''"
definition stack_fault where "stack_fault = report ''Stack Fault Exception?''"
definition general_protection where "general_protection = report ''General Protection Exception?''"
definition page_fault where "page_fault = report ''Page-Fault Exception?''"
definition x87_FPU_floatingpoint where "x87_FPU_floatingpoint = report ''Floating Point Error''"
definition alignment_check where "alignment_check = report ''Alignment Check Exception?''"
definition machine_check where "machine_check = report ''Machine Check Exception?''"
definition SIMD_floatingpoint where "SIMD_floatingpoint = report ''Floating Point Exception?''"

lemmas exception_defs = divide_error_def debug_def NMI_def breakpoint_def overflow_def BOUND_range_exceeded_def
  invalid_opcode_def device_not_available_def double_fault_def coprocessor_segment_overrun_def invalid_TSS_def
  segment_not_present_def stack_fault_def general_protection_def page_fault_def x87_FPU_floatingpoint_def
  alignment_check_def machine_check_def SIMD_floatingpoint_def

text \<open>
  Control passed to a vector: the code at the handler of its gate. The assembly wrappers save and
  restore the registers around the C handler; the system call gate takes its arguments from
  the registers \<open>(eax, ebx, ecx, edx)\<close>.
\<close>

definition run_handler :: "env \<Rightarrow> u32 \<times> u32 \<times> u32 \<times> u32 \<Rightarrow> handler \<Rightarrow> kernel \<Rightarrow> (outcome \<times> kernel) option" where
  "run_handler e regs h s =
     (case h of
        divide_error_h \<Rightarrow> divide_error e s | debug_h \<Rightarrow> debug e s | NMI_h \<Rightarrow> NMI e s | breakpoint_h \<Rightarrow> breakpoint e s
      | overflow_h \<Rightarrow> overflow e s | BOUND_range_exceeded_h \<Rightarrow> BOUND_range_exceeded e s
      | invalid_opcode_h \<Rightarrow> invalid_opcode e s | device_not_available_h \<Rightarrow> device_not_available e s
      | double_fault_h \<Rightarrow> double_fault e s | coprocessor_segment_overrun_h \<Rightarrow> coprocessor_segment_overrun e s
      | invalid_TSS_h \<Rightarrow> invalid_TSS e s | segment_not_present_h \<Rightarrow> segment_not_present e s
      | stack_fault_h \<Rightarrow> stack_fault e s | general_protection_h \<Rightarrow> general_protection e s
      | page_fault_h \<Rightarrow> page_fault e s | x87_FPU_floatingpoint_h \<Rightarrow> x87_FPU_floatingpoint e s
      | alignment_check_h \<Rightarrow> alignment_check e s | machine_check_h \<Rightarrow> machine_check e s
      | SIMD_floatingpoint_h \<Rightarrow> SIMD_floatingpoint e s
      | keyboard_wrapper \<Rightarrow> keyboard_handler e s
      | pit_wrapper \<Rightarrow> Some (Returned 0, pit_handler s)
      | rtc_wrapper \<Rightarrow> Some (Returned 0, rtc_handler (dev e) s)
      | syscall_link_h \<Rightarrow> (case regs of (a, b, c, d) \<Rightarrow> syscall_link e a b c d s))"

section \<open>What the processor finds\<close>

definition gate_offset :: "idt_desc_t \<Rightarrow> u32" where
  "gate_offset d = push_bit 16 (ucast (offset_31_16 d)) OR ucast (offset_15_00 d)"

lemma gate_offset_set: "gate_offset (SET_IDT_ENTRY h d) = h"
proof (rule bit_word_eqI)
  have m: "(0xFFFF :: u32) = mask 16" "(0xFFFF0000 :: u32) = push_bit 16 (mask 16)"
    by (simp_all add: mask_eq_exp_minus_1)
  fix n
  assume "n < LENGTH(32)"
  then show "bit (gate_offset (SET_IDT_ENTRY h d)) n = bit h n"
    unfolding gate_offset_def SET_IDT_ENTRY_def m
    by (cases "n < 16") (auto simp: bit_simps simp del: push_bit_of_0)
qed

lemma length_fold_fields: "length (fold (\<lambda>i t. t[i := f i (t ! i)]) xs t) = length t"
  by (induction xs arbitrary: t) auto

lemma fold_fields_nth:
  assumes "i < length t"
  shows "fold (\<lambda>i t. t[i := f i (t ! i)]) [0..<n] t ! i = (if i < n then f i (t ! i) else t ! i)"
proof (induction n)
  case (Suc n)
  let ?t = "fold (\<lambda>i t. t[i := f i (t ! i)]) [0..<n] t"
  have "i < length ?t" using assms by (simp add: length_fold_fields)
  then show ?case using Suc by (cases "i = n") (simp_all add: nth_list_update)
qed simp

lemma fold_entries_nth:
  assumes "distinct (map fst xs)" and "i < length t"
  shows "fold (\<lambda>(i, h) t. t[i := g h (t ! i)]) xs t ! i = (case map_of xs i of None \<Rightarrow> t ! i | Some h \<Rightarrow> g h (t ! i))"
  using assms
proof (induction xs arbitrary: t)
  case (Cons x xs)
  obtain j h where x: "x = (j, h)" by (cases x)
  have "map_of xs j = None" using Cons.prems(1) by (simp add: x map_of_eq_None_iff)
  then show ?case using Cons.IH [of "t[j := g h (t ! j)]"] Cons.prems by (auto simp: x nth_list_update split: option.splits)
qed simp

text \<open>A gate after initialisation.\<close>

lemma idt_gate:
  assumes "length idt = NUM_VEC" and "i < NUM_VEC"
  shows "let d = idt_init adr idt ! i
    in case map_of idt_handlers i of
         Some h \<Rightarrow> gate_offset d = adr h \<and> seg_selector d = KERNEL_CS \<and> access_byte d = (if i = 0x80 then 0xEF else 0x8E)
       | None \<Rightarrow> \<not> bit (access_byte d) 7"
proof -
  let ?d = "idt_fields i (idt ! i)"
  have dist: "distinct (map fst idt_handlers)" by (simp add: idt_handlers_def)
  have n: "idt_init adr idt ! i = (case map_of idt_handlers i of None \<Rightarrow> ?d | Some h \<Rightarrow> SET_IDT_ENTRY (adr h) ?d)"
    unfolding idt_init_def Let_def
    by (subst fold_entries_nth [OF dist]) (use assms in \<open>simp_all add: fold_fields_nth length_fold_fields split: option.split\<close>)
  have f: "seg_selector ?d = KERNEL_CS" "reserved0 ?d = False" "size_bit ?d" "reserved1 ?d" "reserved2 ?d"
    "dpl ?d = (if i < 45 then 0 else 3)" "reserved3 ?d = (\<not> i < 45)"
    "present ?d = (i < 15 \<or> (i > 15 \<and> i < 20) \<or> i = 33 \<or> i = 0x80 \<or> i = 0x28 \<or> i = 0x20)"
    by (simp_all add: idt_fields_def Let_def)
  have dom: "(\<exists>h. map_of idt_handlers i = Some h) \<longleftrightarrow> present ?d"
  proof -
    have "(\<exists>h. map_of idt_handlers i = Some h) \<longleftrightarrow> i \<in> set (map fst idt_handlers)"
      by (metis domIff dom_map_of_conv_image_fst list.set_map not_None_eq)
    also have "\<dots> \<longleftrightarrow> present ?d" unfolding f by (simp add: idt_handlers_def) presburger
    finally show ?thesis .
  qed
  have keep: "seg_selector (SET_IDT_ENTRY a ?d) = seg_selector ?d" "access_byte (SET_IDT_ENTRY a ?d) = access_byte ?d" for a
    by (simp_all add: SET_IDT_ENTRY_def access_byte_def)
  have acc: "access_byte ?d = (if i < 45 then 0x8E else 0xEF)" if "present ?d"
    using that f by (auto simp: access_byte_def)
  show ?thesis
  proof (cases "map_of idt_handlers i")
    case None
    then have "\<not> present ?d" using dom by simp
    then have "\<not> bit (access_byte ?d) 7" by (auto simp: access_byte_def f bit_simps split: if_splits)
    then show ?thesis using None n by simp
  next
    case (Some h)
    then have p: "present ?d" using dom by blast
    then have "i < 45 \<longleftrightarrow> i \<noteq> 0x80" using f(8) by auto
    then show ?thesis using Some n keep acc [OF p] f(1) by (simp add: gate_offset_set)
  qed
qed

section \<open>Messages\<close>

lemma printf_lit:
  assumes "0 \<notin> set bs" and "fmt_mode None bs = None" and "\<forall>j \<in> set (str_args None 0 bs). is_cstr (rd (args j)) (len j)"
  shows "printf rd (lit bs) args s = Some (length bs, fold putc (render (\<lambda>j. map (rd (args j)) [0..<len j]) args None 0 bs) s)"
proof -
  have m: "map (lit bs) [0..<length bs] = bs" by (rule nth_equalityI) (simp_all add: lit_def)
  have z: "lit bs (length bs) = 0" "\<forall>j < length bs. lit bs j \<noteq> 0"
    using assms(1) by (auto simp: lit_def) (metis nth_mem)
  show ?thesis
    unfolding printf_def
    using printf_loop_render [of "lit bs" "length bs" 0 None 0 rd args len s] assms(2,3) z m by simp
qed

lemma plain_format: "37 \<notin> set bs \<Longrightarrow> fmt_mode None bs = None \<and> str_args None k bs = [] \<and> render str args None k bs = bs"
  by (induction bs) auto

lemma printf_plain:
  assumes "0 \<notin> set bs" and "37 \<notin> set bs"
  shows "printf rd (lit bs) args s = Some (length bs, fold putc bs s)"
  using printf_lit [OF assms(1), of rd args "\<lambda>j. 0" s] plain_format [OF assms(2), of 0] by simp

lemma report_halts:
  assumes "0 \<notin> set (bytes_of msg)" and "37 \<notin> set (bytes_of msg)"
  shows "report msg e s = sys_halt e 0 (fold putc (bytes_of msg @ [10]) s)"
  using printf_plain [of "bytes_of msg @ [10]" "\<lambda>p. lit []" "\<lambda>k. 0" s] assms by (simp add: report_def)

section \<open>The service of each vector\<close>

text \<open>
  What a vector of the processor stands for, by its number: the messages of the exceptions in the order of the processor's manual (15 is
  reserved), the lines of the interrupt controllers counted from the vectors that \<^verbatim>\<open>i8259_init\<close> programs them with (line 0
  of the first is the timer, line 1 the keyboard, line 0 of the second the clock), and 0x80 for system calls.
\<close>

definition exception_texts :: "string list" where
  "exception_texts = [''Divide by 0 Error?'', ''Debug Exception?'', ''NMI Interrupt?'', ''Breakpoint Exception?'', ''Overflow Exception?'',
     ''BOUND Range Exceeded Exception?'', ''Invalid Opcode Exception?'', ''Device Not Available Exception?'', ''Double Fault Exception?'',
     ''Coprocessor Segment Overrun?'', ''Invalid TSS Exception?'', ''Segment Not Present?'', ''Stack Fault Exception?'',
     ''General Protection Exception?'', ''Page-Fault Exception?'', [], ''Floating Point Error'', ''Alignment Check Exception?'',
     ''Machine Check Exception?'', ''Floating Point Exception?'']"

definition service :: "env \<Rightarrow> u32 \<times> u32 \<times> u32 \<times> u32 \<Rightarrow> nat \<Rightarrow> (kernel \<Rightarrow> (outcome \<times> kernel) option) option" where
  "service e regs v =
     (if v < 20 then if v = 15 then None else Some (\<lambda>s. sys_halt e 0 (fold putc (bytes_of (exception_texts ! v) @ [10]) s))
      else if v = unat ICW2_MASTER then Some (\<lambda>s. Some (Returned 0, pit_handler s))
      else if v = unat ICW2_MASTER + 1 then Some (keyboard_handler e)
      else if v = unat ICW2_SLAVE then Some (\<lambda>s. Some (Returned 0, rtc_handler (dev e) s))
      else if v = 0x80 then Some (case regs of (a, b, c, d) \<Rightarrow> syscall_link e a b c d)
      else None)"

lemma service_handler: "map_option (run_handler e regs) (map_of idt_handlers v) = service e regs v"
proof (cases "v < 20")
  case True
  then have "v \<in> set [0..<20]" by simp
  moreover have "[0..<20] = [0, 1, 2, 3, 4, 5, 6, 7, 8, 9, 10, 11, 12, 13, 14, 15, 16, 17, 18, 19 :: nat]" by code_simp
  ultimately show ?thesis
    by (simp only: list.set insert_iff empty_iff, elim disjE)
      (simp_all add: idt_handlers_def service_def exception_texts_def run_handler_def exception_defs fun_eq_iff report_halts bytes_of_def)
next
  case False
  then show ?thesis
    by (cases regs) (auto simp: idt_handlers_def service_def ICW2_MASTER_def ICW2_SLAVE_def run_handler_def fun_eq_iff)
qed

text \<open>
  C25. The interrupt table: after \<^verbatim>\<open>idt_init\<close> the gate of every vector that has a service is present, holds the kernel
  code segment and the full address of a handler, and running that handler is the service of this vector: the message of the exception
  and the end of the program for 0 to 14 and 16 to 19, the drivers of the timer, the keyboard and the clock for the vectors the interrupt
  controllers were programmed with, and the system calls for 0x80. All of them are interrupt gates closed to user mode, except 0x80, which is a
  trap gate open to user mode; all other gates are not present.
\<close>

theorem idt_init_gates:
  assumes "length idt = NUM_VEC" and "i < NUM_VEC"
  shows "let d = idt_init adr idt ! i
    in case service e regs i of
         Some f \<Rightarrow> (\<exists>h. gate_offset d = adr h \<and> run_handler e regs h = f) \<and> seg_selector d = KERNEL_CS \<and>
           access_byte d = (if i = 0x80 then 0xEF else 0x8E)
       | None \<Rightarrow> \<not> bit (access_byte d) 7"
  using idt_gate [OF assms, of adr] service_handler [of e regs i] by (auto simp: Let_def split: option.splits)

theorem idt_init_gates_witness:
  "\<exists>h. gate_offset (idt_init (\<lambda>h. if h = page_fault_h then 0x40123456 else 0x40000000) (replicate NUM_VEC \<lparr>offset_15_00 = 0, seg_selector = 0, reserved4 = 0,
     reserved3 = False, reserved2 = False, reserved1 = False, size_bit = False, reserved0 = False, dpl = 0, present = False,
     offset_31_16 = 0\<rparr>) ! 14) = (if h = page_fault_h then 0x40123456 else 0x40000000) \<and>
   run_handler plain_env (0, 0, 0, 0) h = (\<lambda>s. sys_halt plain_env 0 (fold putc (bytes_of ''Page-Fault Exception?'' @ [10]) s))"
proof -
  have l: "length (replicate NUM_VEC d) = NUM_VEC" "14 < NUM_VEC" for d by (simp_all add: NUM_VEC_def)
  show ?thesis
    using idt_init_gates [where adr = "\<lambda>h. if h = page_fault_h then 0x40123456 else 0x40000000" and e = plain_env and regs = "(0, 0, 0, 0)", OF l(1) l(2)]
    by (simp add: Let_def service_def exception_texts_def)
qed

section \<open>The end of the program\<close>

definition exception_handlers :: "handler list" where
  "exception_handlers = map snd (take 19 idt_handlers)"

lemma exception_reports:
  assumes "h \<in> set exception_handlers"
  shows "\<exists>msg. run_handler e regs h s = sys_halt e 0 (fold putc (msg @ [10]) s)"
proof -
  have "\<exists>msg. run_handler e regs h s = report msg e s \<and> 0 \<notin> set (bytes_of msg) \<and> 37 \<notin> set (bytes_of msg)"
    using assms unfolding exception_handlers_def idt_handlers_def
    by (simp, elim disjE) (simp_all add: run_handler_def exception_defs, (intro exI conjI, rule refl; simp add: bytes_of_def)+)
  then show ?thesis using report_halts by metis
qed

lemma console_change_kernel:
  fixes s t :: kernel
  assumes "console_change s t"
  shows "control t = control s" "closable t = closable s" "kernel_maps t = kernel_maps s"
proof -
  show "kernel_maps t = kernel_maps s" by (rule kernel_maps_cong) (rule console_change_paging(1-5) [OF assms])+
  have "fd t = fd s" "pnum t = pnum s" "pnumarr t = pnumarr s" "curr_pcb t = curr_pcb s" "pcbs t = pcbs s" "procs t = procs s"
    "head t = head s" "indicator t = indicator s" "active t = active s"
    by (subst console_change_eq [OF assms], simp)+
  then show "control t = control s" "closable t = closable s" by (simp_all add: control_def closable_def)
qed

text \<open>
  C24. A fault in a program does not take the system down: whichever exception a program raises,
  its handler prints a message and the program that started it continues where it called
  \<^verbatim>\<open>execute\<close>, with status 0, its own page and its process slot, and the slot of the faulty
  program is free.
\<close>

theorem exception_ends_program:
  assumes "h \<in> set exception_handlers" and run: "running s" and pn: "pnum_ok s" "pnumarr s ! nat (indicator s - 1) \<noteq> 0"
    and ex: "execute e cmd s = Some (EnterUser ep, t)"
    and child: "control u = control t" "closable u" "kernel_maps u"
  shows "\<exists>v. run_handler e' regs h u = Some (ResumeParent (fst (switch_regs e)) (snd (switch_regs e)) 0, v) \<and>
    running v \<and> runs_slot (pnum s) v \<and> pnum v = pnum s \<and> pnumarr v = pnumarr s \<and> curr_pcb v = curr_pcb s"
proof -
  obtain msg where m: "run_handler e' regs h u = sys_halt e' 0 (fold putc (msg @ [10]) u)"
    using exception_reports [OF assms(1)] by blast
  let ?u = "fold putc (msg @ [10]) u"
  have "control ?u = control t" "closable ?u" "kernel_maps ?u"
    using console_change_kernel [OF console_change_fold [of u "msg @ [10]"]] child by simp_all
  from halt_resumes [OF run pn ex this, of e' 0] show ?thesis unfolding m by blast
qed

theorem exception_ends_program_witness:
  "\<exists>t v. execute plain_env (lit (bytes_of ''shell'')) elf_shell = Some (EnterUser 0x08048000, t) \<and>
    run_handler plain_env (0, 0, 0, 0) page_fault_h t = Some (ResumeParent 0x7FF100 0x7FF200 0, v) \<and> pnum v = 0"
proof -
  obtain t where t: "execute plain_env (lit (bytes_of ''shell'')) elf_shell = Some (EnterUser 0x08048000, t)"
    using elf_execute [of elf_shell plain_env] elf_shell_fields by (auto simp: plain_env_def)
  have p: "pnum elf_shell = 0" "fd elf_shell = replicate 8 null_file"
    by (simp_all add: elf_shell_def initPaging_def enablePaging_def fill_directory_def fill_table_def Let_def
        fill_table_fold fill_directory_fold blank_kernel_def del: initPaging_fields)
  then have c: "closable t" "kernel_maps t"
    using execute_closable [OF t] elf_shell_fields(5) by (simp_all add: null_file_def)
  have "page_fault_h \<in> set exception_handlers" by (simp add: exception_handlers_def idt_handlers_def)
  from exception_ends_program [OF this elf_shell_fields(10,7,11) t refl c, of plain_env "(0, 0, 0, 0)"] show ?thesis
    using t p by (auto simp: plain_env_def)
qed

end
