(* ===== verification/Boot.thy ===== *)
theory Boot
  imports Idt "HOL-Library.Monad_Syntax"
begin

text \<open>
  Start-up: \<^verbatim>\<open>entry\<close> of \<^verbatim>\<open>student-distrib/kernel.c\<close>, the structures of
  \<^verbatim>\<open>multiboot.h\<close> it reads and the segment descriptors of \<^verbatim>\<open>x86_desc.h\<close> it builds. The
  structures the boot loader passes are in memory; paging is off until \<^verbatim>\<open>initPaging\<close>, so
  addresses are physical. The addresses and sizes the linker gives the tables are in
  \<open>layout\<close>; the descriptor tables and the registers that point to them are in \<open>tables\<close>,
  beside the kernel's variables.
\<close>

section \<open>The boot loader's structures\<close>

definition MULTIBOOT_BOOTLOADER_MAGIC :: u32 where "MULTIBOOT_BOOTLOADER_MAGIC = 0x2BADB002"

definition CHECK_FLAG :: "u32 \<Rightarrow> nat \<Rightarrow> bool" where
  "CHECK_FLAG flgs k \<longleftrightarrow> flgs AND push_bit k 1 \<noteq> 0"

text \<open>The fields of \<^verbatim>\<open>multiboot_info_t\<close> at \<open>p\<close>, of \<^verbatim>\<open>module_t\<close> and of \<^verbatim>\<open>memory_map_t\<close>.\<close>

definition mb_flags :: "mem \<Rightarrow> u32 \<Rightarrow> u32" where "mb_flags m p = rd32 id m p"
definition mem_lower :: "mem \<Rightarrow> u32 \<Rightarrow> u32" where "mem_lower m p = rd32 id m (p + 4)"
definition mem_upper :: "mem \<Rightarrow> u32 \<Rightarrow> u32" where "mem_upper m p = rd32 id m (p + 8)"
definition boot_device :: "mem \<Rightarrow> u32 \<Rightarrow> u32" where "boot_device m p = rd32 id m (p + 12)"
definition cmdline :: "mem \<Rightarrow> u32 \<Rightarrow> u32" where "cmdline m p = rd32 id m (p + 16)"
definition mods_count :: "mem \<Rightarrow> u32 \<Rightarrow> u32" where "mods_count m p = rd32 id m (p + 20)"
definition mods_addr :: "mem \<Rightarrow> u32 \<Rightarrow> u32" where "mods_addr m p = rd32 id m (p + 24)"
definition elf_num :: "mem \<Rightarrow> u32 \<Rightarrow> u32" where "elf_num m p = rd32 id m (p + 28)"
definition elf_size :: "mem \<Rightarrow> u32 \<Rightarrow> u32" where "elf_size m p = rd32 id m (p + 32)"
definition elf_addr :: "mem \<Rightarrow> u32 \<Rightarrow> u32" where "elf_addr m p = rd32 id m (p + 36)"
definition elf_shndx :: "mem \<Rightarrow> u32 \<Rightarrow> u32" where "elf_shndx m p = rd32 id m (p + 40)"
definition mmap_length :: "mem \<Rightarrow> u32 \<Rightarrow> u32" where "mmap_length m p = rd32 id m (p + 44)"
definition mmap_addr :: "mem \<Rightarrow> u32 \<Rightarrow> u32" where "mmap_addr m p = rd32 id m (p + 48)"

definition mod_start :: "mem \<Rightarrow> u32 \<Rightarrow> u32" where "mod_start m p = rd32 id m p"
definition mod_end :: "mem \<Rightarrow> u32 \<Rightarrow> u32" where "mod_end m p = rd32 id m (p + 4)"

definition mmap_size :: "mem \<Rightarrow> u32 \<Rightarrow> u32" where "mmap_size m p = rd32 id m p"
definition base_addr_low :: "mem \<Rightarrow> u32 \<Rightarrow> u32" where "base_addr_low m p = rd32 id m (p + 4)"
definition base_addr_high :: "mem \<Rightarrow> u32 \<Rightarrow> u32" where "base_addr_high m p = rd32 id m (p + 8)"
definition length_low :: "mem \<Rightarrow> u32 \<Rightarrow> u32" where "length_low m p = rd32 id m (p + 12)"
definition length_high :: "mem \<Rightarrow> u32 \<Rightarrow> u32" where "length_high m p = rd32 id m (p + 16)"
definition mmap_type :: "mem \<Rightarrow> u32 \<Rightarrow> u32" where "mmap_type m p = rd32 id m (p + 20)"

section \<open>Reporting what the boot loader found\<close>

text \<open>A call of \<^verbatim>\<open>printf\<close> whose value is dropped; pointers are read in memory as it is.\<close>

definition kprintf :: "u8 list \<Rightarrow> u32 list \<Rightarrow> kernel \<Rightarrow> kernel option" where
  "kprintf f as s =
     map_option snd (printf (buf_at id (phys s)) (lit f) (\<lambda>k. if k < length as then as ! k else 0) s)"

definition show_memory :: "u32 \<Rightarrow> kernel \<Rightarrow> kernel option" where
  "show_memory p s =
     (if CHECK_FLAG (mb_flags (phys s) p) 0
      then kprintf (bytes_of ''mem_lower = %uKB, mem_upper = %uKB'' @ [10]) [mem_lower (phys s) p, mem_upper (phys s) p] s
      else Some s)"

definition show_device :: "u32 \<Rightarrow> kernel \<Rightarrow> kernel option" where
  "show_device p s =
     (if CHECK_FLAG (mb_flags (phys s) p) 1
      then kprintf (bytes_of ''boot_device = 0x%#x'' @ [10]) [boot_device (phys s) p] s else Some s)"

definition show_cmdline :: "u32 \<Rightarrow> kernel \<Rightarrow> kernel option" where
  "show_cmdline p s =
     (if CHECK_FLAG (mb_flags (phys s) p) 2
      then kprintf (bytes_of ''cmdline = %s'' @ [10]) [cmdline (phys s) p] s else Some s)"

text \<open>The first bytes of a module: a plain \<^verbatim>\<open>char\<close> is signed, so a byte above 127 is printed with its sign extended.\<close>

fun first_bytes :: "u32 \<Rightarrow> nat \<Rightarrow> nat \<Rightarrow> kernel \<Rightarrow> kernel option" where
  "first_bytes md i 0 s = Some s"
| "first_bytes md i (Suc k) s =
     kprintf (bytes_of ''0x%x '') [scast (phys s (mod_start (phys s) md + of_nat i))] s \<bind> first_bytes md (Suc i) k"

definition show_module :: "u32 \<Rightarrow> u32 \<Rightarrow> kernel \<Rightarrow> kernel option" where
  "show_module md n s = do {
     s \<leftarrow> kprintf (bytes_of ''Module %d loaded at address: 0x%#x'' @ [10]) [n, mod_start (phys s) md] s;
     s \<leftarrow> kprintf (bytes_of ''Module %d ends at address: 0x%#x'' @ [10]) [n, mod_end (phys s) md] s;
     s \<leftarrow> kprintf (bytes_of ''First few bytes of module:'' @ [10]) [] s;
     s \<leftarrow> first_bytes md 0 16 s;
     kprintf [10] [] s }"

partial_function (option) mod_loop :: "u32 \<Rightarrow> u32 \<Rightarrow> u32 \<Rightarrow> kernel \<Rightarrow> kernel option" where
  "mod_loop p md n s =
     (if n < mods_count (phys s) p
      then Option.bind (show_module md n s)
        (\<lambda>s. mod_loop p (md + 16) (n + 1) (s\<lparr>FSYSTEM := mod_start (phys s) md\<rparr>))
      else Some s)"

definition load_modules :: "u32 \<Rightarrow> kernel \<Rightarrow> kernel option" where
  "load_modules p s =
     (if CHECK_FLAG (mb_flags (phys s) p) 3 then mod_loop p (mods_addr (phys s) p) 0 s else Some s)"

definition show_elf :: "u32 \<Rightarrow> kernel \<Rightarrow> kernel option" where
  "show_elf p s =
     (if CHECK_FLAG (mb_flags (phys s) p) 5
      then kprintf (bytes_of ''elf_sec: num = %u, size = 0x%#x, addr = 0x%#x, shndx = 0x%#x'' @ [10])
        [elf_num (phys s) p, elf_size (phys s) p, elf_addr (phys s) p, elf_shndx (phys s) p] s
      else Some s)"

definition mmap_format :: "u8 list" where
  "mmap_format = bytes_of '' size = 0x%x,     base_addr = 0x%#x%#x'' @ [10] @
     bytes_of ''     type = 0x%x,  length    = 0x%#x%#x'' @ [10]"

partial_function (option) mmap_loop :: "u32 \<Rightarrow> u32 \<Rightarrow> kernel \<Rightarrow> kernel option" where
  "mmap_loop p mp s =
     (if mp < mmap_addr (phys s) p + mmap_length (phys s) p
      then Option.bind (kprintf mmap_format [mmap_size (phys s) mp, base_addr_high (phys s) mp, base_addr_low (phys s) mp,
          mmap_type (phys s) mp, length_high (phys s) mp, length_low (phys s) mp] s)
        (\<lambda>s. mmap_loop p (mp + mmap_size (phys s) mp + 4) s)
      else Some s)"

definition show_mmap :: "u32 \<Rightarrow> kernel \<Rightarrow> kernel option" where
  "show_mmap p s =
     (if CHECK_FLAG (mb_flags (phys s) p) 6 then do {
        s \<leftarrow> kprintf (bytes_of ''mmap_addr = 0x%#x, mmap_length = 0x%x'' @ [10]) [mmap_addr (phys s) p, mmap_length (phys s) p] s;
        mmap_loop p (mmap_addr (phys s) p) s }
      else Some s)"

section \<open>Segment descriptors\<close>

record seg_desc_t =
  seg_lim_15_00 :: u16
  base_15_00 :: u16
  base_23_16 :: u8
  seg_type :: "4 word"
  seg_sys :: bool
  seg_dpl :: "2 word"
  seg_present :: bool
  seg_lim_19_16 :: "4 word"
  avail :: bool
  seg_reserved :: bool
  opsize :: bool
  granularity :: bool
  base_31_24 :: u8

definition SET_LDT_PARAMS :: "seg_desc_t \<Rightarrow> u32 \<Rightarrow> u32 \<Rightarrow> seg_desc_t" where
  "SET_LDT_PARAMS d addr lim = d\<lparr>base_31_24 := ucast (drop_bit 24 (addr AND 0xFF000000)),
     base_23_16 := ucast (drop_bit 16 (addr AND 0x00FF0000)), base_15_00 := ucast (addr AND 0x0000FFFF),
     seg_lim_19_16 := ucast (drop_bit 16 (lim AND 0x000F0000)), seg_lim_15_00 := ucast (lim AND 0x0000FFFF)\<rparr>"

definition SET_TSS_PARAMS :: "seg_desc_t \<Rightarrow> u32 \<Rightarrow> u32 \<Rightarrow> seg_desc_t" where
  "SET_TSS_PARAMS d addr lim = d\<lparr>base_31_24 := ucast (drop_bit 24 (addr AND 0xFF000000)),
     base_23_16 := ucast (drop_bit 16 (addr AND 0x00FF0000)), base_15_00 := ucast (addr AND 0x0000FFFF),
     seg_lim_19_16 := ucast (drop_bit 16 (lim AND 0x000F0000)), seg_lim_15_00 := ucast (lim AND 0x0000FFFF)\<rparr>"

definition KERNEL_DS :: u16 where "KERNEL_DS = 0x18"
definition KERNEL_TSS :: u16 where "KERNEL_TSS = 0x30"
definition KERNEL_LDT :: u16 where "KERNEL_LDT = 0x38"
definition TSS_SIZE :: u32 where "TSS_SIZE = 104"

record layout =
  ldt_adr :: u32
  ldt_size :: u32
  tss_adr :: u32
  tss_size :: u32
  handler_adr :: "handler \<Rightarrow> u32"

record tables =
  ldt_desc_ptr :: seg_desc_t
  tss_desc_ptr :: seg_desc_t
  ldtr :: u16
  task_reg :: u16
  ldt_segment_selector :: u16
  ss0 :: u16
  idt :: "idt_desc_t list"
  idt_loaded :: bool

text \<open>The two blocks that fill a local descriptor; every field of it is set.\<close>

definition the_ldt_desc :: "layout \<Rightarrow> seg_desc_t" where
  "the_ldt_desc l = SET_LDT_PARAMS \<lparr>seg_lim_15_00 = 0, base_15_00 = 0, base_23_16 = 0, seg_type = 0x2, seg_sys = False,
     seg_dpl = 0, seg_present = True, seg_lim_19_16 = 0, avail = False, seg_reserved = False, opsize = True,
     granularity = False, base_31_24 = 0\<rparr> (ldt_adr l) (ldt_size l)"

definition the_tss_desc :: "layout \<Rightarrow> seg_desc_t" where
  "the_tss_desc l = SET_TSS_PARAMS \<lparr>seg_lim_15_00 = ucast (TSS_SIZE AND 0x0000FFFF), base_15_00 = 0, base_23_16 = 0, seg_type = 0x9,
     seg_sys = False, seg_dpl = 0, seg_present = True, seg_lim_19_16 = ucast (TSS_SIZE AND 0x000F0000), avail = False,
     seg_reserved = False, opsize = False, granularity = False, base_31_24 = 0\<rparr> (tss_adr l) (tss_size l)"

definition set_segments :: "layout \<Rightarrow> tables \<Rightarrow> kernel \<Rightarrow> tables \<times> kernel" where
  "set_segments l g s =
     (let g = g\<lparr>ldt_desc_ptr := the_ldt_desc l, ldtr := KERNEL_LDT\<rparr>;
          g = g\<lparr>tss_desc_ptr := the_tss_desc l, ldt_segment_selector := KERNEL_LDT, ss0 := KERNEL_DS\<rparr>;
          s = s\<lparr>tss_esp0 := 0x800000\<rparr>
      in (g\<lparr>task_reg := KERNEL_TSS\<rparr>, s))"

section \<open>entry\<close>

definition init_devices :: "device \<Rightarrow> kernel \<Rightarrow> kernel option" where
  "init_devices d s =
     (let s = i8259_init d s;
          s = keyboard_init d s;
          s = update_cursor 0 0 s;
          s = rtc_init d s;
          s = pit_init d s
      in map_option sti (pit_write 40 s))"

text \<open>
  How \<^verbatim>\<open>entry\<close> ends: it returns to \<^verbatim>\<open>boot.S\<close> with a message, or the last call, \<^verbatim>\<open>init_screen_memory\<close>, ends (if it
  returns, the kernel idles in a loop of \<^verbatim>\<open>hlt\<close>).
\<close>

datatype boot_end = Refused | Started outcome

definition start_kernel :: "layout \<Rightarrow> env \<Rightarrow> tables \<Rightarrow> kernel \<Rightarrow> (boot_end \<times> tables \<times> kernel) option" where
  "start_kernel l e g s =
     (let (g, s) = set_segments l g s;
          s = reset_screen s;
          g = g\<lparr>idt := idt_init (handler_adr l) (idt g), idt_loaded := True\<rparr>;
          s = initPaging s
      in do {
        s \<leftarrow> init_devices (dev e) s;
        (r, s) \<leftarrow> init_screen_memory e s;
        Some (Started r, g, s) })"

definition entry :: "layout \<Rightarrow> env \<Rightarrow> u32 \<Rightarrow> u32 \<Rightarrow> tables \<Rightarrow> kernel \<Rightarrow> (boot_end \<times> tables \<times> kernel) option" where
  "entry l e magic addr g s =
     (let s = clear s
      in if magic \<noteq> MULTIBOOT_BOOTLOADER_MAGIC
         then do { s \<leftarrow> kprintf (bytes_of ''Invalid magic number: 0x%#x'' @ [10]) [magic] s; Some (Refused, g, s) }
         else do {
           s \<leftarrow> kprintf (bytes_of ''flags = 0x%#x'' @ [10]) [mb_flags (phys s) addr] s;
           s \<leftarrow> show_memory addr s;
           s \<leftarrow> show_device addr s;
           s \<leftarrow> show_cmdline addr s;
           s \<leftarrow> load_modules addr s;
           if CHECK_FLAG (mb_flags (phys s) addr) 4 \<and> CHECK_FLAG (mb_flags (phys s) addr) 5
           then do { s \<leftarrow> kprintf (bytes_of ''Both bits 4 and 5 are set.'' @ [10]) [] s; Some (Refused, g, s) }
           else do {
             s \<leftarrow> show_elf addr s;
             s \<leftarrow> show_mmap addr s;
             start_kernel l e g s }})"

section \<open>Descriptors the processor reads\<close>

definition seg_base :: "seg_desc_t \<Rightarrow> u32" where
  "seg_base d = push_bit 24 (ucast (base_31_24 d)) OR push_bit 16 (ucast (base_23_16 d)) OR ucast (base_15_00 d)"

definition seg_limit :: "seg_desc_t \<Rightarrow> u32" where
  "seg_limit d = push_bit 16 (ucast (seg_lim_19_16 d)) OR ucast (seg_lim_15_00 d)"

lemma seg_masks:
  "(0xFFFF :: u32) = mask 16" "(0xFF0000 :: u32) = push_bit 16 (mask 8)" "(0xFF000000 :: u32) = push_bit 24 (mask 8)"
  "(0xF0000 :: u32) = push_bit 16 (mask 4)" "(0xFFFFF :: u32) = mask 20"
  by (simp_all add: mask_eq_exp_minus_1)

lemma seg_base_set: "seg_base (SET_LDT_PARAMS d a l) = a" "seg_base (SET_TSS_PARAMS d a l) = a"
proof -
  show "seg_base (SET_LDT_PARAMS d a l) = a"
  proof (rule bit_word_eqI)
    fix n
    assume "n < LENGTH(32)"
    then show "bit (seg_base (SET_LDT_PARAMS d a l)) n = bit a n"
      unfolding seg_base_def SET_LDT_PARAMS_def seg_masks
      by (cases "n < 16"; cases "n < 24") (auto simp: bit_simps simp del: push_bit_of_0)
  qed
  then show "seg_base (SET_TSS_PARAMS d a l) = a" by (simp add: SET_LDT_PARAMS_def SET_TSS_PARAMS_def)
qed

lemma seg_limit_set: "seg_limit (SET_LDT_PARAMS d a l) = l AND 0xFFFFF" "seg_limit (SET_TSS_PARAMS d a l) = l AND 0xFFFFF"
proof -
  show "seg_limit (SET_LDT_PARAMS d a l) = l AND 0xFFFFF"
  proof (rule bit_word_eqI)
    fix n
    assume "n < LENGTH(32)"
    then show "bit (seg_limit (SET_LDT_PARAMS d a l)) n = bit (l AND 0xFFFFF) n"
      unfolding seg_limit_def SET_LDT_PARAMS_def seg_masks
      by (cases "n < 16"; cases "n < 20") (auto simp: bit_simps simp del: push_bit_of_0)
  qed
  then show "seg_limit (SET_TSS_PARAMS d a l) = l AND 0xFFFFF" by (simp add: SET_LDT_PARAMS_def SET_TSS_PARAMS_def)
qed

section \<open>Printing at boot\<close>

text \<open>No read is waiting, so nothing that is printed reaches the line buffer.\<close>

definition boot_screen :: "'a console_scheme \<Rightarrow> bool" where
  "boot_screen s \<longleftrightarrow> console_ok s \<and> tflag s = 0 \<and> tbuf s = 0"

definition prints :: "'a console_scheme \<Rightarrow> 'a console_scheme \<Rightarrow> bool" where
  "prints s t \<longleftrightarrow> video_only s t \<and> console_change s t"

lemma boot_screen_putc: "boot_screen s \<Longrightarrow> boot_screen (putc c s) \<and> prints s (putc c s)"
proof (cases "c = 8")
  case True
  assume "boot_screen s"
  with True show ?thesis
    by (simp add: boot_screen_def putc_def prints_def video_only_def console_change_refl)
next
  case False
  assume b: "boot_screen s"
  then have "tflag (putc c s) = 0" "tbuf (putc c s) = 0"
    using False by (simp_all add: boot_screen_def putc_def putc_newline_def Let_def putc_print_line)
  then show ?thesis
    using b False console_ok_putc [of s c] putc_video_only [of s c] console_change_putc [of s c]
    by (simp add: boot_screen_def prints_def)
qed

interpretation bootsink: char_sink putc boot_screen "\<lambda>c. True" prints
  by unfold_locales
    (use boot_screen_putc in \<open>auto simp: prints_def video_only_def console_change_refl intro: console_change_trans\<close>)

lemma prints_trans: "prints s t \<Longrightarrow> prints t u \<Longrightarrow> prints s u"
  by (rule bootsink.eff_trans)

lemma kprintf_prints:
  assumes "boot_screen s" and "0 \<notin> set f" and "fmt_mode None f = None"
    and "\<forall>j \<in> set (str_args None 0 f). j < length as \<and> (\<exists>n. is_cstr (buf_at id (phys s) (as ! j)) n)"
  shows "\<exists>t. kprintf f as s = Some t \<and> boot_screen t \<and> prints s t"
proof -
  let ?args = "\<lambda>k. if k < length as then as ! k else 0"
  obtain len where "\<forall>j \<in> set (str_args None 0 f). is_cstr (buf_at id (phys s) (?args j)) (len j)"
    using assms(4) by (metis (mono_tags, lifting))
  from printf_lit [OF assms(2,3) this, of s] show ?thesis
    using bootsink.put_all [OF assms(1)] unfolding kprintf_def by (auto simp del: id_apply)
qed

definition plain_format :: "u8 list \<Rightarrow> bool" where
  "plain_format f \<longleftrightarrow> 0 \<notin> set f \<and> fmt_mode None f = None \<and> str_args None 0 f = []"

lemma kprintf_plain:
  assumes "boot_screen s" and "plain_format f"
  shows "\<exists>t. kprintf f as s = Some t \<and> boot_screen t \<and> prints s t"
  by (rule kprintf_prints) (use assms in \<open>simp_all add: plain_format_def\<close>)

lemma plain_formats:
  "plain_format (bytes_of ''Module %d loaded at address: 0x%#x'' @ [10])"
  "plain_format (bytes_of ''Module %d ends at address: 0x%#x'' @ [10])"
  "plain_format (bytes_of ''First few bytes of module:'' @ [10])"
  "plain_format (bytes_of ''0x%x '')" "plain_format [10]"
  "plain_format (bytes_of ''Invalid magic number: 0x%#x'' @ [10])"
  "plain_format (bytes_of ''flags = 0x%#x'' @ [10])"
  "plain_format (bytes_of ''mem_lower = %uKB, mem_upper = %uKB'' @ [10])"
  "plain_format (bytes_of ''boot_device = 0x%#x'' @ [10])"
  "plain_format (bytes_of ''Both bits 4 and 5 are set.'' @ [10])"
  "plain_format (bytes_of ''elf_sec: num = %u, size = 0x%#x, addr = 0x%#x, shndx = 0x%#x'' @ [10])"
  "plain_format (bytes_of ''mmap_addr = 0x%#x, mmap_length = 0x%x'' @ [10])"
  "plain_format mmap_format"
  by (simp_all add: plain_format_def mmap_format_def bytes_of_def)

text \<open>Memory apart from the screen, which printing leaves alone.\<close>

definition apart :: "u32 \<Rightarrow> nat \<Rightarrow> bool" where
  "apart p n \<longleftrightarrow> region p n \<inter> region VIDEO 4002 = {}"

lemma prints_rd32:
  assumes "prints s t" and "apart p n" and "q = p + of_nat k" and "k + 4 \<le> n"
  shows "rd32 id (phys t) q = rd32 id (phys s) q"
proof (rule rd32_cong)
  fix l :: nat
  assume "l < 4"
  then have "q + of_nat l \<in> region p n" using assms(3,4) region_memI [of "k + l" n p] by (simp add: algebra_simps)
  then show "phys t (id (q + of_nat l)) = phys s (id (q + of_nat l))"
    using assms(1,2) by (auto simp: prints_def video_only_def apart_def)
qed

lemmas mb_fields = mb_flags_def mem_lower_def mem_upper_def boot_device_def cmdline_def mods_count_def mods_addr_def
  elf_num_def elf_size_def elf_addr_def elf_shndx_def mmap_length_def mmap_addr_def

lemma prints_mb:
  assumes "prints s t" and "apart p 52"
  shows "mb_flags (phys t) p = mb_flags (phys s) p" "cmdline (phys t) p = cmdline (phys s) p"
    "mods_count (phys t) p = mods_count (phys s) p" "mods_addr (phys t) p = mods_addr (phys s) p"
    "mmap_length (phys t) p = mmap_length (phys s) p" "mmap_addr (phys t) p = mmap_addr (phys s) p"
  unfolding mb_fields
  using prints_rd32 [OF assms, of _ 0] prints_rd32 [OF assms, of _ 16] prints_rd32 [OF assms, of _ 20]
    prints_rd32 [OF assms, of _ 24] prints_rd32 [OF assms, of _ 44] prints_rd32 [OF assms, of _ 48]
  by simp_all

lemma CHECK_FLAG_bit: "k < 32 \<Longrightarrow> CHECK_FLAG f k \<longleftrightarrow> bit f k"
  by (simp add: CHECK_FLAG_def bit_iff_and_push_bit_not_eq_0)

section \<open>The modules\<close>

lemma first_bytes_prints: "boot_screen s \<Longrightarrow> \<exists>t. first_bytes md i k s = Some t \<and> boot_screen t \<and> prints s t"
proof (induction k arbitrary: i s)
  case 0
  then show ?case by (simp add: bootsink.eff_refl)
next
  case (Suc k)
  obtain u where u: "kprintf (bytes_of ''0x%x '') [scast (phys s (mod_start (phys s) md + of_nat i))] s = Some u"
    "boot_screen u" "prints s u"
    using kprintf_plain [OF Suc.prems plain_formats(4)] by blast
  with Suc.IH [OF u(2), of "Suc i"] show ?case by (auto intro: prints_trans)
qed

lemma show_module_prints:
  assumes "boot_screen s"
  shows "\<exists>t. show_module md n s = Some t \<and> boot_screen t \<and> prints s t"
proof -
  obtain a where a: "kprintf (bytes_of ''Module %d loaded at address: 0x%#x'' @ [10]) [n, mod_start (phys s) md] s = Some a"
    "boot_screen a" "prints s a"
    using kprintf_plain [OF assms plain_formats(1)] by blast
  obtain b where b: "kprintf (bytes_of ''Module %d ends at address: 0x%#x'' @ [10]) [n, mod_end (phys a) md] a = Some b"
    "boot_screen b" "prints a b"
    using kprintf_plain [OF a(2) plain_formats(2)] by blast
  obtain c where c: "kprintf (bytes_of ''First few bytes of module:'' @ [10]) [] b = Some c" "boot_screen c" "prints b c"
    using kprintf_plain [OF b(2) plain_formats(3)] by blast
  obtain d where d: "first_bytes md 0 16 c = Some d" "boot_screen d" "prints c d"
    using first_bytes_prints [OF c(2)] by blast
  obtain f where f: "kprintf [10] [] d = Some f" "boot_screen f" "prints d f"
    using kprintf_plain [OF d(2) plain_formats(5)] by blast
  have "prints s f" using a(3) b(3) c(3) d(3) f(3) by (blast intro: prints_trans)
  then show ?thesis using a(1) b(1) c(1) d(1) f(1,2) by (simp add: show_module_def)
qed

text \<open>Changing a variable of the file system commutes with printing.\<close>

lemma prints_FSYSTEM: "prints s u \<Longrightarrow> prints (s\<lparr>FSYSTEM := v\<rparr>) (u\<lparr>FSYSTEM := v\<rparr>)"
  by (cases s; cases u) (simp add: prints_def video_only_def console_change_def)

lemma boot_screen_FSYSTEM [simp]: "boot_screen (s\<lparr>FSYSTEM := v\<rparr>) = boot_screen s"
  by (simp add: boot_screen_def console_ok_def cursor_def)

lemma apart_sub: "apart p n \<Longrightarrow> k + n' \<le> n \<Longrightarrow> apart (p + of_nat k) n'"
proof -
  assume a: "apart p n" and n: "k + n' \<le> n"
  have "region (p + of_nat k) n' \<subseteq> region p n"
  proof
    fix a
    assume "a \<in> region (p + of_nat k) n'"
    then obtain i where "i < n'" "a = p + of_nat (k + i)" by (auto simp: region_def algebra_simps)
    then show "a \<in> region p n" using n region_memI [of "k + i" n p] by simp
  qed
  with a show ?thesis by (auto simp: apart_def)
qed

text \<open>The loop over the modules ends, and the file system is the last module.\<close>

lemma mod_loop_last:
  assumes "boot_screen s" and "apart p 52" and "apart md (16 * k)" and "unat n + k = unat (mods_count (phys s) p)"
  shows "\<exists>t. mod_loop p md n s = Some t \<and> boot_screen t \<and>
    prints (s\<lparr>FSYSTEM := if k = 0 then FSYSTEM s else mod_start (phys s) (md + of_nat (16 * (k - 1)))\<rparr>) t"
  using assms
proof (induction k arbitrary: md n s)
  case 0
  then show ?case by (subst mod_loop.simps) (simp add: word_less_nat_alt bootsink.eff_refl)
next
  case (Suc k)
  have lt: "n < mods_count (phys s) p" using Suc.prems(4) by (simp add: word_less_nat_alt)
  obtain u where u: "show_module md n s = Some u" "boot_screen u" "prints s u"
    using show_module_prints [OF Suc.prems(1)] by blast
  have st: "mod_start (phys u) (md + of_nat (16 * j)) = mod_start (phys s) (md + of_nat (16 * j))" if "j \<le> k" for j
    unfolding mod_start_def by (rule prints_rd32 [OF u(3) Suc.prems(3) refl]) (use that in simp)
  let ?u = "u\<lparr>FSYSTEM := mod_start (phys u) md\<rparr>"
  have "unat n + 1 < 2 ^ 32" using lt unsigned_less [of "mods_count (phys s) p", where ?'a = nat] by (simp add: word_less_nat_alt)
  then have "unat (n + 1) + k = unat (mods_count (phys ?u) p)"
    using Suc.prems(4) prints_mb(3) [OF u(3) Suc.prems(2)] by (simp add: unat_word_ariths)
  moreover have "apart (md + 16) (16 * k)" using apart_sub [OF Suc.prems(3), of 16 "16 * k"] by simp
  ultimately obtain t where t: "mod_loop p (md + 16) (n + 1) ?u = Some t" "boot_screen t"
    "prints (?u\<lparr>FSYSTEM := if k = 0 then FSYSTEM ?u else mod_start (phys ?u) (md + 16 + of_nat (16 * (k - 1)))\<rparr>) t"
    using Suc.IH [of ?u "md + 16" "n + 1"] Suc.prems(2) u(2) by auto
  have eq: "(if k = 0 then FSYSTEM ?u else mod_start (phys ?u) (md + 16 + of_nat (16 * (k - 1)))) =
      mod_start (phys s) (md + of_nat (16 * k))"
    using st [of 0] st [of k] by (cases k) (simp_all add: algebra_simps)
  have "prints (s\<lparr>FSYSTEM := mod_start (phys s) (md + of_nat (16 * k))\<rparr>) t"
    using prints_trans [OF prints_FSYSTEM [OF u(3)]] t(3) unfolding eq by simp
  moreover have "mod_loop p md n s = Some t" using lt u(1) t(1) by (subst mod_loop.simps) simp
  ultimately show ?case using t(2) by simp
qed

section \<open>The memory map\<close>

text \<open>A map whose entries lead, one after the other, to its end.\<close>

inductive mmap_chain :: "mem \<Rightarrow> u32 \<Rightarrow> u32 \<Rightarrow> bool" for m fin where
  chain_end: "\<not> mp < fin \<Longrightarrow> mmap_chain m fin mp"
| chain_entry: "mp < fin \<Longrightarrow> apart mp 24 \<Longrightarrow> mmap_chain m fin (mp + mmap_size m mp + 4) \<Longrightarrow> mmap_chain m fin mp"

lemma prints_phys: "\<forall>a. a \<notin> region VIDEO 4002 \<longrightarrow> phys s a = m a \<Longrightarrow> prints (s\<lparr>phys := m\<rparr>) s" for s :: kernel
  by (cases s) (simp add: prints_def video_only_def console_change_def)

lemma mmap_loop_ends:
  assumes "mmap_chain m fin mp" and "apart p 52" and "fin = mmap_addr m p + mmap_length m p"
    and "boot_screen s" and "\<forall>a. a \<notin> region VIDEO 4002 \<longrightarrow> phys s a = m a"
  shows "\<exists>t. mmap_loop p mp s = Some t \<and> boot_screen t \<and> prints s t"
  using assms
proof (induction arbitrary: s rule: mmap_chain.induct)
  case (chain_end mp)
  from prints_mb [OF prints_phys [OF chain_end.prems(4)] chain_end.prems(1)] have "\<not> mp < mmap_addr (phys s) p + mmap_length (phys s) p"
    using chain_end.hyps chain_end.prems(2) by simp
  then show ?case using chain_end.prems(3) by (subst mmap_loop.simps) (simp add: bootsink.eff_refl)
next
  case (chain_entry mp)
  from prints_mb [OF prints_phys [OF chain_entry.prems(4)] chain_entry.prems(1)] have lt: "mp < mmap_addr (phys s) p + mmap_length (phys s) p"
    using chain_entry.hyps chain_entry.prems(2) by simp
  obtain u where u: "kprintf mmap_format [mmap_size (phys s) mp, base_addr_high (phys s) mp, base_addr_low (phys s) mp,
      mmap_type (phys s) mp, length_high (phys s) mp, length_low (phys s) mp] s = Some u" "boot_screen u" "prints s u"
    using kprintf_plain [OF chain_entry.prems(3) plain_formats(13)] by blast
  have same: "\<forall>a. a \<notin> region VIDEO 4002 \<longrightarrow> phys u a = m a"
    using u(3) chain_entry.prems(4) by (simp add: prints_def video_only_def)
  from prints_rd32 [OF prints_phys [OF same] chain_entry.hyps(2), of mp 0] have "mmap_size (phys u) mp = mmap_size m mp"
    by (simp add: mmap_size_def)
  with chain_entry.IH [OF chain_entry.prems(1,2) u(2) same] obtain t where
    t: "mmap_loop p (mp + mmap_size (phys u) mp + 4) u = Some t" "boot_screen t" "prints u t" by auto
  then have "mmap_loop p mp s = Some t" using lt u(1) by (subst mmap_loop.simps) simp
  then show ?case using t(2) prints_trans [OF u(3) t(3)] by blast
qed

text \<open>The map by its contents: the entries, their places in memory and the lines that are printed for them.\<close>

record mmap_entry =
  ent_size :: u32
  ent_base :: "64 word"
  ent_len :: "64 word"
  ent_type :: u32

primrec mmap_at :: "mem \<Rightarrow> u32 \<Rightarrow> mmap_entry list \<Rightarrow> bool" where
  "mmap_at m a [] = True"
| "mmap_at m a (x # xs) \<longleftrightarrow> 20 \<le> ent_size x \<and> rd32 id m a = ent_size x \<and>
     rd32 id m (a + 4) = ucast (ent_base x) \<and> rd32 id m (a + 8) = ucast (drop_bit 32 (ent_base x)) \<and>
     rd32 id m (a + 12) = ucast (ent_len x) \<and> rd32 id m (a + 16) = ucast (drop_bit 32 (ent_len x)) \<and>
     rd32 id m (a + 20) = ent_type x \<and> mmap_at m (a + of_nat (unat (ent_size x) + 4)) xs"

definition mmap_bytes :: "mmap_entry list \<Rightarrow> nat" where
  "mmap_bytes xs = sum_list (map (\<lambda>x. unat (ent_size x) + 4) xs)"

definition hex64 :: "64 word \<Rightarrow> u8 list" where
  "hex64 w = hex_text True (ucast (drop_bit 32 w)) @ hex_text True (ucast w)"

definition mmap_text :: "mmap_entry \<Rightarrow> u8 list" where
  "mmap_text x = bytes_of '' size = 0x'' @ hex_text False (ent_size x) @ bytes_of '',     base_addr = 0x'' @ hex64 (ent_base x) @ [10] @
     bytes_of ''     type = 0x'' @ hex_text False (ent_type x) @ bytes_of '',  length    = 0x'' @ hex64 (ent_len x) @ [10]"

lemma kprintf_text:
  assumes "plain_format f"
  shows "kprintf f as s = Some (fold putc (render (\<lambda>j. []) (\<lambda>k. if k < length as then as ! k else 0) None 0 f) s)"
  using assms printf_lit [of f "\<lambda>p. buf_at id (phys s) p" "\<lambda>k. if k < length as then as ! k else 0" "\<lambda>j. 0" s]
  by (simp add: plain_format_def kprintf_def)

lemma mmap_entry_text:
  "render (\<lambda>j. []) (\<lambda>k. if k < length [a, b, c, d, e, f] then [a, b, c, d, e, f] ! k else 0) None 0 mmap_format =
     bytes_of '' size = 0x'' @ hex_text False a @ bytes_of '',     base_addr = 0x'' @ hex_text True b @ hex_text True c @ [10] @
     bytes_of ''     type = 0x'' @ hex_text False d @ bytes_of '',  length    = 0x'' @ hex_text True e @ hex_text True f @ [10]"
  by (simp add: mmap_format_def bytes_of_def)

lemma mmap_at_prints:
  assumes "prints s t"
  shows "mmap_at (phys s) a xs \<Longrightarrow> apart a (mmap_bytes xs) \<Longrightarrow> mmap_at (phys t) a xs"
proof (induction xs arbitrary: a)
  case (Cons x xs)
  have n: "24 \<le> unat (ent_size x) + 4" using Cons.prems(1) by (simp add: word_le_nat_alt)
  have r: "rd32 id (phys t) (a + of_nat k) = rd32 id (phys s) (a + of_nat k)" if "k \<le> 20" for k
    by (rule prints_rd32 [OF assms Cons.prems(2) refl]) (use that n in \<open>simp add: mmap_bytes_def\<close>)
  have "apart (a + of_nat (unat (ent_size x) + 4)) (mmap_bytes xs)"
    by (rule apart_sub [OF Cons.prems(2)]) (simp add: mmap_bytes_def)
  then show ?case using Cons.IH Cons.prems(1) r [of 0] r [of 4] r [of 8] r [of 12] r [of 16] r [of 20] by simp
qed simp

lemma mmap_loop_text:
  assumes "apart p 52"
  shows "mmap_at (phys s) a xs \<Longrightarrow> apart a (mmap_bytes xs) \<Longrightarrow> boot_screen s \<Longrightarrow> unat a + mmap_bytes xs < 2 ^ 32 \<Longrightarrow>
    unat (mmap_addr (phys s) p + mmap_length (phys s) p) = unat a + mmap_bytes xs \<Longrightarrow>
    mmap_loop p a s = Some (fold putc (concat (map mmap_text xs)) s)"
proof (induction xs arbitrary: a s)
  case Nil
  then show ?case by (subst mmap_loop.simps) (simp add: word_less_nat_alt mmap_bytes_def)
next
  case (Cons x xs)
  let ?t = "fold putc (mmap_text x) s" and ?b = "a + of_nat (unat (ent_size x) + 4)"
  have lt: "a < mmap_addr (phys s) p + mmap_length (phys s) p" using Cons.prems(5) by (simp add: word_less_nat_alt mmap_bytes_def)
  have f: "mmap_size (phys s) a = ent_size x" "base_addr_high (phys s) a = ucast (drop_bit 32 (ent_base x))" "base_addr_low (phys s) a = ucast (ent_base x)"
    "mmap_type (phys s) a = ent_type x" "length_high (phys s) a = ucast (drop_bit 32 (ent_len x))" "length_low (phys s) a = ucast (ent_len x)"
    using Cons.prems(1) by (simp_all add: mmap_size_def base_addr_high_def base_addr_low_def mmap_type_def length_high_def length_low_def)
  have k: "kprintf mmap_format [mmap_size (phys s) a, base_addr_high (phys s) a, base_addr_low (phys s) a,
      mmap_type (phys s) a, length_high (phys s) a, length_low (phys s) a] s = Some ?t"
    unfolding kprintf_text [OF plain_formats(13)] mmap_entry_text f by (simp add: mmap_text_def hex64_def)
  have t: "boot_screen ?t" "prints s ?t" using bootsink.put_all [OF Cons.prems(3)] by blast+
  note at = mmap_at_prints [OF t(2) Cons.prems(1,2)]
  have sz: "mmap_size (phys ?t) a = ent_size x" using at by (simp add: mmap_size_def)
  have b: "unat ?b = unat a + (unat (ent_size x) + 4)" using Cons.prems(4) by (simp add: unat_word_ariths unat_of_nat mmap_bytes_def)
  have nx: "a + mmap_size (phys ?t) a + 4 = ?b" by (simp add: sz add.assoc)
  have "mmap_loop p ?b ?t = Some (fold putc (concat (map mmap_text xs)) ?t)"
  proof (rule Cons.IH)
    show "mmap_at (phys ?t) ?b xs" using at by simp
    show "apart ?b (mmap_bytes xs)" by (rule apart_sub [OF Cons.prems(2)]) (simp add: mmap_bytes_def)
    show "unat ?b + mmap_bytes xs < 2 ^ 32" using Cons.prems(4) b by (simp add: mmap_bytes_def)
    show "unat (mmap_addr (phys ?t) p + mmap_length (phys ?t) p) = unat ?b + mmap_bytes xs"
      using Cons.prems(5) b prints_mb [OF t(2) assms] by (simp add: mmap_bytes_def)
  qed (rule t(1))
  then show ?case using lt k nx by (subst mmap_loop.simps) (simp add: add.assoc)
qed

section \<open>The devices\<close>

text \<open>The drivers only talk to the ports.\<close>

definition io_only :: "'a machine_scheme \<Rightarrow> 'a machine_scheme \<Rightarrow> bool" where
  "io_only s t \<longleftrightarrow> t = s\<lparr>io_log := io_log t\<rparr>"

lemma io_only_port [intro]: "io_only s (outb v q t)" "io_only s (snd (inb d q t))" if "io_only s t"
proof -
  have *: "\<exists>log. t = s\<lparr>io_log := log\<rparr>" using that by (auto simp: io_only_def)
  show "io_only s (outb v q t)" "io_only s (snd (inb d q t))"
    using * by (auto simp: io_only_def outb_def inb_def Let_def)
qed

lemma io_only_refl [intro]: "io_only s s"
  by (simp add: io_only_def)

lemma io_only_enable [intro]: "io_only s t \<Longrightarrow> io_only s (enable_irq d n t)"
  by (auto simp: enable_irq_def Let_def case_prod_beta)

lemmas io_only_intros = io_only_port io_only_enable

lemma io_only_drivers [intro]:
  assumes "io_only s t"
  shows "io_only s (i8259_init d t)" "io_only s (rtc_init d t)" "io_only s (pit_init d t)" "io_only s (update_cursor r c t)"
  unfolding i8259_init_def rtc_init_def rtc_set_rate_def rtc_ack_def pit_init_def update_cursor_def Let_def case_prod_beta
  by (intro io_only_intros assms)+

text \<open>Ports that belong to neither controller leave the masks alone.\<close>

abbreviation masks :: "'a machine_scheme \<Rightarrow> u8 option \<times> u8 option" where
  "masks s \<equiv> (master_mask s, slave_mask s)"

lemma masks_outb: "q \<notin> {0x20, 0x21, 0xA0, 0xA1} \<Longrightarrow> masks (outb v q s) = masks s"
  by (simp add: pic_mask_outb_other pic_consts)

lemma masks_other [simp]:
  "masks (outb v 0x3D4 s) = masks s" "masks (outb v 0x3D5 s) = masks s" "masks (outb v RTC_PORT s) = masks s"
  "masks (outb v CMOS_PORT s) = masks s" "masks (outb v 0x43 s) = masks s" "masks (outb v 0x40 s) = masks s"
  "masks (snd (inb d q s)) = masks s" "masks (sti s) = masks s"
  by (rule masks_outb, simp add: rtc_consts)+ (simp_all add: pic_mask_inb, simp_all add: pic_mask_def sti_def)

lemma masks_enable:
  assumes "pic_reads_mask d" and "masks s = (Some a, Some b)"
  shows "n < 8 \<Longrightarrow> masks (enable_irq d n s) = (Some (a XOR ucast (push_bit (unat n) (1 :: u32))), Some b)"
    and "8 \<le> n \<Longrightarrow> masks (enable_irq d n s) = (Some a, Some (b XOR ucast (push_bit (unat (n - 8)) (1 :: u32))))"
  using enable_irq_master [OF assms(1), of n s a] enable_irq_slave [OF assms(1), of n s b] assms(2) by simp_all

lemma init_devices_io:
  "\<exists>t. init_devices d s = Some t \<and>
     t = s\<lparr>io_log := io_log t, iflag := True, shift_flag := False, ctrl_flag := False, alt_flag := False, caps_lock := False\<rparr>"
proof -
  let ?a = "enable_irq d 1 (i8259_init d s)"
  let ?b = "keyboard_init d (i8259_init d s)"
  have "io_only s ?a" by blast
  then have b: "?b = s\<lparr>io_log := io_log ?a, shift_flag := False, ctrl_flag := False, alt_flag := False, caps_lock := False\<rparr>"
    unfolding keyboard_init_def io_only_def by metis
  have "io_only ?b (pit_init d (rtc_init d (update_cursor 0 0 ?b)))" by blast
  then obtain log where "pit_init d (rtc_init d (update_cursor 0 0 ?b)) = ?b\<lparr>io_log := log\<rparr>"
    unfolding io_only_def by blast
  then show ?thesis by (simp add: init_devices_def Let_def pit_write_def outb_def sti_def b)
qed

text \<open>
  After start-up of the devices exactly the lines the kernel handles are unmasked: the timer
  (0), the keyboard (1), the cascade (2) and the real-time clock (8); and interrupts are on.
\<close>

theorem boot_unmasks_lines:
  assumes "pic_reads_mask d"
  shows "\<exists>t. init_devices d s = Some t \<and> iflag t \<and>
    master_mask t = Some (NOT (0b00000111)) \<and> slave_mask t = Some (NOT (0b00000001))"
proof -
  let ?a = "i8259_init d s"
  let ?b = "keyboard_init d ?a"
  let ?c = "rtc_init d (update_cursor 0 0 ?b)"
  let ?e = "pit_init d ?c"
  have "masks ?a = (Some 0xFB, Some 0xFF)" using i8259_init_masks [OF assms, of s] by simp
  from masks_enable(1) [OF assms this, of 1] have b: "masks ?b = (Some 0xF9, Some 0xFF)"
    by (simp add: keyboard_init_def pic_mask_def)
  define r where "r = rtc_ack d (outb (fst (inb d CMOS_PORT (outb STATUS_REGISTER_B RTC_PORT (rtc_set_rate d (RTC_RATE_1024 AND DEFAULT_RATE)
    (update_cursor 0 0 ?b)))) OR 0x40) CMOS_PORT (outb STATUS_REGISTER_B RTC_PORT (snd (inb d CMOS_PORT (outb STATUS_REGISTER_B RTC_PORT
    (rtc_set_rate d (RTC_RATE_1024 AND DEFAULT_RATE) (update_cursor 0 0 ?b)))))))"
  have r: "?c = enable_irq d 8 r"
    by (simp only: rtc_init_def r_def Let_def case_prod_beta RTC_VEC_def)
  have "masks r = masks ?b"
    by (simp only: r_def rtc_ack_def rtc_set_rate_def update_cursor_def Let_def case_prod_beta masks_other)
  from masks_enable(2) [OF assms this [unfolded b], of 8] have "masks ?c = (Some 0xF9, Some 0xFE)" unfolding r by simp
  from masks_enable(1) [OF assms this, of 0] have e: "masks ?e = (Some 0xF8, Some 0xFE)" by (simp add: pit_init_def)
  obtain t where t: "init_devices d s = Some t" "iflag t" "masks t = masks ?e"
  proof (rule that)
    show "init_devices d s = Some (sti (the (pit_write 40 ?e)))" by (simp add: init_devices_def Let_def pit_write_def)
    show "iflag (sti (the (pit_write 40 ?e)))" by (simp add: sti_def)
    show "masks (sti (the (pit_write 40 ?e))) = masks ?e" by (simp add: pit_write_def Let_def del: prod.inject)
  qed
  then show ?thesis using e by simp
qed

theorem boot_unmasks_lines_witness:
  "\<exists>t. init_devices pic_device (blank_kernel (\<lambda>a. 0) 0) = Some t \<and> master_mask t = Some 0xF8"
  using boot_unmasks_lines [OF pic_device_reads_mask, of "blank_kernel (\<lambda>a. 0) 0"] by auto

section \<open>The first terminal\<close>

lemma clear_frame: "a \<notin> region VIDEO 4000 \<Longrightarrow> phys (clear s) a = phys s a"
  by (simp add: clear_def clear_mem_frame)

text \<open>What the first shell starts from.\<close>

lemma screen1_first:
  assumes "kernel_maps s" and "tlb s = Map.empty" and "indicator s = 1" and "fts_1 s = 0"
  obtains y where "screen1 e s = map_option (\<lambda>(r, s). (case r of Returned v \<Rightarrow> Returned 0 | _ \<Rightarrow> r, s))
      (execute e (lit (bytes_of ''shell'')) y)"
    and "kernel_maps y" and "tlb y = Map.empty" and "indicator y = 1"
    and "\<And>a. a \<notin> region VIDEO 4000 \<Longrightarrow> a \<notin> region SCREEN1_MEM 4000 \<Longrightarrow> phys y a = phys s a"
    and "FSYSTEM y = FSYSTEM s" "filename y = filename s" "arg y = arg s" "pnumarr y = pnumarr s" "active y = active s"
      "head y = head s" "procs y = procs s" "curr_pcb y = curr_pcb s"
proof -
  let ?a = "getCursorandBuffer (cli s)"
  define b where "b = copyFromVideo ?a"
  have "kernel_maps (cli s) = kernel_maps s" by (rule kernel_maps_cong) (simp_all add: cli_def)
  then have a: "kernel_maps ?a" "indicator ?a = int 1" "windows_uncached ?a" "phys ?a = phys s"
    using assms by (simp_all add: windows_uncached_def cli_def)
  note eff = copyFromVideo_effect [OF a(1,2) _ a(3), folded b_def, unfolded a(4)]
  have m1: "scr_mem 1 = SCREEN1_MEM" by (simp add: scr_mem_def)
  have b: "b = ?a\<lparr>phys := phys b, page_table_2 := page_table_2 b\<rparr>" by (rule eff(5)) simp
  have fb: "tlb b = Map.empty" "FSYSTEM b = FSYSTEM s" "filename b = filename s" "arg b = arg s" "pnumarr b = pnumarr s"
    "active b = active s" "head b = head s" "procs b = procs s" "curr_pcb b = curr_pcb s" "fts_1 b = 0"
    by (subst b, simp add: getCursorandBuffer_def cli_def assms)+
  define v where "v = leave_screen 1 s"
  have v: "v = load_screen (saved1 b) (b\<lparr>indicator := 1\<rparr>)"
    by (simp add: v_def leave_screen_def b_def setCursorandBuffer_def)
  define w where "w = update_cursor (saved_x (saved1 v)) (saved_y (saved1 v)) v"
  define y where "y = flushTLB (setupPagingDirectoryTable RESERV_CODE_2 VIDEO 1 (reset_screen (w\<lparr>fts_1 := 1\<rparr>)))"
  note wd = w_def update_cursor_def outb_def Let_def v load_screen_def
  note yd = y_def flushTLB_def setupPagingDirectoryTable_def reset_screen_def clear_def wd
  have "fts_1 w = 0" by (simp add: wd fb)
  then have s1: "screen1 e s = first_shell e (w\<lparr>fts_1 := 1\<rparr>)" by (simp add: screen1_def v_def [symmetric] w_def [symmetric] Let_def)
  have "kernel_maps b" by (rule eff(4)) simp
  moreover have "kernel_maps (reset_screen (w\<lparr>fts_1 := 1\<rparr>)) = kernel_maps b"
    by (rule kernel_maps_cong) (simp_all add: reset_screen_def clear_def wd)
  ultimately have km: "kernel_maps y" unfolding y_def by (intro kernel_maps_flush kernel_maps_table) simp_all
  show thesis
  proof (rule that [of y])
    show "screen1 e s = map_option (\<lambda>(r, s). (case r of Returned v \<Rightarrow> Returned 0 | _ \<Rightarrow> r, s)) (execute e (lit (bytes_of ''shell'')) y)"
      unfolding s1 first_shell_def Let_def y_def by (simp add: reset_screen_def clear_def wd)
    show "phys y a = phys s a" if "a \<notin> region VIDEO 4000" "a \<notin> region SCREEN1_MEM 4000" for a
    proof -
      have "phys y a = phys (clear b) a" by (simp add: yd)
      also have "phys (clear b) a = phys b a" by (rule clear_frame [OF that(1)])
      also have "phys b a = phys s a" by (rule eff(2)) (use that(2) m1 in simp_all)
      finally show ?thesis .
    qed
  qed (rule km, simp_all add: yd fb)
qed

section \<open>From the boot loader to the shell\<close>

text \<open>What the boot loader passes: structures outside video memory, a terminated command line and a memory map that ends.\<close>

definition multiboot_ok :: "mem \<Rightarrow> u32 \<Rightarrow> bool" where
  "multiboot_ok m p \<longleftrightarrow> apart p 52 \<and>
     (bit (mb_flags m p) 2 \<longrightarrow> (\<exists>n. is_cstr (buf_at id m (cmdline m p)) n \<and> apart (cmdline m p) (Suc n))) \<and>
     (bit (mb_flags m p) 3 \<longrightarrow> apart (mods_addr m p) (16 * unat (mods_count m p))) \<and>
     (bit (mb_flags m p) 6 \<longrightarrow> mmap_chain m (mmap_addr m p + mmap_length m p) (mmap_addr m p))"

lemma show_cmdline_prints:
  assumes b: "boot_screen s" and "apart p 52" and same: "\<forall>a. a \<notin> region VIDEO 4002 \<longrightarrow> phys s a = m a"
    and cl: "bit (mb_flags m p) 2 \<longrightarrow> (\<exists>n. is_cstr (buf_at id m (cmdline m p)) n \<and> apart (cmdline m p) (Suc n))"
  shows "\<exists>t. show_cmdline p s = Some t \<and> boot_screen t \<and> prints s t"
proof (cases "bit (mb_flags m p) 2")
  case True
  note eq = prints_mb [OF prints_phys [OF same] assms(2)]
  obtain n where n: "is_cstr (buf_at id m (cmdline m p)) n" "apart (cmdline m p) (Suc n)" using cl True by blast
  have "buf_at id (phys s) (cmdline m p) i = buf_at id m (cmdline m p) i" if "i \<le> n" for i
    using same n(2) region_memI [of i "Suc n" "cmdline m p"] that by (auto simp: apart_def buf_at_def)
  then have "is_cstr (buf_at id (phys s) (cmdline m p)) n" using n(1) by (simp add: is_cstr_def)
  then have "\<exists>t. kprintf (bytes_of ''cmdline = %s'' @ [10]) [cmdline (phys s) p] s = Some t \<and> boot_screen t \<and> prints s t"
    using eq(2) by (intro kprintf_prints [OF b]) (auto simp: bytes_of_def)
  then show ?thesis using True eq(1) by (simp add: show_cmdline_def CHECK_FLAG_bit)
next
  case False
  then show ?thesis
    using prints_mb(1) [OF prints_phys [OF same] assms(2)] b by (simp add: show_cmdline_def CHECK_FLAG_bit bootsink.eff_refl)
qed

lemma show_plain_prints:
  assumes "boot_screen s"
  shows "\<exists>t. show_memory p s = Some t \<and> boot_screen t \<and> prints s t"
    and "\<exists>t. show_device p s = Some t \<and> boot_screen t \<and> prints s t"
    and "\<exists>t. show_elf p s = Some t \<and> boot_screen t \<and> prints s t"
  unfolding show_memory_def show_device_def show_elf_def
  using kprintf_plain [OF assms plain_formats(8)] kprintf_plain [OF assms plain_formats(9)]
    kprintf_plain [OF assms plain_formats(11)] assms bootsink.eff_refl by auto

lemma show_mmap_prints:
  assumes b: "boot_screen s" and ap: "apart p 52" and same: "\<forall>a. a \<notin> region VIDEO 4002 \<longrightarrow> phys s a = m a"
    and mm: "bit (mb_flags m p) 6 \<longrightarrow> mmap_chain m (mmap_addr m p + mmap_length m p) (mmap_addr m p)"
  shows "\<exists>t. show_mmap p s = Some t \<and> boot_screen t \<and> prints s t"
proof (cases "bit (mb_flags m p) 6")
  case True
  note eq = prints_mb [OF prints_phys [OF same] ap]
  obtain u where u: "kprintf (bytes_of ''mmap_addr = 0x%#x, mmap_length = 0x%x'' @ [10]) [mmap_addr (phys s) p, mmap_length (phys s) p] s = Some u"
    "boot_screen u" "prints s u" using kprintf_plain [OF b plain_formats(12)] by blast
  have same_u: "\<forall>a. a \<notin> region VIDEO 4002 \<longrightarrow> phys u a = m a" using same u(3) by (simp add: prints_def video_only_def)
  note eq_u = prints_mb [OF prints_phys [OF same_u] ap]
  obtain t where "mmap_loop p (mmap_addr m p) u = Some t" "boot_screen t" "prints u t"
    using mmap_loop_ends [OF mm [rule_format, OF True] ap refl u(2) same_u] by blast
  then show ?thesis
    using True eq(1) eq_u(6) u by (auto simp: show_mmap_def CHECK_FLAG_bit intro: prints_trans)
next
  case False
  then show ?thesis
    using prints_mb(1) [OF prints_phys [OF same] ap] b by (simp add: show_mmap_def CHECK_FLAG_bit bootsink.eff_refl)
qed

text \<open>Everything \<^verbatim>\<open>entry\<close> does before it sets up the tables.\<close>

lemma entry_reports:
  assumes b: "boot_screen (clear s)" and ok: "multiboot_ok m p" and same: "\<forall>a. a \<notin> region VIDEO 4002 \<longrightarrow> phys s a = m a"
    and fl: "bit (mb_flags m p) 3" "\<not> (bit (mb_flags m p) 4 \<and> bit (mb_flags m p) 5)" and n: "0 < mods_count m p"
  shows "\<exists>t. entry l e MULTIBOOT_BOOTLOADER_MAGIC p g s = start_kernel l e g t \<and> boot_screen t \<and>
    prints ((clear s)\<lparr>FSYSTEM := mod_start m (mods_addr m p + of_nat (16 * (unat (mods_count m p) - 1)))\<rparr>) t"
proof -
  let ?f = "mod_start m (mods_addr m p + of_nat (16 * (unat (mods_count m p) - 1)))"
  have ap: "apart p 52" using ok by (simp add: multiboot_ok_def)
  have same0: "\<forall>a. a \<notin> region VIDEO 4002 \<longrightarrow> phys (clear s) a = m a"
    using same clear_frame [of _ s] by (auto simp: region_def image_iff)
  have keep: "\<forall>a. a \<notin> region VIDEO 4002 \<longrightarrow> phys t a = m a" if "prints (clear s) t" for t
    using that same0 by (simp add: prints_def video_only_def)
  obtain a1 where a1: "kprintf (bytes_of ''flags = 0x%#x'' @ [10]) [mb_flags (phys (clear s)) p] (clear s) = Some a1"
    "boot_screen a1" "prints (clear s) a1" using kprintf_plain [OF b plain_formats(7)] by blast
  obtain a2 where a2: "show_memory p a1 = Some a2" "boot_screen a2" "prints (clear s) a2"
    using show_plain_prints(1) [OF a1(2)] a1(3) prints_trans by blast
  obtain a3 where a3: "show_device p a2 = Some a3" "boot_screen a3" "prints (clear s) a3"
    using show_plain_prints(2) [OF a2(2)] a2(3) prints_trans by blast
  obtain a4 where a4: "show_cmdline p a3 = Some a4" "boot_screen a4" "prints (clear s) a4"
    using show_cmdline_prints [OF a3(2) ap keep [OF a3(3)]] ok a3(3) prints_trans unfolding multiboot_ok_def by blast
  note eq4 = prints_mb [OF prints_phys [OF keep [OF a4(3)]] ap]
  have mods: "apart (mods_addr m p) (16 * unat (mods_count m p))" using ok fl(1) by (simp add: multiboot_ok_def)
  have "mod_start (phys a4) (mods_addr m p + of_nat (16 * (unat (mods_count m p) - 1))) = ?f"
    unfolding mod_start_def
    by (rule prints_rd32 [OF prints_phys [OF keep [OF a4(3)]] mods refl, simplified]) (use n in \<open>simp add: word_less_nat_alt\<close>)
  then obtain a5 where a5: "load_modules p a4 = Some a5" "boot_screen a5" "prints (a4\<lparr>FSYSTEM := ?f\<rparr>) a5"
    using mod_loop_last [OF a4(2) ap mods, of 0] eq4(1,3,4) n fl(1)
    by (auto simp: load_modules_def CHECK_FLAG_bit word_less_nat_alt)
  have p5: "prints ((clear s)\<lparr>FSYSTEM := ?f\<rparr>) a5" using prints_trans [OF prints_FSYSTEM [OF a4(3)] a5(3)] .
  have keep5: "\<forall>a. a \<notin> region VIDEO 4002 \<longrightarrow> phys t a = m a" if "prints ((clear s)\<lparr>FSYSTEM := ?f\<rparr>) t" for t
    using that same0 by (simp add: prints_def video_only_def)
  note eq5 = prints_mb(1) [OF prints_phys [OF keep5 [OF p5]] ap]
  obtain a6 where a6: "show_elf p a5 = Some a6" "boot_screen a6" "prints ((clear s)\<lparr>FSYSTEM := ?f\<rparr>) a6"
    using show_plain_prints(3) [OF a5(2)] p5 prints_trans by blast
  obtain a7 where a7: "show_mmap p a6 = Some a7" "boot_screen a7" "prints ((clear s)\<lparr>FSYSTEM := ?f\<rparr>) a7"
    using show_mmap_prints [OF a6(2) ap keep5 [OF a6(3)]] ok a6(3) prints_trans unfolding multiboot_ok_def by blast
  have "entry l e MULTIBOOT_BOOTLOADER_MAGIC p g s = start_kernel l e g a7"
    using a1(1) a2(1) a3(1) a4(1) a5(1) a6(1) a7(1) fl(2) eq5 by (auto simp: entry_def Let_def CHECK_FLAG_bit)
  then show ?thesis using a7(2,3) by blast
qed

text \<open>The image in the last module is still there when the shell is looked up.\<close>

lemma image_transfer:
  assumes res: "image_resident (blank_kernel m f)" and y: "FSYSTEM y = f"
    and same: "\<forall>a. 0x400000 \<le> unat a \<and> unat a < 0x800000 \<longrightarrow> phys y a = m a"
  shows "image_resident y" and "stack_ok e (blank_kernel m f) \<Longrightarrow> stack_ok e y"
    and "read_dentry_by_name id (phys y) f (Some b) = read_dentry_by_name id m f (Some b)"
    and "rd32 id (phys y) (f + 4) = rd32 id m (f + 4)"
    and "unat i < unat (rd32 id m (f + 4)) \<Longrightarrow> file_bytes id (phys y) f i = file_bytes id m f i"
proof -
  have ok: "fs_ok id m f" and lo: "0x400000 \<le> unat f" and hi: "unat f + fs_size id m f \<le> 0x800000"
    using res by (simp_all add: image_resident_def blank_kernel_def)
  have eq: "phys y a = m a" if "a \<in> fs_image id m f" for a
    using that resident_region [OF res, of a] same by (simp add: fs_image_def blank_kernel_def)
  note ag = image_agree [OF ok eq]
  have size: "fs_size id (phys y) f = fs_size id m f" using ag(1,2) by (simp add: fs_size_def)
  show "image_resident y" using ag(6) lo hi by (simp add: image_resident_def y size)
  show "stack_ok e (blank_kernel m f) \<Longrightarrow> stack_ok e y" by (simp add: stack_ok_def y size blank_kernel_def)
  show "read_dentry_by_name id (phys y) f (Some b) = read_dentry_by_name id m f (Some b)" by (rule lookup_agree [OF ok eq])
  show "rd32 id (phys y) (f + 4) = rd32 id m (f + 4)" by (rule ag(1))
  show "unat i < unat (rd32 id m (f + 4)) \<Longrightarrow> file_bytes id (phys y) f i = file_bytes id m f i"
    using ag(4) [of "unat i"] by simp
qed

lemma initPaging_eq:
  "\<exists>pd pt pt2. initPaging s = s\<lparr>page_directory := pd, page_table := pt, page_table_2 := pt2, tlb := Map.empty, paging_on := True\<rparr>"
  unfolding initPaging_def enablePaging_def fill_directory_def fill_table_def Let_def fill_table_fold fill_directory_fold
  by (intro exI) (rule paging.equality; simp)

text \<open>The state in which \<^verbatim>\<open>start_kernel\<close> looks for the shell.\<close>

lemma start_kernel_shell:
  assumes t: "prints ((clear (blank_kernel m 0))\<lparr>FSYSTEM := f\<rparr>) t"
  obtains y g' where "start_kernel l e g t = map_option (\<lambda>(r, s). (Started (case r of Returned v \<Rightarrow> Returned 0 | _ \<Rightarrow> r), g', s))
      (execute e (lit (bytes_of ''shell'')) y)"
    and "g' = g\<lparr>ldt_desc_ptr := the_ldt_desc l, tss_desc_ptr := the_tss_desc l, ldtr := KERNEL_LDT, task_reg := KERNEL_TSS,
      ldt_segment_selector := KERNEL_LDT, ss0 := KERNEL_DS, idt := idt_init (handler_adr l) (idt g), idt_loaded := True\<rparr>"
    and "kernel_maps y" "tlb y = Map.empty" "indicator y = 1" "FSYSTEM y = f" "length (filename y) = 32" "length (arg y) = 32"
      "pnumarr y = replicate 6 0" "active y = 1" "head y = None"
    and "\<forall>a. 0x400000 \<le> unat a \<and> unat a < 0x800000 \<longrightarrow> phys y a = m a"
proof -
  let ?b = "(clear (blank_kernel m 0))\<lparr>FSYSTEM := f\<rparr>"
  note eq = console_change_eq [OF conjunct2 [OF t [unfolded prints_def]]]
  let ?s = "reset_screen (t\<lparr>tss_esp0 := 0x800000\<rparr>)"
  have tk: "tables_ok ?s"
    by (subst eq) (simp add: reset_screen_def clear_def tables_ok_def blank_kernel_def frame_of_def)
  let ?p = "initPaging ?s"
  obtain d where d: "init_devices (dev e) ?p = Some d"
    "d = ?p\<lparr>io_log := io_log d, iflag := True, shift_flag := False, ctrl_flag := False, alt_flag := False, caps_lock := False\<rparr>"
    using init_devices_io by blast
  obtain pd pt pt2 where "?p = ?s\<lparr>page_directory := pd, page_table := pt, page_table_2 := pt2, tlb := Map.empty, paging_on := True\<rparr>"
    using initPaging_eq by blast
  then obtain log where dd: "d = t\<lparr>tss_esp0 := 0x800000, phys := phys (clear t), screen_x := 0, screen_y := 0, page_directory := pd,
      page_table := pt, page_table_2 := pt2, tlb := Map.empty, paging_on := True, io_log := log, iflag := True,
      shift_flag := False, ctrl_flag := False, alt_flag := False, caps_lock := False\<rparr>"
    using d(2) by (simp add: reset_screen_def clear_def)
  have ft: "indicator t = 1" "fts_1 t = 0" "FSYSTEM t = f" "filename t = replicate 32 0" "arg t = replicate 32 0"
    "pnumarr t = replicate 6 0" "active t = 1" "head t = None"
    by (subst eq, simp add: clear_def blank_kernel_def)+
  have fd: "indicator d = 1" "fts_1 d = 0" "FSYSTEM d = f" "filename d = replicate 32 0" "arg d = replicate 32 0"
    "pnumarr d = replicate 6 0" "active d = 1" "head d = None" "tlb d = Map.empty" "phys d = phys (clear t)"
    unfolding dd by (simp_all add: ft)
  have "kernel_maps d = kernel_maps ?p" by (rule kernel_maps_cong) (subst d(2), simp)+
  then have "kernel_maps d" using kernel_maps_init [OF tk] by simp
  define w where "w = setupPagingDirectoryTable RESERV_CODE_2 SCREEN3_MEM 3 (setupPagingDirectoryTable RESERV_CODE_2 SCREEN2_MEM 2
    (setupPagingDirectoryTable RESERV_CODE_2 VIDEO 1 d))"
  have "kernel_maps w" unfolding w_def by (intro kernel_maps_table \<open>kernel_maps d\<close>) simp_all
  have fw: "indicator w = 1" "fts_1 w = 0" "FSYSTEM w = f" "filename w = replicate 32 0" "arg w = replicate 32 0"
    "pnumarr w = replicate 6 0" "active w = 1" "head w = None" "tlb w = Map.empty" "phys w = phys (clear t)"
    by (simp_all add: w_def setupPagingDirectoryTable_def fd)
  obtain y where y: "screen1 e w = map_option (\<lambda>(r, s). (case r of Returned v \<Rightarrow> Returned 0 | _ \<Rightarrow> r, s)) (execute e (lit (bytes_of ''shell'')) y)"
    and "kernel_maps y" "tlb y = Map.empty" "indicator y = 1"
    and mem: "\<And>a. a \<notin> region VIDEO 4000 \<Longrightarrow> a \<notin> region SCREEN1_MEM 4000 \<Longrightarrow> phys y a = phys w a"
    and "FSYSTEM y = FSYSTEM w" "filename y = filename w" "arg y = arg w" "pnumarr y = pnumarr w" "active y = active w" "head y = head w"
    by (rule screen1_first [OF \<open>kernel_maps w\<close> fw(9,1,2), of e]) (rule that; assumption)
  note fy = this(6-11) [unfolded fw]
  have "phys y a = m a" if "0x400000 \<le> unat a" "unat a < 0x800000" for a
  proof -
    have v: "a \<notin> region VIDEO 4002" "a \<notin> region VIDEO 4000" "a \<notin> region SCREEN1_MEM 4000"
      using that by (auto simp: region_nowrap VIDEO_def SCREEN1_MEM_def)
    have "phys y a = phys (clear t) a" using mem [OF v(2,3)] by (simp add: fw)
    also have "\<dots> = phys t a" by (rule clear_frame [OF v(2)])
    also have "\<dots> = phys (clear (blank_kernel m 0)) a" using t v(1) by (simp add: prints_def video_only_def)
    also have "\<dots> = m a" using clear_frame [OF v(2), of "blank_kernel m 0"] by (simp add: blank_kernel_def)
    finally show ?thesis .
  qed
  moreover have "start_kernel l e g t = map_option (\<lambda>(r, s). (Started (case r of Returned v \<Rightarrow> Returned 0 | _ \<Rightarrow> r),
      g\<lparr>ldt_desc_ptr := the_ldt_desc l, tss_desc_ptr := the_tss_desc l, ldtr := KERNEL_LDT, task_reg := KERNEL_TSS,
      ldt_segment_selector := KERNEL_LDT, ss0 := KERNEL_DS, idt := idt_init (handler_adr l) (idt g), idt_loaded := True\<rparr>, s))
      (execute e (lit (bytes_of ''shell'')) y)"
    using d(1) y unfolding start_kernel_def init_screen_memory_def
    by (cases "execute e (lit (bytes_of ''shell'')) y") (auto simp: set_segments_def Let_def w_def)
  ultimately show thesis
    using that \<open>kernel_maps y\<close> \<open>tlb y = Map.empty\<close> \<open>indicator y = 1\<close> fy by simp
qed

text \<open>The run of \<^verbatim>\<open>entry\<close>: the tables it leaves and the process it starts.\<close>

lemma entry_enters_shell:
  assumes info: "multiboot_ok m p" "bit (mb_flags m p) 3" "\<not> (bit (mb_flags m p) 4 \<and> bit (mb_flags m p) 5)"
      "0 < mods_count m p" "f = mod_start m (mods_addr m p + of_nat (16 * (unat (mods_count m p) - 1)))"
    and image: "image_resident (blank_kernel m f)" "stack_ok e (blank_kernel m f)"
    and found: "read_dentry_by_name id m f (Some (lit (bytes_of ''shell''))) = Some d" "unat (de_inode d) < unat (rd32 id m (f + 4))"
    and elf: "bs = file_bytes id m f (de_inode d)" "take 4 bs = [0x7f, 0x45, 0x4c, 0x46]" "28 \<le> length bs" "length bs < 0x3B8000"
  shows "\<exists>t. entry l e MULTIBOOT_BOOTLOADER_MAGIC p g (blank_kernel m 0) =
      Some (Started (EnterUser (le32 (\<lambda>j. bs ! (24 + j)))),
      g\<lparr>ldt_desc_ptr := the_ldt_desc l, tss_desc_ptr := the_tss_desc l, ldtr := KERNEL_LDT, task_reg := KERNEL_TSS,
      ldt_segment_selector := KERNEL_LDT, ss0 := KERNEL_DS, idt := idt_init (handler_adr l) (idt g), idt_loaded := True\<rparr>, t) \<and>
    pnum t \<in> {0, 3, 4, 5} \<and> runs_slot (pnum t) t \<and>
    (\<forall>j < length bs. user_walk t (EXEC_LOCATION + of_nat j) = Some (load_addr (pnum t) j) \<and> phys t (load_addr (pnum t) j) = bs ! j)"
proof -
  have "boot_screen (clear (blank_kernel m 0))"
    by (simp add: boot_screen_def clear_def blank_kernel_def console_ok_def cursor_def NUM_COLS_def NUM_ROWS_def)
  moreover have "\<forall>a. a \<notin> region VIDEO 4002 \<longrightarrow> phys (blank_kernel m 0) a = m a" by (simp add: blank_kernel_def)
  ultimately obtain t where t: "entry l e MULTIBOOT_BOOTLOADER_MAGIC p g (blank_kernel m 0) = start_kernel l e g t"
    "prints ((clear (blank_kernel m 0))\<lparr>FSYSTEM := f\<rparr>) t"
    using entry_reports info by blast
  obtain y g' where st: "start_kernel l e g t = map_option (\<lambda>(r, s). (Started (case r of Returned v \<Rightarrow> Returned 0 | _ \<Rightarrow> r), g', s))
      (execute e (lit (bytes_of ''shell'')) y)"
    and g': "g' = g\<lparr>ldt_desc_ptr := the_ldt_desc l, tss_desc_ptr := the_tss_desc l, ldtr := KERNEL_LDT, task_reg := KERNEL_TSS,
      ldt_segment_selector := KERNEL_LDT, ss0 := KERNEL_DS, idt := idt_init (handler_adr l) (idt g), idt_loaded := True\<rparr>"
    and y: "kernel_maps y" "tlb y = Map.empty" "indicator y = 1" "FSYSTEM y = f" "length (filename y) = 32" "length (arg y) = 32"
      "pnumarr y = replicate 6 0" "active y = 1" "head y = None"
    and mem: "\<forall>a. 0x400000 \<le> unat a \<and> unat a < 0x800000 \<longrightarrow> phys y a = m a"
    using start_kernel_shell [OF t(2)] by blast
  note tr = image_transfer [OF image(1) y(4) mem]
  have name: "0 \<notin> set (bytes_of ''shell'')" "32 \<notin> set (bytes_of ''shell'')" "length (bytes_of ''shell'') < 32"
    by (simp_all add: bytes_of_def)
  have slot: "tlb_coherent y" "pnum_ok y" "\<not> pnum_pool y \<subseteq> pnum_busy y" "ring_ok y"
    using y by (simp_all add: tlb_coherent_def pnum_ok_def pnum_pool_def pnum_busy_def ring_ok_def)
  have ex: "\<exists>u q. execute e (lit (bytes_of ''shell'')) y = Some (EnterUser (le32 (\<lambda>j. bs ! (24 + j))), u) \<and>
      pnum u = q \<and> 0 \<le> q \<and> nat q \<in> pnum_pool y - pnum_busy y \<and> pnumarr u = (pnumarr y)[nat q := 1] \<and> runs_slot q u \<and>
      (\<forall>j < length bs. user_walk u (EXEC_LOCATION + of_nat j) = Some (load_addr q j) \<and> phys u (load_addr q j) = bs ! j) \<and>
      curr_pcb u = pcb_at q \<and> parent (pcbs u (pcb_at q)) = curr_pcb y \<and> ring_ok u"
  proof (rule execute_runs [where a = "[]" and d = d, OF name])
    show "bs = file_bytes id (phys y) (FSYSTEM y) (de_inode d)" unfolding y(4) tr(5) [OF found(2)] by (rule elf(1))
    show "read_dentry_by_name id (phys y) (FSYSTEM y) (Some (lit (bytes_of ''shell''))) = Some d" unfolding y(4) tr(3) by (rule found(1))
    show "unat (de_inode d) < unat (rd32 id (phys y) (FSYSTEM y + 4))" unfolding y(4) tr(4) by (rule found(2))
  qed (simp_all add: y(1,5,6) slot tr(1) tr(2) [OF image(2)] elf(2-4) del: length_file_bytes)
  then obtain u where u: "execute e (lit (bytes_of ''shell'')) y = Some (EnterUser (le32 (\<lambda>j. bs ! (24 + j))), u)"
    "0 \<le> pnum u" "nat (pnum u) \<in> pnum_pool y - pnum_busy y" "runs_slot (pnum u) u"
    "\<forall>j < length bs. user_walk u (EXEC_LOCATION + of_nat j) = Some (load_addr (pnum u) j) \<and> phys u (load_addr (pnum u) j) = bs ! j"
    by blast
  then have "pnum u \<in> {0, 3, 4, 5}" using y(3) by (auto simp: pnum_pool_def)
  then show ?thesis using u(1,4,5) unfolding t(1) st g' by simp
qed

text \<open>
  C1. The system boots to a shell: from the state the boot loader leaves, with its magic number,
  well-formed boot information and a file system image as the last module, \<^verbatim>\<open>entry\<close> returns
  from all its loops and ends by entering user mode at the entry point of \<^verbatim>\<open>shell\<close>. The shell occupies a free process
  slot, user mode sees the bytes of its file, and the processor finds the local descriptor
  table, the task state segment and the interrupt table where the linker put them.
\<close>

theorem boot_starts_shell:
  assumes info: "multiboot_ok m p" "bit (mb_flags m p) 3" "\<not> (bit (mb_flags m p) 4 \<and> bit (mb_flags m p) 5)"
      "0 < mods_count m p" "f = mod_start m (mods_addr m p + of_nat (16 * (unat (mods_count m p) - 1)))"
    and image: "image_resident (blank_kernel m f)" "stack_ok e (blank_kernel m f)"
    and found: "read_dentry_by_name id m f (Some (lit (bytes_of ''shell''))) = Some d" "unat (de_inode d) < unat (rd32 id m (f + 4))"
    and elf: "bs = file_bytes id m f (de_inode d)" "take 4 bs = [0x7f, 0x45, 0x4c, 0x46]" "28 \<le> length bs" "length bs < 0x3B8000"
  shows "\<exists>g' t. entry l e MULTIBOOT_BOOTLOADER_MAGIC p g (blank_kernel m 0) =
      Some (Started (EnterUser (le32 (\<lambda>j. bs ! (24 + j)))), g', t) \<and>
    pnum t \<in> {0, 3, 4, 5} \<and> runs_slot (pnum t) t \<and>
    (\<forall>j < length bs. user_walk t (EXEC_LOCATION + of_nat j) = Some (load_addr (pnum t) j) \<and> phys t (load_addr (pnum t) j) = bs ! j) \<and>
    seg_base (ldt_desc_ptr g') = ldt_adr l \<and> seg_limit (ldt_desc_ptr g') = ldt_size l AND 0xFFFFF \<and> ldtr g' = KERNEL_LDT \<and>
    seg_base (tss_desc_ptr g') = tss_adr l \<and> seg_limit (tss_desc_ptr g') = tss_size l AND 0xFFFFF \<and> task_reg g' = KERNEL_TSS \<and>
    idt g' = idt_init (handler_adr l) (idt g) \<and> idt_loaded g'"
  using entry_enters_shell [OF info image found elf, of l g]
  by (auto simp: the_ldt_desc_def the_tss_desc_def seg_base_set seg_limit_set)

text \<open>Boot information with one module, the image \<^const>\<open>elf_fs\<close>.\<close>

definition boot_mem :: mem where
  "boot_mem = elf_fs(0x9000 := 8, 0x9014 := 1, 0x9019 := 0x91, 0x9102 := 0x50)"

lemma boot_mem_rd:
  "mb_flags boot_mem 0x9000 = 8" "mods_count boot_mem 0x9000 = 1" "mods_addr boot_mem 0x9000 = 0x9100"
  "mod_start boot_mem 0x9100 = 0x500000"
  by (simp_all add: mb_fields mod_start_def rd32_def le32_def buf_at_def boot_mem_def elf_fs_def)

lemma boot_mem_image: "image_resident (blank_kernel boot_mem 0x500000)" "a \<in> fs_image id elf_fs 0x500000 \<Longrightarrow> boot_mem a = elf_fs a"
proof -
  have size: "fs_size id elf_fs 0x500000 = 12288" using elf_fs_rd by (simp add: fs_size_def)
  show eq: "boot_mem a = elf_fs a" if "a \<in> fs_image id elf_fs 0x500000" for a
    using that by (auto simp: fs_image_def size region_nowrap boot_mem_def)
  note ag = image_agree [OF elf_fs_ok eq]
  have "fs_size id boot_mem 0x500000 = 12288" using ag(1,2) size by (simp add: fs_size_def)
  then show "image_resident (blank_kernel boot_mem 0x500000)"
    using ag(6) by (simp add: image_resident_def blank_kernel_def)
qed

definition boot_layout :: layout where
  "boot_layout = \<lparr>ldt_adr = 0x402000, ldt_size = 31, tss_adr = 0x403000, tss_size = 104, handler_adr = (\<lambda>h. 0x404000)\<rparr>"

definition boot_tables :: tables where
  "boot_tables = \<lparr>ldt_desc_ptr = the_ldt_desc boot_layout, tss_desc_ptr = the_ldt_desc boot_layout, ldtr = 0, task_reg = 0,
     ldt_segment_selector = 0, ss0 = 0, idt = [], idt_loaded = False\<rparr>"

lemma boot_mem_ready:
  defines "d \<equiv> dentry_at id elf_fs 0x500040" and "bs \<equiv> file_bytes id elf_fs 0x500000 0"
  shows "multiboot_ok boot_mem 0x9000"
    and "bit (mb_flags boot_mem 0x9000) 3" "\<not> (bit (mb_flags boot_mem 0x9000) 4 \<and> bit (mb_flags boot_mem 0x9000) 5)"
      "0 < mods_count boot_mem 0x9000"
      "0x500000 = mod_start boot_mem (mods_addr boot_mem 0x9000 + of_nat (16 * (unat (mods_count boot_mem 0x9000) - 1)))"
    and "stack_ok plain_env (blank_kernel boot_mem 0x500000)"
    and "read_dentry_by_name id boot_mem 0x500000 (Some (lit (bytes_of ''shell''))) = Some d"
    and "unat (de_inode d) < unat (rd32 id boot_mem (0x500000 + 4))"
    and "bs = file_bytes id boot_mem 0x500000 (de_inode d)"
proof -
  note eq = boot_mem_image(2)
  have ap: "apart 0x9000 52" "apart 0x9100 16" by (auto simp: apart_def region_nowrap VIDEO_def)
  then show info: "multiboot_ok boot_mem 0x9000" by (simp add: multiboot_ok_def boot_mem_rd)
  show fl: "bit (mb_flags boot_mem 0x9000) 3" "\<not> (bit (mb_flags boot_mem 0x9000) 4 \<and> bit (mb_flags boot_mem 0x9000) 5)"
    "0 < mods_count boot_mem 0x9000"
    "0x500000 = mod_start boot_mem (mods_addr boot_mem 0x9000 + of_nat (16 * (unat (mods_count boot_mem 0x9000) - 1)))"
    by (simp_all add: boot_mem_rd)
  note ag = image_agree [OF elf_fs_ok eq]
  have size: "fs_size id boot_mem 0x500000 = 12288" using ag(1,2) elf_fs_rd by (simp add: fs_size_def)
  show st: "stack_ok plain_env (blank_kernel boot_mem 0x500000)"
    by (auto simp: stack_ok_def plain_env_def blank_kernel_def size region_nowrap)
  have inode: "de_inode d = 0" by (simp add: d_def dentry_at_def elf_fs_def)
  show d: "read_dentry_by_name id boot_mem 0x500000 (Some (lit (bytes_of ''shell''))) = Some d"
    using lookup_agree [OF elf_fs_ok eq] elf_fs_lookup by (simp add: d_def)
  show i: "unat (de_inode d) < unat (rd32 id boot_mem (0x500000 + 4))" using ag(1) elf_fs_rd inode by simp
  show bs: "bs = file_bytes id boot_mem 0x500000 (de_inode d)" using ag(4) [of 0] elf_fs_rd inode by (simp add: bs_def)
qed

theorem boot_starts_shell_witness:
  "\<exists>g' t. entry boot_layout plain_env MULTIBOOT_BOOTLOADER_MAGIC 0x9000 boot_tables (blank_kernel boot_mem 0) =
     Some (Started (EnterUser 0x08048000), g', t) \<and> seg_base (tss_desc_ptr g') = 0x403000"
  using boot_starts_shell [OF boot_mem_ready(1-5) boot_mem_image(1) boot_mem_ready(6-9) elf_fs_magic(1), of boot_layout boot_tables]
  unfolding elf_fs_bytes(1) elf_fs_magic(2) by (auto simp: boot_layout_def)

section \<open>Refusing to start\<close>

text \<open>
  Without the boot loader's magic number nothing is set up: \<^verbatim>\<open>entry\<close> prints the number it got on a
  cleared screen and returns, with the descriptor tables untouched.
\<close>

theorem bad_magic_refused:
  assumes "magic \<noteq> MULTIBOOT_BOOTLOADER_MAGIC"
  shows "entry l e magic addr g s =
    Some (Refused, g, fold putc (bytes_of ''Invalid magic number: 0x'' @ hex_text True magic @ [10]) (clear s))"
proof -
  let ?f = "bytes_of ''Invalid magic number: 0x%#x'' @ [10]"
  have f: "0 \<notin> set ?f" "fmt_mode None ?f = None" "str_args None 0 ?f = []" by (simp_all add: bytes_of_def)
  have r: "render str args None 0 ?f = bytes_of ''Invalid magic number: 0x'' @ hex_text True (args 0) @ [10]" for str args
    by (simp add: bytes_of_def)
  have "printf rd (lit ?f) args s = Some (length ?f, fold putc (bytes_of ''Invalid magic number: 0x'' @ hex_text True (args 0) @ [10]) s)"
    for rd args and s :: kernel
    using printf_lit [OF f(1,2), of rd args "\<lambda>j. 0" s] unfolding f(3) r by simp
  then show ?thesis using assms by (simp add: entry_def kprintf_def Let_def del: append_Cons)
qed

theorem bad_magic_refused_witness:
  "entry boot_layout plain_env 0xE 0x9000 boot_tables (blank_kernel boot_mem 0) =
    Some (Refused, boot_tables, fold putc (bytes_of ''Invalid magic number: 0x0000000E'' @ [10]) (clear (blank_kernel boot_mem 0)))"
proof -
  have h: "hex_text True 0xE = bytes_of ''0000000E''" by code_simp
  have "bytes_of ''Invalid magic number: 0x'' @ bytes_of ''0000000E'' @ [10] = bytes_of ''Invalid magic number: 0x0000000E'' @ [10]"
    by (simp add: bytes_of_def)
  then show ?thesis
    using bad_magic_refused [where magic = "0xE" and l = boot_layout and e = plain_env and g = boot_tables]
    unfolding h by (simp only: MULTIBOOT_BOOTLOADER_MAGIC_def) simp
qed

text \<open>
  C26. The report of the memory map: for a map of any number of entries laid out as the boot loader's specification says (a size, a 64-bit base and length in
  little-endian order and a type, each entry beginning behind the bytes its predecessor's size announces), of the announced length and not in the
  video memory, the loop returns, and the screen is the one that printing the header and, for every entry in order, its size, base, type and length gives.
\<close>

theorem memory_map_printed:
  assumes "mmap_at (phys s) (mmap_addr (phys s) p) xs" "unat (mmap_length (phys s) p) = mmap_bytes xs"
    and "unat (mmap_addr (phys s) p) + mmap_bytes xs < 2 ^ 32" "apart (mmap_addr (phys s) p) (mmap_bytes xs)" "apart p 52"
    and "boot_screen s" "bit (mb_flags (phys s) p) 6"
  shows "show_mmap p s = Some (fold putc
    (bytes_of ''mmap_addr = 0x'' @ hex_text True (mmap_addr (phys s) p) @ bytes_of '', mmap_length = 0x'' @ hex_text False (mmap_length (phys s) p) @ [10] @
     concat (map mmap_text xs)) s)"
proof -
  let ?h = "bytes_of ''mmap_addr = 0x'' @ hex_text True (mmap_addr (phys s) p) @ bytes_of '', mmap_length = 0x'' @ hex_text False (mmap_length (phys s) p) @ [10]"
  let ?t = "fold putc ?h s"
  have "render (\<lambda>j. []) (\<lambda>k. if k < length [a, b] then [a, b] ! k else 0) None 0 (bytes_of ''mmap_addr = 0x%#x, mmap_length = 0x%x'' @ [10]) =
    bytes_of ''mmap_addr = 0x'' @ hex_text True a @ bytes_of '', mmap_length = 0x'' @ hex_text False b @ [10]" for a b by (simp add: bytes_of_def)
  then have k: "kprintf (bytes_of ''mmap_addr = 0x%#x, mmap_length = 0x%x'' @ [10]) [mmap_addr (phys s) p, mmap_length (phys s) p] s = Some ?t"
    unfolding kprintf_text [OF plain_formats(12)] by (simp only:)
  have t: "boot_screen ?t" "prints s ?t" using bootsink.put_all [OF assms(6)] by blast+
  note mb = prints_mb [OF t(2) assms(5)]
  have "mmap_loop p (mmap_addr (phys s) p) ?t = Some (fold putc (concat (map mmap_text xs)) ?t)"
  proof (rule mmap_loop_text [OF assms(5)])
    show "unat (mmap_addr (phys ?t) p + mmap_length (phys ?t) p) = unat (mmap_addr (phys s) p) + mmap_bytes xs"
      unfolding mb(5,6) using assms(2,3) by (simp add: unat_word_ariths)
  qed (use t(1) assms(3,4) mmap_at_prints [OF t(2) assms(1,4)] in simp_all)
  then show ?thesis using k assms(7) mb by (simp add: show_mmap_def CHECK_FLAG_bit)
qed

theorem memory_map_printed_witness:
  "show_mmap 0x9000 (blank_kernel ((\<lambda>a. 0)(0x9000 := 64, 0x902C := 24, 0x9031 := 0xA0, 0xA000 := 20, 0xA006 := 0x10, 0xA00D := 2, 0xA014 := 1)) 0) =
    Some (fold putc (bytes_of ''mmap_addr = 0x0000A000, mmap_length = 0x18'' @ [10] @ bytes_of '' size = 0x14,     base_addr = 0x0000000000100000'' @ [10] @
      bytes_of ''     type = 0x1,  length    = 0x0000000000000200'' @ [10])
      (blank_kernel ((\<lambda>a. 0)(0x9000 := 64, 0x902C := 24, 0x9031 := 0xA0, 0xA000 := 20, 0xA006 := 0x10, 0xA00D := 2, 0xA014 := 1)) 0))"
proof -
  let ?m = "(\<lambda>a. 0)(0x9000 := 64, 0x902C := 24, 0x9031 := 0xA0, 0xA000 := 20, 0xA006 := 0x10, 0xA00D := 2, 0xA014 := 1) :: mem"
  let ?x = "\<lparr>ent_size = 20, ent_base = 0x100000, ent_len = 0x200, ent_type = 1\<rparr>" and ?s = "blank_kernel ?m 0"
  have ph: "phys ?s = ?m" by (simp add: blank_kernel_def)
  have f: "mmap_addr ?m 0x9000 = 0xA000" "mmap_length ?m 0x9000 = 24" "bit (mb_flags ?m 0x9000) 6"
    by (simp_all add: mb_fields rd32_def le32_def buf_at_def)
  have n: "mmap_bytes [?x] = 24" by (simp add: mmap_bytes_def)
  have ap: "apart 0x9000 52" "apart 0xA000 24" by (auto simp: apart_def region_nowrap VIDEO_def)
  have at: "mmap_at ?m 0xA000 [?x]" by (simp add: rd32_def le32_def buf_at_def)
  have b: "boot_screen ?s"
    by (simp add: boot_screen_def blank_kernel_def console_ok_def cursor_def NUM_COLS_def NUM_ROWS_def)
  have w: "hex64 0x100000 = hex_text True 0 @ hex_text True 0x100000" "hex64 0x200 = hex_text True 0 @ hex_text True 0x200" by (simp_all add: hex64_def)
  have r: "replicate 7 x = [x, x, x, x, x, x, x]" "replicate 2 x = [x, x]" "replicate 5 x = [x, x, x, x, x]" "replicate 4 x = [x, x, x, x]" for x :: u8
    by (simp_all add: eval_nat_numeral)
  have h: "hex_text True 0 = bytes_of ''00000000''" "hex_text True 0x100000 = bytes_of ''00100000''" "hex_text True 0x200 = bytes_of ''00000200''"
    "hex_text False 20 = bytes_of ''14''" "hex_text False 1 = bytes_of ''1''" "hex_text True 0xA000 = bytes_of ''0000A000''" "hex_text False 24 = bytes_of ''18''"
    by (simp_all add: hex_text_def digit_string_def le_digits.simps itoa_lookup_def bytes_of_def Let_def r)
  have "mmap_text ?x = bytes_of '' size = 0x14,     base_addr = 0x0000000000100000'' @ [10] @ bytes_of ''     type = 0x1,  length    = 0x0000000000000200'' @ [10]"
    by (simp add: mmap_text_def w h bytes_of_def)
  moreover have "bytes_of ''mmap_addr = 0x'' @ hex_text True 0xA000 @ bytes_of '', mmap_length = 0x'' @ hex_text False 24 @ [10] =
    bytes_of ''mmap_addr = 0x0000A000, mmap_length = 0x18'' @ [10]" by (simp add: h bytes_of_def)
  ultimately show ?thesis
    using memory_map_printed [where s = ?s and p = "0x9000" and xs = "[?x]"] at f n ap b unfolding ph by (simp add: h bytes_of_def)
qed

end
