(* ===== verification/User_Support.thy ===== *)
theory User_Support
  imports Boot
begin

text \<open>
  The support library of the user programs, \<^verbatim>\<open>syscalls/ece391support.c\<close>. It repeats the string
  routines of the kernel, with unsigned characters; the theorems relate the two. Loops over
  unterminated strings have the value \<open>None\<close>.
\<close>

section \<open>The routines\<close>

partial_function (option) ece391_strlen_from :: "cbuf \<Rightarrow> u32 \<Rightarrow> u32 option" where
  "ece391_strlen_from s len = (if 0 \<noteq> s (unat len) then ece391_strlen_from s (len + 1) else Some len)"

definition ece391_strlen :: "cbuf \<Rightarrow> u32 option" where
  "ece391_strlen s = ece391_strlen_from s 0"

partial_function (option) ece391_strcpy :: "xlat \<Rightarrow> u32 \<Rightarrow> u32 \<Rightarrow> mem \<Rightarrow> mem option" where
  "ece391_strcpy tr dst src m =
     (if 0 \<noteq> m (tr src) then ece391_strcpy tr (dst + 1) (src + 1) (m(tr dst := m (tr src)))
      else Some (m(tr dst := m (tr src))))"

partial_function (option) ece391_strcmp_from :: "cbuf \<Rightarrow> cbuf \<Rightarrow> nat \<Rightarrow> int option" where
  "ece391_strcmp_from s1 s2 i =
     (if s1 i = s2 i then (if s1 i = 0 then Some 0 else ece391_strcmp_from s1 s2 (Suc i))
      else Some (uint (s1 i) - uint (s2 i)))"

definition ece391_strcmp :: "cbuf \<Rightarrow> cbuf \<Rightarrow> int option" where
  "ece391_strcmp s1 s2 = ece391_strcmp_from s1 s2 0"

text \<open>\<open>k\<close> is \<^verbatim>\<open>n - 1\<close>, the number of further characters that may be compared.\<close>

fun ece391_strncmp_loop :: "cbuf \<Rightarrow> cbuf \<Rightarrow> nat \<Rightarrow> nat \<Rightarrow> int" where
  "ece391_strncmp_loop s1 s2 i 0 = (if s1 i = s2 i then 0 else uint (s1 i) - uint (s2 i))"
| "ece391_strncmp_loop s1 s2 i (Suc k) =
     (if s1 i = s2 i then (if s1 i = 0 then 0 else ece391_strncmp_loop s1 s2 (Suc i) k)
      else uint (s1 i) - uint (s2 i))"

definition ece391_strncmp :: "cbuf \<Rightarrow> cbuf \<Rightarrow> u32 \<Rightarrow> int" where
  "ece391_strncmp s1 s2 n = (if 0 = n then 0 else ece391_strncmp_loop s1 s2 0 (unat n - 1))"

definition ece391_lookup :: "u8 list" where
  "ece391_lookup = bytes_of ''0123456789ABCDEFGHIJKLMNOPQRSTUVWXYZ'' @ [0]"

function ece391_strrev_loop :: "u8 list \<Rightarrow> int \<Rightarrow> int \<Rightarrow> u8 list" where
  "ece391_strrev_loop s beg e =
     (if beg < e then ece391_strrev_loop (s[nat e := s ! nat beg, nat beg := s ! nat e]) (beg + 1) (e - 1) else s)"
  by pat_completeness auto
termination by (relation "measure (\<lambda>(s, beg, e). nat (e - beg))") auto

declare ece391_strrev_loop.simps [simp del]

definition ece391_strrev :: "u8 list \<Rightarrow> u8 list" where
  "ece391_strrev s = (let e = int (length s) - 1 in if e \<le> 0 then s else ece391_strrev_loop s 0 e)"

partial_function (option) ece391_itoa_loop :: "u32 \<Rightarrow> u32 \<Rightarrow> u8 list \<Rightarrow> u8 list option" where
  "ece391_itoa_loop newval radix out =
     (if newval > 0
      then (if radix = 0 \<or> length ece391_lookup \<le> unat (newval mod radix) then None
            else ece391_itoa_loop (newval div radix) radix (out @ [ece391_lookup ! unat (newval mod radix)]))
      else Some out)"

definition ece391_itoa :: "u32 \<Rightarrow> u32 \<Rightarrow> u8 list option" where
  "ece391_itoa val radix = (if val = 0 then Some [48] else map_option ece391_strrev (ece391_itoa_loop val radix []))"

section \<open>The same as in the kernel\<close>

text \<open>Two partial functions with the same results are equal.\<close>

lemma option_le_antisym: "(\<And>r. x = Some r \<Longrightarrow> y = Some r) \<Longrightarrow> (\<And>r. y = Some r \<Longrightarrow> x = Some r) \<Longrightarrow> x = y"
  by (cases x; cases y) auto

lemma ece391_strlen_kernel: "ece391_strlen s = strlen s"
proof -
  have 1: "strlen_from s len = Some r" if "ece391_strlen_from s len = Some r" for len r
    by (rule ece391_strlen_from.raw_induct [OF _ that]) (subst strlen_from.simps, auto split: if_splits)
  have 2: "ece391_strlen_from s len = Some r" if "strlen_from s len = Some r" for len r
    by (rule strlen_from.raw_induct [OF _ that]) (subst ece391_strlen_from.simps, auto split: if_splits)
  show ?thesis unfolding ece391_strlen_def strlen_def by (rule option_le_antisym) (fact 1 2)+
qed

lemma ece391_strcpy_kernel: "ece391_strcpy tr d s m = strcpy tr d s m"
proof -
  have 1: "strcpy_from tr d s m = Some r" if "ece391_strcpy tr d s m = Some r" for d s m r
    by (rule ece391_strcpy.raw_induct [OF _ that]) (subst strcpy_from.simps, auto split: if_splits)
  have 2: "ece391_strcpy tr d s m = Some r" if "strcpy_from tr d s m = Some r" for d s m r
    by (rule strcpy_from.raw_induct [OF _ that]) (subst ece391_strcpy.simps, auto split: if_splits)
  show ?thesis unfolding strcpy_def by (rule option_le_antisym) (fact 1 2)+
qed

lemma ece391_strrev_kernel: "ece391_strrev s = strrev s"
proof -
  have "ece391_strrev_loop s b e = strrev_loop s b e" for s b e
  proof (induction s b e rule: ece391_strrev_loop.induct)
    case (1 s beg e)
    then show ?case by (subst ece391_strrev_loop.simps, subst strrev_loop.simps) simp
  qed
  moreover have "strrev_loop s 0 (int (length s) - 1) = s" if "int (length s) - 1 \<le> 0"
    using that by (subst strrev_loop.simps) simp
  ultimately show ?thesis by (simp add: ece391_strrev_def strrev_def Let_def)
qed

lemma ece391_itoa_kernel: "ece391_itoa val radix = itoa val radix"
proof -
  have l: "ece391_lookup = itoa_lookup" by (simp add: ece391_lookup_def itoa_lookup_def)
  have 1: "itoa_loop n radix out = Some r" if "ece391_itoa_loop n radix out = Some r" for n out r
    by (rule ece391_itoa_loop.raw_induct [OF _ that]) (subst itoa_loop.simps, auto simp: l word_neq_0_conv split: if_splits)
  have 2: "ece391_itoa_loop n radix out = Some r" if "itoa_loop n radix out = Some r" for n out r
    by (rule itoa_loop.raw_induct [OF _ that]) (subst ece391_itoa_loop.simps, auto simp: l word_neq_0_conv split: if_splits)
  have "ece391_itoa_loop val radix [] = itoa_loop val radix []" by (rule option_le_antisym) (fact 1 2)+
  moreover have "ece391_strrev = strrev" by (rule ext) (rule ece391_strrev_kernel)
  ultimately show ?thesis by (simp add: ece391_itoa_def itoa_def)
qed

lemma uint_u8_eq: "uint a - uint b = 0 \<longleftrightarrow> a = b" for a b :: u8
  by (auto simp: word_uint_eq_iff)

lemma ece391_strncmp_loop_kernel: "ece391_strncmp_loop s1 s2 i k = 0 \<longleftrightarrow> strncmp_loop s1 s2 i (Suc k) = 0"
proof (induction k arbitrary: i)
  case 0
  then show ?case using uint_u8_eq [of "s1 i" "s2 i"] sint_u8_eq [of "s1 i" "s2 i"] by auto
next
  case (Suc k)
  then show ?case
    using strncmp_loop.simps(2) [of s1 s2 i "Suc k"] uint_u8_eq [of "s1 i" "s2 i"] sint_u8_eq [of "s1 i" "s2 i"]
    by (auto simp del: strncmp_loop.simps)
qed

lemma ece391_strncmp_kernel: "ece391_strncmp s1 s2 n = 0 \<longleftrightarrow> strncmp s1 s2 (unat n) = 0"
  using ece391_strncmp_loop_kernel [of s1 s2 0 "unat n - 1"]
  by (cases "n = 0") (simp_all add: ece391_strncmp_def strncmp_def unat_gt_0)

lemma ece391_strcmp_from_zero:
  assumes "is_cstr (\<lambda>j. s1 (i + j)) m" and "is_cstr (\<lambda>j. s2 (i + j)) n"
  shows "\<exists>r. ece391_strcmp_from s1 s2 i = Some r \<and> (r = 0 \<longleftrightarrow> m = n \<and> (\<forall>j < n. s1 (i + j) = s2 (i + j)))"
  using assms
proof (induction m arbitrary: i n)
  case 0
  then have z: "s1 i = 0" "n = 0 \<longleftrightarrow> s2 i = 0" by (auto simp: is_cstr_def)
  then show ?case by (subst ece391_strcmp_from.simps) (auto simp: uint_0_iff)
next
  case (Suc m)
  have ne: "s1 i \<noteq> 0" using Suc.prems(1) by (auto simp: is_cstr_def)
  show ?case
  proof (cases "s1 i = s2 i")
    case True
    then obtain k where n: "n = Suc k" using Suc.prems(2) ne by (cases n) (auto simp: is_cstr_def)
    have "is_cstr (\<lambda>j. s1 (Suc i + j)) m" "is_cstr (\<lambda>j. s2 (Suc i + j)) k"
      using Suc.prems by (auto simp: is_cstr_def n)
    from Suc.IH [OF this] obtain r where r: "ece391_strcmp_from s1 s2 (Suc i) = Some r"
      "r = 0 \<longleftrightarrow> m = k \<and> (\<forall>j < k. s1 (Suc i + j) = s2 (Suc i + j))" by blast
    have "(\<forall>j < Suc k. s1 (i + j) = s2 (i + j)) \<longleftrightarrow> (\<forall>j < k. s1 (Suc i + j) = s2 (Suc i + j))"
      using True by (auto simp: less_Suc_eq_0_disj)
    then show ?thesis using r True ne by (subst ece391_strcmp_from.simps) (simp add: n)
  next
    case False
    have "n \<noteq> Suc m \<or> (\<exists>j < n. s1 (i + j) \<noteq> s2 (i + j))" using False by (cases n) (auto intro!: exI [of _ 0])
    moreover have "uint (s1 i) \<noteq> uint (s2 i)" using False by (simp add: word_uint_eq_iff)
    ultimately show ?thesis using False by (subst ece391_strcmp_from.simps) auto
  qed
qed

lemma ece391_strcmp_zero:
  assumes "is_cstr s1 m" and "is_cstr s2 n"
  shows "\<exists>r. ece391_strcmp s1 s2 = Some r \<and> (r = 0 \<longleftrightarrow> map s1 [0..<m] = map s2 [0..<n])"
proof -
  have "map s1 [0..<m] = map s2 [0..<n] \<longleftrightarrow> m = n \<and> (\<forall>j < n. s1 j = s2 j)" by (auto simp: list_eq_iff_nth_eq)
  then show ?thesis using ece391_strcmp_from_zero [of s1 0 m s2 n] assms by (simp add: ece391_strcmp_def)
qed

lemma small_char: "a < 128 \<Longrightarrow> sint a = uint a" for a :: u8
proof -
  assume "a < 128"
  then have "uint a < 128" "- 128 \<le> uint a" using order_trans [of "- 128" 0 "uint a"] by (simp_all add: word_less_alt)
  then show ?thesis by (simp add: sint_uint signed_take_bit_int_eq_self_iff)
qed

lemma ece391_strncmp_loop_ascii:
  "\<forall>j \<le> k. s1 (i + j) < 128 \<and> s2 (i + j) < 128 \<Longrightarrow> ece391_strncmp_loop s1 s2 i k = strncmp_loop s1 s2 i (Suc k)"
proof (induction k arbitrary: i)
  case 0
  then show ?case using small_char [of "s1 i"] small_char [of "s2 i"] by simp
next
  case (Suc k)
  have "ece391_strncmp_loop s1 s2 (Suc i) k = strncmp_loop s1 s2 (Suc i) (Suc k)" by (rule Suc.IH) (use Suc.prems in force)
  moreover have "sint (s1 i) = uint (s1 i)" "sint (s2 i) = uint (s2 i)" using Suc.prems [rule_format, of 0] small_char by simp_all
  ultimately show ?case using strncmp_loop.simps(2) [of s1 s2 i "Suc k"] by (simp del: strncmp_loop.simps)
qed

lemma ece391_strncmp_ascii: "\<forall>j < unat n. s1 j < 128 \<and> s2 j < 128 \<Longrightarrow> ece391_strncmp s1 s2 n = strncmp s1 s2 (unat n)"
proof (cases "n = 0")
  case False
  assume a: "\<forall>j < unat n. s1 j < 128 \<and> s2 j < 128"
  have n: "0 < unat n" using False by (simp add: unat_gt_0)
  then have "ece391_strncmp_loop s1 s2 0 (unat n - 1) = strncmp_loop s1 s2 0 (Suc (unat n - 1))"
    by (intro ece391_strncmp_loop_ascii) (use a in auto)
  then show ?thesis using False n by (simp add: ece391_strncmp_def strncmp_def)
qed (simp add: ece391_strncmp_def strncmp_def)

lemma ece391_strcmp_bounded:
  "is_cstr (\<lambda>j. s1 (i + j)) m \<Longrightarrow> m \<le> k \<Longrightarrow> ece391_strcmp_from s1 s2 i = Some (ece391_strncmp_loop s1 s2 i k)"
proof (induction k arbitrary: i m)
  case 0
  then show ?case by (subst ece391_strcmp_from.simps) (auto simp: is_cstr_def)
next
  case (Suc k)
  show ?case
  proof (cases m)
    case 0
    then have "s1 i = 0" using Suc.prems(1) by (simp add: is_cstr_def)
    then show ?thesis by (subst ece391_strcmp_from.simps) simp
  next
    case (Suc n)
    have "s1 i \<noteq> 0" using Suc.prems(1) Suc by (auto simp: is_cstr_def)
    moreover have "is_cstr (\<lambda>j. s1 (Suc i + j)) n" using Suc.prems(1) Suc by (auto simp: is_cstr_def)
    ultimately show ?thesis using Suc.IH [of "Suc i" n] Suc.prems(2) Suc by (subst ece391_strcmp_from.simps) auto
  qed
qed

text \<open>
  C16. The support library of the programs against the kernel's routines: length, copy, reversal and number conversion are the same functions. The
  bounded comparison calls the same strings equal, and is the same function on strings of bytes below 128; on other bytes the results differ, because the
  kernel compares signed characters. The unbounded comparison of a terminated string is the bounded one with any bound beyond the terminator.
\<close>

theorem support_library_agrees:
  "ece391_strlen s = strlen s \<and> ece391_strcpy tr d c m = strcpy tr d c m \<and> ece391_strrev bs = strrev bs \<and> ece391_itoa v radix = itoa v radix \<and>
   (ece391_strncmp s t n = 0 \<longleftrightarrow> strncmp s t (unat n) = 0) \<and>
   ((\<forall>j < unat n. s j < 128 \<and> t j < 128) \<longrightarrow> ece391_strncmp s t n = strncmp s t (unat n)) \<and>
   (is_cstr s k \<and> k < unat n \<longrightarrow> ece391_strcmp s t = Some (ece391_strncmp s t n))"
proof (intro conjI impI)
  assume "is_cstr s k \<and> k < unat n"
  then have "is_cstr (\<lambda>j. s (0 + j)) k" "k \<le> unat n - 1" "n \<noteq> 0" by auto
  then show "ece391_strcmp s t = Some (ece391_strncmp s t n)"
    using ece391_strcmp_bounded [of s 0 k "unat n - 1" t] by (simp add: ece391_strcmp_def ece391_strncmp_def)
qed (rule ece391_strlen_kernel ece391_strcpy_kernel ece391_strrev_kernel ece391_itoa_kernel ece391_strncmp_kernel ece391_strncmp_ascii; assumption?)+

theorem support_library_agrees_witness:
  "ece391_strncmp (lit (bytes_of ''ab'')) (lit (bytes_of ''ad'')) 3 = strncmp (lit (bytes_of ''ab'')) (lit (bytes_of ''ad'')) 3 \<and>
   ece391_strcmp (lit (bytes_of ''ab'')) (lit (bytes_of ''ad'')) = Some (ece391_strncmp (lit (bytes_of ''ab'')) (lit (bytes_of ''ad'')) 3)"
proof -
  have "\<forall>j < unat (3 :: u32). lit (bytes_of ''ab'') j < 128 \<and> lit (bytes_of ''ad'') j < 128"
    by (auto simp: lit_def bytes_of_def nth_Cons split: nat.splits)
  moreover have "is_cstr (lit (bytes_of ''ab'')) 2 \<and> 2 < unat (3 :: u32)" by (auto simp: is_cstr_def lit_def bytes_of_def nth_Cons split: nat.splits)
  ultimately show ?thesis
    using support_library_agrees [of "lit (bytes_of ''ab'')" _ _ _ _ _ _ _ "lit (bytes_of ''ad'')" 3 2] by simp
qed

end
