(* ===== verification/User_Calls.thy ===== *)
theory User_Calls
  imports User_Support
begin

text \<open>
  What the user programs share: the call wrappers of \<^verbatim>\<open>ece391syscall.S\<close>, \<^verbatim>\<open>fdputs\<close>, and the facts about what a
  program's writes do to the screen, the file system and the program's own memory. A program's buffer is an address of
  its own page, which it and the kernel reach through the page tables; \<open>lits\<close> gives the address of each string
  constant. \<open>None\<close> is a call that does not return or a loop that does not end.
\<close>

section \<open>System calls from a program\<close>

definition int80 :: "env \<Rightarrow> u32 \<Rightarrow> u32 \<Rightarrow> u32 \<Rightarrow> u32 \<Rightarrow> kernel \<Rightarrow> (int \<times> kernel) option" where
  "int80 e n b c d s = (case syscall_link e n b c d s of Some (Returned r, t) \<Rightarrow> Some (r, t) | _ \<Rightarrow> None)"

definition ece391_read :: "env \<Rightarrow> u32 \<Rightarrow> u32 \<Rightarrow> u32 \<Rightarrow> kernel \<Rightarrow> (int \<times> kernel) option" where
  "ece391_read e fdr buf n = int80 e 3 fdr buf n"

definition ece391_write :: "env \<Rightarrow> u32 \<Rightarrow> u32 \<Rightarrow> u32 \<Rightarrow> kernel \<Rightarrow> (int \<times> kernel) option" where
  "ece391_write e fdr buf n = int80 e 4 fdr buf n"

definition ece391_open :: "env \<Rightarrow> u32 \<Rightarrow> kernel \<Rightarrow> (int \<times> kernel) option" where
  "ece391_open e fname = int80 e 5 fname 0 0"

definition ece391_close :: "env \<Rightarrow> u32 \<Rightarrow> kernel \<Rightarrow> (int \<times> kernel) option" where
  "ece391_close e fdr = int80 e 6 fdr 0 0"

definition ece391_vidmap :: "env \<Rightarrow> u32 \<Rightarrow> kernel \<Rightarrow> (int \<times> kernel) option" where
  "ece391_vidmap e p = int80 e 8 p 0 0"

definition ece391_getargs :: "env \<Rightarrow> u32 \<Rightarrow> u32 \<Rightarrow> kernel \<Rightarrow> (int \<times> kernel) option" where
  "ece391_getargs e buf n = int80 e 7 buf n 0"

definition ece391_fdputs :: "env \<Rightarrow> u32 \<Rightarrow> u32 \<Rightarrow> kernel \<Rightarrow> kernel option" where
  "ece391_fdputs e fdr p s = do {
     n \<leftarrow> ece391_strlen (buf_at (xl s) (phys s) p);
     (r, s) \<leftarrow> ece391_write e fdr p n s;
     Some s }"

abbreviation msg :: "string \<Rightarrow> u8 list" where
  "msg str \<equiv> bytes_of str @ [10]"

text \<open>A message and a return value.\<close>

definition fail_with :: "env \<Rightarrow> u32 \<Rightarrow> int \<Rightarrow> kernel \<Rightarrow> (int \<times> kernel) option" where
  "fail_with e p r s = map_option (Pair r) (ece391_fdputs e 1 p s)"

section \<open>What the screen shows\<close>

text \<open>Printing depends on the console's variables and the video bytes only.\<close>

definition shown :: "'a console_scheme \<Rightarrow> int \<times> int \<times> u8 list \<times> int \<times> int \<times> u8 list" where
  "shown s = (screen_x s, screen_y s, tbuffer s, tbuf s, tflag s, map (\<lambda>i. phys s (VIDEO + of_nat i)) [0..<4002])"

lemma shown_eq:
  "shown s = shown t \<longleftrightarrow> screen_x s = screen_x t \<and> screen_y s = screen_y t \<and> tbuffer s = tbuffer t \<and> tbuf s = tbuf t \<and>
     tflag s = tflag t \<and> (\<forall>i < 4002. phys s (VIDEO + of_nat i) = phys t (VIDEO + of_nat i))"
  by (auto simp: shown_def)

lemma shown_console_ok: "shown s = shown t \<Longrightarrow> console_ok s = console_ok t"
  by (simp add: shown_eq console_ok_def cursor_def)

lemma shown_scroll:
  fixes s t :: "'a console_scheme"
  assumes "shown s = shown t" and "screen_y s \<le> 25"
  shows "shown (scroll s) = shown (scroll t)"
proof (cases "screen_y s = 25")
  case True
  then have t: "screen_y t = 25" using assms(1) by (simp add: shown_eq)
  have "phys (scroll s) (VIDEO + of_nat i) = phys (scroll t) (VIDEO + of_nat i)" if "i < 4002" for i
    using that assms(1) scroll_val [OF True, of i] scroll_val [OF t, of i] by (auto simp: shown_eq simp del: of_nat_add)
  then show ?thesis using assms(1) True t by (simp add: shown_eq scroll_y)
next
  case False
  then show ?thesis using assms by (simp add: shown_eq)
qed

lemma shown_update_cursor [simp]: "shown (update_cursor r c s) = shown s"
  by (simp add: shown_def)

lemma shown_store:
  fixes s t :: "'a console_scheme"
  assumes "shown s = shown t" and "0 \<le> k" "k < 2000"
  shows "shown (s\<lparr>phys := (phys s)(cell k := c, cell k + 1 := d), screen_x := x\<rparr>) =
    shown (t\<lparr>phys := (phys t)(cell k := c, cell k + 1 := d), screen_x := x\<rparr>)"
  using assms by (simp add: shown_eq)

lemma shown_move: "shown s = shown t \<Longrightarrow> shown (s\<lparr>screen_y := y, screen_x := x\<rparr>) = shown (t\<lparr>screen_y := y, screen_x := x\<rparr>)"
  by (simp add: shown_eq)

lemma shown_print:
  fixes s t :: "'a console_scheme"
  assumes "shown s = shown t" and ok: "console_ok s"
  shows "shown (putc_print c s) = shown (putc_print c t)"
proof (cases "tbuf s = 128")
  case True
  then show ?thesis using assms(1) by (simp add: putc_print_full shown_eq)
next
  case False
  let ?k = "NUM_COLS * screen_y s + screen_x s"
  define a where "a u = u\<lparr>phys := (phys u)(cell ?k := c, cell ?k + 1 := ATTRIB_YELLOW), screen_x := screen_x s + 1\<rparr>" for u :: "'a console_scheme"
  define b where "b u = (if NUM_COLS \<le> screen_x s + 1 then scroll ((a u)\<lparr>screen_y := screen_y s + 1, screen_x := 0\<rparr>) else a u)" for u
  have k: "0 \<le> ?k" "?k < 2000" using console_okD(1,2) [OF ok] by (simp_all add: cursor_def)
  have sa: "shown (a s) = shown (a t)" unfolding a_def by (rule shown_store [OF assms(1) k])
  have "shown (b s) = shown (b t)"
    using shown_scroll [OF shown_move [OF sa], of 0 "screen_y s + 1"] sa ok by (simp add: b_def console_simps)
  moreover have ph: "phys (putc_print c u) = phys (b u)" if "shown u = shown s" for u
    using that False by (auto simp: putc_print_def Let_def b_def a_def shown_eq)
  ultimately have "\<forall>i < 4002. phys (putc_print c s) (VIDEO + of_nat i) = phys (putc_print c t) (VIDEO + of_nat i)"
    using ph [of s] ph [of t] assms(1) by (simp add: shown_eq)
  moreover have "- 81 \<le> screen_x s" "screen_x s < 80" "0 \<le> screen_y s" "screen_y s < 25"
    using ok by (simp_all add: console_simps)
  ultimately show ?thesis
    using assms(1) False putc_print_cursor [of s c] putc_print_cursor [of t c] putc_print_line [of c s] putc_print_line [of c t]
    by (simp add: shown_eq)
qed

lemma shown_putc:
  fixes s t :: "'a console_scheme"
  assumes "shown s = shown t" and "console_ok s" and "c \<noteq> 8"
  shows "shown (putc c s) = shown (putc c t)"
proof (cases "c = 10 \<or> c = 13")
  case True
  let ?a = "\<lambda>u. u\<lparr>tflag := 0, screen_y := screen_y s + 1, screen_x := 0\<rparr>"
  have "shown (?a s) = shown (?a t)" using assms(1) by (simp add: shown_eq)
  from shown_scroll [OF this] have "shown (scroll (?a s)) = shown (scroll (?a t))" using assms(2) by (simp add: console_simps)
  then show ?thesis using True assms(1) by (simp add: putc_def putc_newline_def Let_def shown_eq)
next
  case False
  then show ?thesis using assms shown_print [of s t c] by (simp add: putc_def)
qed

lemma shown_fold:
  fixes s t :: "'a console_scheme"
  assumes "shown s = shown t" and "console_ok s" and "8 \<notin> set cs"
  shows "shown (fold putc cs s) = shown (fold putc cs t)"
  using assms
proof (induction cs arbitrary: s t)
  case (Cons c cs)
  then show ?case using shown_putc [of s t c] console_ok_putc [of s c] by simp
qed simp

section \<open>Programs that copy a stream to the screen\<close>

text \<open>
  The contract between a reader and a writer: what is written keeps the reader's state, and the state of the screen
  follows a reference \<open>r\<close> that receives the same output. A loop with the two laws at the end then copies everything.
\<close>

locale copy_program = stream_reader rd inv rest got
  for rd :: "'s \<Rightarrow> int \<times> 's" and inv :: "'s \<Rightarrow> bool" and rest :: "'s \<Rightarrow> 'a list" and got :: "'s \<Rightarrow> nat \<Rightarrow> 'a list" +
  fixes wr :: "int \<Rightarrow> 's \<Rightarrow> 's" and sim :: "'s \<Rightarrow> 'r \<Rightarrow> bool" and emit :: "'a list \<Rightarrow> 'r \<Rightarrow> 'r"
    and loop :: "'s \<Rightarrow> (int \<times> 's) option"
  assumes wr_inv: "inv s \<Longrightarrow> rest s \<noteq> [] \<Longrightarrow> rd s = (cnt, t) \<Longrightarrow> inv (wr cnt t) \<and> rest (wr cnt t) = rest t"
    and wr_sim: "inv s \<Longrightarrow> rest s \<noteq> [] \<Longrightarrow> rd s = (cnt, t) \<Longrightarrow> sim s r \<Longrightarrow> sim (wr cnt t) (emit (got t (nat cnt)) r)"
    and end_sim: "inv s \<Longrightarrow> rest s = [] \<Longrightarrow> sim s r \<Longrightarrow> sim (snd (rd s)) r"
    and emit_nil: "emit [] r = r"
    and emit_append: "emit (xs @ ys) r = emit ys (emit xs r)"
    and loop_end: "inv s \<Longrightarrow> rest s = [] \<Longrightarrow> loop s = Some (0, snd (rd s))"
    and loop_more: "inv s \<Longrightarrow> rest s \<noteq> [] \<Longrightarrow> loop s = loop (wr (fst (rd s)) (snd (rd s)))"
begin

lemma copies_all: "inv s \<Longrightarrow> sim s r \<Longrightarrow> \<exists>t. loop s = Some (0, t) \<and> sim t (emit (rest s) r)"
proof (induction "length (rest s)" arbitrary: s r rule: less_induct)
  case less
  show ?case
  proof (cases "rest s = []")
    case True
    then show ?thesis using less.prems end_sim loop_end emit_nil by auto
  next
    case False
    obtain cnt t where rd: "rd s = (cnt, t)" by fastforce
    note w = wr_inv [OF less.prems(1) False rd] and sm = wr_sim [OF less.prems(1) False rd less.prems(2)]
    have "length (rest (wr cnt t)) < length (rest s)" using w more_rest [OF less.prems(1) False] rd by simp
    from less.hyps [OF this conjunct1 [OF w] sm] obtain u where
      u: "loop (wr cnt t) = Some (0, u)" "sim u (emit (rest t) (emit (got t (nat cnt)) r))" using w by auto
    have "rest s = got t (nat cnt) @ rest t" using more_got [OF less.prems(1) False] rd by simp
    then show ?thesis using u loop_more [OF less.prems(1) False] rd emit_append by auto
  qed
qed

end

section \<open>Writing to the screen\<close>

definition stdout_ok :: "kernel \<Rightarrow> bool" where
  "stdout_ok s \<longleftrightarrow> console_ok s \<and> (\<exists>h. head s = Some h \<and> screen (procs s h) = indicator s) \<and>
     flags (fd s ! 1) \<noteq> 0 \<and> f_write (fotp (fd s ! 1)) = write_terminal"

definition off_screen :: "u32 \<Rightarrow> nat \<Rightarrow> kernel \<Rightarrow> bool" where
  "off_screen buf n s \<longleftrightarrow> xl s ` region buf n \<inter> region VIDEO 4002 = {} \<and>
     fs_image (xl s) (phys s) (FSYSTEM s) \<inter> region VIDEO 4002 = {}"

text \<open>Nothing a program can see of the file system differs.\<close>

definition same_files :: "kernel \<Rightarrow> kernel \<Rightarrow> bool" where
  "same_files s t \<longleftrightarrow> xl t = xl s \<and> FSYSTEM t = FSYSTEM s \<and> fd t = fd s \<and>
     (\<forall>a \<in> fs_image (xl s) (phys s) (FSYSTEM s). phys t a = phys s a)"

lemma same_files_image:
  assumes "same_files s t" and "fs_ok (xl s) (phys s) (FSYSTEM s)"
  shows "fs_image (xl t) (phys t) (FSYSTEM t) = fs_image (xl s) (phys s) (FSYSTEM s)"
    and "fs_ok (xl t) (phys t) (FSYSTEM t)" and "off_screen buf n t = off_screen buf n s"
    and "user_buf (xl t) (phys t) (FSYSTEM t) buf n = user_buf (xl s) (phys s) (FSYSTEM s) buf n"
    and "rd32 (xl t) (phys t) (FSYSTEM t + 4) = rd32 (xl s) (phys s) (FSYSTEM s + 4)"
proof -
  note e = assms(1) [unfolded same_files_def]
  have eq: "\<And>a. a \<in> fs_image (xl s) (phys s) (FSYSTEM s) \<Longrightarrow> phys t a = phys s a" using e by blast
  note ag = image_agree [OF assms(2) eq]
  show im: "fs_image (xl t) (phys t) (FSYSTEM t) = fs_image (xl s) (phys s) (FSYSTEM s)"
    and "fs_ok (xl t) (phys t) (FSYSTEM t)" "rd32 (xl t) (phys t) (FSYSTEM t + 4) = rd32 (xl s) (phys s) (FSYSTEM s + 4)"
    using ag(1,5,6) e by simp_all
  show "off_screen buf n t = off_screen buf n s"
    "user_buf (xl t) (phys t) (FSYSTEM t) buf n = user_buf (xl s) (phys s) (FSYSTEM s) buf n"
    using im e by (simp_all add: off_screen_def user_buf_def)
qed

lemma same_files_open:
  assumes sf: "same_files s t" and inv: "open_inv i buf cap s"
  shows "open_inv i buf cap t" and "file_rest i t = file_rest i s"
proof -
  have ok: "fs_ok (xl s) (phys s) (FSYSTEM s)" and n: "unat (inode (fd s ! i)) < unat (rd32 (xl s) (phys s) (FSYSTEM s + 4))"
    using inv by (simp_all add: open_inv_def file_inv_def)
  note e = sf [unfolded same_files_def] and im = same_files_image [OF sf ok]
  show "open_inv i buf cap t" using inv im(2,4,5) e by (simp add: open_inv_def file_inv_def)
  have "file_bytes (xl s) (phys t) (FSYSTEM s) (of_nat (unat (inode (fd s ! i)))) =
      file_bytes (xl s) (phys s) (FSYSTEM s) (of_nat (unat (inode (fd s ! i))))"
    by (rule image_agree(4) [OF ok _ n]) (use e in blast)
  then show "file_rest i t = file_rest i s" using e by (simp add: file_rest_def)
qed

lemma same_files_list:
  assumes sf: "same_files s t" and inv: "list_inv i buf s"
  shows "list_inv i buf t" and "dir_rest i t = dir_rest i s"
proof -
  have ok: "fs_ok (xl s) (phys s) (FSYSTEM s)" using inv by (simp add: list_inv_def dir_inv_def)
  note e = sf [unfolded same_files_def] and im = same_files_image [OF sf ok]
  show "list_inv i buf t" using inv im(2,4) e by (simp add: list_inv_def dir_inv_def)
  have eq: "\<And>a. a \<in> fs_image (xl s) (phys s) (FSYSTEM s) \<Longrightarrow> phys t a = phys s a" using e by blast
  have "entries (xl s) (phys t) (FSYSTEM s) = entries (xl s) (phys s) (FSYSTEM s)"
    using image_agree(3) [OF ok eq] by (simp add: entries_def)
  then show "dir_rest i t = dir_rest i s" using e entry_name_agree [OF ok eq] by (simp add: dir_rest_def)
qed

lemma same_files_print:
  assumes "off_screen buf n s" and "console_ok s" and "8 \<notin> set cs"
  shows "same_files s (fold putc cs s)" and "stdout_ok s \<Longrightarrow> stdout_ok (fold putc cs s)"
    and "a \<notin> region VIDEO 4002 \<Longrightarrow> phys (fold putc cs s) a = phys s a"
proof -
  let ?t = "fold putc cs s"
  have cc: "console_change s ?t" by (rule console_change_fold)
  have sk: "console_ok ?t \<and> video_only s ?t" by (rule sink.put_all) (use assms(2,3) in auto)
  have f: "FSYSTEM ?t = FSYSTEM s" "fd ?t = fd s" "head ?t = head s" "procs ?t = procs s" "indicator ?t = indicator s"
    by (subst console_change_eq [OF cc], simp)+
  show fr: "phys ?t a = phys s a" if "a \<notin> region VIDEO 4002" for a using sk that by (simp add: video_only_def)
  show "same_files s ?t"
    using assms(1) fr f console_change_paging(7) [OF cc] unfolding same_files_def off_screen_def by blast
  show "stdout_ok s \<Longrightarrow> stdout_ok ?t" using sk f by (simp add: stdout_ok_def)
qed

lemma write_prints:
  assumes out: "stdout_ok s" and buf: "buf \<noteq> 0" "off_screen buf k s" "n \<le> k" "k < 2 ^ 31" and c: "8 \<notin> set (file_buf buf s n)"
  shows "ece391_write e 1 buf (of_nat n) s = Some (0, fold putc (file_buf buf s n) s)"
proof -
  obtain h where h: "head s = Some h" "screen (procs s h) = indicator s" "console_ok s" using out by (auto simp: stdout_ok_def)
  have n: "nat (sint (of_nat n :: u32)) = n" using small_sint [of n] buf(3,4) by simp
  have "xl s (buf + of_nat i) \<notin> region VIDEO 4002" if "i < n" for i
    using buf(2,3) that region_memI [of i k buf] by (auto simp: off_screen_def)
  moreover have "phys s (xl s (buf + of_nat i)) \<noteq> 8" if "i < n" for i using c that by (auto simp: file_buf_def)
  ultimately have "\<forall>i < nat (sint (of_nat n :: u32)). xl s (buf + of_nat i) \<notin> region VIDEO 4002 \<and> phys s (xl s (buf + of_nat i)) \<noteq> 8"
    unfolding n by blast
  from terminal_write_ok [OF h this, of "irqs e"] have
    "terminal_write (irqs e) buf (sint (of_nat n :: u32)) s = Some (Returned 0, fold putc (file_buf buf s n) s)"
    unfolding n file_buf_def by blast
  then show ?thesis
    using out buf(1) by (simp add: ece391_write_def int80_def syscall_link_def sys_write_def stdout_ok_def)
qed

text \<open>The screens of a state and of the reference show the same.\<close>

definition same_screen :: "kernel \<Rightarrow> kernel \<Rightarrow> bool" where
  "same_screen s r \<longleftrightarrow> console_ok r \<and> shown s = shown r"

text \<open>A change that keeps the screen, the process and the file system, as a read into the program's buffer does.\<close>

definition quiet :: "nat \<Rightarrow> kernel \<Rightarrow> kernel \<Rightarrow> bool" where
  "quiet i s t \<longleftrightarrow> xl t = xl s \<and> FSYSTEM t = FSYSTEM s \<and> (\<forall>a \<in> region VIDEO 4002. phys t a = phys s a) \<and>
     fs_image (xl t) (phys t) (FSYSTEM t) = fs_image (xl s) (phys s) (FSYSTEM s) \<and>
     (screen_x t, screen_y t, tbuffer t, tbuf t, tflag t) = (screen_x s, screen_y s, tbuffer s, tbuf s, tflag s) \<and>
     head t = head s \<and> procs t = procs s \<and> indicator t = indicator s \<and> (i \<noteq> 1 \<longrightarrow> fd t ! 1 = fd s ! 1)"

lemma quiet_keeps:
  assumes "quiet i s t"
  shows "shown t = shown s" and "off_screen buf n t = off_screen buf n s" and "i \<noteq> 1 \<Longrightarrow> stdout_ok t = stdout_ok s"
proof -
  show sh: "shown t = shown s" using assms video_region [of _ 4002] by (auto simp: quiet_def shown_eq)
  have im: "fs_image (xl t) (phys t) (FSYSTEM t) = fs_image (xl s) (phys s) (FSYSTEM s)" and x: "xl t = xl s"
    using assms unfolding quiet_def by blast+
  show "off_screen buf n t = off_screen buf n s" unfolding off_screen_def im unfolding x ..
  show "i \<noteq> 1 \<Longrightarrow> stdout_ok t = stdout_ok s"
    using assms shown_console_ok [OF sh] by (simp add: quiet_def stdout_ok_def)
qed

text \<open>A store into the program's buffer.\<close>

lemma buffer_store:
  assumes ok: "fs_ok (xl s) (phys s) (FSYSTEM s)" and ub: "user_buf (xl s) (phys s) (FSYSTEM s) buf n"
    and off: "off_screen buf n s" and fr: "\<forall>a. a \<notin> xl s ` region buf n \<longrightarrow> m a = phys s a"
  shows "same_files s (s\<lparr>phys := m\<rparr>)" and "quiet i s (s\<lparr>phys := m\<rparr>)"
proof -
  have eq: "m a = phys s a" if "a \<in> fs_image (xl s) (phys s) (FSYSTEM s)" for a
    using fr ub that by (auto simp: user_buf_def)
  then show "same_files s (s\<lparr>phys := m\<rparr>)" by (simp add: same_files_def)
  have "\<forall>a \<in> region VIDEO 4002. m a = phys s a" using fr off by (auto simp: off_screen_def)
  moreover have "fs_image (xl s) m (FSYSTEM s) = fs_image (xl s) (phys s) (FSYSTEM s)" by (rule image_agree(5) [OF ok eq])
  ultimately show "quiet i s (s\<lparr>phys := m\<rparr>)" by (simp add: quiet_def)
qed

lemma xl_dt [simp]: "xl (s\<lparr>dt := d\<rparr>) = xl s" for s :: kernel
  by (rule xl_cong) simp_all

lemma quiet_open: "2 \<le> i \<Longrightarrow> quiet i s (s\<lparr>dt := d, fd := (fd s)[i := f]\<rparr>)"
  by (simp add: quiet_def)

definition print_buf :: "u32 \<Rightarrow> int \<Rightarrow> kernel \<Rightarrow> kernel" where
  "print_buf buf cnt t = fold putc (file_buf buf t (nat cnt)) t"

end
