(* ===== verification/User_Print.thy ===== *)
theory User_Print
  imports User_Calls
begin

text \<open>
  A program that prints its string constants and reads a typed line: the memory it owns (\<open>program\<close>), what its calls keep
  of it (\<open>keeps\<close>), and the results of \<^verbatim>\<open>fdputs\<close> and of \<^verbatim>\<open>read\<close> on the terminal. The lemmas are shared by the
  programs of \<^verbatim>\<open>src/syscalls\<close>.
\<close>

section \<open>The memory of a program\<close>

definition plain :: "u8 list \<Rightarrow> bool" where
  "plain c \<longleftrightarrow> 0 \<notin> set c \<and> 8 \<notin> set c \<and> length c < 1000"

definition const_at :: "(u8 list \<Rightarrow> u32) \<Rightarrow> u8 list \<Rightarrow> kernel \<Rightarrow> bool" where
  "const_at lits c s \<longleftrightarrow> lits c \<noteq> 0 \<and> xl s ` region (lits c) (length c + 1) \<inter> region VIDEO 4002 = {} \<and>
     (\<forall>j \<le> length c. phys s (xl s (lits c + of_nat j)) = (c @ [0]) ! j)"

text \<open>
  The constants \<open>cs\<close> and the buffer of \<open>n\<close> bytes at \<open>buf\<close> are apart from each other, from the screen and from the
  file system.
\<close>

definition program :: "(u8 list \<Rightarrow> u32) \<Rightarrow> u8 list list \<Rightarrow> u32 \<Rightarrow> nat \<Rightarrow> kernel \<Rightarrow> bool" where
  "program lits cs buf n s \<longleftrightarrow> stdout_ok s \<and> fd_ok s \<and> fs_ok (xl s) (phys s) (FSYSTEM s) \<and> off_screen buf n s \<and>
     user_buf (xl s) (phys s) (FSYSTEM s) buf n \<and>
     (\<forall>c \<in> set cs. plain c \<and> const_at lits c s \<and> xl s ` region (lits c) (length c + 1) \<inter> xl s ` region buf n = {})"

definition keeps :: "u32 \<Rightarrow> nat \<Rightarrow> kernel \<Rightarrow> kernel \<Rightarrow> bool" where
  "keeps buf n s t \<longleftrightarrow> console_change s t \<and> console_ok t \<and>
     (\<forall>a. a \<notin> region VIDEO 4002 \<and> a \<notin> xl s ` region buf n \<longrightarrow> phys t a = phys s a)"

lemma console_change_prog:
  assumes "console_change s t"
  shows "xl t = xl s" "FSYSTEM t = FSYSTEM s" "fd t = fd s" "head t = head s" "procs t = procs s" "indicator t = indicator s"
    "arg t = arg s" "ffotp t = ffotp s" "dfotp t = dfotp s" "rfotp t = rfotp s"
  by (rule console_change_paging(7) [OF assms]) (subst console_change_eq [OF assms], simp)+

lemma keeps_refl: "console_ok s \<Longrightarrow> keeps buf n s s"
  by (simp add: keeps_def console_change_refl)

lemma keeps_trans:
  assumes "keeps buf n s t" and "keeps buf n t u"
  shows "keeps buf n s u"
proof -
  have "console_change s t" using assms(1) by (simp add: keeps_def)
  from console_change_prog(1) [OF this] show ?thesis
    using assms console_change_trans [of s t u] by (auto simp: keeps_def)
qed

lemma keeps_print: "console_ok s \<Longrightarrow> 8 \<notin> set c \<Longrightarrow> keeps buf n s (fold putc c s)"
  using sink.put_all [of s c] console_change_fold [of s c] by (auto simp: keeps_def video_only_def)

lemma subset_disjoint: "A \<subseteq> B \<Longrightarrow> B \<inter> C = {} \<Longrightarrow> A \<inter> C = {}"
  by blast

lemma disjointD: "A \<inter> B = {} \<Longrightarrow> a \<in> A \<Longrightarrow> a \<notin> B"
  by blast

lemma off_screen_image: "off_screen buf n s \<Longrightarrow> fs_image (xl s) (phys s) (FSYSTEM s) \<inter> region VIDEO 4002 = {}"
  by (simp add: off_screen_def)

lemma user_buf_image: "user_buf (xl s) (phys s) (FSYSTEM s) buf n \<Longrightarrow> fs_image (xl s) (phys s) (FSYSTEM s) \<inter> xl s ` region buf n = {}"
  by (simp add: user_buf_def Int_commute)

lemma off_screen_sub: "xl s ` region p m \<inter> region VIDEO 4002 = {} \<Longrightarrow> fs_image (xl s) (phys s) (FSYSTEM s) \<inter> region VIDEO 4002 = {} \<Longrightarrow>
    k \<le> m \<Longrightarrow> off_screen p k s"
  unfolding off_screen_def by (meson disjoint_iff image_mono region_mono subsetD)

lemma keeps_files:
  assumes k: "keeps buf n s t" and "off_screen buf n s" and "user_buf (xl s) (phys s) (FSYSTEM s) buf n"
  shows "same_files s t"
proof -
  have cc: "console_change s t" using k by (simp add: keeps_def)
  have "phys t a = phys s a" if "a \<in> fs_image (xl s) (phys s) (FSYSTEM s)" for a
    using k that disjointD [OF off_screen_image [OF assms(2)]] disjointD [OF user_buf_image [OF assms(3)]] by (auto simp: keeps_def)
  then show ?thesis using console_change_prog [OF cc] by (simp add: same_files_def)
qed

lemma const_at_cong:
  assumes "const_at lits c s" and "xl t = xl s" and "\<And>a. a \<in> xl s ` region (lits c) (length c + 1) \<Longrightarrow> phys t a = phys s a"
  shows "const_at lits c t"
proof -
  have "phys t (xl s (lits c + of_nat j)) = phys s (xl s (lits c + of_nat j))" if "j \<le> length c" for j
    by (rule assms(3)) (use that region_memI [of j "length c + 1" "lits c"] in simp)
  then show ?thesis using assms(1,2) by (simp add: const_at_def)
qed

lemma program_keeps:
  assumes p: "program lits cs buf n s" and k: "keeps buf n s t"
  shows "program lits cs buf n t"
proof -
  have o: "stdout_ok s" "fd_ok s" "fs_ok (xl s) (phys s) (FSYSTEM s)" "off_screen buf n s" "user_buf (xl s) (phys s) (FSYSTEM s) buf n"
    using p by (simp_all add: program_def)
  have cc: "console_change s t" "console_ok t" using k by (simp_all add: keeps_def)
  note f = console_change_prog [OF cc(1)]
  note sf = keeps_files [OF k o(4,5)]
  note im = same_files_image [OF sf o(3)]
  have "stdout_ok t" using o(1) cc(2) f by (simp add: stdout_ok_def)
  moreover have "plain c \<and> const_at lits c t \<and> xl t ` region (lits c) (length c + 1) \<inter> xl t ` region buf n = {}" if "c \<in> set cs" for c
  proof -
    have c: "plain c" "const_at lits c s" "xl s ` region (lits c) (length c + 1) \<inter> xl s ` region buf n = {}"
      using p that by (simp_all add: program_def)
    have "phys t a = phys s a" if "a \<in> xl s ` region (lits c) (length c + 1)" for a
      using k that c(2,3) unfolding keeps_def const_at_def by blast
    from const_at_cong [OF c(2) f(1) this] show ?thesis using c f(1) by simp
  qed
  ultimately show ?thesis using o(2,4,5) im(2-4) f(3) by (simp add: program_def fd_ok_def)
qed

lemma program_fd:
  assumes "program lits cs buf n s" and "length f = 8" and "f ! 1 = fd s ! 1"
  shows "program lits cs buf n (s\<lparr>dt := d, fd := f\<rparr>)"
proof -
  have x: "xl (s\<lparr>dt := d, fd := f\<rparr>) = xl s" by (rule xl_cong) simp_all
  show ?thesis
    using assms unfolding program_def stdout_ok_def fd_ok_def off_screen_def const_at_def x by (simp add: console_simps)
qed

lemma shown_fd [simp]: "shown (s\<lparr>dt := d, fd := f\<rparr>) = shown s" for s :: kernel
  by (simp add: shown_def)

section \<open>Printing a string\<close>

lemma is_cstr_at:
  assumes "\<forall>j \<le> length c. phys s (xl s (p + of_nat j)) = (c @ [0]) ! j" and "0 \<notin> set c"
  shows "is_cstr (buf_at (xl s) (phys s) p) (length c)"
proof -
  have "c ! i \<noteq> 0" if "i < length c" for i using that assms(2) by (metis nth_mem)
  then show ?thesis using assms(1) by (auto simp: is_cstr_def buf_at_def nth_append)
qed

lemma puts_prints:
  assumes out: "stdout_ok s" and p: "p \<noteq> 0" "off_screen p (length c) s" "plain c"
    and at: "\<forall>j \<le> length c. phys s (xl s (p + of_nat j)) = (c @ [0]) ! j"
  shows "ece391_fdputs e 1 p s = Some (fold putc c s)"
proof -
  have c: "0 \<notin> set c" "8 \<notin> set c" "length c < 1000" using p(3) by (simp_all add: plain_def)
  have "ece391_strlen (buf_at (xl s) (phys s) p) = Some (of_nat (length c))"
    unfolding ece391_strlen_kernel by (rule is_cstr_strlen [OF is_cstr_at [OF at c(1)]]) (use c(3) in simp)
  moreover have fb: "file_buf p s (length c) = c"
    by (rule nth_equalityI) (simp_all add: file_buf_def at nth_append)
  ultimately show ?thesis
    using write_prints [OF out p(1,2) order_refl, of e] c by (simp add: ece391_fdputs_def)
qed

lemma program_puts:
  assumes "program lits cs buf n s" and "c \<in> set cs"
  shows "ece391_fdputs e 1 (lits c) s = Some (fold putc c s)"
proof -
  have c: "plain c" "const_at lits c s" "stdout_ok s" "fs_image (xl s) (phys s) (FSYSTEM s) \<inter> region VIDEO 4002 = {}"
    using assms by (simp_all add: program_def off_screen_def)
  note cc = c(2) [unfolded const_at_def, THEN conjunct1] c(2) [unfolded const_at_def, THEN conjunct2, THEN conjunct1]
    c(2) [unfolded const_at_def, THEN conjunct2, THEN conjunct2]
  have "off_screen (lits c) (length c) s"
    by (rule off_screen_sub [OF cc(2) c(4)]) simp
  from puts_prints [OF c(3) cc(1) this c(1) cc(3)] show ?thesis .
qed

lemma program_print: "program lits cs buf n s \<Longrightarrow> 8 \<notin> set c \<Longrightarrow> program lits cs buf n (fold putc c s)"
  by (rule program_keeps [where s = s]) (simp_all add: keeps_print program_def stdout_ok_def)

lemma program_say:
  assumes "program lits cs buf n s" and "c \<in> set cs"
  shows "ece391_fdputs e 1 (lits c) s = Some (fold putc c s)" and "program lits cs buf n (fold putc c s)"
    and "keeps buf n s (fold putc c s)" and "fail_with e (lits c) r s = Some (r, fold putc c s)"
proof -
  have c: "8 \<notin> set c" "console_ok s" using assms by (auto simp: program_def plain_def stdout_ok_def)
  show f: "ece391_fdputs e 1 (lits c) s = Some (fold putc c s)" by (rule program_puts [OF assms])
  show "program lits cs buf n (fold putc c s)" by (rule program_print [OF assms(1) c(1)])
  show "keeps buf n s (fold putc c s)" by (rule keeps_print [OF c(2,1)])
  show "fail_with e (lits c) r s = Some (r, fold putc c s)" using f by (simp add: fail_with_def)
qed

section \<open>Names in the file system\<close>

abbreviation lookup :: "kernel \<Rightarrow> u8 list \<Rightarrow> dentry_t option" where
  "lookup s c \<equiv> read_dentry_by_name (xl s) (phys s) (FSYSTEM s) (Some (lit c))"

lemma program_lookup:
  assumes "program lits cs buf n s" "c \<in> set cs" "length c \<le> 32"
  shows "read_dentry_by_name (xl s) (phys s) (FSYSTEM s) (c_string (lits c) s) = lookup s c"
proof -
  have c: "plain c" "const_at lits c s" using assms(1,2) by (simp_all add: program_def)
  have "is_cstr (buf_at (xl s) (phys s) (lits c)) (length c)"
    by (rule is_cstr_at) (use c in \<open>simp_all add: const_at_def plain_def\<close>)
  then have "cprefix 32 (buf_at (xl s) (phys s) (lits c)) = map (buf_at (xl s) (phys s) (lits c)) [0..<length c]"
    by (rule cprefix_is_cstr) (rule assms(3))
  also have "\<dots> = c" using c(2) by (intro nth_equalityI) (simp_all add: const_at_def buf_at_def nth_append)
  also have "\<dots> = cprefix 32 (lit c)" using c(1) assms(3) by (simp add: cprefix_lit plain_def)
  finally show ?thesis using c(2) by (simp add: c_string_def const_at_def lookup_name)
qed

lemma keeps_lookup:
  assumes p: "program lits cs buf n s" and k: "keeps buf n s t"
  shows "lookup t c = lookup s c"
proof -
  have o: "fs_ok (xl s) (phys s) (FSYSTEM s)" "off_screen buf n s" "user_buf (xl s) (phys s) (FSYSTEM s) buf n"
    using p by (simp_all add: program_def)
  have "console_change s t" using k by (simp add: keeps_def)
  note f = console_change_prog [OF this]
  have "read_dentry_by_name (xl s) (phys t) (FSYSTEM s) (Some (lit c)) = lookup s c"
    using keeps_files [OF k o(2,3)] by (intro lookup_agree [OF o(1)]) (simp add: same_files_def)
  then show ?thesis using f by simp
qed

lemma program_mono:
  assumes "program lits cs buf n s" "m \<le> n"
  shows "program lits cs buf m s"
proof -
  have r: "xl s ` region buf m \<subseteq> xl s ` region buf n" using region_mono [OF assms(2)] by blast
  have "off_screen buf m s" using assms(1) subset_disjoint [OF r] by (simp add: program_def off_screen_def)
  moreover have "user_buf (xl s) (phys s) (FSYSTEM s) buf m" using assms(1) by (intro user_buf_mono [OF _ assms(2)]) (simp add: program_def)
  moreover have "A \<inter> xl s ` region buf m = {}" if "A \<inter> xl s ` region buf n = {}" for A using that r by blast
  ultimately show ?thesis using assms(1) by (simp add: program_def)
qed

section \<open>Lines of a text\<close>

text \<open>The parts of a text between its line feeds; the last part has no line feed after it.\<close>

function lines :: "u8 list \<Rightarrow> u8 list list" where
  "lines F = (if 10 \<in> set F then takeWhile (\<lambda>c. c \<noteq> 10) F # lines (drop (Suc (length (takeWhile (\<lambda>c. c \<noteq> 10) F))) F) else [F])"
  by pat_completeness auto

termination
proof (relation "measure length")
  show "(drop (Suc (length (takeWhile (\<lambda>c. c \<noteq> 10) F))) F, F) \<in> measure length" if "10 \<in> set F" for F :: "u8 list"
    using that by (cases F) simp_all
qed simp

declare lines.simps [simp del]

lemma lines_no_newline: "l \<in> set (lines F) \<Longrightarrow> 10 \<notin> set l"
proof (induction F rule: lines.induct)
  case (1 F)
  let ?l = "takeWhile (\<lambda>c. c \<noteq> 10) F"
  have t: "10 \<notin> set ?l" using set_takeWhileD by force
  have "lines F = (if 10 \<in> set F then ?l # lines (drop (Suc (length ?l)) F) else [F])" by (rule lines.simps)
  then have "10 \<in> set F \<Longrightarrow> l = ?l \<or> l \<in> set (lines (drop (Suc (length ?l)) F))" "10 \<notin> set F \<Longrightarrow> l = F" using 1(2) by simp_all
  then show ?case using 1(1) t by blast
qed

section \<open>Reading a typed line\<close>

text \<open>The keys of a line: characters, no backspace, then Enter.\<close>

definition line_keys :: "bool \<Rightarrow> bool \<Rightarrow> u8 list \<Rightarrow> bool" where
  "line_keys sh cp zs \<longleftrightarrow> (\<forall>z \<in> set zs. z \<in> char_keys \<and> z \<noteq> 28 \<and> key_char sh cp z \<noteq> 8) \<and> length zs \<le> 127"

text \<open>The screen after the echo of the line: the reference the dialogues are compared with.\<close>

definition after_line :: "u8 list \<Rightarrow> kernel \<Rightarrow> kernel" where
  "after_line l s = (let r = fold putc (l @ [10]) (s\<lparr>tbuf := 0, tflag := 1\<rparr>) in r\<lparr>tbuffer := (tbuffer r)[length l := 10]\<rparr>)"

lemma shown_log [simp]: "shown (s\<lparr>io_log := l\<rparr>) = shown s"
  by (simp add: shown_def)

lemma video_only_log [simp]: "video_only (s\<lparr>io_log := l\<rparr>) t = video_only s t"
  by (simp add: video_only_def)

lemma line_keys_char: "line_keys sh cp zs \<Longrightarrow> z \<in> set zs \<Longrightarrow> key_char sh cp z \<notin> {8, 10, 13}"
  using key_char_line_end [of z] by (auto simp: line_keys_def)

lemma enter_key: "28 \<in> char_keys" "key_char sh cp 28 = 10"
proof -
  show e: "28 \<in> char_keys" by (simp add: char_keys_def known_key_def)
  show "key_char sh cp 28 = 10" using key_char_line_end [OF e] by simp
qed

lemma press_shown:
  assumes "no_modifier sh cp s" "console_ok s" "z \<in> char_keys" "key_char sh cp z \<noteq> 8"
  shows "shown (press_key z s) = shown (putc (key_char sh cp z) s)" "video_only s (press_key z s)"
proof -
  obtain l where l: "press_key z s = putc (key_char sh cp z) (s\<lparr>io_log := l\<rparr>)" using keyb.press_putc [OF assms(1,3)] by blast
  show "shown (press_key z s) = shown (putc (key_char sh cp z) s)"
    unfolding l by (rule shown_putc) (use assms(2,4) in simp_all)
  show "video_only s (press_key z s)"
    unfolding l using putc_video_only [of "s\<lparr>io_log := l\<rparr>"] assms(2,4) by simp
qed

lemma keys_shown:
  fixes s r :: kernel
  assumes "no_modifier sh cp s" "console_ok s" "tflag s \<noteq> 0" "\<forall>z \<in> set zs. z \<in> char_keys \<and> key_char sh cp z \<notin> {8, 10, 13}"
    and "await (\<lambda>s. tflag s = 0) (map press_key (zs @ [28])) s = Some t" and "shown s = shown r"
  shows "shown t = shown (fold putc (map (key_char sh cp) zs @ [10]) r)" "video_only s t"
proof -
  have "shown t = shown (fold putc (map (key_char sh cp) zs @ [10]) r) \<and> video_only s t"
    using assms
  proof (induction zs arbitrary: s r)
    case Nil
    note en = enter_key(1) enter_key(2) [of sh cp]
    have "tflag (press_key 28 s) = 0" using keyb.press_step(4) [OF Nil.prems(1) en(1) Nil.prems(2,3)] en(2) Nil.prems(3)
      by (simp add: editing_def)
    then have "t = press_key 28 s" using Nil.prems(3,5) by simp
    then show ?case
      using press_shown [OF Nil.prems(1,2) en(1)] en(2) shown_putc [OF Nil.prems(6,2), of 10] by simp
  next
    case (Cons z zs)
    have z: "z \<in> char_keys" "key_char sh cp z \<notin> {8, 10, 13}" using Cons.prems(4) by simp_all
    note st = keyb.press_step [OF Cons.prems(1) z(1) Cons.prems(2,3)] and sh = press_shown [OF Cons.prems(1,2) z(1)]
    have fl: "tflag (press_key z s) \<noteq> 0" using st(4) z(2) Cons.prems(3) by (auto simp: editing_def split: if_splits)
    have aw: "await (\<lambda>s. tflag s = 0) (map press_key (zs @ [28])) (press_key z s) = Some t" using Cons.prems(3,5) by simp
    have "shown (press_key z s) = shown (putc (key_char sh cp z) r)"
      using sh(1) z(2) shown_putc [OF Cons.prems(6,2), of "key_char sh cp z"] by simp
    from Cons.IH [OF st(2,3) fl _ aw this] Cons.prems(4) have
      "shown t = shown (fold putc (map (key_char sh cp) zs @ [10]) (putc (key_char sh cp z) r)) \<and> video_only (press_key z s) t" by simp
    then show ?case using sh(2) z(2) by (auto simp: video_only_def)
  qed
  then show "shown t = shown (fold putc (map (key_char sh cp) zs @ [10]) r)" "video_only s t" by blast+
qed

lemma edit_line:
  "\<forall>z \<in> set zs. ch z \<notin> {8, 10, 13} \<Longrightarrow> length l + length zs \<le> 127 \<Longrightarrow>
    fold (\<lambda>z. edit (ch z)) zs (l, True) = (l @ map ch zs, True)"
proof (induction zs arbitrary: l)
  case (Cons z zs)
  then show ?case using Cons.IH [of "l @ [ch z]"] by simp
qed simp

definition stdin_ok :: "kernel \<Rightarrow> bool" where
  "stdin_ok s \<longleftrightarrow> flags (fd s ! 0) \<noteq> 0 \<and> f_read (fotp (fd s ! 0)) = read_terminal"

lemma store_line_frame:
  assumes "a \<notin> tr ` region p 129" and "length l \<le> 128"
  shows "((store_bytes tr p l (byte_fill tr 129 p 0 m))(tr (p + of_nat (length l)) := 10)) a = m a"
proof -
  have "a \<notin> tr ` region p (length l)" using assms region_mono [of "length l" 129 p] by auto
  moreover have "tr (p + of_nat (length l)) \<in> tr ` region p 129" by (intro imageI region_memI) (use assms(2) in simp)
  ultimately show ?thesis using assms(1) by (auto simp: store_bytes_frame byte_fill_zero)
qed

text \<open>
  A line typed while the program reads from the terminal: what the call returns, what the buffer holds, that nothing but
  the buffer's 129 bytes and the screen changed, and that the screen shows the echo.
\<close>

lemma typed_read:
  assumes nm: "no_modifier sh cp s" and ok: "console_ok s" and fd0: "stdin_ok s" and zs: "line_keys sh cp zs"
    and e: "irqs e = map press_key (zs @ [28])" and n: "length zs \<le> n" "n < 2 ^ 31"
    and buf: "buf \<noteq> 0" "inj_on (xl s) (region buf 129)" "off_screen buf 129 s"
  obtains u where "ece391_read e 0 buf (of_nat n) s = Some (int (length zs) + 1, u)" "keeps buf 129 s u"
    "\<forall>j < 129. phys u (xl s (buf + of_nat j)) = padded (map (key_char sh cp) zs @ [10]) j"
    "shown u = shown (after_line (map (key_char sh cp) zs) s)"
proof -
  let ?l = "map (key_char sh cp) zs" and ?s = "s\<lparr>tbuf := 0, tflag := 1\<rparr>"
  have cc: "console_change s ?s" by (simp add: console_change_def)
  have ok': "console_ok ?s" using ok by (auto simp: console_simps)
  have nm': "no_modifier sh cp ?s" by (rule keyb.ready_output [OF nm cc])
  have z: "\<forall>z \<in> set zs. z \<in> char_keys \<and> key_char sh cp z \<notin> {10, 13}" "\<forall>z \<in> set zs. z \<in> char_keys \<and> key_char sh cp z \<notin> {8, 10, 13}"
    and len: "length zs \<le> 127" using line_keys_char [OF zs] zs by (auto simp: line_keys_def)
  obtain t where t: "await (\<lambda>s. tflag s = 0) (map press_key (zs @ [28])) ?s = Some t" "console_change ?s t" "console_ok t"
    "line t = fst (fold (\<lambda>k. edit (key_char sh cp k)) zs (editing ?s))"
    using keyb.typing [OF nm' ok' _ z(1) enter_key] by auto
  have "fold (\<lambda>k. edit (key_char sh cp k)) zs (editing ?s) = (?l, True)"
    using edit_line [of zs "key_char sh cp" "[]"] z(2) len by (simp add: editing_def line_def)
  then have lt: "line t = ?l" using t(4) by simp
  have tb: "tbuf t = int (length zs)" using length_line [OF t(3)] console_okD(3) [OF t(3)] unfolding lt by simp
  have ct: "console_change s t" by (rule console_change_trans [OF cc t(2)])
  have x: "xl t = xl s" by (rule console_change_prog(1) [OF ct])
  note ks = keys_shown [OF nm' ok' _ z(2) t(1) refl]
  let ?m = "(store_bytes (xl s) buf ?l (byte_fill (xl s) 129 buf 0 (phys t)))(xl s (buf + of_nat (length ?l)) := 10)"
  let ?u = "t\<lparr>phys := ?m, tbuffer := (tbuffer t)[length ?l := 10]\<rparr>"
  have x': "xl (t\<lparr>phys := a, tbuffer := b\<rparr>) = xl s" for a b using x by (subst xl_cong [of _ t]) simp_all
  have "take (nat (tbuf t)) ((tbuffer t)[nat (tbuf t) := 10]) = ?l" using lt by (simp add: line_def)
  then have "terminal_read (irqs e) buf (int n) s = Some (int (length zs) + 1, ?u)"
    unfolding terminal_read_def e t(1) using tb len n(1) by (simp add: Let_def x x')
  then have rd: "ece391_read e 0 buf (of_nat n) s = Some (int (length zs) + 1, ?u)"
    using fd0 buf(1) small_sint [OF n(2)] by (simp add: ece391_read_def int80_def syscall_link_def sys_read_def stdin_ok_def)
  have fr: "?m a = phys t a" if "a \<notin> xl s ` region buf 129" for a
    by (rule store_line_frame [OF that]) (use len in simp)
  have "console_change t ?u" by (simp add: console_change_def)
  then have "console_change s ?u" by (rule console_change_trans [OF ct])
  moreover have "console_ok ?u" using t(3) by (simp add: console_simps)
  moreover have "video_only ?s t" by (rule ks(2)) simp
  ultimately have k: "keeps buf 129 s ?u" using fr by (simp add: keeps_def video_only_def)
  have v: "\<forall>j < 129. phys ?u (xl s (buf + of_nat j)) = padded (?l @ [10]) j"
    using store_line [OF buf(2), of ?l] len by simp
  have "a \<in> region VIDEO 4002 \<Longrightarrow> ?m a = phys t a" for a
    using fr disjointD [OF buf(3) [unfolded off_screen_def, THEN conjunct1]] by blast
  then have "\<forall>i < 4002. ?m (VIDEO + of_nat i) = phys t (VIDEO + of_nat i)" using region_memI [of _ 4002 VIDEO] by blast
  moreover have "shown t = shown (fold putc (?l @ [10]) ?s)" by (rule ks(1)) simp
  ultimately have "shown ?u = shown (after_line ?l s)" by (simp add: shown_eq after_line_def Let_def)
  from that [OF rd k v this] show thesis .
qed

section \<open>A layout of the constants\<close>

text \<open>Each constant in a slot of 64 bytes from \<open>base\<close> on, used for concrete programs.\<close>

definition const_addr :: "u32 \<Rightarrow> u8 list list \<Rightarrow> u8 list \<Rightarrow> u32" where
  "const_addr base cs c = base + of_nat (64 * length (takeWhile (\<lambda>x. x \<noteq> c) cs))"

definition const_mem :: "u32 \<Rightarrow> u8 list list \<Rightarrow> mem \<Rightarrow> mem" where
  "const_mem base cs m a = (let k = unat (a - base) in if k < 64 * length cs then padded (cs ! (k div 64)) (k mod 64) else m a)"

lemma const_slot:
  assumes "c \<in> set cs" and "j < 64" and "64 * length cs < 2 ^ 32"
  shows "const_addr base cs c + of_nat j \<in> region base (64 * length cs)"
    and "const_mem base cs m (const_addr base cs c + of_nat j) = padded c j"
proof -
  let ?i = "length (takeWhile (\<lambda>x. x \<noteq> c) cs)"
  have i: "?i < length cs" using assms(1) by (induction cs) auto
  have "cs ! ?i = c" using nth_length_takeWhile [OF i] by simp
  moreover have k: "64 * ?i + j < 64 * length cs" using i assms(2) by linarith
  moreover have a: "const_addr base cs c + of_nat j = base + of_nat (64 * ?i + j)" by (simp add: const_addr_def)
  moreover have "unat (of_nat (64 * ?i + j) :: u32) = 64 * ?i + j" using k assms(3) by (simp add: unat_of_nat del: of_nat_add)
  moreover have "(64 * ?i + j) div 64 = ?i" "(64 * ?i + j) mod 64 = j" using assms(2) by simp_all
  ultimately show "const_mem base cs m (const_addr base cs c + of_nat j) = padded c j"
    by (simp add: const_mem_def Let_def del: of_nat_add)
  show "const_addr base cs c + of_nat j \<in> region base (64 * length cs)" unfolding a by (rule region_memI [OF k])
qed

lemma const_layout:
  assumes c: "c \<in> set cs" "length c < 64" "64 * length cs < 2 ^ 32" and s: "\<forall>a \<in> region base (64 * length cs). xl s a = a" "phys s = const_mem base cs m"
    and off: "region base (64 * length cs) \<inter> region VIDEO 4002 = {}" "0 \<notin> region base (64 * length cs)"
  shows "const_at (const_addr base cs) c s" and "xl s ` region (const_addr base cs c) (length c + 1) \<subseteq> region base (64 * length cs)"
proof -
  have sub: "region (const_addr base cs c) (length c + 1) \<subseteq> region base (64 * length cs)"
    using const_slot(1) [OF c(1) _ c(3)] c(2) by (auto simp: region_def)
  then show im: "xl s ` region (const_addr base cs c) (length c + 1) \<subseteq> region base (64 * length cs)" using s(1) by fastforce
  have "const_addr base cs c \<in> region base (64 * length cs)" using const_slot(1) [OF c(1) _ c(3), of 0] by simp
  then have "const_addr base cs c \<noteq> 0" using off(2) by metis
  moreover have "phys s (xl s (const_addr base cs c + of_nat j)) = (c @ [0]) ! j" if "j \<le> length c" for j
    using const_slot [OF c(1) _ c(3), of j] that c(2) s by (auto simp: padded_def nth_append)
  ultimately show "const_at (const_addr base cs) c s" using im off(1) unfolding const_at_def by blast
qed

text \<open>The layout in one page, the constants from \<^verbatim>\<open>0x601000\<close> and the buffer at \<^verbatim>\<open>0x600000\<close>.\<close>

lemma layout_program:
  assumes s: "phys s = const_mem 0x601000 cs m" "\<forall>a. 0x400000 \<le> a \<and> a < 0x800000 \<longrightarrow> xl s a = a" "stdout_ok s" "fd_ok s"
    and fs: "fs_ok (xl s) (phys s) (FSYSTEM s)" "FSYSTEM s = 0x500000" "fs_size (xl s) (phys s) (FSYSTEM s) = 12288"
    and cs: "length cs \<le> 64" "\<forall>c \<in> set cs. length c < 64 \<and> plain c" and n: "n \<le> 4096"
  shows "program (const_addr 0x601000 cs) cs 0x600000 n s"
proof (rule program_mono [OF _ n])
  have r: "region 0x601000 (64 * length cs) \<subseteq> region 0x601000 4096" by (rule region_mono) (use cs(1) in simp)
  have id: "xl s ` region a n = region a n" if "0x400000 \<le> unat a" "unat a + n \<le> 0x800000" for a n
  proof -
    have "xl s x = x" if "x \<in> region a n" for x
      using that s(2) region_nowrap [of a n x] \<open>0x400000 \<le> unat a\<close> \<open>unat a + n \<le> 0x800000\<close>
      by (simp add: word_le_nat_alt word_less_nat_alt)
    then show ?thesis by force
  qed
  have d: "region 0x601000 4096 \<inter> region VIDEO 4002 = {}" "region 0x601000 4096 \<inter> region 0x600000 4096 = {}" "0 \<notin> region 0x601000 4096"
    "region 0x600000 4096 \<inter> region VIDEO 4002 = {}" "region 0x600000 4096 \<inter> region 0x500000 12288 = {}" "region 0x500000 12288 \<inter> region VIDEO 4002 = {}"
    by (auto simp: region_nowrap VIDEO_def)
  have im: "fs_image (xl s) (phys s) (FSYSTEM s) = region 0x500000 12288" using fs(3) unfolding fs_image_def fs(2) by (simp add: id)
  have buf: "xl s ` region 0x600000 4096 = region 0x600000 4096" by (rule id) simp_all
  have "inj_on (xl s) (region 0x600000 4096)" by (rule inj_onI) (use s(2) in \<open>auto simp: region_nowrap word_le_nat_alt word_less_nat_alt\<close>)
  then have "user_buf (xl s) (phys s) (FSYSTEM s) 0x600000 4096" "off_screen 0x600000 4096 s"
    using d unfolding user_buf_def off_screen_def im buf by simp_all
  moreover have "const_at (const_addr 0x601000 cs) c s \<and>
      xl s ` region (const_addr 0x601000 cs c) (length c + 1) \<inter> xl s ` region 0x600000 4096 = {}" if c: "c \<in> set cs" for c
  proof -
    have "\<forall>a \<in> region 0x601000 (64 * length cs). xl s a = a"
      using s(2) r by (auto simp: region_nowrap word_le_nat_alt word_less_nat_alt dest!: subsetD [OF r])
    moreover have "region 0x601000 (64 * length cs) \<inter> region VIDEO 4002 = {}" "0 \<notin> region 0x601000 (64 * length cs)"
      and bd: "region 0x601000 (64 * length cs) \<inter> region 0x600000 4096 = {}" using subset_disjoint [OF r] d(1-3) r by auto
    moreover have "length c < 64" "64 * length cs < 2 ^ 32" using cs c by simp_all
    ultimately have cl: "const_at (const_addr 0x601000 cs) c s"
      "xl s ` region (const_addr 0x601000 cs c) (length c + 1) \<subseteq> region 0x601000 (64 * length cs)"
      using const_layout [OF c] s(1) by simp_all
    show ?thesis unfolding buf using cl(1) subset_disjoint [OF cl(2) bd] by blast
  qed
  ultimately show "program (const_addr 0x601000 cs) cs 0x600000 4096 s" using s(3,4) fs(1) cs(2) by (simp add: program_def)
qed

end
