(* ===== verification/User_Programs.thy ===== *)
theory User_Programs
  imports User_Calls
begin

text \<open>
  User programs on the kernel: \<^verbatim>\<open>syscalls/ece391cat.c\<close> and \<^verbatim>\<open>ece391ls.c\<close>, each a loop that copies what a file
  descriptor delivers to the screen.
\<close>

section \<open>cat\<close>

partial_function (option) cat_loop :: "env \<Rightarrow> (u8 list \<Rightarrow> u32) \<Rightarrow> u32 \<Rightarrow> u32 \<Rightarrow> kernel \<Rightarrow> (int \<times> kernel) option" where
  "cat_loop e lits buf fdr s =
     Option.bind (ece391_read e fdr buf 1024 s) (\<lambda>(cnt, s).
       if cnt = 0 then Some (0, s)
       else if cnt = -1 then fail_with e (lits (bytes_of ''file read failed'' @ [10])) 3 s
       else Option.bind (ece391_write e 1 buf (word_of_int cnt) s) (\<lambda>(r, s).
         if r = -1 then Some (3, s) else cat_loop e lits buf fdr s))"

definition cat_main :: "env \<Rightarrow> (u8 list \<Rightarrow> u32) \<Rightarrow> u32 \<Rightarrow> kernel \<Rightarrow> (int \<times> kernel) option" where
  "cat_main e lits buf s = do {
     (r, s) \<leftarrow> ece391_getargs e buf 1024 s;
     if r \<noteq> 0 then fail_with e (lits (bytes_of ''could not read arguments'' @ [10])) 3 s
     else do {
       (fdr, s) \<leftarrow> ece391_open e buf s;
       if fdr = -1 then fail_with e (lits (bytes_of ''file not found'' @ [10])) 2 s
       else cat_loop e lits buf (word_of_int fdr) s } }"

section \<open>ls\<close>

partial_function (option) ls_loop :: "env \<Rightarrow> (u8 list \<Rightarrow> u32) \<Rightarrow> u32 \<Rightarrow> u32 \<Rightarrow> kernel \<Rightarrow> (int \<times> kernel) option" where
  "ls_loop e lits buf fdr s =
     Option.bind (ece391_read e fdr buf 32 s) (\<lambda>(cnt, s).
       if cnt = 0 then Some (0, s)
       else if cnt = -1 then fail_with e (lits (bytes_of ''directory entry read failed'' @ [10])) 3 s
       else Option.bind (ece391_write e 1 buf (word_of_int (cnt + 1)) (s\<lparr>phys := (phys s)(xl s (buf + word_of_int cnt) := 10)\<rparr>)) (\<lambda>(r, s).
         if r = -1 then Some (3, s) else ls_loop e lits buf fdr s))"

definition ls_main :: "env \<Rightarrow> (u8 list \<Rightarrow> u32) \<Rightarrow> u32 \<Rightarrow> kernel \<Rightarrow> (int \<times> kernel) option" where
  "ls_main e lits buf s = do {
     (fdr, s) \<leftarrow> ece391_open e (lits (bytes_of ''.'')) s;
     if fdr = -1 then fail_with e (lits (bytes_of ''directory open failed'' @ [10])) 2 s
     else ls_loop e lits buf (word_of_int fdr) s }"

section \<open>cat prints the file\<close>

lemma quiet_file_read:
  assumes inv: "open_inv i buf cap s" and n: "n \<le> cap" and off: "off_screen buf cap s"
  shows "quiet i s (snd (file_read i buf (of_nat n) s))"
proof -
  let ?t = "snd (file_read i buf (of_nat n) s)"
  let ?m = "snd (read_data (xl s) (FSYSTEM s) (inode (fd s ! i)) (fposition (fd s ! i)) buf (of_nat n) (phys s))"
  obtain f where t: "?t = s\<lparr>phys := ?m, fd := (fd s)[i := f]\<rparr>" by (simp add: file_read_def Let_def case_prod_unfold)
  have ok: "fs_ok (xl s) (phys s) (FSYSTEM s)" and cap: "cap < 2 ^ 32" and ub: "user_buf (xl s) (phys s) (FSYSTEM s) buf cap"
    using inv by (simp_all add: open_inv_def file_inv_def)
  have "unat (of_nat n :: u32) = n" using n cap by (simp add: unat_of_nat)
  then have fr: "?m a = phys s a" if "a \<notin> xl s ` region buf cap" for a
  proof -
    have "a \<notin> xl s ` region buf n" using that region_mono [OF n, of buf] by blast
    then show ?thesis using \<open>unat (of_nat n :: u32) = n\<close> by (intro read_data_frame) simp
  qed
  have x: "xl ?t = xl s" unfolding t by (rule xl_cong) simp_all
  have "?m a = phys s a" if "a \<in> fs_image (xl s) (phys s) (FSYSTEM s)" for a
    using fr [of a] ub that by (auto simp: user_buf_def)
  from image_agree(5) [OF ok this] have "fs_image (xl s) ?m (FSYSTEM s) = fs_image (xl s) (phys s) (FSYSTEM s)" .
  moreover have "\<forall>a \<in> region VIDEO 4002. ?m a = phys s a" using fr off by (auto simp: off_screen_def)
  ultimately show ?thesis unfolding quiet_def x unfolding t by simp
qed

definition cat_inv :: "nat \<Rightarrow> u32 \<Rightarrow> kernel \<Rightarrow> bool" where
  "cat_inv i buf s \<longleftrightarrow> open_inv i buf 1024 s \<and> i \<noteq> 1 \<and> stdout_ok s \<and> off_screen buf 1024 s \<and> 8 \<notin> set (file_rest i s)"

lemma cat_read:
  assumes "cat_inv i buf s"
  shows "ece391_read e (of_nat i) buf 1024 s = Some (user_call e 3 (of_nat i) buf (of_nat 1024) s)"
    and "cat_inv i buf (snd (user_call e 3 (of_nat i) buf (of_nat 1024) s))"
    and "shown (snd (user_call e 3 (of_nat i) buf (of_nat 1024) s)) = shown s"
    and "8 \<notin> set (file_buf buf (snd (user_call e 3 (of_nat i) buf (of_nat 1024) s)) (length (take 1024 (file_rest i s))))"
proof -
  have inv: "open_inv i buf 1024 s" and off: "off_screen buf 1024 s" and i1: "i \<noteq> 1" and so: "stdout_ok s"
    and no: "8 \<notin> set (file_rest i s)" using assms by (simp_all add: cat_inv_def)
  have i: "sint (of_nat i :: u32) = int i" "i < 8" using inv by (auto simp: open_inv_def intro: small_sint)
  have "buf \<noteq> 0" using inv by (simp add: open_inv_def file_inv_def user_buf_def)
  then show "ece391_read e (of_nat i) buf 1024 s = Some (user_call e 3 (of_nat i) buf (of_nat 1024) s)"
    using inv i by (simp add: ece391_read_def int80_def user_call_def syscall_link_def sys_read_def open_inv_def Let_def case_prod_unfold)
  note call = read_call_file [OF inv order_refl, of e]
  note q = quiet_keeps [OF quiet_file_read [OF inv order_refl off]]
  have r: "file_rest i (snd (user_call e 3 (of_nat i) buf (of_nat 1024) s)) = drop 1024 (file_rest i s)"
    by (rule sysread.read_rest [OF inv order_refl])
  have "8 \<notin> set (file_rest i (snd (user_call e 3 (of_nat i) buf (of_nat 1024) s)))"
    unfolding r using no by (auto dest: in_set_dropD)
  then show "cat_inv i buf (snd (user_call e 3 (of_nat i) buf (of_nat 1024) s))"
    unfolding cat_inv_def call using read_call_inv [OF inv order_refl] q(2,3) i1 so off by simp
  show "shown (snd (user_call e 3 (of_nat i) buf (of_nat 1024) s)) = shown s" unfolding call by (rule q(1))
  show "8 \<notin> set (file_buf buf (snd (user_call e 3 (of_nat i) buf (of_nat 1024) s)) (length (take 1024 (file_rest i s))))"
    unfolding sysread.read_got [OF inv order_refl] using no by (auto dest: in_set_takeD)
qed

lemma cat_write:
  assumes inv: "cat_inv i buf t" and n: "n \<le> 1024" and no: "8 \<notin> set (file_buf buf t n)"
  shows "ece391_write e 1 buf (of_nat n) t = Some (0, print_buf buf (int n) t)"
    and "cat_inv i buf (print_buf buf (int n) t)" and "file_rest i (print_buf buf (int n) t) = file_rest i t"
    and "same_screen t r \<Longrightarrow> same_screen (print_buf buf (int n) t) (fold putc (file_buf buf t n) r)"
proof -
  have o: "open_inv i buf 1024 t" "off_screen buf 1024 t" "stdout_ok t" "console_ok t" "i \<noteq> 1" "8 \<notin> set (file_rest i t)"
    using inv by (auto simp: cat_inv_def stdout_ok_def)
  have "buf \<noteq> 0" using o(1) by (simp add: open_inv_def file_inv_def user_buf_def)
  from write_prints [OF o(3) this o(2) n _ no] show "ece391_write e 1 buf (of_nat n) t = Some (0, print_buf buf (int n) t)"
    by (simp add: print_buf_def)
  note p = same_files_print [OF o(2,4) no]
  note f = same_files_open [OF p(1) o(1)]
  show r: "file_rest i (print_buf buf (int n) t) = file_rest i t" unfolding print_buf_def using f(2) by simp
  have "fs_ok (xl t) (phys t) (FSYSTEM t)" using o(1) by (simp add: open_inv_def file_inv_def)
  from same_files_image(3) [OF p(1) this] show "cat_inv i buf (print_buf buf (int n) t)"
    using f p(2) [OF o(3)] o by (simp add: cat_inv_def print_buf_def)
  assume "same_screen t r"
  then show "same_screen (print_buf buf (int n) t) (fold putc (file_buf buf t n) r)"
    using shown_fold [of t r "file_buf buf t n"] sink.put_all [of r "file_buf buf t n"] no o(4)
    by (auto simp: same_screen_def print_buf_def)
qed

text \<open>One turn of the loop.\<close>

lemma cat_turn:
  assumes inv: "cat_inv i buf s" and rd: "user_call e 3 (of_nat i) buf (of_nat 1024) s = (cnt, t)"
  shows "cnt = int (length (take 1024 (file_rest i s)))" "shown t = shown s"
    "ece391_write e 1 buf (word_of_int cnt) t = Some (0, print_buf buf cnt t)"
    "cat_inv i buf (print_buf buf cnt t)" "file_rest i (print_buf buf cnt t) = file_rest i t"
    "same_screen t r \<Longrightarrow> same_screen (print_buf buf cnt t) (fold putc (file_buf buf t (nat cnt)) r)"
proof -
  have o: "open_inv i buf 1024 s" using inv by (simp add: cat_inv_def)
  define n where "n = length (take 1024 (file_rest i s))"
  show c: "cnt = int (length (take 1024 (file_rest i s)))" using sysread.read_count [OF o order_refl, of e] rd by simp
  then have cn: "cnt = int n" by (simp add: n_def)
  note r = cat_read [OF inv, of e, unfolded rd snd_conv, folded n_def]
  show "shown t = shown s" by (rule r(3))
  have "n \<le> 1024" by (simp add: n_def)
  from cat_write [OF r(2) this r(4)] show "ece391_write e 1 buf (word_of_int cnt) t = Some (0, print_buf buf cnt t)"
    "cat_inv i buf (print_buf buf cnt t)" "file_rest i (print_buf buf cnt t) = file_rest i t"
    "same_screen t r \<Longrightarrow> same_screen (print_buf buf cnt t) (fold putc (file_buf buf t (nat cnt)) r)"
    unfolding cn by simp_all
qed

lemma cat_reader: "stream_reader (user_call e 3 (of_nat i) buf (of_nat 1024)) (cat_inv i buf) (file_rest i) (file_buf buf)"
proof
  fix s
  assume inv: "cat_inv i buf s"
  then have o: "open_inv i buf 1024 s" by (simp add: cat_inv_def)
  have cr: "stream_reader (user_call e 3 (of_nat i) buf (of_nat 1024)) (open_inv i buf 1024) (file_rest i) (file_buf buf)"
    by (rule sysread.chunk_reader) simp_all
  note sr = stream_reader.at_end [OF cr o] stream_reader.more_count [OF cr o] stream_reader.more_got [OF cr o] stream_reader.more_rest [OF cr o]
  let ?rd = "user_call e 3 (of_nat i) buf (of_nat 1024) s"
  show "file_rest i s = [] \<Longrightarrow> fst ?rd = 0" by (rule sr(1))
  assume ne: "file_rest i s \<noteq> []"
  show "0 < fst ?rd" by (rule sr(2) [OF ne])
  show "cat_inv i buf (snd ?rd)" by (rule cat_read(2) [OF inv])
  show "file_buf buf (snd ?rd) (nat (fst ?rd)) @ file_rest i (snd ?rd) = file_rest i s" by (rule sr(3) [OF ne])
  show "length (file_rest i (snd ?rd)) < length (file_rest i s)" by (rule sr(4) [OF ne])
qed

interpretation cat: copy_program "user_call e 3 (of_nat i) buf (of_nat 1024)" "cat_inv i buf" "file_rest i" "file_buf buf"
  "print_buf buf" same_screen "fold putc" "cat_loop e lits buf (of_nat i)"
  for e i buf lits
proof (intro copy_program.intro cat_reader, unfold_locales)
  fix s cnt t r
  assume inv: "cat_inv i buf s"
  let ?rd = "user_call e 3 (of_nat i) buf (of_nat 1024) s"
  note turn = cat_turn [OF inv surjective_pairing, of e] and rdc = cat_read(1) [OF inv, of e]
  { assume "?rd = (cnt, t)"
    then show "cat_inv i buf (print_buf buf cnt t) \<and> file_rest i (print_buf buf cnt t) = file_rest i t"
      using cat_turn(4,5) [OF inv] by blast }
  { assume rd: "?rd = (cnt, t)" and "same_screen s r"
    then show "same_screen (print_buf buf cnt t) (fold putc (file_buf buf t (nat cnt)) r)"
      using cat_turn(2,6) [OF inv rd] by (simp add: same_screen_def) }
  { assume "same_screen s r"
    then show "same_screen (snd ?rd) r" using turn(2) by (simp add: same_screen_def) }
  { assume "file_rest i s = []"
    then have "fst ?rd = 0" using turn(1) by simp
    then show "cat_loop e lits buf (of_nat i) s = Some (0, snd ?rd)"
      by (subst cat_loop.simps) (simp add: rdc case_prod_unfold) }
  { assume "file_rest i s \<noteq> []"
    then have "fst ?rd \<noteq> 0" "fst ?rd \<noteq> -1" using turn(1) by auto
    then show "cat_loop e lits buf (of_nat i) s = cat_loop e lits buf (of_nat i) (print_buf buf (fst ?rd) (snd ?rd))"
      using turn(3) by (subst cat_loop.simps) (simp add: rdc case_prod_unfold) }
qed simp_all

text \<open>What \<^verbatim>\<open>getargs\<close> leaves in the buffer is the argument.\<close>

lemma getargs_buffer:
  assumes a: "cprefix 32 (lit (arg s)) = name" "name \<noteq> []" "length name < 32" "length (arg s) = 32"
    and ok: "fs_ok (xl s) (phys s) (FSYSTEM s)" and ub: "user_buf (xl s) (phys s) (FSYSTEM s) buf n" "32 \<le> n"
    and off: "off_screen buf n s"
  obtains m where "ece391_getargs e buf 1024 s = Some (0, s\<lparr>phys := m\<rparr>)" "same_files s (s\<lparr>phys := m\<rparr>)"
    "quiet 0 s (s\<lparr>phys := m\<rparr>)" "cprefix 32 (buf_at (xl s) m buf) = name"
    "\<forall>x. x \<notin> xl s ` region buf n \<longrightarrow> m x = phys s x" "\<forall>j \<le> length name. m (xl s (buf + of_nat j)) = (name @ [0]) ! j"
proof -
  let ?m = "store_bytes (xl s) buf (name @ [0]) (phys s)"
  have nz: "arg s ! 0 \<noteq> 0" using cprefix_head [of s] a by simp
  have g: "ece391_getargs e buf 1024 s = Some (0, s\<lparr>phys := ?m\<rparr>)"
    using nz a(1,3) by (simp add: ece391_getargs_def int80_def syscall_link_def getargs_def Let_def)
  have sub: "region buf (length name + 1) \<subseteq> region buf n" using a(3) ub(2) by (intro region_mono) simp
  have fr: "\<forall>x. x \<notin> xl s ` region buf n \<longrightarrow> ?m x = phys s x"
    using store_bytes_frame [of _ "xl s" buf "name @ [0]" "phys s"] sub by auto
  note st = buffer_store [OF ok ub(1) off this]
  have inj: "inj_on (xl s) (region buf (length (name @ [0])))"
    using ub(1) inj_on_subset [of "xl s", OF _ sub] by (simp add: user_buf_def)
  have v: "buf_at (xl s) ?m buf j = (name @ [0]) ! j" if "j \<le> length name" for j
    unfolding buf_at_def by (rule store_bytes_val [OF inj]) (use a(3) that in simp_all)
  have nzs: "x \<noteq> 0" if "x \<in> set name" for x using that a(1) cprefix_nonzero [of x 32 "lit (arg s)"] by simp
  have "is_cstr (buf_at (xl s) ?m buf) (length name)"
    using v nzs by (auto simp: is_cstr_def nth_append)
  then have "cprefix 32 (buf_at (xl s) ?m buf) = map (buf_at (xl s) ?m buf) [0..<length name]"
    by (rule cprefix_is_cstr) (use a(3) in simp)
  also have "\<dots> = name" by (rule nth_equalityI) (simp_all add: v nth_append)
  finally show thesis by (rule that [OF g st _ fr]) (use v in \<open>simp add: buf_at_def\<close>)
qed

text \<open>
  C6. \<^verbatim>\<open>cat\<close> prints the file: started with the name of a regular file as its argument, the program ends with
  status 0, and the screen is the one that printing the bytes of the file one by one gives. Argument passing, lookup,
  reading in chunks of 1024 bytes, and the terminal are all involved.
\<close>

theorem cat_prints_file:
  assumes arg: "cprefix 32 (lit (arg s)) = name" "name \<noteq> []" "length name < 32" "length (arg s) = 32"
    and fds: "fd_ok s" "\<not> fd_pool s \<subseteq> fd_busy s" "f_read (ffotp s) = read_file" and out: "stdout_ok s"
    and fs: "fs_ok (xl s) (phys s) (FSYSTEM s)"
      "read_dentry_by_name (xl s) (phys s) (FSYSTEM s) (Some (lit name)) = Some d" "de_ftype d = 2"
      "unat (de_inode d) < unat (rd32 (xl s) (phys s) (FSYSTEM s + 4))"
    and buf: "user_buf (xl s) (phys s) (FSYSTEM s) buf 1024" "off_screen buf 1024 s"
    and bs: "bs = file_bytes (xl s) (phys s) (FSYSTEM s) (de_inode d)" "8 \<notin> set bs"
  shows "\<exists>t. cat_main e lits buf s = Some (0, t) \<and> shown t = shown (fold putc bs s)"
proof -
  obtain m where g: "ece391_getargs e buf 1024 s = Some (0, s\<lparr>phys := m\<rparr>)" and sf: "same_files s (s\<lparr>phys := m\<rparr>)"
    and q: "quiet 0 s (s\<lparr>phys := m\<rparr>)" and n: "cprefix 32 (buf_at (xl s) m buf) = name"
    by (rule getargs_buffer [OF arg fs(1) buf(1) _ buf(2)]) (rule that; assumption | simp)+
  let ?s = "s\<lparr>phys := m\<rparr>"
  note im = same_files_image [OF sf fs(1)] and e = sf [unfolded same_files_def]
  have eq: "\<And>a. a \<in> fs_image (xl s) (phys s) (FSYSTEM s) \<Longrightarrow> m a = phys s a" using e by simp
  have "cprefix 32 (lit name) = name" using arg(1,3) cprefix_nonzero [of 0 32 "lit (arg s)"] by (intro cprefix_lit) auto
  then have l: "read_dentry_by_name (xl ?s) (phys ?s) (FSYSTEM ?s) (Some (buf_at (xl ?s) (phys ?s) buf)) = Some d"
    using fs(2) lookup_agree [OF fs(1) eq, of "lit name"] n by (simp add: lookup_name)
  have b0: "buf \<noteq> 0" using buf(1) by (simp add: user_buf_def)
  have ino: "unat (de_inode d) < unat (rd32 (xl ?s) (phys ?s) (FSYSTEM ?s + 4))" using fs(4) im(5) by simp
  have fds': "fd_ok ?s" "\<not> fd_pool ?s \<subseteq> fd_busy ?s" using fds(1,2) by (simp_all add: fd_ok_def fd_pool_def fd_busy_def)
  have h: "f_read (ffotp ?s) = read_file" "user_buf (xl ?s) (phys ?s) (FSYSTEM ?s) buf 1024" "1024 < (2 ^ 31 :: nat)"
    using fds(3) im(4) buf(1) by simp_all
  obtain i f where o: "sys_open buf ?s = (int i, ?s\<lparr>dt := d, fd := (fd ?s)[i := f]\<rparr>)" "2 \<le> i" "i < 8"
    and inv: "open_inv i buf 1024 (?s\<lparr>dt := d, fd := (fd ?s)[i := f]\<rparr>)"
    and rest: "file_rest i (?s\<lparr>dt := d, fd := (fd ?s)[i := f]\<rparr>) = file_bytes (xl ?s) (phys ?s) (FSYSTEM ?s) (de_inode d)"
    by (rule open_file_stream [OF fds' b0 l fs(3) h(1) im(2) ino h(2,3)]) (rule that; assumption)
  let ?t = "?s\<lparr>dt := d, fd := (fd ?s)[i := f]\<rparr>"
  have rest': "file_rest i ?t = bs"
    using image_agree(4) [OF fs(1) eq fs(4)] unfolding rest bs(1) by simp
  have i1: "i \<noteq> 1" using o(2) by simp
  have "cat_inv i buf ?t"
    using inv rest' bs(2) out buf(2) i1 quiet_keeps(2,3) [OF quiet_open [OF o(2), where s = ?s and d = d and f = f]] quiet_keeps(2,3) [OF q]
    by (simp add: cat_inv_def)
  moreover have "same_screen ?t s"
    using quiet_keeps(1) [OF quiet_open [OF o(2), where s = ?s and d = d and f = f]] quiet_keeps(1) [OF q] out by (simp add: same_screen_def stdout_ok_def)
  ultimately obtain u where u: "cat_loop e lits buf (of_nat i) ?t = Some (0, u)" "same_screen u (fold putc bs s)"
    using cat.copies_all [of i buf ?t s e lits] rest' by auto
  have "ece391_open e buf ?s = Some (int i, ?t)"
    using o(1) by (simp add: ece391_open_def int80_def syscall_link_def returned_def)
  then have "cat_main e lits buf s = Some (0, u)" using g u(1) by (simp add: cat_main_def)
  then show ?thesis using u(2) by (auto simp: same_screen_def)
qed

section \<open>ls prints the directory\<close>

text \<open>A name is copied to the buffer with zeros up to 32 bytes; \<^verbatim>\<open>ls\<close> adds a line feed and prints 33 bytes.\<close>

definition ls_line :: "u8 list \<Rightarrow> u8 list" where
  "ls_line l = map (padded l) [0..<32] @ [10]"

definition ls_output :: "u8 list list \<Rightarrow> u8 list" where
  "ls_output names = concat (map ls_line names)"

lemma directory_read_bytes:
  assumes inv: "dir_inv i buf s" and more: "dir_rest i s \<noteq> []"
  obtains m f where "snd (directory_read i buf n s) = s\<lparr>phys := m, fd := (fd s)[i := f]\<rparr>"
    "\<And>j. j < 32 \<Longrightarrow> m (xl s (buf + of_nat j)) = padded (hd (dir_rest i s)) j"
    "\<forall>a. a \<notin> xl s ` region buf 32 \<longrightarrow> m a = phys s a"
proof -
  let ?tr = "xl s" and ?m = "phys s" and ?fs = "FSYSTEM s" and ?f = "fd s ! i"
  let ?p = "unat (fposition ?f)" and ?src = "entry_at (FSYSTEM s) (unat (fposition (fd s ! i)))"
  have ok: "fs_ok ?tr ?m ?fs" and ub: "user_buf ?tr ?m ?fs buf 32" using inv by (simp_all add: dir_inv_def)
  have p: "?p < entries ?tr ?m ?fs" using more by (simp add: dir_rest_def)
  then have rd: "read_dentry_by_index ?tr ?m ?fs (fposition ?f) = Some (dentry_at ?tr ?m ?src)"
    by (simp add: read_dentry_by_index_nth)
  have h: "hd (dir_rest i s) = entry_name ?tr ?m ?fs ?p" using p by (simp add: dir_rest_def upt_conv_Cons)
  have "?tr ` region ?src 32 \<subseteq> fs_image ?tr ?m ?fs" using entry_in_image [OF ok p] by (auto simp: region_def)
  then have sep: "separate ?tr buf ?src (unat (32 :: u32))" using ub by (auto simp: separate_def user_buf_def)
  show thesis
  proof (rule that)
    show "snd (directory_read i buf n s) = s\<lparr>phys := strncpy ?tr buf ?src 32 ?m, fd := (fd s)[i := ?f\<lparr>fposition := fposition ?f + 1\<rparr>]\<rparr>"
      by (simp add: directory_read_def rd dentry_at_def Let_def)
    show "strncpy ?tr buf ?src 32 ?m (xl s (buf + of_nat j)) = padded (hd (dir_rest i s)) j" if "j < 32" for j
      using strncpy_copy_val [OF sep unat_u32_le, of j] that by (simp add: strncpy_def h entry_name_def)
    show "\<forall>a. a \<notin> xl s ` region buf 32 \<longrightarrow> strncpy ?tr buf ?src 32 ?m a = phys s a"
      by (simp add: strncpy_def strncpy_copy_frame)
  qed
qed

definition ls_inv :: "nat \<Rightarrow> u32 \<Rightarrow> kernel \<Rightarrow> bool" where
  "ls_inv i buf s \<longleftrightarrow> list_inv i buf s \<and> i \<noteq> 1 \<and> stdout_ok s \<and> off_screen buf 33 s \<and>
     user_buf (xl s) (phys s) (FSYSTEM s) buf 33 \<and> (\<forall>l \<in> set (dir_rest i s). 8 \<notin> set l)"

text \<open>The newline behind the name, and the output.\<close>

definition ls_newline :: "u32 \<Rightarrow> int \<Rightarrow> kernel \<Rightarrow> kernel" where
  "ls_newline buf cnt t = t\<lparr>phys := (phys t)(xl t (buf + word_of_int cnt) := 10)\<rparr>"

definition ls_put :: "u32 \<Rightarrow> int \<Rightarrow> kernel \<Rightarrow> kernel" where
  "ls_put buf cnt t = print_buf buf (cnt + 1) (ls_newline buf cnt t)"

lemma ls_read:
  fixes e :: env
  assumes inv: "ls_inv i buf s"
  defines "t \<equiv> snd (user_call e 3 (of_nat i) buf 32 s)"
  shows "ece391_read e (of_nat i) buf 32 s = Some (user_call e 3 (of_nat i) buf 32 s)"
    and "dir_rest i s = [] \<Longrightarrow> t = s"
    and "dir_rest i s \<noteq> [] \<Longrightarrow> fst (user_call e 3 (of_nat i) buf 32 s) = 32"
    and "ls_inv i buf t" and "shown t = shown s"
    and "dir_rest i s \<noteq> [] \<Longrightarrow> file_buf buf t 32 = map (padded (hd (dir_rest i s))) [0..<32]"
proof -
  have l: "list_inv i buf s" and d: "dir_inv i buf s" and ub: "user_buf (xl s) (phys s) (FSYSTEM s) buf 33"
    and off: "off_screen buf 33 s" and so: "stdout_ok s" and i1: "i \<noteq> 1" and no: "\<forall>l \<in> set (dir_rest i s). 8 \<notin> set l"
    using inv by (simp_all add: ls_inv_def list_inv_def)
  have i: "sint (of_nat i :: u32) = int i" "i < 8" using l by (auto simp: list_inv_def intro: small_sint)
  have "buf \<noteq> 0" using ub by (simp add: user_buf_def)
  then show "ece391_read e (of_nat i) buf 32 s = Some (user_call e 3 (of_nat i) buf 32 s)"
    using l i by (simp add: ece391_read_def int80_def user_call_def syscall_link_def sys_read_def list_inv_def Let_def case_prod_unfold)
  note c = read_call_directory [OF l, of e 32]
  have t: "t = snd (directory_read i buf 32 s)" unfolding t_def c ..
  show e0: "dir_rest i s = [] \<Longrightarrow> t = s"
    unfolding t by (auto simp: directory_read_def dir_rest_def read_dentry_by_index_nth Let_def)
  show "dir_rest i s \<noteq> [] \<Longrightarrow> fst (user_call e 3 (of_nat i) buf 32 s) = 32" unfolding c by (rule directory_read_step(1) [OF d])
  have main: "ls_inv i buf t \<and> shown t = shown s \<and> file_buf buf t 32 = map (padded (hd (dir_rest i s))) [0..<32]"
    if ne: "dir_rest i s \<noteq> []"
  proof -
    obtain m f where tm: "snd (directory_read i buf 32 s) = s\<lparr>phys := m, fd := (fd s)[i := f]\<rparr>" and v: "\<And>j. j < 32 \<Longrightarrow> m (xl s (buf + of_nat j)) = padded (hd (dir_rest i s)) j"
      and fr: "\<forall>a. a \<notin> xl s ` region buf 32 \<longrightarrow> m a = phys s a"
      by (rule directory_read_bytes [OF d ne]) (rule that; assumption)
    note tm = tm [folded t]
    have ok: "fs_ok (xl s) (phys s) (FSYSTEM s)" using d by (simp add: dir_inv_def)
    have fr33: "\<forall>a. a \<notin> xl s ` region buf 33 \<longrightarrow> m a = phys s a"
      using fr region_mono [of 32 33 buf] by auto
    have ag: "m a = phys s a" if "a \<in> fs_image (xl s) (phys s) (FSYSTEM s)" for a
      using fr33 ub that by (auto simp: user_buf_def)
    have im: "fs_image (xl s) m (FSYSTEM s) = fs_image (xl s) (phys s) (FSYSTEM s)" by (rule image_agree(5) [OF ok ag])
    have q: "quiet i s t" unfolding quiet_def tm using fr33 off im by (auto simp: off_screen_def)
    have "user_buf (xl t) (phys t) (FSYSTEM t) buf 33" using ub im by (simp add: tm user_buf_def)
    moreover have "list_inv i buf t" unfolding t by (rule list_inv_step [OF l ne])
    moreover have "set (dir_rest i t) \<subseteq> set (dir_rest i s)"
      using directory_read_step(3) [OF d ne, of 32 32] unfolding t by (metis set_append sup_ge2)
    ultimately have "ls_inv i buf t" using quiet_keeps(2,3) [OF q] i1 so off no unfolding ls_inv_def by blast
    moreover have "file_buf buf t 32 = map (padded (hd (dir_rest i s))) [0..<32]" using v by (simp add: file_buf_def tm)
    ultimately show ?thesis using quiet_keeps(1) [OF q] by blast
  qed
  show "ls_inv i buf t" using main e0 inv by (cases "dir_rest i s = []") auto
  show "shown t = shown s" using main e0 by (cases "dir_rest i s = []") auto
  show "dir_rest i s \<noteq> [] \<Longrightarrow> file_buf buf t 32 = map (padded (hd (dir_rest i s))) [0..<32]" using main by blast
qed

lemma ls_line_plain: "8 \<notin> set l \<Longrightarrow> 8 \<notin> set (ls_line l)"
  by (auto simp: ls_line_def padded_def)

lemma ls_write:
  assumes inv: "ls_inv i buf t" and b: "file_buf buf t 32 = map (padded l) [0..<32]" and no: "8 \<notin> set l"
  shows "ece391_write e 1 buf 33 (ls_newline buf 32 t) = Some (0, ls_put buf 32 t)"
    and "ls_inv i buf (ls_put buf 32 t)" and "dir_rest i (ls_put buf 32 t) = dir_rest i t"
    and "same_screen t r \<Longrightarrow> same_screen (ls_put buf 32 t) (fold putc (ls_line l) r)"
proof -
  let ?u = "ls_newline buf 32 t"
  have o: "list_inv i buf t" "stdout_ok t" "off_screen buf 33 t" "i \<noteq> 1" "user_buf (xl t) (phys t) (FSYSTEM t) buf 33"
    "\<forall>l \<in> set (dir_rest i t). 8 \<notin> set l" using inv by (simp_all add: ls_inv_def)
  have ok: "fs_ok (xl t) (phys t) (FSYSTEM t)" using o(1) by (simp add: list_inv_def dir_inv_def)
  have inj: "inj_on (xl t) (region buf 33)" and b0: "buf \<noteq> 0" using o(5) by (simp_all add: user_buf_def)
  have "xl t (buf + 32) \<in> xl t ` region buf 33" using region_memI [of 32 33 buf] by simp
  then have fr: "\<forall>a. a \<notin> xl t ` region buf 33 \<longrightarrow> ((phys t)(xl t (buf + 32) := 10)) a = phys t a" by auto
  note st = buffer_store [where m = "(phys t)(xl t (buf + 32) := 10)", OF ok o(5,3) fr]
  have u: "?u = t\<lparr>phys := (phys t)(xl t (buf + 32) := 10)\<rparr>" by (simp add: ls_newline_def)
  have ne: "xl t (buf + of_nat j) \<noteq> xl t (buf + 32)" if "j < 32" for j
    using inj_region_off [OF inj, of j 32] that by simp
  have "[0..<33] = [0..<32] @ [32 :: nat]" by code_simp
  then have fb: "file_buf buf ?u 33 = ls_line l"
    using b ne by (simp add: file_buf_def u ls_line_def)
  have im: "fs_ok (xl ?u) (phys ?u) (FSYSTEM ?u)" "off_screen buf 33 ?u" "user_buf (xl ?u) (phys ?u) (FSYSTEM ?u) buf 33"
    using same_files_image(2,3,4) [OF st(1) ok] o(3,5) unfolding u by blast+
  have so: "stdout_ok ?u" using quiet_keeps(3) [OF st(2), of 0] o(2) unfolding u by simp
  then have cok: "console_ok ?u" by (simp add: stdout_ok_def)
  have no8: "8 \<notin> set (file_buf buf ?u 33)" unfolding fb by (rule ls_line_plain [OF no])
  have lp: "ls_put buf 32 t = fold putc (file_buf buf ?u 33) ?u" by (simp add: ls_put_def print_buf_def)
  show "ece391_write e 1 buf 33 ?u = Some (0, ls_put buf 32 t)"
    using write_prints [OF so b0 im(2) order_refl _ no8, of e] unfolding lp by simp
  note p = same_files_print [OF im(2) cok no8]
  note f1 = same_files_list [OF st(1) o(1), folded u] and f2 = same_files_list [OF p(1)]
  show r: "dir_rest i (ls_put buf 32 t) = dir_rest i t" unfolding lp using f1 f2(2) [OF f1(1)] by simp
  have "list_inv i buf (ls_put buf 32 t)" unfolding lp by (rule f2(1) [OF f1(1)])
  moreover have "off_screen buf 33 (ls_put buf 32 t)"
    "user_buf (xl (ls_put buf 32 t)) (phys (ls_put buf 32 t)) (FSYSTEM (ls_put buf 32 t)) buf 33"
    unfolding lp using same_files_image(3,4) [OF p(1) im(1)] im(2,3) by simp_all
  moreover have "stdout_ok (ls_put buf 32 t)" unfolding lp by (rule p(2) [OF so])
  ultimately show "ls_inv i buf (ls_put buf 32 t)" using o(4,6) r by (simp add: ls_inv_def)
  assume "same_screen t r"
  then have "same_screen ?u r" using quiet_keeps(1) [OF st(2)] unfolding u by (simp add: same_screen_def)
  then show "same_screen (ls_put buf 32 t) (fold putc (ls_line l) r)"
    using shown_fold [of ?u r "ls_line l"] sink.put_all [of r "ls_line l"] no8 cok
    unfolding lp fb by (auto simp: same_screen_def)
qed

lemma ls_turn:
  assumes inv: "ls_inv i buf s" and rd: "user_call e 3 (of_nat i) buf 32 s = (cnt, t)" and ne: "dir_rest i s \<noteq> []"
  shows "cnt = 32" "ece391_write e 1 buf 33 (ls_newline buf 32 t) = Some (0, ls_put buf 32 t)"
    "ls_inv i buf (ls_put buf 32 t)" "dir_rest i (ls_put buf 32 t) = dir_rest i t"
    "same_screen s r \<Longrightarrow> same_screen (ls_put buf 32 t) (fold putc (ls_output (dir_buf buf t (nat cnt))) r)"
proof -
  note l = ls_read [OF inv, of e, unfolded rd fst_conv snd_conv]
  show "cnt = 32" by (rule l(3) [OF ne])
  have li: "list_inv i buf s" using inv by (simp add: ls_inv_def)
  have "dir_buf buf t (nat cnt) @ dir_rest i t = dir_rest i s" using syslist.more_got [OF li ne, of e 32] rd by simp
  then have hd: "dir_buf buf t (nat cnt) = [hd (dir_rest i s)]"
    unfolding dir_buf_def by (metis append_Cons list.sel(1))
  have "8 \<notin> set (hd (dir_rest i s))" using inv ne by (simp add: ls_inv_def)
  note w = ls_write [OF l(4) l(6) [OF ne] this]
  show "ece391_write e 1 buf 33 (ls_newline buf 32 t) = Some (0, ls_put buf 32 t)" by (rule w(1))
  show "ls_inv i buf (ls_put buf 32 t)" by (rule w(2))
  show "dir_rest i (ls_put buf 32 t) = dir_rest i t" by (rule w(3))
  assume "same_screen s r"
  then show "same_screen (ls_put buf 32 t) (fold putc (ls_output (dir_buf buf t (nat cnt))) r)"
    using w(4) l(5) by (simp add: hd ls_output_def same_screen_def)
qed

interpretation ls: copy_program "user_call e 3 (of_nat i) buf 32" "ls_inv i buf" "dir_rest i" "dir_buf buf"
  "ls_put buf" same_screen "\<lambda>names. fold putc (ls_output names)" "ls_loop e lits buf (of_nat i)"
  for e i buf lits
proof (intro copy_program.intro stream_reader.intro copy_program_axioms.intro)
  fix s cnt t r
  assume inv: "ls_inv i buf s"
  then have li: "list_inv i buf s" by (simp add: ls_inv_def)
  let ?rd = "user_call e 3 (of_nat i) buf 32 s"
  note rdc = ls_read(1) [OF inv, of e]
  { assume "dir_rest i s = []"
    then show "fst ?rd = 0" by (rule syslist.at_end [OF li]) }
  { assume "dir_rest i s \<noteq> []"
    then show "0 < fst ?rd" by (rule syslist.more_count [OF li]) }
  { assume "dir_rest i s \<noteq> []"
    show "ls_inv i buf (snd ?rd)" by (rule ls_read(4) [OF inv]) }
  { assume "dir_rest i s \<noteq> []"
    then show "dir_buf buf (snd ?rd) (nat (fst ?rd)) @ dir_rest i (snd ?rd) = dir_rest i s" by (rule syslist.more_got [OF li]) }
  { assume "dir_rest i s \<noteq> []"
    then show "length (dir_rest i (snd ?rd)) < length (dir_rest i s)" by (rule syslist.more_rest [OF li]) }
  { assume ne: "dir_rest i s \<noteq> []" and rd: "?rd = (cnt, t)"
    show "ls_inv i buf (ls_put buf cnt t) \<and> dir_rest i (ls_put buf cnt t) = dir_rest i t"
      using ls_turn(1,3,4) [OF inv rd ne] by simp }
  { assume ne: "dir_rest i s \<noteq> []" and rd: "?rd = (cnt, t)" and "same_screen s r"
    then show "same_screen (ls_put buf cnt t) (fold putc (ls_output (dir_buf buf t (nat cnt))) r)"
      using ls_turn(1,5) [OF inv rd ne] by simp }
  { assume "same_screen s r"
    then show "same_screen (snd ?rd) r" using ls_read(5) [OF inv, of e] by (simp add: same_screen_def) }
  { assume "dir_rest i s = []"
    then have "fst ?rd = 0" by (rule syslist.at_end [OF li])
    then show "ls_loop e lits buf (of_nat i) s = Some (0, snd ?rd)" by (subst ls_loop.simps) (simp add: rdc case_prod_unfold) }
  { assume ne: "dir_rest i s \<noteq> []"
    note turn = ls_turn(1,2) [OF inv surjective_pairing ne, of e]
    show "ls_loop e lits buf (of_nat i) s = ls_loop e lits buf (of_nat i) (ls_put buf (fst ?rd) (snd ?rd))"
      using turn(2) unfolding ls_newline_def by (subst ls_loop.simps) (simp add: rdc case_prod_unfold turn(1)) }
qed (simp_all add: ls_output_def)

text \<open>
  C7. \<^verbatim>\<open>ls\<close> lists the directory: it ends with status 0, and the screen is the one that printing one line per
  directory entry gives, in the order of the directory, each name padded to 32 characters.
\<close>

theorem ls_lists_directory:
  assumes fds: "fd_ok s" "\<not> fd_pool s \<subseteq> fd_busy s" "f_read (dfotp s) = read_directory" and out: "stdout_ok s"
    and fs: "fs_ok (xl s) (phys s) (FSYSTEM s)"
      "read_dentry_by_name (xl s) (phys s) (FSYSTEM s) (Some (buf_at (xl s) (phys s) p)) = Some d" "de_ftype d = 1"
    and lits: "lits (bytes_of ''.'') = p" "p \<noteq> 0"
    and buf: "user_buf (xl s) (phys s) (FSYSTEM s) buf 33" "off_screen buf 33 s"
    and names: "names = map (entry_name (xl s) (phys s) (FSYSTEM s)) [0..<entries (xl s) (phys s) (FSYSTEM s)]" "\<forall>l \<in> set names. 8 \<notin> set l"
  shows "\<exists>t. ls_main e lits buf s = Some (0, t) \<and> shown t = shown (fold putc (ls_output names) s)"
proof -
  have ub: "user_buf (xl s) (phys s) (FSYSTEM s) buf 32" by (rule user_buf_mono [OF buf(1)]) simp
  obtain i f where o: "sys_open p s = (int i, s\<lparr>dt := d, fd := (fd s)[i := f]\<rparr>)" "2 \<le> i" "i < 8"
    and inv: "list_inv i buf (s\<lparr>dt := d, fd := (fd s)[i := f]\<rparr>)"
    and rest: "dir_rest i (s\<lparr>dt := d, fd := (fd s)[i := f]\<rparr>) =
      map (entry_name (xl s) (phys s) (FSYSTEM s)) [0..<entries (xl s) (phys s) (FSYSTEM s)]"
    by (rule open_directory_stream [OF fds(1,2) lits(2) fs(2,3) fds(3) fs(1) ub]) (rule that; assumption)
  let ?t = "s\<lparr>dt := d, fd := (fd s)[i := f]\<rparr>"
  note q = quiet_keeps [OF quiet_open [OF o(2), where s = s and d = d and f = f]]
  have i1: "i \<noteq> 1" using o(2) by simp
  have "ls_inv i buf ?t"
    using inv rest names q(2,3) i1 out buf unfolding ls_inv_def by simp
  moreover have "same_screen ?t s" using q(1) out by (simp add: same_screen_def stdout_ok_def)
  ultimately obtain u where u: "ls_loop e lits buf (of_nat i) ?t = Some (0, u)" "same_screen u (fold putc (ls_output names) s)"
    using ls.copies_all [of i buf ?t s e lits] rest names(1) by auto
  have "ece391_open e p s = Some (int i, ?t)"
    using o(1) by (simp add: ece391_open_def int80_def syscall_link_def returned_def)
  then have "ls_main e lits buf s = Some (0, u)" using u(1) lits(1) by (simp add: ls_main_def)
  then show ?thesis using u(2) by (auto simp: same_screen_def)
qed

section \<open>Witnesses\<close>

text \<open>The image with a file \<^verbatim>\<open>f\<close> and the directory, a program on the screen's terminal with the argument \<^verbatim>\<open>f\<close>.\<close>

definition prog_kernel :: kernel where
  "prog_kernel = list_kernel\<lparr>head := Some process1, procs := (\<lambda>p. \<lparr>pcb = 0, screen = 1, ebp = 0, esp = 0, next_proc = Some process1\<rparr>),
     arg := 0x66 # replicate 31 0\<rparr>"

lemma prog_kernel_fields:
  "xl prog_kernel = id" "phys prog_kernel = list_fs" "FSYSTEM prog_kernel = 0x500000" "fd_ok prog_kernel"
  "f_read (ffotp prog_kernel) = read_file" "f_read (dfotp prog_kernel) = read_directory"
  "\<not> fd_pool prog_kernel \<subseteq> fd_busy prog_kernel" "stdout_ok prog_kernel" "arg prog_kernel = 0x66 # replicate 31 0"
proof -
  have "xl prog_kernel = xl list_kernel" by (rule xl_cong) (simp_all add: prog_kernel_def)
  then show "xl prog_kernel = id" by (simp add: list_kernel_fields)
  show "phys prog_kernel = list_fs" "FSYSTEM prog_kernel = 0x500000" "fd_ok prog_kernel"
    "f_read (ffotp prog_kernel) = read_file" "f_read (dfotp prog_kernel) = read_directory"
    "\<not> fd_pool prog_kernel \<subseteq> fd_busy prog_kernel" "arg prog_kernel = 0x66 # replicate 31 0"
    using list_kernel_fields by (simp_all add: prog_kernel_def fd_ok_def fd_pool_def fd_busy_def)
  show "stdout_ok prog_kernel"
    by (simp add: stdout_ok_def prog_kernel_def list_kernel_def initFOTP_def Let_def blank_kernel_def console_simps null_file_def)
qed

lemma prog_kernel_buf: "user_buf (xl prog_kernel) (phys prog_kernel) (FSYSTEM prog_kernel) 0x600000 1024" "off_screen 0x600000 1024 prog_kernel"
proof -
  have size: "fs_size id list_fs 0x500000 = 12288" using list_fs_rd by (simp add: fs_size_def)
  show "user_buf (xl prog_kernel) (phys prog_kernel) (FSYSTEM prog_kernel) 0x600000 1024"
    by (auto simp: user_buf_def prog_kernel_fields fs_image_def size region_nowrap)
  show "off_screen 0x600000 1024 prog_kernel"
    by (auto simp: off_screen_def prog_kernel_fields fs_image_def size region_nowrap VIDEO_def)
qed

theorem cat_prints_file_witness:
  "\<exists>t. cat_main plain_env (\<lambda>c. 0x601000) 0x600000 prog_kernel = Some (0, t) \<and> shown t = shown (fold putc [97, 98, 99] prog_kernel)"
proof -
  let ?d = "dentry_at id list_fs 0x500040" and ?s = prog_kernel
  have "is_cstr (lit (arg ?s)) 1" by (simp add: is_cstr_def lit_def prog_kernel_fields)
  then have a: "cprefix 32 (lit (arg ?s)) = [0x66]" "length (arg ?s) = 32"
    using cprefix_is_cstr [of "lit (arg ?s)" 1 32] by (simp_all add: prog_kernel_fields lit_def)
  have c: "cprefix 32 (buf_at id list_fs 0x500040) = [0x66]" using list_fs_names by (simp add: entry_name_def entry_at_def)
  have "cprefix 32 (lit [0x66]) = [0x66]" by (rule cprefix_lit) simp_all
  then have l: "read_dentry_by_name (xl ?s) (phys ?s) (FSYSTEM ?s) (Some (lit [0x66])) = Some ?d"
    using list_lookup(1) c by (simp add: prog_kernel_fields lookup_name)
  have d: "de_ftype ?d = 2" "de_inode ?d = 0" by (simp_all add: dentry_at_def list_fs_def tiny_fs_def)
  have i: "unat (de_inode ?d) < unat (rd32 (xl ?s) (phys ?s) (FSYSTEM ?s + 4))" using list_fs_rd by (simp add: prog_kernel_fields d)
  have ok: "fs_ok (xl ?s) (phys ?s) (FSYSTEM ?s)" using list_fs_ok by (simp add: prog_kernel_fields)
  have bs: "[97, 98, 99] = file_bytes (xl ?s) (phys ?s) (FSYSTEM ?s) (de_inode ?d)"
    using list_fs_bytes by (simp add: prog_kernel_fields d)
  show ?thesis
    by (rule cat_prints_file [OF a(1) _ _ a(2) prog_kernel_fields(4,7,5,8) ok l d(1) i prog_kernel_buf bs]) simp_all
qed

theorem ls_lists_directory_witness:
  "\<exists>t. ls_main plain_env (\<lambda>c. 0x500080) 0x600000 prog_kernel = Some (0, t) \<and>
    shown t = shown (fold putc (ls_output [[0x66], [0x2E]]) prog_kernel)"
proof -
  let ?d = "dentry_at id list_fs 0x500080" and ?s = prog_kernel
  have l: "read_dentry_by_name (xl ?s) (phys ?s) (FSYSTEM ?s) (Some (buf_at (xl ?s) (phys ?s) 0x500080)) = Some ?d"
    using list_lookup(2) by (simp add: prog_kernel_fields)
  have d: "de_ftype ?d = 1" by (simp add: dentry_at_def list_fs_def tiny_fs_def)
  have ok: "fs_ok (xl ?s) (phys ?s) (FSYSTEM ?s)" using list_fs_ok by (simp add: prog_kernel_fields)
  have ub: "user_buf (xl ?s) (phys ?s) (FSYSTEM ?s) 0x600000 33" by (rule user_buf_mono [OF prog_kernel_buf(1)]) simp
  have off: "off_screen 0x600000 33 ?s" using prog_kernel_buf(2) region_mono [of 33 1024 "0x600000"] by (auto simp: off_screen_def)
  have u: "[0..<2] = [0, 1 :: nat]" by code_simp
  have n: "[[0x66], [0x2E]] = map (entry_name (xl ?s) (phys ?s) (FSYSTEM ?s)) [0..<entries (xl ?s) (phys ?s) (FSYSTEM ?s)]"
    using list_fs_names by (simp add: prog_kernel_fields u)
  show ?thesis
    by (rule ls_lists_directory [OF prog_kernel_fields(4,7,6,8) ok l d _ _ ub off n]) simp_all
qed

end
