(* ===== verification/User_Tests.thy ===== *)
theory User_Tests
  imports User_Print User_Programs
begin

text \<open>
  The system call error tests, \<^verbatim>\<open>syscalls/ece391syserr.c\<close>, as definitions over the kernel's calls, and the theorems that
  the kernel passes them. The tests' 32-byte buffers are the addresses \<open>tb\<close>; \<open>regs\<close> are the registers
  that \<^verbatim>\<open>call_sys\<close> leaves as they are.
\<close>

section \<open>The tests\<close>

definition NEG_FD :: u32 where "NEG_FD = word_of_int (- 1073741823)"
definition BIG_FD :: u32 where "BIG_FD = 1073741823"
definition BIG_NUM :: u32 where "BIG_NUM = 1073741823"
definition NEG_NUM :: u32 where "NEG_NUM = word_of_int (- 1073741823)"

definition call_sys :: "env \<Rightarrow> u32 \<times> u32 \<times> u32 \<Rightarrow> u32 \<Rightarrow> kernel \<Rightarrow> (int \<times> kernel) option" where
  "call_sys e regs num = (case regs of (b, c, d) \<Rightarrow> int80 e num b c d)"

text \<open>The pattern of the tests: a call that must return -1, and a message and \<^verbatim>\<open>fail = 2\<close> when it does not.\<close>

definition refused :: "env \<Rightarrow> u32 \<Rightarrow> (kernel \<Rightarrow> (int \<times> kernel) option) \<Rightarrow> int \<Rightarrow> kernel \<Rightarrow> (int \<times> kernel) option" where
  "refused e p call fail s = do {
     (r, s) \<leftarrow> call s;
     if r \<noteq> -1 then map_option (Pair 2) (ece391_fdputs e 1 p s) else Some (fail, s) }"

definition verdict :: "env \<Rightarrow> u32 \<Rightarrow> u32 \<Rightarrow> int \<Rightarrow> kernel \<Rightarrow> (int \<times> kernel) option" where
  "verdict e pfail ppass fail s = map_option (Pair fail) (ece391_fdputs e 1 (if fail \<noteq> 0 then pfail else ppass) s)"

definition err_neg_fd :: "env \<Rightarrow> (u8 list \<Rightarrow> u32) \<Rightarrow> u32 \<Rightarrow> kernel \<Rightarrow> (int \<times> kernel) option" where
  "err_neg_fd e lits tb s = do {
     (fail, s) \<leftarrow> refused e (lits (msg ''read fail'')) (ece391_read e NEG_FD tb 31) 0 s;
     (fail, s) \<leftarrow> refused e (lits (msg ''write fail'')) (ece391_write e NEG_FD tb 31) fail s;
     (fail, s) \<leftarrow> refused e (lits (msg ''close fail'')) (ece391_close e NEG_FD) fail s;
     verdict e (lits (msg ''err_neg_fd: FAIL'')) (lits (msg ''err_neg_fd: PASS'')) fail s }"

definition err_big_fd :: "env \<Rightarrow> (u8 list \<Rightarrow> u32) \<Rightarrow> u32 \<Rightarrow> kernel \<Rightarrow> (int \<times> kernel) option" where
  "err_big_fd e lits tb s = do {
     (fail, s) \<leftarrow> refused e (lits (msg ''read fail'')) (ece391_read e BIG_FD tb 31) 0 s;
     (fail, s) \<leftarrow> refused e (lits (msg ''write fail'')) (ece391_write e BIG_FD tb 31) fail s;
     (fail, s) \<leftarrow> refused e (lits (msg ''close fail'')) (ece391_close e BIG_FD) fail s;
     verdict e (lits (msg ''err_big_fd: FAIL'')) (lits (msg ''err_big_fd: PASS'')) fail s }"

fun open_lots :: "env \<Rightarrow> u32 \<Rightarrow> nat \<Rightarrow> int \<Rightarrow> kernel \<Rightarrow> (int \<times> kernel) option" where
  "open_lots e p 0 cnt s = Some (cnt, s)"
| "open_lots e p (Suc k) cnt s = Option.bind (ece391_open e p s) (\<lambda>(r, s). open_lots e p k (if r = -1 then cnt + 1 else cnt) s)"

fun close_each :: "env \<Rightarrow> nat list \<Rightarrow> kernel \<Rightarrow> kernel option" where
  "close_each e [] s = Some s"
| "close_each e (i # is) s = Option.bind (ece391_close e (of_nat i) s) (\<lambda>(r, s). close_each e is s)"

definition err_open_lots :: "env \<Rightarrow> (u8 list \<Rightarrow> u32) \<Rightarrow> kernel \<Rightarrow> (int \<times> kernel) option" where
  "err_open_lots e lits s = do {
     (cnt, s) \<leftarrow> open_lots e (lits (bytes_of ''.'')) 7 0 s;
     s \<leftarrow> close_each e [2..<8] s;
     if cnt = 1 then fail_with e (lits (msg ''err_open_lots: PASS'')) 0 s
     else fail_with e (lits (msg ''err_open_lots: FAIL'')) 2 s }"

definition err_open :: "env \<Rightarrow> (u8 list \<Rightarrow> u32) \<Rightarrow> kernel \<Rightarrow> (int \<times> kernel) option" where
  "err_open e lits s = do {
     (fail, s) \<leftarrow> refused e (lits (msg '''helloo' fail'')) (ece391_open e (lits (bytes_of ''helloo''))) 0 s;
     (fail, s) \<leftarrow> refused e (lits (msg '''shel' fail'')) (ece391_open e (lits (bytes_of ''shel''))) fail s;
     (fail, s) \<leftarrow> refused e (lits (msg ''empty string fail'')) (ece391_open e (lits (bytes_of ''''))) fail s;
     verdict e (lits (msg ''err_open: FAIL'')) (lits (msg ''err_open: PASS'')) fail s }"

fun refused_each :: "env \<Rightarrow> u32 \<Rightarrow> (u32 \<Rightarrow> kernel \<Rightarrow> (int \<times> kernel) option) \<Rightarrow> nat list \<Rightarrow> int \<Rightarrow> kernel \<Rightarrow> (int \<times> kernel) option" where
  "refused_each e p call [] fail s = Some (fail, s)"
| "refused_each e p call (i # is) fail s =
     Option.bind (refused e p (call (of_nat i)) fail s) (\<lambda>(fail, s). refused_each e p call is fail s)"

definition err_unopened :: "env \<Rightarrow> (u8 list \<Rightarrow> u32) \<Rightarrow> u32 \<Rightarrow> kernel \<Rightarrow> (int \<times> kernel) option" where
  "err_unopened e lits tb s = do {
     (fail, s) \<leftarrow> refused_each e (lits (msg ''close unopened or invalid fd fail'')) (ece391_close e) [0..<8] 0 s;
     (fail, s) \<leftarrow> refused_each e (lits (msg ''read from unopened fd fail'')) (\<lambda>i. ece391_read e i tb 31) [2..<8] fail s;
     (fail, s) \<leftarrow> refused_each e (lits (msg ''write to unopened fd fail'')) (\<lambda>i. ece391_write e i tb 31) [2..<8] fail s;
     verdict e (lits (msg ''err_unopened: FAIL'')) (lits (msg ''err_unopened: PASS'')) fail s }"

definition err_vidmap :: "env \<Rightarrow> (u8 list \<Rightarrow> u32) \<Rightarrow> kernel \<Rightarrow> (int \<times> kernel) option" where
  "err_vidmap e lits s = do {
     (fail, s) \<leftarrow> refused e (lits (msg ''Null pointer fail'')) (ece391_vidmap e 0) 0 s;
     (fail, s) \<leftarrow> refused e (lits (msg ''Kernel pointer fail fail'')) (ece391_vidmap e 0x400000) fail s;
     verdict e (lits (msg ''err_vidmap: FAIL'')) (lits (msg ''err_vidmap: PASS'')) fail s }"

definition err_stdin_out :: "env \<Rightarrow> (u8 list \<Rightarrow> u32) \<Rightarrow> u32 \<Rightarrow> kernel \<Rightarrow> (int \<times> kernel) option" where
  "err_stdin_out e lits tb s = do {
     (fail, s) \<leftarrow> refused e (lits (msg ''write to stdin fail'')) (ece391_write e 0 tb 31) 0 s;
     (fail, s) \<leftarrow> refused e (lits (msg ''read from stdout fail'')) (ece391_read e 1 tb 31) fail s;
     verdict e (lits (msg ''err_stdin_out: FAIL'')) (lits (msg ''err_stdin_out: PASS'')) fail s }"

definition err_syscall_num :: "env \<Rightarrow> (u8 list \<Rightarrow> u32) \<Rightarrow> u32 \<times> u32 \<times> u32 \<Rightarrow> kernel \<Rightarrow> (int \<times> kernel) option" where
  "err_syscall_num e lits regs s = do {
     (fail, s) \<leftarrow> refused e (lits (msg ''syscall 0 fail'')) (call_sys e regs BIG_NUM) 0 s;
     (fail, s) \<leftarrow> refused e (lits (msg ''big num syscall fail'')) (call_sys e regs NEG_NUM) fail s;
     (fail, s) \<leftarrow> refused e (lits (msg ''neg num syscall fail'')) (call_sys e regs 0) fail s;
     verdict e (lits (msg ''err_syscall_num: FAIL'')) (lits (msg ''err_syscall_num: PASS'')) fail s }"

definition syserr_test :: "env \<Rightarrow> (u8 list \<Rightarrow> u32) \<Rightarrow> u32 \<Rightarrow> u32 \<times> u32 \<times> u32 \<Rightarrow> int \<Rightarrow> kernel \<Rightarrow> (int \<times> kernel) option" where
  "syserr_test e lits tb regs i s =
     (if i = 1 then err_neg_fd e lits tb s
      else if i = 2 then err_big_fd e lits tb s
      else if i = 3 then err_open_lots e lits s
      else if i = 4 then err_open e lits s
      else if i = 5 then err_unopened e lits tb s
      else if i = 6 then err_vidmap e lits s
      else if i = 7 then err_stdin_out e lits tb s
      else err_syscall_num e lits regs s)"

fun all_tests :: "env \<Rightarrow> (u8 list \<Rightarrow> u32) \<Rightarrow> u32 \<Rightarrow> u32 \<times> u32 \<times> u32 \<Rightarrow> int list \<Rightarrow> int \<Rightarrow> kernel \<Rightarrow> (int \<times> kernel) option" where
  "all_tests e lits tb regs [] fail s = Some (fail, s)"
| "all_tests e lits tb regs (i # is) fail s =
     Option.bind (syserr_test e lits tb regs i s) (\<lambda>(r, s). all_tests e lits tb regs is (fail + r) s)"

definition syserr_main :: "env \<Rightarrow> (u8 list \<Rightarrow> u32) \<Rightarrow> u32 \<Rightarrow> u32 \<Rightarrow> u32 \<times> u32 \<times> u32 \<Rightarrow> kernel \<Rightarrow> (int \<times> kernel) option" where
  "syserr_main e lits buf tb regs s = do {
     s \<leftarrow> ece391_fdputs e 1 (lits (bytes_of ''Choose from tests 1-8. 0 to run all: '')) s;
     (cnt, s) \<leftarrow> ece391_read e 0 buf 127 s;
     if cnt = -1 then fail_with e (lits (msg ''Can't read test #'')) 2 s
     else let select = uint (phys s (xl s buf)) - 48
       in if select = 0 then do {
            (fail, s) \<leftarrow> all_tests e lits tb regs [1, 2, 3, 4, 5, 6, 7, 8] 0 s;
            verdict e (lits ([10] @ msg ''Overall Tests: FAIL'')) (lits ([10] @ msg ''Overall Tests: PASS'')) fail s }
          else if 1 \<le> select \<and> select \<le> 8 then syserr_test e lits tb regs select s
          else fail_with e (lits (bytes_of ''Invalid test number. Choose from tests 1-8 or 0'')) 0 s }"

section \<open>The kernel passes the tests\<close>

text \<open>The lines a passing run prints, by the selected test, and the string constants such a run uses.\<close>

definition test_names :: "string list" where
  "test_names = [''err_neg_fd'', ''err_big_fd'', ''err_open_lots'', ''err_open'', ''err_unopened'', ''err_vidmap'', ''err_stdin_out'',
     ''err_syscall_num'']"

definition pass_line :: "int \<Rightarrow> u8 list" where
  "pass_line i = msg (test_names ! nat (i - 1) @ '': PASS'')"

definition prompt :: "u8 list" where
  "prompt = bytes_of ''Choose from tests 1-8. 0 to run all: ''"

definition overall :: "u8 list" where
  "overall = [10] @ msg ''Overall Tests: PASS''"

definition invalid :: "u8 list" where
  "invalid = bytes_of ''Invalid test number. Choose from tests 1-8 or 0''"

definition test_output :: "int \<Rightarrow> u8 list" where
  "test_output i = (if i = 0 then concat (map pass_line [1..8]) @ overall else if 1 \<le> i \<and> i \<le> 8 then pass_line i else invalid)"

definition test_strings :: "u8 list list" where
  "test_strings = [prompt, overall, invalid, bytes_of ''.'', bytes_of ''helloo'', bytes_of ''shel'', bytes_of ''''] @ map pass_line [1..8]"

text \<open>
  What the tests assume of the program's descriptors and of the file system: 0 and 1 are the terminal's, 2 to 7 are
  closed, and of the names the tests open only the directory exists.
\<close>

definition tests_ok :: "kernel \<Rightarrow> bool" where
  "tests_ok s \<longleftrightarrow> (\<forall>i \<in> {2..<8}. flags (fd s ! i) = 0) \<and> stdin_ok s \<and> f_write (fotp (fd s ! 0)) = write_invalid \<and>
     f_read (fotp (fd s ! 1)) = read_invalid \<and> f_close (dfotp s) = close_file \<and> lookup s (bytes_of ''helloo'') = None \<and>
     lookup s (bytes_of ''shel'') = None \<and> lookup s (bytes_of '''') = None \<and> map_option de_ftype (lookup s (bytes_of ''.'')) = Some 1"

definition ready :: "(u8 list \<Rightarrow> u32) \<Rightarrow> u32 \<Rightarrow> kernel \<Rightarrow> bool" where
  "ready lits buf s \<longleftrightarrow> program lits test_strings buf 129 s \<and> tests_ok s"

lemma pass_line_simps [simp]:
  "pass_line 1 = msg ''err_neg_fd: PASS''" "pass_line 2 = msg ''err_big_fd: PASS''" "pass_line 3 = msg ''err_open_lots: PASS''"
  "pass_line 4 = msg ''err_open: PASS''" "pass_line 5 = msg ''err_unopened: PASS''" "pass_line 6 = msg ''err_vidmap: PASS''"
  "pass_line 7 = msg ''err_stdin_out: PASS''" "pass_line 8 = msg ''err_syscall_num: PASS''"
  by (simp_all add: pass_line_def test_names_def)

lemma upto8: "[1..8] = [1, 2, 3, 4, 5, 6, 7, 8 :: int]"
  by (simp add: upto.simps)

lemma pass_line_mem: "1 \<le> i \<Longrightarrow> i \<le> 8 \<Longrightarrow> pass_line i \<in> set test_strings"
  by (simp add: test_strings_def)

lemma pass_line_plain: "1 \<le> i \<Longrightarrow> i \<le> 8 \<Longrightarrow> 8 \<notin> set (pass_line i)"
proof -
  assume "1 \<le> i" "i \<le> 8"
  then have "i \<in> set [1..8]" by simp
  then show ?thesis unfolding upto8 by (auto simp: bytes_of_def)
qed

lemma ready_keeps:
  assumes r: "ready lits buf s" and k: "keeps buf 129 s t"
  shows "ready lits buf t"
proof -
  have p: "program lits test_strings buf 129 s" using r by (simp add: ready_def)
  have cc: "console_change s t" using k by (simp add: keeps_def)
  note f = console_change_prog [OF cc]
  have "tests_ok t" using r f keeps_lookup [OF p k] by (simp add: ready_def tests_ok_def stdin_ok_def)
  then show ?thesis using program_keeps [OF p k] by (simp add: ready_def)
qed

lemma ready_say:
  assumes "ready lits buf s" and "c \<in> set test_strings"
  shows "ece391_fdputs e 1 (lits c) s = Some (fold putc c s)" and "ready lits buf (fold putc c s)"
    and "verdict e p (lits c) 0 s = Some (0, fold putc c s)" and "fail_with e (lits c) r s = Some (r, fold putc c s)"
proof -
  have p: "program lits test_strings buf 129 s" using assms(1) by (simp add: ready_def)
  note say = program_say [OF p assms(2)]
  show f: "ece391_fdputs e 1 (lits c) s = Some (fold putc c s)" by (rule say(1))
  show "ready lits buf (fold putc c s)" by (rule ready_keeps [OF assms(1) say(3)])
  show "verdict e p (lits c) 0 s = Some (0, fold putc c s)" by (simp add: verdict_def f)
  show "fail_with e (lits c) r s = Some (r, fold putc c s)" by (rule say(4))
qed

lemma refused_pass [simp]: "call s = Some (-1, s) \<Longrightarrow> refused e p call fail s = Some (fail, s)"
  by (simp add: refused_def)

lemma refused_each_pass: "(\<And>i. i \<in> set is \<Longrightarrow> call (of_nat i) s = Some (-1, s)) \<Longrightarrow> refused_each e p call is fail s = Some (fail, s)"
  by (induction "is") simp_all

lemma bad_fd:
  "sint fdr < 0 \<or> sint fdr > 7 \<Longrightarrow> ece391_read e fdr tb n s = Some (-1, s)"
  "sint fdr < 0 \<or> sint fdr > 7 \<Longrightarrow> ece391_write e fdr tb n s = Some (-1, s)"
  "sint fdr < 2 \<or> sint fdr > 8 \<Longrightarrow> ece391_close e fdr s = Some (-1, s)"
  by (auto simp: ece391_read_def ece391_write_def ece391_close_def int80_def syscall_link_def sys_read_def sys_write_def sys_close_def)

lemma fd_consts: "sint NEG_FD < 0" "sint BIG_FD > 8"
  by (simp_all add: NEG_FD_def BIG_FD_def)

lemma closed_fd:
  assumes "ready lits buf s" and "2 \<le> i" "i < 8"
  shows "ece391_read e (of_nat i) tb n s = Some (-1, s)" "ece391_write e (of_nat i) tb n s = Some (-1, s)"
    "ece391_close e (of_nat i) s = Some (-1, s)"
proof -
  have f: "flags (fd s ! i) = 0" "length (fd s) = 8" using assms by (simp_all add: ready_def tests_ok_def program_def fd_ok_def)
  have i: "sint (of_nat i :: u32) = int i" using assms(3) by (intro small_sint) simp
  show "ece391_read e (of_nat i) tb n s = Some (-1, s)" "ece391_write e (of_nat i) tb n s = Some (-1, s)"
    "ece391_close e (of_nat i) s = Some (-1, s)"
    using f assms(2,3) by (simp_all add: ece391_read_def ece391_write_def ece391_close_def int80_def syscall_link_def sys_read_def
        sys_write_def sys_close_def i Let_def)
qed

lemma const_lookup:
  assumes "ready lits buf s" and "c \<in> set test_strings" and "length c \<le> 32"
  shows "read_dentry_by_name (xl s) (phys s) (FSYSTEM s) (c_string (lits c) s) = lookup s c"
  using assms by (auto simp: ready_def intro: program_lookup)

lemma open_missing:
  assumes "ready lits buf s" and "c \<in> set test_strings" and "length c \<le> 32" and "lookup s c = None"
  shows "ece391_open e (lits c) s = Some (-1, s)"
  using const_lookup [OF assms(1-3)] assms(4) by (simp add: ece391_open_def int80_def syscall_link_def returned_def sys_open_def)

lemma tests_run:
  assumes r: "ready lits buf s" and tb: "tb \<noteq> 0"
  shows "err_neg_fd e lits tb s = Some (0, fold putc (pass_line 1) s)"
    and "err_big_fd e lits tb s = Some (0, fold putc (pass_line 2) s)"
    and "err_open e lits s = Some (0, fold putc (pass_line 4) s)"
    and "err_unopened e lits tb s = Some (0, fold putc (pass_line 5) s)"
    and "err_vidmap e lits s = Some (0, fold putc (pass_line 6) s)"
    and "err_stdin_out e lits tb s = Some (0, fold putc (pass_line 7) s)"
    and "err_syscall_num e lits regs s = Some (0, fold putc (pass_line 8) s)"
proof -
  have rep: "verdict e p (lits (pass_line i)) 0 s = Some (0, fold putc (pass_line i) s)" if "1 \<le> i" "i \<le> 8" for p i
    by (rule ready_say(3) [OF r pass_line_mem [OF that]])
  note bad = bad_fd [of NEG_FD] bad_fd [of BIG_FD]
  show "err_neg_fd e lits tb s = Some (0, fold putc (pass_line 1) s)"
    using rep [of 1] fd_consts bad by (simp add: err_neg_fd_def)
  show "err_big_fd e lits tb s = Some (0, fold putc (pass_line 2) s)"
    using rep [of 2] fd_consts bad by (simp add: err_big_fd_def)
  have names: "ece391_open e (lits c) s = Some (-1, s)" if "c \<in> {bytes_of ''helloo'', bytes_of ''shel'', bytes_of ''''}" for c
    by (rule open_missing [OF r]) (use that r in \<open>auto simp: test_strings_def ready_def tests_ok_def bytes_of_def\<close>)
  show "err_open e lits s = Some (0, fold putc (pass_line 4) s)"
    using rep [of 4] names by (simp add: err_open_def)
  have "ece391_close e (of_nat i) s = Some (-1, s)" if "i \<in> set [0..<8]" for i
    using that closed_fd(3) [OF r, of i] bad_fd(3) [of "of_nat i"] small_sint [of i] by (cases "i < 2") auto
  note c = refused_each_pass [where call = "ece391_close e", OF this]
  have "(\<lambda>i. ece391_read e i tb 31) (of_nat i) s = Some (-1, s)" if "i \<in> set [2..<8]" for i 
    using that by (intro closed_fd(1) [OF r]) auto
  note d = refused_each_pass [where call = "\<lambda>i. ece391_read e i tb 31", OF this]
  have "(\<lambda>i. ece391_write e i tb 31) (of_nat i) s = Some (-1, s)" if "i \<in> set [2..<8]" for i 
    using that by (intro closed_fd(2) [OF r]) auto
  note w = refused_each_pass [where call = "\<lambda>i. ece391_write e i tb 31", OF this]
  show "err_unopened e lits tb s = Some (0, fold putc (pass_line 5) s)"
    using rep [of 5] by (simp only: err_unopened_def c d w bind.bind_lunit prod.case pass_line_simps)
  show "err_vidmap e lits s = Some (0, fold putc (pass_line 6) s)"
    using rep [of 6] by (simp add: err_vidmap_def ece391_vidmap_def int80_def syscall_link_def vidmap_def returned_def EXEC_LOCATION_def)
  have io: "flags (fd s ! 0) \<noteq> 0" "f_write (fotp (fd s ! 0)) = write_invalid" "flags (fd s ! 1) \<noteq> 0" "f_read (fotp (fd s ! 1)) = read_invalid"
    using r by (simp_all add: ready_def tests_ok_def stdin_ok_def program_def stdout_ok_def)
  then have "ece391_write e 0 tb 31 s = Some (-1, s)" "ece391_read e 1 tb 31 s = Some (-1, s)"
    by (simp_all add: ece391_read_def ece391_write_def int80_def syscall_link_def sys_read_def sys_write_def terminal_invalid_read_def
        terminal_invalid_write_def)
  then show "err_stdin_out e lits tb s = Some (0, fold putc (pass_line 7) s)"
    using rep [of 7] by (simp add: err_stdin_out_def)
  have "call_sys e regs n s = Some (-1, s)" if "n \<in> {BIG_NUM, NEG_NUM, 0}" for n
    using that by (auto simp: call_sys_def int80_def syscall_link_def BIG_NUM_def NEG_NUM_def split: prod.split)
  then show "err_syscall_num e lits regs s = Some (0, fold putc (pass_line 8) s)"
    using rep [of 8] by (simp add: err_syscall_num_def)
qed

section \<open>Opening until it fails\<close>

lemma xl_fd_only [simp]: "xl (s\<lparr>fd := f\<rparr>) = xl s" for s :: kernel
  by (rule xl_cong) simp_all

text \<open>The descriptor table with the first \<open>k\<close> free descriptors taken by \<open>f\<close>.\<close>

definition taken :: "file_t \<Rightarrow> file_t list \<Rightarrow> nat \<Rightarrow> file_t list" where
  "taken f t k = take 2 t @ replicate k f @ drop (2 + k) t"

lemma taken_nth:
  assumes "length t = 8" "k \<le> 6" "i < 8"
  shows "taken f t k ! i = (if 2 \<le> i \<and> i < 2 + k then f else t ! i)"
proof -
  have "2 \<le> i \<Longrightarrow> Suc (Suc (i - 2)) = i" by simp
  then show ?thesis using assms by (auto simp: taken_def nth_append)
qed

lemma taken_length [simp]: "length t = 8 \<Longrightarrow> k \<le> 6 \<Longrightarrow> length (taken f t k) = 8"
  by (simp add: taken_def)

lemma taken_Suc: "length t = 8 \<Longrightarrow> k < 6 \<Longrightarrow> (taken f t k)[2 + k := f] = taken f t (Suc k)"
  by (rule nth_equalityI) (auto simp: taken_nth nth_list_update)

lemma free_fd_first: "\<forall>j < i. flags (t ! (b + j)) \<noteq> 0 \<Longrightarrow> flags (t ! (b + i)) = 0 \<Longrightarrow> i < k \<Longrightarrow> free_fd t b k = Some (b + i)"
proof (induction k arbitrary: b i)
  case (Suc k)
  show ?case
  proof (cases i)
    case 0
    then show ?thesis using Suc.prems by simp
  next
    case (Suc j)
    have "flags (t ! b) \<noteq> 0" using Suc.prems(1) Suc by (metis add_0_right zero_less_Suc)
    moreover have "\<forall>m < j. flags (t ! (Suc b + m)) \<noteq> 0" using Suc.prems(1) Suc by (auto dest: spec [where x = "Suc _"])
    ultimately show ?thesis using Suc.IH [of j "Suc b"] Suc.prems Suc by simp
  qed
qed simp

lemma taken_free:
  assumes "length t = 8" "\<forall>i \<in> {2..<8}. flags (t ! i) = 0" "flags f \<noteq> 0" "k \<le> 6"
  shows "free_fd (taken f t k) 2 6 = (if k < 6 then Some (2 + k) else None)"
  using assms free_fd_first [of k "taken f t k" 2 6] by (auto simp: taken_nth free_fd_None)

lemma open_taken:
  fixes s :: kernel
  assumes t: "length (fd s) = 8" "\<forall>i \<in> {2..<8}. flags (fd s ! i) = 0" and k: "k \<le> 6" and p: "p \<noteq> 0"
    and d: "read_dentry_by_name (xl s) (phys s) (FSYSTEM s) (Some (buf_at (xl s) (phys s) p)) = Some d" "de_ftype d = 1"
    and f: "f = \<lparr>fotp = dfotp s, inode = 0, fposition = 0, flags = 1\<rparr>"
  shows "ece391_open e p (s\<lparr>dt := d', fd := taken f (fd s) k\<rparr>) =
    Some (if k < 6 then int (2 + k) else -1, s\<lparr>dt := d, fd := taken f (fd s) (min 6 (Suc k))\<rparr>)"
proof -
  have nf: "flags f \<noteq> 0" by (simp add: f)
  have "new_fd 1 (s\<lparr>fd := taken f (fd s) k, dt := d\<rparr>) = f" by (simp add: new_fd_def f)
  then show ?thesis
    using taken_free [OF t nf k] taken_Suc [OF t(1), of k f] p d k
    by (simp add: ece391_open_def int80_def syscall_link_def returned_def sys_open_def c_string_def createFD_alt Let_def)
qed

lemma open_lots_run:
  fixes s :: kernel
  assumes t: "length (fd s) = 8" "\<forall>i \<in> {2..<8}. flags (fd s ! i) = 0" and p: "p \<noteq> 0"
    and d: "read_dentry_by_name (xl s) (phys s) (FSYSTEM s) (Some (buf_at (xl s) (phys s) p)) = Some d" "de_ftype d = 1"
    and f: "f = \<lparr>fotp = dfotp s, inode = 0, fposition = 0, flags = 1\<rparr>"
  shows "j \<le> 6 \<Longrightarrow> open_lots e p (Suc j) cnt (s\<lparr>dt := d', fd := taken f (fd s) (6 - j)\<rparr>) =
    Some (cnt + 1, s\<lparr>dt := d, fd := taken f (fd s) 6\<rparr>)"
proof (induction j arbitrary: d')
  case 0
  then show ?case using open_taken [OF t _ p d f, of 6 e d'] by simp
next
  case (Suc j)
  have "min 6 (Suc (6 - Suc j)) = 6 - j" using Suc.prems by simp
  then have "ece391_open e p (s\<lparr>dt := d', fd := taken f (fd s) (6 - Suc j)\<rparr>) =
      Some (int (2 + (6 - Suc j)), s\<lparr>dt := d, fd := taken f (fd s) (6 - j)\<rparr>)"
    using open_taken [OF t _ p d f, of "6 - Suc j" e d'] Suc.prems by simp
  then have "open_lots e p (Suc (Suc j)) cnt (s\<lparr>dt := d', fd := taken f (fd s) (6 - Suc j)\<rparr>) =
      open_lots e p (Suc j) cnt (s\<lparr>dt := d, fd := taken f (fd s) (6 - j)\<rparr>)"
    by (subst open_lots.simps(2)) simp
  then show ?case using Suc by simp
qed

text \<open>Closing is the same on a closed descriptor, up to the result.\<close>

definition shut :: "nat \<Rightarrow> file_t list \<Rightarrow> file_t list" where
  "shut i t = t[i := (t ! i)\<lparr>flags := 0\<rparr>]"

lemma close_each_run:
  "length (fd s) = 8 \<Longrightarrow> \<forall>i \<in> set is. 2 \<le> i \<and> i < 8 \<and> f_close (fotp (fd s ! i)) = close_file \<Longrightarrow>
    close_each e is s = Some (s\<lparr>fd := fold shut is (fd s)\<rparr>)"
proof (induction "is" arbitrary: s)
  case (Cons i "is")
  have i: "sint (of_nat i :: u32) = int i" "2 \<le> i" "i < 8" using Cons.prems(2) by (auto intro: small_sint)
  have "shut i (fd s) = fd s" if "flags (fd s ! i) = 0" 
  proof -
    have "(fd s ! i)\<lparr>flags := 0\<rparr> = fd s ! i" using that by (cases "fd s ! i") simp
    then show ?thesis by (simp add: shut_def)
  qed
  then have "\<exists>r. ece391_close e (of_nat i) s = Some (r, s\<lparr>fd := shut i (fd s)\<rparr>)"
    using Cons.prems i by (simp add: ece391_close_def int80_def syscall_link_def sys_close_def Let_def shut_def file_close_def)
  then obtain r where c: "ece391_close e (of_nat i) s = Some (r, s\<lparr>fd := shut i (fd s)\<rparr>)" ..
  have "close_each e is (s\<lparr>fd := shut i (fd s)\<rparr>) = Some (s\<lparr>fd := shut i (fd s), fd := fold shut is (shut i (fd s))\<rparr>)"
  proof -
    have "length (shut i (fd s)) = 8" "\<forall>j \<in> set is. 2 \<le> j \<and> j < 8 \<and> f_close (fotp (shut i (fd s) ! j)) = close_file"
      using Cons.prems by (auto simp: shut_def nth_list_update)
    then show ?thesis using Cons.IH [of "s\<lparr>fd := shut i (fd s)\<rparr>"] by simp
  qed
  then show ?case using c by simp
qed simp

lemma shut_all:
  "length t = 8 \<Longrightarrow> length (fold shut is t) = 8 \<and>
    (\<forall>i < 8. fold shut is t ! i = (if i \<in> set is then (t ! i)\<lparr>flags := 0\<rparr> else t ! i))"
proof (induction "is" arbitrary: t)
  case (Cons j "is")
  have l: "length (shut j t) = 8" using Cons.prems by (simp add: shut_def)
  have "shut j t ! i = (if i = j then (t ! i)\<lparr>flags := 0\<rparr> else t ! i)" if "i < 8" for i
    using that Cons.prems by (simp add: shut_def nth_list_update)
  then show ?case using Cons.IH [OF l] by auto
qed simp

lemma open_lots_passes:
  assumes r: "ready lits buf s"
  obtains t where "err_open_lots e lits s = Some (0, t)" "shown t = shown (fold putc (pass_line 3) s)" "ready lits buf t"
proof -
  let ?dot = "bytes_of (CHR ''.'' # [])"
  have m: "?dot \<in> set test_strings" "length ?dot \<le> 32" by (simp_all add: test_strings_def bytes_of_def)
  obtain d where d: "lookup s ?dot = Some d" "de_ftype d = 1" using r by (auto simp: ready_def tests_ok_def)
  have p: "program lits test_strings buf 129 s" and len: "length (fd s) = 8" and c: "\<forall>i \<in> {2..<8}. flags (fd s ! i) = 0"
    and cl: "f_close (dfotp s) = close_file" using r by (simp_all add: ready_def tests_ok_def program_def fd_ok_def)
  have p0: "lits ?dot \<noteq> 0" using p m(1) by (simp add: program_def const_at_def)
  have l: "read_dentry_by_name (xl s) (phys s) (FSYSTEM s) (Some (buf_at (xl s) (phys s) (lits ?dot))) = Some d"
    using const_lookup [OF r m] d(1) p0 by (simp add: c_string_def)
  define f where "f = \<lparr>fotp = dfotp s, inode = 0, fposition = 0, flags = 1\<rparr>"
  have s0: "taken f (fd s) 0 = fd s" by (simp add: taken_def)
  have o: "open_lots e (lits ?dot) (Suc 6) 0 s = Some (1, s\<lparr>dt := d, fd := taken f (fd s) 6\<rparr>)"
    using open_lots_run [OF len c p0 l d(2) f_def, of 6 e 0 "dt s"] by (simp add: s0)
  let ?t = "s\<lparr>dt := d, fd := taken f (fd s) 6\<rparr>"
  define g where "g = fold shut [2..<8] (taken f (fd s) 6)"
  have "close_each e [2..<8] ?t = Some (?t\<lparr>fd := fold shut [2..<8] (fd ?t)\<rparr>)"
    by (rule close_each_run) (use len cl in \<open>auto simp: taken_nth f_def\<close>)
  then have cs: "close_each e [2..<8] ?t = Some (s\<lparr>dt := d, fd := g\<rparr>)" unfolding g_def by simp
  have sh: "length g = 8" "\<And>i. i < 8 \<Longrightarrow> g ! i = (if i \<in> {2..<8} then f\<lparr>flags := 0\<rparr> else fd s ! i)"
    using shut_all [of "taken f (fd s) 6" "[2..<8]", folded g_def] len by (auto simp: taken_nth)
  let ?u = "s\<lparr>dt := d, fd := g\<rparr>"
  have "program lits test_strings buf 129 ?u" by (rule program_fd [OF p sh(1)]) (simp add: sh(2))
  moreover have "tests_ok ?u" using r sh(2) by (auto simp: ready_def tests_ok_def stdin_ok_def)
  ultimately have ru: "ready lits buf ?u" by (simp add: ready_def)
  note say = ready_say [OF ru pass_line_mem [of 3]]
  have seven: "7 = Suc 6" by simp
  have "err_open_lots e lits s = Some (0, fold putc (pass_line 3) ?u)"
    unfolding err_open_lots_def seven by (simp only: o cs bind.bind_lunit prod.case simp_thms if_True) (use say(4) in simp)
  moreover have "shown (fold putc (pass_line 3) ?u) = shown (fold putc (pass_line 3) s)"
    by (rule shown_fold) (use ru pass_line_plain [of 3] in \<open>simp_all add: ready_def program_def stdout_ok_def\<close>)
  moreover have "ready lits buf (fold putc (pass_line 3) ?u)" using say(2) by simp
  ultimately show thesis by (rule that)
qed

lemma test_passes:
  assumes r: "ready lits buf s" and tb: "tb \<noteq> 0" and i: "1 \<le> i" "i \<le> 8"
  obtains t where "syserr_test e lits tb regs i s = Some (0, t)" "shown t = shown (fold putc (pass_line i) s)" "ready lits buf t"
proof (cases "i = 3")
  case True
  obtain t where "err_open_lots e lits s = Some (0, t)" "shown t = shown (fold putc (pass_line 3) s)" "ready lits buf t"
    by (rule open_lots_passes [OF r])
  then show ?thesis using True by (intro that [of t]) (simp_all add: syserr_test_def)
next
  case False
  have "i \<in> set [1..8]" using i by simp
  then have "syserr_test e lits tb regs i s = Some (0, fold putc (pass_line i) s)"
    using False tests_run(1-6) [OF r tb, of e] tests_run(7) [OF r tb, of e regs] unfolding upto8 by (auto simp: syserr_test_def)
  then show ?thesis using ready_say(2) [OF r pass_line_mem [OF i]] by (intro that) simp_all
qed

lemma all_tests_pass:
  assumes "ready lits buf s" "tb \<noteq> 0" "set is \<subseteq> {1..8}"
  shows "\<exists>t. all_tests e lits tb regs is fail s = Some (fail, t) \<and> shown t = shown (fold putc (concat (map pass_line is)) s) \<and>
    ready lits buf t"
  using assms
proof (induction "is" arbitrary: s)
  case (Cons i "is")
  then obtain t where t: "syserr_test e lits tb regs i s = Some (0, t)" "shown t = shown (fold putc (pass_line i) s)" "ready lits buf t"
    by (auto intro: test_passes [of lits buf s tb i e regs])
  obtain u where u: "all_tests e lits tb regs is fail t = Some (fail, u)" "shown u = shown (fold putc (concat (map pass_line is)) t)"
    "ready lits buf u" using Cons.IH [OF t(3)] Cons.prems by auto
  have "console_ok t" using t(3) by (simp add: ready_def program_def stdout_ok_def)
  moreover have "8 \<notin> set (concat (map pass_line is))" using Cons.prems(3) pass_line_plain by auto
  ultimately have "shown u = shown (fold putc (concat (map pass_line (i # is))) s)" using u(2) shown_fold [OF t(2)] by simp
  then show ?case using t(1) u by simp
qed simp

text \<open>What the program does once the choice is read.\<close>

lemma selected_test:
  assumes r: "ready lits buf s" and tb: "tb \<noteq> 0"
  shows "\<exists>t. (if i = 0 then do {
            (fail, s) \<leftarrow> all_tests e lits tb regs [1, 2, 3, 4, 5, 6, 7, 8] 0 s;
            verdict e (lits ([10] @ msg ''Overall Tests: FAIL'')) (lits ([10] @ msg ''Overall Tests: PASS'')) fail s }
          else if 1 \<le> i \<and> i \<le> 8 then syserr_test e lits tb regs i s
          else fail_with e (lits (bytes_of ''Invalid test number. Choose from tests 1-8 or 0'')) 0 s) = Some (0, t) \<and>
    shown t = shown (fold putc (test_output i) s)"
proof -
  consider "i = 0" | "1 \<le> i" "i \<le> 8" | "i < 0 \<or> i > 8" by linarith
  then show ?thesis
  proof cases
    case 1
    obtain t where t: "all_tests e lits tb regs [1, 2, 3, 4, 5, 6, 7, 8] 0 s = Some (0, t)"
      "shown t = shown (fold putc (concat (map pass_line [1..8])) s)" "ready lits buf t"
      using all_tests_pass [OF r tb, of "[1, 2, 3, 4, 5, 6, 7, 8]" e regs 0] unfolding upto8 by auto
    have m: "overall \<in> set test_strings" by (simp add: test_strings_def)
    have "verdict e p (lits overall) 0 t = Some (0, fold putc overall t)" for p by (rule ready_say(3) [OF t(3) m])
    moreover have "shown (fold putc overall t) = shown (fold putc overall (fold putc (concat (map pass_line [1..8])) s))"
      by (rule shown_fold [OF t(2)]) (use t(3) in \<open>simp_all add: ready_def program_def stdout_ok_def overall_def bytes_of_def\<close>)
    ultimately show ?thesis using 1 t(1) by (simp add: test_output_def overall_def del: pass_line_simps)
  next
    case 2
    then obtain t where "syserr_test e lits tb regs i s = Some (0, t)" "shown t = shown (fold putc (pass_line i) s)"
      by (rule test_passes [OF r tb])
    then show ?thesis using 2 by (auto simp: test_output_def)
  next
    case 3
    have "invalid \<in> set test_strings" by (simp add: test_strings_def)
    from ready_say(4) [OF r this, of e 0] show ?thesis using 3 by (auto simp: test_output_def invalid_def)
  qed
qed

text \<open>
  C5. The kernel passes its error tests: started on a terminal on the screen, with descriptors 2 to 7 closed and a
  directory that has the entry \<^verbatim>\<open>.\<close> but none named \<^verbatim>\<open>helloo\<close>, \<^verbatim>\<open>shel\<close> or by the empty name, the test program
  waits for a line, returns 0 for every line that is typed, and the screen shows exactly the prompt, the echo of the line
  and the \<^verbatim>\<open>PASS\<close> lines of the chosen tests (all eight for 0) or the message for an invalid choice.
\<close>

theorem error_tests_pass:
  assumes r: "ready lits buf s" and tb: "tb \<noteq> 0" and nm: "no_modifier sh cp s" and zs: "line_keys sh cp zs"
    and e: "irqs e = map press_key (zs @ [28])" and l: "l = map (key_char sh cp) zs"
  shows "\<exists>t. syserr_main e lits buf tb regs s = Some (0, t) \<and>
    shown t = shown (fold putc (test_output (uint (hd (l @ [10])) - 48)) (after_line l (fold putc prompt s)))"
proof -
  have "prompt \<in> set test_strings" by (simp add: test_strings_def)
  note say = ready_say [OF r this]
  let ?s = "fold putc prompt s"
  have p: "program lits test_strings buf 129 ?s" using say(2) by (simp add: ready_def)
  have o: "console_ok ?s" "stdin_ok ?s" "buf \<noteq> 0" "inj_on (xl ?s) (region buf 129)" "off_screen buf 129 ?s"
    using say(2) by (simp_all add: ready_def tests_ok_def program_def stdout_ok_def user_buf_def)
  have nm': "no_modifier sh cp ?s" by (rule keyb.ready_output [OF nm console_change_fold])
  have n: "length zs \<le> 127" using zs by (simp add: line_keys_def)
  obtain u where u: "ece391_read e 0 buf (of_nat 127) ?s = Some (int (length zs) + 1, u)" "keeps buf 129 ?s u"
    "\<forall>j < 129. phys u (xl ?s (buf + of_nat j)) = padded (map (key_char sh cp) zs @ [10]) j"
    "shown u = shown (after_line (map (key_char sh cp) zs) ?s)"
    by (rule typed_read [OF nm' o(1,2) zs e n _ o(3,4,5)]) simp_all
  have ru: "ready lits buf u" by (rule ready_keeps [OF say(2) u(2)])
  have x: "xl u = xl ?s" using u(2) unfolding keeps_def by (blast intro: console_change_prog(1))
  have b: "phys u (xl u buf) = hd (l @ [10])" using u(3) [rule_format, of 0] x l by (simp add: padded_def hd_conv_nth)
  obtain t where t: "syserr_main e lits buf tb regs s = Some (0, t)"
      "shown t = shown (fold putc (test_output (uint (hd (l @ [10])) - 48)) u)"
    using selected_test [OF ru tb, of "uint (hd (l @ [10])) - 48" e regs] u(1) say(1) unfolding prompt_def
    by (auto simp: syserr_main_def b)
  have "8 \<notin> set (test_output i)" for i
    using pass_line_plain by (auto simp: test_output_def overall_def invalid_def bytes_of_def)
  from shown_fold [OF u(4) _ this] have
    "shown (fold putc (test_output (uint (hd (l @ [10])) - 48)) u) =
      shown (fold putc (test_output (uint (hd (l @ [10])) - 48)) (after_line l ?s))"
    using u(2) l by (simp add: keeps_def)
  then show ?thesis using t by simp
qed

section \<open>Witness\<close>

text \<open>
  The program of \<open>prog_kernel\<close> with the constants \<open>cs\<close> in memory; for the tests, the typed choice is 0.
\<close>

definition const_kernel :: "u8 list list \<Rightarrow> kernel" where
  "const_kernel cs = prog_kernel\<lparr>phys := const_mem 0x601000 cs list_fs\<rparr>"

abbreviation test_kernel :: kernel where
  "test_kernel \<equiv> const_kernel test_strings"

lemma const_mem_image:
  assumes "length cs \<le> 64" "a \<in> region 0x500000 12288"
  shows "const_mem 0x601000 cs m a = m a"
proof -
  obtain i where i: "a = 0x500000 + of_nat i" "i < 12288" using assms(2) by (auto simp: region_def)
  have "(0x500000 :: u32) + of_nat i - 0x601000 = of_nat i - 0x101000" by simp
  moreover have "unat (of_nat i - 0x101000 :: u32) = 2 ^ 32 + i - 0x101000" using i(2) by (simp add: unat_sub_if' unat_of_nat)
  ultimately show ?thesis using i assms(1) by (simp add: const_mem_def Let_def)
qed

lemma const_kernel_files:
  assumes "length cs \<le> 64"
  shows "same_files prog_kernel (const_kernel cs)" "xl (const_kernel cs) = id" "fs_size id (phys (const_kernel cs)) 0x500000 = 12288"
    "fs_ok id (phys (const_kernel cs)) 0x500000"
proof -
  have x: "xl (const_kernel cs) = xl prog_kernel" by (rule xl_cong) (simp_all add: const_kernel_def)
  then show x': "xl (const_kernel cs) = id" by (simp add: prog_kernel_fields)
  have size: "fs_size id list_fs 0x500000 = 12288" using list_fs_rd by (simp add: fs_size_def)
  show sf: "same_files prog_kernel (const_kernel cs)"
    using prog_kernel_fields(1-3) x size const_mem_image [OF assms] by (simp add: same_files_def const_kernel_def fs_image_def)
  have eq: "phys (const_kernel cs) a = list_fs a" if "a \<in> fs_image id list_fs 0x500000" for a
    using that const_mem_image [OF assms, of a list_fs] by (simp add: const_kernel_def fs_image_def size)
  note ag = image_agree [OF list_fs_ok eq]
  show "fs_size id (phys (const_kernel cs)) 0x500000 = 12288" using ag(1,2) size by (simp add: fs_size_def)
  show "fs_ok id (phys (const_kernel cs)) 0x500000" using ag(6) .
qed

lemma const_kernel_program:
  assumes "length cs \<le> 64" "\<forall>c \<in> set cs. length c < 64 \<and> plain c"
  shows "n \<le> 4096 \<Longrightarrow> program (const_addr 0x601000 cs) cs 0x600000 n (const_kernel cs)" "stdin_ok (const_kernel cs)"
    "no_modifier False False (const_kernel cs)"
proof -
  note f = const_kernel_files [OF assms(1)] and p = prog_kernel_fields
  have ph: "phys (const_kernel cs) = const_mem 0x601000 cs list_fs" and fs: "FSYSTEM (const_kernel cs) = 0x500000"
    using p(3) by (simp_all add: const_kernel_def)
  have so: "stdout_ok (const_kernel cs)" "fd_ok (const_kernel cs)"
    using p(4,8) by (simp_all add: const_kernel_def stdout_ok_def fd_ok_def console_simps)
  show "program (const_addr 0x601000 cs) cs 0x600000 n (const_kernel cs)" if "n \<le> 4096"
    by (rule layout_program [OF ph _ so _ fs _ assms that]) (use f in \<open>simp_all add: fs\<close>)
  show "stdin_ok (const_kernel cs)" "no_modifier False False (const_kernel cs)"
    by (simp_all add: stdin_ok_def no_modifier_def const_kernel_def prog_kernel_def list_kernel_def initFOTP_def Let_def blank_kernel_def null_file_def)
qed

lemma const_kernel_lookup:
  assumes "length cs \<le> 64" "0 \<notin> set c" "length c \<le> 32"
  shows "lookup (const_kernel cs) c = (if c = [0x66] then Some (dentry_at id list_fs 0x500040)
     else if c = [0x2E] then Some (dentry_at id list_fs 0x500080) else None)"
proof -
  have "fs_ok (xl prog_kernel) (phys prog_kernel) (FSYSTEM prog_kernel)" using list_fs_ok by (simp add: prog_kernel_fields)
  then have "lookup (const_kernel cs) c = lookup prog_kernel c"
    using const_kernel_files(1) [OF assms(1)] lookup_agree [of "xl prog_kernel" "phys prog_kernel" "FSYSTEM prog_kernel" "phys (const_kernel cs)"]
    by (simp add: same_files_def)
  moreover have "[0..<2] = [0, 1 :: nat]" by code_simp
  ultimately show ?thesis
    using list_fs_names assms(2,3) by (simp add: lookup_name prog_kernel_fields cprefix_lit entry_at_def)
qed

lemma test_strings_fit: "length test_strings \<le> 64" "\<forall>c \<in> set test_strings. length c < 64 \<and> plain c"
  unfolding test_strings_def upto8 by (simp_all add: plain_def prompt_def overall_def invalid_def bytes_of_def)

lemma test_kernel_ready: "ready (const_addr 0x601000 test_strings) 0x600000 test_kernel"
proof -
  note k = const_kernel_program [OF test_strings_fit] and l = const_kernel_lookup [OF test_strings_fit(1)]
  have "tests_ok test_kernel"
    using k(2) l [of "bytes_of ''helloo''"] l [of "bytes_of ''shel''"] l [of "[]"] l [of "bytes_of ''.''"] unfolding tests_ok_def
    by (auto simp: bytes_of_def const_kernel_def prog_kernel_def list_kernel_def initFOTP_def Let_def blank_kernel_def null_file_def dentry_at_def
        list_fs_def tiny_fs_def nth_list_update)
  then show ?thesis using k(1) by (simp add: ready_def)
qed

theorem error_tests_pass_witness:
  "\<exists>t. syserr_main (plain_env\<lparr>irqs := map press_key ([11] @ [28])\<rparr>) (const_addr 0x601000 test_strings) 0x600000 0x600200 (0, 0, 0) test_kernel =
      Some (0, t) \<and>
    shown t = shown (fold putc (concat (map pass_line [1..8]) @ overall) (after_line [48] (fold putc prompt test_kernel)))"
proof -
  have k: "key_char False False 11 = 48" by (simp add: key_char_def echo_char_def blank_kernel_def key_tables)
  then have zs: "line_keys False False [11]" by (simp add: line_keys_def char_keys_def known_key_def)
  note nm = const_kernel_program(3) [OF test_strings_fit]
  have l: "[48] = map (key_char False False) [11]" by (simp add: k)
  from error_tests_pass [OF test_kernel_ready _ nm zs _ l, of "0x600200" "plain_env\<lparr>irqs := map press_key ([11] @ [28])\<rparr>" "(0, 0, 0)"]
  show ?thesis by (simp add: test_output_def del: pass_line_simps)
qed

end
