(* ===== verification/User_Shell.thy ===== *)
theory User_Shell
  imports User_Tests
begin

text \<open>
  The interactive programs: \<^verbatim>\<open>syscalls/ece391shell.c\<close>, \<^verbatim>\<open>ece391hello.c\<close>, \<^verbatim>\<open>ece391testprint.c\<close> and
  \<^verbatim>\<open>ece391counter.c\<close>. The shell's endless loop is a turn function; a turn ends with the shell's exit, the next turn, or
  the kernel's jump into the started program, whose end brings the shell back with the status as the result of
  \<^verbatim>\<open>execute\<close>.
\<close>

section \<open>testprint and hello\<close>

definition testprint_main :: "env \<Rightarrow> (u8 list \<Rightarrow> u32) \<Rightarrow> kernel \<Rightarrow> (int \<times> kernel) option" where
  "testprint_main e lits s = fail_with e (lits (msg ''Hello, if this ran, the program was correct. Yay!'')) 0 s"

text \<open>\<^verbatim>\<open>buf[i] = c\<close> in the program's memory.\<close>

definition poke :: "u32 \<Rightarrow> int \<Rightarrow> u8 \<Rightarrow> kernel \<Rightarrow> kernel" where
  "poke buf i c s = s\<lparr>phys := (phys s)(xl s (buf + word_of_int i) := c)\<rparr>"

definition hello_main :: "env \<Rightarrow> (u8 list \<Rightarrow> u32) \<Rightarrow> u32 \<Rightarrow> kernel \<Rightarrow> (int \<times> kernel) option" where
  "hello_main e lits buf s = do {
     s \<leftarrow> ece391_fdputs e 1 (lits (bytes_of ''Hi, what's your name? '')) s;
     (cnt, s) \<leftarrow> ece391_read e 0 buf 1023 s;
     if cnt = -1 then fail_with e (lits (msg ''Can't read name from keyboard.'')) 3 s
     else do {
       s \<leftarrow> ece391_fdputs e 1 (lits (bytes_of ''Hello, '')) (poke buf cnt 0 s);
       fail_with e buf 0 s } }"

section \<open>counter\<close>

definition counter_max :: "u8 \<Rightarrow> u32" where
  "counter_max c = (if c = 48 then 100 else if c = 49 then 10000 else if c = 50 then 100000 else 0)"

text \<open>\<open>k\<close> is the number of turns left.\<close>

fun counter_loop :: "env \<Rightarrow> (u8 list \<Rightarrow> u32) \<Rightarrow> u32 \<Rightarrow> nat \<Rightarrow> u32 \<Rightarrow> kernel \<Rightarrow> (int \<times> kernel) option" where
  "counter_loop e lits buf 0 i s = Some (0, s)"
| "counter_loop e lits buf (Suc k) i s =
     Option.bind (ece391_itoa (i + 1) 10) (\<lambda>digits.
     Option.bind (ece391_fdputs e 1 buf (s\<lparr>phys := store_bytes (xl s) buf (digits @ [0]) (phys s)\<rparr>)) (\<lambda>s.
     Option.bind (ece391_fdputs e 1 (lits [10]) s) (\<lambda>s.
     counter_loop e lits buf k (i + 1) s)))"

definition counter_main :: "env \<Rightarrow> (u8 list \<Rightarrow> u32) \<Rightarrow> u32 \<Rightarrow> kernel \<Rightarrow> (int \<times> kernel) option" where
  "counter_main e lits buf s = do {
     s \<leftarrow> ece391_fdputs e 1 (lits (msg ''Enter the Test Number: (0): 100, (1): 10000, (2): 100000'')) s;
     (cnt, s) \<leftarrow> ece391_read e 0 buf 1023 s;
     if cnt = -1 then fail_with e (lits (msg ''Can't read the number from keyboard.'')) 3 s
     else let s = poke buf cnt 0 s; c = phys s (xl s buf) in do {
       n \<leftarrow> ece391_strlen (buf_at (xl s) (phys s) buf);
       if n > 1 \<or> (n = 1 \<and> (c < 48 \<or> c > 50)) then fail_with e (lits (msg ''Wrong Choice!'')) 0 s
       else counter_loop e lits buf (unat (counter_max c)) 0 s } }"

section \<open>The shell\<close>

datatype shell_end = Shell_exit int | Shell_again | Shell_child outcome

definition shell_status :: "env \<Rightarrow> (u8 list \<Rightarrow> u32) \<Rightarrow> int \<Rightarrow> kernel \<Rightarrow> kernel option" where
  "shell_status e lits rval s =
     (if rval = -1 then ece391_fdputs e 1 (lits (msg ''no such command'')) s
      else if rval = 256 then ece391_fdputs e 1 (lits (msg ''program terminated by exception'')) s
      else if rval \<noteq> 0 then ece391_fdputs e 1 (lits (msg ''program terminated abnormally'')) s
      else Some s)"

definition shell_command :: "env \<Rightarrow> (u8 list \<Rightarrow> u32) \<Rightarrow> u32 \<Rightarrow> kernel \<Rightarrow> (shell_end \<times> kernel) option" where
  "shell_command e lits buf s = do {
     c \<leftarrow> ece391_strcmp (buf_at (xl s) (phys s) buf) (buf_at (xl s) (phys s) (lits (bytes_of ''exit'')));
     if c = 0 then Some (Shell_exit 0, s)
     else if phys s (xl s buf) = 0 then Some (Shell_again, s)
     else (case syscall_link e 2 buf 0 0 s of
             None \<Rightarrow> None
           | Some (Returned r, s) \<Rightarrow> map_option (Pair Shell_again) (shell_status e lits r s)
           | Some (x, s) \<Rightarrow> Some (Shell_child x, s)) }"

definition shell_turn :: "env \<Rightarrow> (u8 list \<Rightarrow> u32) \<Rightarrow> u32 \<Rightarrow> kernel \<Rightarrow> (shell_end \<times> kernel) option" where
  "shell_turn e lits buf s = do {
     s \<leftarrow> ece391_fdputs e 1 (lits (bytes_of ''391OS> '')) s;
     (cnt, s) \<leftarrow> ece391_read e 0 buf 1023 s;
     if cnt = -1 then map_option (Pair (Shell_exit 3)) (ece391_fdputs e 1 (lits (msg ''read from keyboard failed'')) s)
     else let cnt = (if cnt > 0 \<and> phys s (xl s (buf + word_of_int (cnt - 1))) = 10 then cnt - 1 else cnt)
          in shell_command e lits buf (poke buf cnt 0 s) }"

text \<open>The shell over the environments of its turns, until it exits or a program runs.\<close>

fun shell_loop :: "(u8 list \<Rightarrow> u32) \<Rightarrow> u32 \<Rightarrow> env list \<Rightarrow> kernel \<Rightarrow> (shell_end \<times> kernel) option" where
  "shell_loop lits buf [] s = Some (Shell_again, s)"
| "shell_loop lits buf (e # es) s =
     Option.bind (shell_turn e lits buf s) (\<lambda>(x, s). if x = Shell_again then shell_loop lits buf es s else Some (x, s))"

definition shell_main :: "env \<Rightarrow> (u8 list \<Rightarrow> u32) \<Rightarrow> u32 \<Rightarrow> env list \<Rightarrow> kernel \<Rightarrow> (shell_end \<times> kernel) option" where
  "shell_main e lits buf es s = Option.bind (ece391_fdputs e 1 (lits (msg ''Starting 391 Shell'')) s) (shell_loop lits buf es)"

section \<open>A question and its answer\<close>

lemma xl_poke [simp]: "xl (poke buf i c s) = xl s"
  unfolding poke_def by (rule xl_cong) simp_all

lemma poke_val:
  assumes "inj_on (xl s) (region buf n)" "i < n" "j < n" "n \<le> 2 ^ 32"
  shows "phys (poke buf (int i) c s) (xl s (buf + of_nat j)) = (if i = j then c else phys s (xl s (buf + of_nat j)))"
  using inj_region_off [OF assms(1,2,3)] assms(4) by (auto simp: poke_def)

lemma getargs_keeps:
  assumes p: "program lits cs buf n s" "32 \<le> n" and a: "cprefix 32 (lit (arg s)) = name" "name \<noteq> []" "length name < 32" "length (arg s) = 32"
  obtains t where "ece391_getargs e buf 1024 s = Some (0, t)" "keeps buf n s t" "shown t = shown s"
    "\<forall>j \<le> length name. phys t (xl t (buf + of_nat j)) = (name @ [0]) ! j"
proof -
  have o: "console_ok s" "off_screen buf n s" "user_buf (xl s) (phys s) (FSYSTEM s) buf n" "fs_ok (xl s) (phys s) (FSYSTEM s)"
    using p(1) by (simp_all add: program_def stdout_ok_def)
  obtain m where m: "ece391_getargs e buf 1024 s = Some (0, s\<lparr>phys := m\<rparr>)" "quiet 0 s (s\<lparr>phys := m\<rparr>)"
      "\<forall>x. x \<notin> xl s ` region buf n \<longrightarrow> m x = phys s x" "\<forall>j \<le> length name. m (xl s (buf + of_nat j)) = (name @ [0]) ! j"
    using getargs_buffer [OF a o(4,3) p(2) o(2)] by metis
  have "keeps buf n s (s\<lparr>phys := m\<rparr>)" using o(1) m(3) by (auto simp: keeps_def console_change_def console_simps)
  then show thesis by (rule that [OF m(1) _ quiet_keeps(1) [OF m(2)]]) (use m(4) in simp)
qed

lemma keeps_poke: "console_ok s \<Longrightarrow> i < n \<Longrightarrow> keeps buf n s (poke buf (int i) c s)"
  using region_memI [of i n buf] by (auto simp: keeps_def poke_def console_change_def console_simps)

lemma shown_poke:
  assumes "off_screen buf n s" "i < n"
  shows "shown (poke buf (int i) c s) = shown s"
proof -
  have "xl s (buf + of_nat i) \<notin> region VIDEO 4002"
    using disjointD [OF assms(1) [unfolded off_screen_def, THEN conjunct1]] region_memI [OF assms(2), of buf] by blast
  then have "\<forall>k < 4002. VIDEO + of_nat k \<noteq> xl s (buf + of_nat i)" using region_memI [of _ 4002 VIDEO] by metis
  then show ?thesis by (simp add: shown_eq poke_def)
qed

text \<open>A program that shows a constant and reads a line.\<close>

definition asks :: "bool \<Rightarrow> bool \<Rightarrow> (u8 list \<Rightarrow> u32) \<Rightarrow> u8 list list \<Rightarrow> u32 \<Rightarrow> kernel \<Rightarrow> bool" where
  "asks sh cp lits cs buf s \<longleftrightarrow> program lits cs buf 129 s \<and> stdin_ok s \<and> no_modifier sh cp s"

definition typed :: "bool \<Rightarrow> bool \<Rightarrow> u8 list \<Rightarrow> u8 list \<Rightarrow> env \<Rightarrow> bool" where
  "typed sh cp l zs e \<longleftrightarrow> line_keys sh cp zs \<and> l = map (key_char sh cp) zs \<and> irqs e = map press_key (zs @ [28])"

lemma asks_keeps: "asks sh cp lits cs buf s \<Longrightarrow> keeps buf 129 s t \<Longrightarrow> asks sh cp lits cs buf t"
  using program_keeps [of lits cs buf 129 s t] console_change_prog(3) [of s t] keyb.ready_output [of sh cp s t]
  by (auto simp: asks_def keeps_def stdin_ok_def)

lemma typed_line:
  assumes "typed sh cp l zs e"
  shows "length l \<le> 127" "c \<in> set l \<Longrightarrow> c \<notin> {8, 10, 13}"
  using assms line_keys_char [of sh cp zs] by (auto simp: typed_def line_keys_def)

lemma ask:
  assumes a: "asks sh cp lits cs buf s" and c: "c \<in> set cs" and t: "typed sh cp l zs e" and n: "128 \<le> n" "n < 2 ^ 31"
  obtains u where "ece391_fdputs e 1 (lits c) s = Some (fold putc c s)"
    "ece391_read e 0 buf (of_nat n) (fold putc c s) = Some (int (length l) + 1, u)"
    "asks sh cp lits cs buf u" "keeps buf 129 s u" "\<forall>j < 129. phys u (xl u (buf + of_nat j)) = padded (l @ [10]) j"
    "shown u = shown (after_line l (fold putc c s))"
proof -
  have p: "program lits cs buf 129 s" using a by (simp add: asks_def)
  note say = program_say [OF p c]
  let ?s = "fold putc c s"
  have a': "asks sh cp lits cs buf ?s" by (rule asks_keeps [OF a say(3)])
  then have o: "no_modifier sh cp ?s" "console_ok ?s" "stdin_ok ?s" "buf \<noteq> 0" "inj_on (xl ?s) (region buf 129)" "off_screen buf 129 ?s"
    by (simp_all add: asks_def program_def stdout_ok_def user_buf_def)
  have z: "line_keys sh cp zs" "irqs e = map press_key (zs @ [28])" "map (key_char sh cp) zs = l" using t by (simp_all add: typed_def)
  have len: "length zs \<le> n" using z(1) n(1) by (simp add: line_keys_def)
  obtain u where u: "ece391_read e 0 buf (of_nat n) ?s = Some (int (length zs) + 1, u)" "keeps buf 129 ?s u"
    "\<forall>j < 129. phys u (xl ?s (buf + of_nat j)) = padded (l @ [10]) j" "shown u = shown (after_line l ?s)"
    by (rule typed_read [OF o(1-3) z(1,2) len n(2) o(4-6), unfolded z(3)])
  have "length zs = length l" using z(3) by auto
  moreover have "xl u = xl ?s" using u(2) unfolding keeps_def by (blast intro: console_change_prog(1))
  ultimately show thesis
    using that [OF say(1) _ asks_keeps [OF a' u(2)] keeps_trans [OF say(3) u(2)] _ u(4)] u(1,3) by simp
qed

text \<open>The terminated buffer after the line, with or without its line feed.\<close>

lemma terminated_at:
  assumes a: "asks sh cp lits cs buf u" and v: "\<forall>j < 129. phys u (xl u (buf + of_nat j)) = padded (l @ [10]) j"
    and w: "w = take (length w) (l @ [10])" "length w \<le> 128" "length l \<le> 127"
  shows "\<forall>j \<le> length w. phys (poke buf (int (length w)) 0 u) (xl u (buf + of_nat j)) = (w @ [0]) ! j"
    and "length w + 1 \<ge> length l + 1 \<Longrightarrow> j < 129 \<Longrightarrow> phys (poke buf (int (length w)) 0 u) (xl u (buf + of_nat j)) = padded w j"
proof -
  have inj: "inj_on (xl u) (region buf 129)" using a by (simp add: asks_def program_def user_buf_def)
  have wl: "length w \<le> length l + 1" using arg_cong [OF w(1), of length] by simp
  have at: "(l @ [10]) ! j = w ! j" if "j < length w" for j using that w(1) by (metis nth_take)
  have p: "phys (poke buf (int (length w)) 0 u) (xl u (buf + of_nat j)) = (if length w = j then 0 else padded (l @ [10]) j)" if "j < 129" for j
    using poke_val [OF inj _ that, of "length w" 0] w(2) v that by simp
  show "\<forall>j \<le> length w. phys (poke buf (int (length w)) 0 u) (xl u (buf + of_nat j)) = (w @ [0]) ! j"
    using p w(2) wl at by (auto simp: padded_def nth_append)
  show "phys (poke buf (int (length w)) 0 u) (xl u (buf + of_nat j)) = padded w j" if "length w + 1 \<ge> length l + 1" "j < 129"
  proof -
    consider "j < length w" | "j = length w" | "length w < j" by linarith
    then show ?thesis using p [OF that(2)] at wl that(1) by cases (auto simp: padded_def)
  qed
qed

section \<open>hello and counter\<close>

definition hello_strings :: "u8 list list" where
  "hello_strings = [bytes_of ''Hi, what's your name? '', bytes_of ''Hello, '']"

lemma after_prints:
  fixes u r :: kernel
  assumes "shown u = shown r" "console_ok u" "8 \<notin> set c"
  shows "shown (fold putc c u) = shown (fold putc c r)"
  using assms by (rule shown_fold)

lemma hello_run:
  assumes a: "asks sh cp lits hello_strings buf s" and t: "typed sh cp l zs e" and z: "0 \<notin> set l"
  shows "\<exists>t. hello_main e lits buf s = Some (0, t) \<and>
    shown t = shown (fold putc (bytes_of ''Hello, '' @ l @ [10]) (after_line l (fold putc (bytes_of ''Hi, what's your name? '') s)))"
proof -
  let ?q = "bytes_of ''Hi, what's your name? ''" and ?h = "bytes_of ''Hello, ''"
  have m: "?q \<in> set hello_strings" "?h \<in> set hello_strings" by (simp_all add: hello_strings_def)
  obtain u where u: "ece391_fdputs e 1 (lits ?q) s = Some (fold putc ?q s)"
    "ece391_read e 0 buf (of_nat 1023) (fold putc ?q s) = Some (int (length l) + 1, u)" "asks sh cp lits hello_strings buf u"
    "\<forall>j < 129. phys u (xl u (buf + of_nat j)) = padded (l @ [10]) j" "shown u = shown (after_line l (fold putc ?q s))"
    by (rule ask [OF a m(1) t, of 1023]) simp_all
  let ?w = "l @ [10]" and ?u = "poke buf (int (length (l @ [10]))) 0 u"
  note ln = typed_line [OF t]
  have ok: "console_ok u" "off_screen buf 129 u" "buf \<noteq> 0" using u(3) by (simp_all add: asks_def program_def stdout_ok_def user_buf_def)
  have at: "\<forall>j \<le> length ?w. phys ?u (xl u (buf + of_nat j)) = (?w @ [0]) ! j"
    by (rule terminated_at(1) [OF u(3,4)]) (use ln(1) in simp_all)
  have au: "asks sh cp lits hello_strings buf ?u" by (rule asks_keeps [OF u(3) keeps_poke [OF ok(1)]]) (use ln(1) in simp)
  then have pu: "program lits hello_strings buf 129 ?u" by (simp add: asks_def)
  note say = program_say [OF pu m(2)]
  let ?v = "fold putc ?h ?u"
  have ov: "stdout_ok ?v" "off_screen buf 129 ?v" "console_ok ?v" using say(2) by (simp_all add: program_def stdout_ok_def)
  have xv: "xl ?v = xl u" using console_change_prog(1) [OF console_change_fold, of ?h ?u] by simp
  have "phys ?v a = phys ?u a" if "a \<notin> region VIDEO 4002" for a
    using sink.put_all [of ?u ?h] that pu by (simp add: video_only_def program_def stdout_ok_def bytes_of_def)
  moreover have "xl u (buf + of_nat j) \<notin> region VIDEO 4002" if "j \<le> length ?w" for j
    using disjointD [OF ok(2) [unfolded off_screen_def, THEN conjunct1]] region_memI [of j 129 buf] that ln(1) by simp
  ultimately have atv: "\<forall>j \<le> length ?w. phys ?v (xl ?v (buf + of_nat j)) = (?w @ [0]) ! j" using at xv by simp
  have offv: "off_screen buf (length ?w) ?v"
    by (rule off_screen_sub [where m = 129]) (use ov(2) ln(1) in \<open>simp_all add: off_screen_def\<close>)
  have pl: "plain ?w" using z ln by (auto simp: plain_def)
  have "ece391_fdputs e 1 buf ?v = Some (fold putc ?w ?v)" by (rule puts_prints [OF ov(1) ok(3) offv pl atv])
  then have "hello_main e lits buf s = Some (0, fold putc ?w ?v)"
    using u(1,2) say(1) by (simp add: hello_main_def fail_with_def add.commute)
  moreover have "shown ?u = shown (after_line l (fold putc ?q s))"
    using shown_poke [OF ok(2), of "length ?w" 0] u(5) ln(1) by simp
  then have "shown (fold putc (?h @ ?w) ?u) = shown (fold putc (?h @ ?w) (after_line l (fold putc ?q s)))"
    by (rule after_prints) (use pu pl in \<open>simp_all add: program_def stdout_ok_def plain_def bytes_of_def\<close>)
  ultimately show ?thesis by simp
qed

text \<open>
  \<^verbatim>\<open>hello\<close> greets: it asks for a name, waits for a typed line (without NUL characters), prints
  \<^verbatim>\<open>Hello, \<close> and the line and returns 0.
\<close>

theorem hello_greets:
  assumes "asks sh cp lits hello_strings buf s" and "typed sh cp l zs e" and "0 \<notin> set l"
  shows "\<exists>t. hello_main e lits buf s = Some (0, t) \<and>
    shown t = shown (fold putc (bytes_of ''Hello, '' @ l @ [10]) (after_line l (fold putc (bytes_of ''Hi, what's your name? '') s)))"
  using assms by (rule hello_run)

definition counter_strings :: "u8 list list" where
  "counter_strings = [msg ''Enter the Test Number: (0): 100, (1): 10000, (2): 100000'', msg ''Wrong Choice!'']"

text \<open>
  \<^verbatim>\<open>counter\<close> never counts: the line that the terminal driver delivers ends with the line feed, so the string is
  longer than one character or a line feed alone, and every choice, also 0, 1 and 2, is answered with
  \<^verbatim>\<open>Wrong Choice!\<close>.
\<close>

theorem counter_refuses_all:
  assumes a: "asks sh cp lits counter_strings buf s" and t: "typed sh cp l zs e" and z: "0 \<notin> set l"
  shows "\<exists>t. counter_main e lits buf s = Some (0, t) \<and>
    shown t = shown (fold putc (msg ''Wrong Choice!'')
      (after_line l (fold putc (msg ''Enter the Test Number: (0): 100, (1): 10000, (2): 100000'') s)))"
proof -
  let ?q = "msg ''Enter the Test Number: (0): 100, (1): 10000, (2): 100000''" and ?h = "msg ''Wrong Choice!''"
  have m: "?q \<in> set counter_strings" "?h \<in> set counter_strings" by (simp_all add: counter_strings_def)
  obtain u where u: "ece391_fdputs e 1 (lits ?q) s = Some (fold putc ?q s)"
    "ece391_read e 0 buf (of_nat 1023) (fold putc ?q s) = Some (int (length l) + 1, u)" "asks sh cp lits counter_strings buf u"
    "\<forall>j < 129. phys u (xl u (buf + of_nat j)) = padded (l @ [10]) j" "shown u = shown (after_line l (fold putc ?q s))"
    by (rule ask [OF a m(1) t, of 1023]) simp_all
  let ?w = "l @ [10]" and ?u = "poke buf (int (length (l @ [10]))) 0 u"
  note ln = typed_line [OF t]
  have ok: "console_ok u" "off_screen buf 129 u" using u(3) by (simp_all add: asks_def program_def stdout_ok_def)
  have at: "\<forall>j \<le> length ?w. phys ?u (xl ?u (buf + of_nat j)) = (?w @ [0]) ! j"
    using terminated_at(1) [OF u(3,4), of ?w] ln(1) by simp
  have au: "asks sh cp lits counter_strings buf ?u" by (rule asks_keeps [OF u(3) keeps_poke [OF ok(1)]]) (use ln(1) in simp)
  then have pu: "program lits counter_strings buf 129 ?u" by (simp add: asks_def)
  note say = program_say [OF pu m(2)]
  have "0 \<notin> set ?w" using z by simp
  then have sl: "ece391_strlen (buf_at (xl ?u) (phys ?u) buf) = Some (of_nat (length ?w))"
    unfolding ece391_strlen_kernel by (rule is_cstr_strlen [OF is_cstr_at [OF at]]) (use ln(1) in simp)
  have c: "phys ?u (xl ?u buf) = hd ?w" using at [rule_format, of 0] by (simp add: nth_append hd_conv_nth hd_append)
  have big: "(of_nat (length ?w) :: u32) > 1" if "l \<noteq> []"
    using that ln(1) by (cases l) (auto simp: word_less_nat_alt unat_of_nat unat_word_ariths)
  have "counter_main e lits buf s = Some (0, fold putc ?h ?u)"
  proof (cases "l = []")
    case True
    then show ?thesis using u(1,2) sl c say(4) by (simp add: counter_main_def Let_def)
  next
    case False
    then show ?thesis using u(1,2) sl big say(4) by (simp add: counter_main_def Let_def add.commute)
  qed
  moreover have "shown ?u = shown (after_line l (fold putc ?q s))"
    using shown_poke [OF ok(2), of "length ?w" 0] u(5) ln(1) by simp
  then have "shown (fold putc ?h ?u) = shown (fold putc ?h (after_line l (fold putc ?q s)))"
    by (rule after_prints) (use pu in \<open>simp_all add: program_def stdout_ok_def bytes_of_def\<close>)
  ultimately show ?thesis by simp
qed

section \<open>The shell reads commands\<close>

definition shell_strings :: "u8 list list" where
  "shell_strings = [bytes_of ''391OS> '', bytes_of ''exit'', msg ''no such command'', msg ''Starting 391 Shell'']"

definition shell_ok :: "bool \<Rightarrow> bool \<Rightarrow> (u8 list \<Rightarrow> u32) \<Rightarrow> u32 \<Rightarrow> kernel \<Rightarrow> bool" where
  "shell_ok sh cp lits buf s \<longleftrightarrow> asks sh cp lits shell_strings buf s \<and> length (filename s) = 32 \<and> length (arg s) = 32"

text \<open>A command line: a name and at most one argument, each of less than 32 characters.\<close>

definition command :: "u8 list \<Rightarrow> u8 list \<Rightarrow> u8 list \<Rightarrow> bool" where
  "command l name a \<longleftrightarrow> 0 \<notin> set name \<and> 32 \<notin> set name \<and> length name < 32 \<and> 0 \<notin> set a \<and> 32 \<notin> set a \<and> length a < 32 \<and>
     (l = name @ 32 # a \<or> (l = name \<and> a = []))"

lemma commandD:
  assumes "command l name a"
  shows "0 \<notin> set name" "32 \<notin> set name" "length name < 32" "0 \<notin> set a" "32 \<notin> set a" "length a < 32" "l = name @ 32 # a \<or> (l = name \<and> a = [])"
    and "0 \<notin> set l"
  using assms by (auto simp: command_def)

lemma console_change_names:
  assumes "console_change s t"
  shows "filename t = filename s" "arg t = arg s"
  by (subst console_change_eq [OF assms], simp)+

lemma shell_keeps:
  assumes "shell_ok sh cp lits buf s" and k: "keeps buf 129 s t"
  shows "shell_ok sh cp lits buf t"
proof -
  have "console_change s t" using k by (simp add: keeps_def)
  then show ?thesis using assms(1) asks_keeps [OF _ k] console_change_names [of s t] by (simp add: shell_ok_def)
qed

lemma xl_names [simp]: "xl (s\<lparr>filename := f, arg := a\<rparr>) = xl s" for s :: kernel
  by (rule xl_cong) simp_all

lemma shell_names:
  assumes "shell_ok sh cp lits buf s" and "length f = 32" "length a = 32"
  shows "shell_ok sh cp lits buf (s\<lparr>filename := f, arg := a\<rparr>)"
  using assms unfolding shell_ok_def asks_def program_def stdout_ok_def fd_ok_def off_screen_def const_at_def stdin_ok_def no_modifier_def xl_names
  by (simp add: console_simps)

lemma shown_names [simp]: "shown (s\<lparr>filename := f, arg := a\<rparr>) = shown s" for s :: kernel
  by (simp add: shown_def)

lemma execute_call: "syscall_link e 2 b c d s = execute e (buf_at (xl s) (phys s) b) s"
  by (simp add: syscall_link_def word_le_nat_alt)

lemma execute_unknown:
  assumes c: "command l name a" and n: "length (filename s) = 32" "length (arg s) = 32" and b: "\<forall>j < 100. b j = lit l j"
    and none: "lookup s name = None"
  obtains f ar where "execute e b s = Some (Returned (-1), s\<lparr>filename := f, arg := ar\<rparr>)" "length f = 32" "length ar = 32"
proof -
  obtain f ar where p: "parse_arg b s = Some (Parsed f ar, s\<lparr>filename := f, arg := ar\<rparr>)" "length f = 32" "length ar = 32"
    "cprefix 32 (lit f) = name" using parse_arg_buf [OF commandD(1-7) [OF c] n b] by blast
  have "cprefix 32 (lit name) = name" using commandD(1,3) [OF c] by (intro cprefix_lit) simp_all
  then have "read_dentry_by_name (xl s) (phys s) (FSYSTEM s) (Some (lit f)) = None" using none p(4) by (simp add: lookup_name)
  then have "checkFile e (s\<lparr>filename := f, arg := ar\<rparr>) = (-1, s\<lparr>filename := f, arg := ar\<rparr>)" by (simp add: checkFile_def)
  then have "execute e b s = Some (Returned (-1), s\<lparr>filename := f, arg := ar\<rparr>)" by (simp add: execute_def p(1))
  then show thesis using p(2,3) by (rule that)
qed

text \<open>The state in which the shell looks at the line.\<close>

lemma shell_reads:
  assumes s: "shell_ok sh cp lits buf s" and t: "typed sh cp l zs e" and z: "0 \<notin> set l"
  obtains u c where "shell_turn e lits buf s = shell_command e lits buf u" "shell_ok sh cp lits buf u" "keeps buf 129 s u"
    "\<forall>j < 129. buf_at (xl u) (phys u) buf j = lit l j" "shown u = shown (after_line l (fold putc (bytes_of ''391OS> '') s))"
    "ece391_strcmp (buf_at (xl u) (phys u) buf) (buf_at (xl u) (phys u) (lits (bytes_of ''exit''))) = Some c" "c = 0 \<longleftrightarrow> l = bytes_of ''exit''"
proof -
  let ?q = "bytes_of ''391OS> ''"
  have m: "?q \<in> set shell_strings" "bytes_of ''exit'' \<in> set shell_strings" by (simp_all add: shell_strings_def)
  have a: "asks sh cp lits shell_strings buf s" using s by (simp add: shell_ok_def)
  obtain u where u: "ece391_fdputs e 1 (lits ?q) s = Some (fold putc ?q s)"
    "ece391_read e 0 buf (of_nat 1023) (fold putc ?q s) = Some (int (length l) + 1, u)" "asks sh cp lits shell_strings buf u"
    "keeps buf 129 s u" "\<forall>j < 129. phys u (xl u (buf + of_nat j)) = padded (l @ [10]) j" "shown u = shown (after_line l (fold putc ?q s))"
    by (rule ask [OF a m(1) t, of 1023]) simp_all
  note ln = typed_line [OF t]
  have ok: "console_ok u" "off_screen buf 129 u" using u(3) by (simp_all add: asks_def program_def stdout_ok_def)
  let ?u = "poke buf (int (length l)) 0 u"
  have "phys u (xl u (buf + word_of_int (int (length l)))) = 10" using u(5) ln(1) by (simp add: padded_def nth_append)
  then have tr: "shell_turn e lits buf s = shell_command e lits buf ?u"
    using u(1,2) by (simp add: shell_turn_def Let_def)
  have kp: "keeps buf 129 u ?u" by (rule keeps_poke [OF ok(1)]) (use ln(1) in simp)
  note k = keeps_trans [OF u(4) kp]
  have so: "shell_ok sh cp lits buf ?u" by (rule shell_keeps [OF s k])
  have at: "\<forall>j < 129. buf_at (xl ?u) (phys ?u) buf j = lit l j"
    using terminated_at(2) [OF u(3,5), of l] ln(1) by (simp add: buf_at_def padded_def lit_def)
  have sh: "shown ?u = shown (after_line l (fold putc ?q s))" using shown_poke [OF ok(2), of "length l" 0] u(6) ln(1) by simp
  let ?x = "bytes_of ''exit''"
  have xat: "\<forall>j \<le> length ?x. phys ?u (xl ?u (lits ?x + of_nat j)) = (?x @ [0]) ! j" and "0 \<notin> set ?x"
    using so m(2) by (auto simp: shell_ok_def asks_def program_def const_at_def plain_def)
  then have "is_cstr (buf_at (xl ?u) (phys ?u) (lits ?x)) (length ?x)" by (rule is_cstr_at)
  moreover have "is_cstr (buf_at (xl ?u) (phys ?u) buf) (length l)"
    using at ln(1) z by (auto simp: is_cstr_def lit_def) (metis nth_mem)
  ultimately obtain c where c: "ece391_strcmp (buf_at (xl ?u) (phys ?u) buf) (buf_at (xl ?u) (phys ?u) (lits ?x)) = Some c"
    "c = 0 \<longleftrightarrow> map (buf_at (xl ?u) (phys ?u) buf) [0..<length l] = map (buf_at (xl ?u) (phys ?u) (lits ?x)) [0..<length ?x]"
    using ece391_strcmp_zero by blast
  have "map (buf_at (xl ?u) (phys ?u) buf) [0..<length l] = l"
    by (rule nth_equalityI) (use at ln(1) in \<open>simp_all add: lit_def\<close>)
  moreover have "map (buf_at (xl ?u) (phys ?u) (lits ?x)) [0..<length ?x] = ?x"
    by (rule nth_equalityI) (use xat in \<open>auto simp: buf_at_def nth_append\<close>)
  ultimately have "c = 0 \<longleftrightarrow> l = ?x" using c(2) by metis
  with that [OF tr so k at sh c(1)] show thesis by blast
qed

lemma turn_ends:
  assumes s: "shell_ok sh cp lits buf s" and t: "typed sh cp l zs e"
  shows "l = bytes_of ''exit'' \<Longrightarrow> \<exists>t. shell_turn e lits buf s = Some (Shell_exit 0, t) \<and>
      shown t = shown (after_line l (fold putc (bytes_of ''391OS> '') s))"
    and "l = [] \<Longrightarrow> \<exists>t. shell_turn e lits buf s = Some (Shell_again, t) \<and> shell_ok sh cp lits buf t \<and> same_files s t \<and>
      shown t = shown (after_line l (fold putc (bytes_of ''391OS> '') s))"
proof -
  show "\<exists>t. shell_turn e lits buf s = Some (Shell_exit 0, t) \<and> shown t = shown (after_line l (fold putc (bytes_of ''391OS> '') s))"
    if l: "l = bytes_of ''exit''"
  proof -
    have "0 \<notin> set l" by (simp add: l bytes_of_def)
    then obtain u c where "shell_turn e lits buf s = shell_command e lits buf u"
      "shown u = shown (after_line l (fold putc (bytes_of ''391OS> '') s))"
      "ece391_strcmp (buf_at (xl u) (phys u) buf) (buf_at (xl u) (phys u) (lits (bytes_of ''exit''))) = Some c" "c = 0 \<longleftrightarrow> l = bytes_of ''exit''"
      by (rule shell_reads [OF s t])
    then show ?thesis using l by (simp add: shell_command_def)
  qed
  show "\<exists>t. shell_turn e lits buf s = Some (Shell_again, t) \<and> shell_ok sh cp lits buf t \<and> same_files s t \<and>
      shown t = shown (after_line l (fold putc (bytes_of ''391OS> '') s))"
    if l: "l = []"
  proof -
    have "0 \<notin> set l" by (simp add: l)
    then obtain u c where u: "shell_turn e lits buf s = shell_command e lits buf u" "shell_ok sh cp lits buf u" "keeps buf 129 s u"
      "\<forall>j < 129. buf_at (xl u) (phys u) buf j = lit l j" "shown u = shown (after_line l (fold putc (bytes_of ''391OS> '') s))"
      "ece391_strcmp (buf_at (xl u) (phys u) buf) (buf_at (xl u) (phys u) (lits (bytes_of ''exit''))) = Some c" "c = 0 \<longleftrightarrow> l = bytes_of ''exit''"
      by (rule shell_reads [OF s t])
    have "c \<noteq> 0" using u(7) l by (simp add: bytes_of_def)
    moreover have "phys u (xl u buf) = 0" using u(4) [rule_format, of 0] l by (simp add: buf_at_def lit_def)
    ultimately have "shell_turn e lits buf s = Some (Shell_again, u)" using u(1,6) by (simp add: shell_command_def)
    moreover have "same_files s u" using keeps_files [OF u(3)] s by (simp add: shell_ok_def asks_def program_def)
    ultimately show ?thesis using u(2,5) by blast
  qed
qed

lemma turn_unknown:
  assumes s: "shell_ok sh cp lits buf s" and t: "typed sh cp l zs e" and c: "command l name a" "l \<noteq> []" "l \<noteq> bytes_of ''exit''"
    and none: "lookup s name = None"
  shows "\<exists>t. shell_turn e lits buf s = Some (Shell_again, t) \<and> shell_ok sh cp lits buf t \<and> same_files s t \<and>
      shown t = shown (fold putc (msg ''no such command'') (after_line l (fold putc (bytes_of ''391OS> '') s)))"
proof -
  let ?n = "msg ''no such command''"
  obtain u d where u: "shell_turn e lits buf s = shell_command e lits buf u" "shell_ok sh cp lits buf u" "keeps buf 129 s u"
    "\<forall>j < 129. buf_at (xl u) (phys u) buf j = lit l j" "shown u = shown (after_line l (fold putc (bytes_of ''391OS> '') s))"
    "ece391_strcmp (buf_at (xl u) (phys u) buf) (buf_at (xl u) (phys u) (lits (bytes_of ''exit''))) = Some d" "d = 0 \<longleftrightarrow> l = bytes_of ''exit''"
    by (rule shell_reads [OF s t commandD(8) [OF c(1)]])
  have p: "program lits shell_strings buf 129 s" using s by (simp add: shell_ok_def asks_def)
  have sf: "same_files s u" using keeps_files [OF u(3)] p by (simp add: program_def)
  have fs: "fs_ok (xl s) (phys s) (FSYSTEM s)" using p by (simp add: program_def)
  have lu: "lookup u name = None" using none sf lookup_agree [OF fs, of "phys u"] by (simp add: same_files_def)
  have lens: "length (filename u) = 32" "length (arg u) = 32" "\<forall>j < 100. buf_at (xl u) (phys u) buf j = lit l j"
    using u(2,4) by (simp_all add: shell_ok_def)
  obtain f ar where x: "execute e (buf_at (xl u) (phys u) buf) u = Some (Returned (-1), u\<lparr>filename := f, arg := ar\<rparr>)"
    "length f = 32" "length ar = 32"
    by (rule execute_unknown [OF c(1) lens lu])
  let ?v = "u\<lparr>filename := f, arg := ar\<rparr>"
  have ov: "shell_ok sh cp lits buf ?v" by (rule shell_names [OF u(2) x(2,3)])
  then have pv: "program lits shell_strings buf 129 ?v" by (simp add: shell_ok_def asks_def)
  have m: "?n \<in> set shell_strings" by (simp add: shell_strings_def)
  note say = program_say [OF pv m]
  have "l ! 0 \<noteq> 0" using commandD(8) [OF c(1)] c(2) by (metis length_greater_0_conv nth_mem)
  then have "phys u (xl u buf) \<noteq> 0" using u(4) [rule_format, of 0] c(2) by (simp add: buf_at_def lit_def)
  then have "shell_turn e lits buf s = Some (Shell_again, fold putc ?n ?v)"
    using u(1,6,7) c(3) say(1) x(1) by (simp add: shell_command_def execute_call shell_status_def)
  moreover have "shell_ok sh cp lits buf (fold putc ?n ?v)" by (rule shell_keeps [OF ov say(3)])
  moreover have "same_files s (fold putc ?n ?v)"
  proof -
    have "same_files u ?v" by (simp add: same_files_def)
    moreover have "same_files ?v (fold putc ?n ?v)" using keeps_files [OF say(3)] pv by (simp add: program_def)
    moreover have "fs_image (xl u) (phys u) (FSYSTEM u) = fs_image (xl s) (phys s) (FSYSTEM s)" by (rule same_files_image(1) [OF sf fs])
    ultimately show ?thesis using sf by (auto simp: same_files_def)
  qed
  moreover have "shown (fold putc ?n ?v) = shown (fold putc ?n (after_line l (fold putc (bytes_of ''391OS> '') s)))"
    by (rule after_prints) (use u(5) pv in \<open>simp_all add: program_def stdout_ok_def bytes_of_def\<close>)
  ultimately show ?thesis by blast
qed

section \<open>A session with the shell\<close>

text \<open>The screen that the lines of a session give, each answered as an unknown command unless it is empty.\<close>

definition prompted :: "u8 list \<Rightarrow> kernel \<Rightarrow> kernel" where
  "prompted l r = after_line l (fold putc (bytes_of ''391OS> '') r)"

fun session :: "u8 list list \<Rightarrow> kernel \<Rightarrow> kernel" where
  "session [] r = r"
| "session (l # ls) r = session ls (if l = [] then prompted l r else fold putc (msg ''no such command'') (prompted l r))"

definition unknown_line :: "kernel \<Rightarrow> u8 list \<Rightarrow> bool" where
  "unknown_line s l \<longleftrightarrow> l = [] \<or> (l \<noteq> bytes_of ''exit'' \<and> (\<exists>name a. command l name a \<and> lookup s name = None))"

lemma after_line_cong:
  fixes r q :: kernel
  assumes "shown r = shown q" "console_ok r" "8 \<notin> set l"
  shows "shown (after_line l r) = shown (after_line l q)" "console_ok (after_line l r)"
proof -
  let ?a = "\<lambda>s :: kernel. s\<lparr>tbuf := 0, tflag := 1\<rparr>"
  have a: "shown (?a r) = shown (?a q)" "console_ok (?a r)" "8 \<notin> set (l @ [10])"
    using assms by (simp add: shown_eq) (use assms in \<open>auto simp: console_simps\<close>)
  have "shown (fold putc (l @ [10]) (?a r)) = shown (fold putc (l @ [10]) (?a q))" by (rule shown_fold [OF a])
  then show "shown (after_line l r) = shown (after_line l q)" by (simp add: after_line_def Let_def shown_eq)
  have "console_ok (fold putc (l @ [10]) (?a r))" using sink.put_all [OF a(2), of "l @ [10]"] a(3) by auto
  then show "console_ok (after_line l r)" by (simp add: after_line_def Let_def console_simps)
qed

lemma prompted_cong:
  fixes r q :: kernel
  assumes "shown r = shown q" "console_ok r" "8 \<notin> set l"
  shows "shown (prompted l r) = shown (prompted l q)" "console_ok (prompted l r)"
proof -
  let ?p = "bytes_of ''391OS> ''"
  have p: "8 \<notin> set ?p" by (simp add: bytes_of_def)
  have "shown (fold putc ?p r) = shown (fold putc ?p q)" "console_ok (fold putc ?p r)"
    using shown_fold [OF assms(1,2) p] sink.put_all [OF assms(2), of ?p] p by auto
  from after_line_cong [OF this assms(3)] show "shown (prompted l r) = shown (prompted l q)" "console_ok (prompted l r)"
    by (simp_all add: prompted_def)
qed

lemma session_cong:
  fixes r q :: kernel
  assumes "shown r = shown q" "console_ok r" "\<forall>l \<in> set ls. 8 \<notin> set l \<and> length l \<le> 127"
  shows "shown (session ls r) = shown (session ls q) \<and> console_ok (session ls r)"
  using assms
proof (induction ls arbitrary: r q)
  case (Cons l ls)
  note p = prompted_cong [OF Cons.prems(1,2), of l]
  have n: "8 \<notin> set (msg ''no such command'')" by (simp add: bytes_of_def)
  have l: "8 \<notin> set l" using Cons.prems(3) by simp
  have "shown (fold putc (msg ''no such command'') (prompted l r)) = shown (fold putc (msg ''no such command'') (prompted l q))"
    by (rule shown_fold [OF p(1) [OF l] p(2) [OF l] n])
  moreover have "console_ok (fold putc (msg ''no such command'') (prompted l r))"
    using sink.put_all [OF p(2) [OF l], of "msg ''no such command''"] n by auto
  ultimately show ?case using Cons.IH Cons.prems(3) p [OF l] by (cases "l = []") simp_all
qed simp

lemma turn_session:
  assumes s: "shell_ok sh cp lits buf s" and t: "typed sh cp l zs e" and u: "unknown_line s l"
  shows "\<exists>t. shell_turn e lits buf s = Some (Shell_again, t) \<and> shell_ok sh cp lits buf t \<and> same_files s t \<and> shown t = shown (session [l] s)"
proof (cases "l = []")
  case True
  then show ?thesis using turn_ends(2) [OF s t] by (simp add: prompted_def)
next
  case False
  then obtain name a where "command l name a" "lookup s name = None" "l \<noteq> bytes_of ''exit''" using u by (auto simp: unknown_line_def)
  then show ?thesis using turn_unknown [OF s t _ False] False by (simp add: prompted_def)
qed

lemma unknown_same_files:
  assumes "shell_ok sh cp lits buf s" "same_files s t" "unknown_line s l"
  shows "unknown_line t l"
proof -
  have fs: "fs_ok (xl s) (phys s) (FSYSTEM s)" using assms(1) by (simp add: shell_ok_def asks_def program_def)
  have "lookup t n = lookup s n" for n using assms(2) lookup_agree [OF fs, of "phys t"] by (simp add: same_files_def)
  then show ?thesis using assms(3) by (simp add: unknown_line_def)
qed

lemma session_run:
  assumes "shell_ok sh cp lits buf s" "list_all2 (\<lambda>l e. \<exists>zs. typed sh cp l zs e) ls es" "\<forall>l \<in> set ls. unknown_line s l"
    and e: "typed sh cp (bytes_of ''exit'') zs e"
  shows "\<exists>t. shell_loop lits buf (es @ e # rest) s = Some (Shell_exit 0, t) \<and> shown t = shown (prompted (bytes_of ''exit'') (session ls s))"
  using assms(1-3)
proof (induction ls arbitrary: es s)
  case Nil
  then show ?case using turn_ends(1) [OF Nil.prems(1) e] by (auto simp: prompted_def)
next
  case (Cons l ls)
  then obtain f fs zs' where es: "es = f # fs" "typed sh cp l zs' f" "list_all2 (\<lambda>l e. \<exists>zs. typed sh cp l zs e) ls fs"
    by (auto simp: list_all2_Cons1)
  have "unknown_line s l" using Cons.prems(3) by simp
  from turn_session [OF Cons.prems(1) es(2) this] obtain t where
    t: "shell_turn f lits buf s = Some (Shell_again, t)" "shell_ok sh cp lits buf t" "same_files s t" "shown t = shown (session [l] s)" by blast
  have "\<forall>l \<in> set ls. unknown_line t l" using unknown_same_files [OF Cons.prems(1) t(3)] Cons.prems(3) by simp
  from Cons.IH [OF t(2) es(3) this] obtain v where
    v: "shell_loop lits buf (fs @ e # rest) t = Some (Shell_exit 0, v)" "shown v = shown (prompted (bytes_of ''exit'') (session ls t))" by blast
  have ls: "\<forall>l \<in> set ls. 8 \<notin> set l \<and> length l \<le> 127"
  proof
    fix k assume "k \<in> set ls"
    then obtain i where "i < length ls" "k = ls ! i" by (auto simp: in_set_conv_nth)
    then obtain e' zs'' where "typed sh cp k zs'' e'" using list_all2_nthD [OF es(3)] by blast
    then show "8 \<notin> set k \<and> length k \<le> 127" using typed_line by blast
  qed
  have "console_ok t" using t(2) by (simp add: shell_ok_def asks_def program_def stdout_ok_def)
  note sc = session_cong [OF t(4) this ls]
  have x: "8 \<notin> set (bytes_of ''exit'')" "length (bytes_of ''exit'') \<le> 127" by (simp_all add: bytes_of_def)
  have "shown (prompted (bytes_of ''exit'') (session ls t)) = shown (prompted (bytes_of ''exit'') (session ls (session [l] s)))"
    using prompted_cong(1) [OF conjunct1 [OF sc] conjunct2 [OF sc] x(1)] .
  then show ?case using t(1) v es(1) by simp
qed

text \<open>
  C9. A session with the shell: it announces itself and then, for any lines that are empty or name no file, answers each
  one (nothing, or \<^verbatim>\<open>no such command\<close>) and asks again, until \<^verbatim>\<open>exit\<close> is typed, when it returns 0. The screen shows exactly
  this dialogue.
\<close>

theorem shell_session:
  assumes s: "shell_ok sh cp lits buf s" and ls: "list_all2 (\<lambda>l e. \<exists>zs. typed sh cp l zs e) ls es" "\<forall>l \<in> set ls. unknown_line s l"
    and e: "typed sh cp (bytes_of ''exit'') zs e"
  shows "\<exists>t. shell_main e0 lits buf (es @ e # rest) s = Some (Shell_exit 0, t) \<and>
    shown t = shown (prompted (bytes_of ''exit'') (session ls (fold putc (msg ''Starting 391 Shell'') s)))"
proof -
  let ?m = "msg ''Starting 391 Shell''"
  have m: "?m \<in> set shell_strings" by (simp add: shell_strings_def)
  have p: "program lits shell_strings buf 129 s" using s by (simp add: shell_ok_def asks_def)
  note say = program_say [OF p m]
  have s': "shell_ok sh cp lits buf (fold putc ?m s)" by (rule shell_keeps [OF s say(3)])
  have sf: "same_files s (fold putc ?m s)" using keeps_files [OF say(3)] p by (simp add: program_def)
  have "\<forall>l \<in> set ls. unknown_line (fold putc ?m s) l" using unknown_same_files [OF s sf] ls(2) by blast
  from session_run [OF s' ls(1) this e, of rest] show ?thesis using say(1) by (simp add: shell_main_def)
qed

section \<open>The shell starts a program\<close>

lemma console_change_tables:
  assumes "console_change s t"
  shows "kernel_maps t = kernel_maps s" "tlb_coherent t = tlb_coherent s" "pnum_ok t = pnum_ok s" "pnum_pool t = pnum_pool s"
    "pnum_busy t = pnum_busy s" "ring_ok t = ring_ok s" "curr_pcb t = curr_pcb s" "pnumarr t = pnumarr s"
proof -
  note e = console_change_eq [OF assms] and p = console_change_paging [OF assms]
  show "kernel_maps t = kernel_maps s" using p by (simp add: kernel_maps_def tables_ok_def)
  have "walk t = walk s" by (rule walk_cong) (simp_all add: p)
  then show "tlb_coherent t = tlb_coherent s" using p(6) by (simp add: tlb_coherent_def)
  show "pnum_ok t = pnum_ok s" "pnum_pool t = pnum_pool s" "pnum_busy t = pnum_busy s" "ring_ok t = ring_ok s" "curr_pcb t = curr_pcb s"
    "pnumarr t = pnumarr s"
    by (subst e, simp add: pnum_ok_def pnum_pool_def pnum_busy_def ring_ok_def)+
qed

lemma keeps_resident:
  assumes k: "keeps buf n s t" and b: "off_screen buf n s" "user_buf (xl s) (phys s) (FSYSTEM s) buf n"
    and m: "kernel_maps s" "tlb_coherent s" "image_resident s"
  shows "image_resident t" "stack_ok e t = stack_ok e s" "FSYSTEM t = FSYSTEM s"
    and "read_dentry_by_name id (phys t) (FSYSTEM t) (Some nm) = read_dentry_by_name id (phys s) (FSYSTEM s) (Some nm)"
    and "rd32 id (phys t) (FSYSTEM t + 4) = rd32 id (phys s) (FSYSTEM s + 4)"
    and "i < unat (rd32 id (phys s) (FSYSTEM s + 4)) \<Longrightarrow>
      file_bytes id (phys t) (FSYSTEM t) (of_nat i) = file_bytes id (phys s) (FSYSTEM s) (of_nat i)"
proof -
  have ok: "fs_ok id (phys s) (FSYSTEM s)" using m(3) by (simp add: image_resident_def)
  have cc: "console_change s t" using k by (simp add: keeps_def)
  show f: "FSYSTEM t = FSYSTEM s" by (rule console_change_prog(2) [OF cc])
  have "fs_image (xl s) (phys s) (FSYSTEM s) = fs_image id (phys s) (FSYSTEM s)"
    using resident_view(4) [OF m(3,1,2)] by (simp add: fs_image_def)
  then have eq: "phys t a = phys s a" if "a \<in> fs_image id (phys s) (FSYSTEM s)" for a
    using keeps_files [OF k b] that by (simp add: same_files_def)
  note ag = image_agree [OF ok eq]
  have sz: "fs_size id (phys t) (FSYSTEM s) = fs_size id (phys s) (FSYSTEM s)" using ag(1,2) by (simp add: fs_size_def)
  show "image_resident t" using m(3) f ag(6) sz by (simp add: image_resident_def)
  show "stack_ok e t = stack_ok e s" using f sz by (simp add: stack_ok_def)
  show "read_dentry_by_name id (phys t) (FSYSTEM t) (Some nm) = read_dentry_by_name id (phys s) (FSYSTEM s) (Some nm)"
    unfolding f by (rule lookup_agree [OF ok eq])
  show "rd32 id (phys t) (FSYSTEM t + 4) = rd32 id (phys s) (FSYSTEM s + 4)" unfolding f by (rule ag(1))
  show "file_bytes id (phys t) (FSYSTEM t) (of_nat i) = file_bytes id (phys s) (FSYSTEM s) (of_nat i)"
    if "i < unat (rd32 id (phys s) (FSYSTEM s + 4))" unfolding f by (rule ag(4) [OF _ that])
qed

text \<open>
  C4. From the keyboard to a running program: when the user types a command whose name the directory lists with a
  program that fits, while a process slot is free, the shell's turn ends with the kernel's jump to the entry point of
  that program. The program has a slot of its own, its page shows the bytes of the file, and its parent is the shell.
\<close>

theorem shell_starts_program:
  assumes s: "shell_ok sh cp lits buf s" and t: "typed sh cp l zs e" and c: "command l name a" "name \<noteq> []" "l \<noteq> bytes_of ''exit''"
    and mem: "kernel_maps s" "tlb_coherent s" "image_resident s" "stack_ok e s"
    and found: "read_dentry_by_name id (phys s) (FSYSTEM s) (Some (lit name)) = Some d"
      "unat (de_inode d) < unat (rd32 id (phys s) (FSYSTEM s + 4))"
    and elf: "bs = file_bytes id (phys s) (FSYSTEM s) (de_inode d)" "take 4 bs = [0x7f, 0x45, 0x4c, 0x46]"
      "28 \<le> length bs" "length bs < 0x3B8000"
    and slot: "pnum_ok s" "\<not> pnum_pool s \<subseteq> pnum_busy s" and ring: "ring_ok s"
  shows "\<exists>t p. shell_turn e lits buf s = Some (Shell_child (EnterUser (le32 (\<lambda>j. bs ! (24 + j)))), t) \<and>
    pnum t = p \<and> nat p \<in> pnum_pool s - pnum_busy s \<and> runs_slot p t \<and>
    (\<forall>j < length bs. user_walk t (EXEC_LOCATION + of_nat j) = Some (load_addr p j) \<and> phys t (load_addr p j) = bs ! j) \<and>
    curr_pcb t = pcb_at p \<and> parent (pcbs t (pcb_at p)) = curr_pcb s"
proof -
  note cm = commandD [OF c(1)]
  obtain u v where u: "shell_turn e lits buf s = shell_command e lits buf u" "shell_ok sh cp lits buf u" "keeps buf 129 s u"
    "\<forall>j < 129. buf_at (xl u) (phys u) buf j = lit l j"
    "ece391_strcmp (buf_at (xl u) (phys u) buf) (buf_at (xl u) (phys u) (lits (bytes_of ''exit''))) = Some v" "v = 0 \<longleftrightarrow> l = bytes_of ''exit''"
    by (rule shell_reads [OF s t cm(8)])
  have b: "off_screen buf 129 s" "user_buf (xl s) (phys s) (FSYSTEM s) buf 129" using s by (simp_all add: shell_ok_def asks_def program_def)
  have cc: "console_change s u" using u(3) by (simp add: keeps_def)
  note r = keeps_resident [OF u(3) b mem(1-3)] and ct = console_change_tables [OF cc]
  have "l \<noteq> []" "l ! 0 = name ! 0" using cm(7) c(2) by (auto simp: nth_append)
  then have nz: "phys u (xl u buf) \<noteq> 0"
    using u(4) [rule_format, of 0] cm(1) c(2) by (auto simp: buf_at_def lit_def dest: nth_mem) (metis length_greater_0_conv nth_mem)
  have bs: "bs = file_bytes id (phys u) (FSYSTEM u) (de_inode d)" using r(6) [OF found(2)] elf(1) by simp
  have "\<exists>t p. execute e (buf_at (xl u) (phys u) buf) u = Some (EnterUser (le32 (\<lambda>j. bs ! (24 + j))), t) \<and>
    pnum t = p \<and> 0 \<le> p \<and> nat p \<in> pnum_pool u - pnum_busy u \<and> pnumarr t = (pnumarr u)[nat p := 1] \<and> runs_slot p t \<and>
    (\<forall>j < length bs. user_walk t (EXEC_LOCATION + of_nat j) = Some (load_addr p j) \<and> phys t (load_addr p j) = bs ! j) \<and>
    curr_pcb t = pcb_at p \<and> parent (pcbs t (pcb_at p)) = curr_pcb u \<and> ring_ok t"
    by (rule execute_runs_buf [OF cm(1-7) _ _ _ _ _ r(1) _ _ _ bs elf(2-4)])
      (use u(2,4) mem found slot ring r(2-5) ct in \<open>simp_all add: shell_ok_def\<close>)
  then obtain t p where x: "execute e (buf_at (xl u) (phys u) buf) u = Some (EnterUser (le32 (\<lambda>j. bs ! (24 + j))), t)"
    "pnum t = p" "nat p \<in> pnum_pool u - pnum_busy u" "runs_slot p t"
    "\<forall>j < length bs. user_walk t (EXEC_LOCATION + of_nat j) = Some (load_addr p j) \<and> phys t (load_addr p j) = bs ! j"
    "curr_pcb t = pcb_at p" "parent (pcbs t (pcb_at p)) = curr_pcb u" by blast
  have "shell_turn e lits buf s = Some (Shell_child (EnterUser (le32 (\<lambda>j. bs ! (24 + j)))), t)"
    using u(1,5,6) c(3) nz x(1) by (simp add: shell_command_def execute_call)
  then show ?thesis using x(2-7) ct(4,5,7) by auto
qed

section \<open>Witnesses\<close>

definition type_env :: "u8 list \<Rightarrow> env" where
  "type_env zs = plain_env\<lparr>irqs := map press_key (zs @ [28])\<rparr>"

lemma typed_keys:
  "typed False False [] [] (type_env [])" "typed False False [97] [30] (type_env [30])" "typed False False [48] [11] (type_env [11])"
  "typed False False (bytes_of ''exit'') [18, 45, 23, 20] (type_env [18, 45, 23, 20])"
  "typed False False (bytes_of ''shell'') [31, 35, 18, 38, 38] (type_env [31, 35, 18, 38, 38])"
proof -
  have "\<forall>(z, c) \<in> set [(30, 97), (11, 48), (18, 101), (45, 120), (23, 105), (20, 116), (31, 115), (35, 104), (38, 108)].
      key_char False False z = c"
    by (simp add: key_char_def echo_char_def blank_kernel_def key_tables)
  then show "typed False False [] [] (type_env [])" "typed False False [97] [30] (type_env [30])" "typed False False [48] [11] (type_env [11])"
    "typed False False (bytes_of ''exit'') [18, 45, 23, 20] (type_env [18, 45, 23, 20])"
    "typed False False (bytes_of ''shell'') [31, 35, 18, 38, 38] (type_env [31, 35, 18, 38, 38])"
    by (simp_all add: typed_def line_keys_def char_keys_def known_key_def type_env_def bytes_of_def)
qed

lemma const_kernel_asks:
  assumes "length cs \<le> 64" "\<forall>c \<in> set cs. length c < 64 \<and> plain c"
  shows "asks False False (const_addr 0x601000 cs) cs 0x600000 (const_kernel cs)"
  using const_kernel_program [OF assms] by (simp add: asks_def)

theorem hello_greets_witness:
  "\<exists>t. hello_main (type_env [30]) (const_addr 0x601000 hello_strings) 0x600000 (const_kernel hello_strings) = Some (0, t) \<and>
    shown t = shown (fold putc (bytes_of ''Hello, a'' @ [10]) (after_line [97] (fold putc (bytes_of ''Hi, what's your name? '') (const_kernel hello_strings))))"
proof -
  have "length hello_strings \<le> 64" "\<forall>c \<in> set hello_strings. length c < 64 \<and> plain c"
    by (simp_all add: hello_strings_def plain_def bytes_of_def)
  note a = const_kernel_asks [OF this]
  have "bytes_of ''Hello, a'' @ [10] = bytes_of ''Hello, '' @ [97] @ [10]" by (simp add: bytes_of_def)
  with hello_greets [OF a typed_keys(2)] show ?thesis by simp
qed

theorem counter_refuses_all_witness:
  "\<exists>t. counter_main (type_env [11]) (const_addr 0x601000 counter_strings) 0x600000 (const_kernel counter_strings) = Some (0, t)"
proof -
  have "length counter_strings \<le> 64" "\<forall>c \<in> set counter_strings. length c < 64 \<and> plain c"
    by (simp_all add: counter_strings_def plain_def bytes_of_def)
  note a = const_kernel_asks [OF this]
  from counter_refuses_all [OF a typed_keys(3)] show ?thesis by auto
qed

lemma shell_strings_fit: "length shell_strings \<le> 64" "\<forall>c \<in> set shell_strings. length c < 64 \<and> plain c"
  by (simp_all add: shell_strings_def plain_def bytes_of_def)

theorem shell_session_witness:
  "\<exists>t. shell_main plain_env (const_addr 0x601000 shell_strings) 0x600000 [type_env [], type_env [30], type_env [18, 45, 23, 20]] (const_kernel shell_strings) =
      Some (Shell_exit 0, t) \<and>
    shown t = shown (prompted (bytes_of ''exit'') (session [[], [97]] (fold putc (msg ''Starting 391 Shell'') (const_kernel shell_strings))))"
proof -
  let ?s = "const_kernel shell_strings"
  have "shell_ok False False (const_addr 0x601000 shell_strings) 0x600000 ?s"
    using const_kernel_asks [OF shell_strings_fit]
    by (simp add: shell_ok_def const_kernel_def prog_kernel_def list_kernel_def initFOTP_def Let_def blank_kernel_def)
  moreover have "list_all2 (\<lambda>l e. \<exists>zs. typed False False l zs e) [[], [97]] [type_env [], type_env [30]]" using typed_keys(1,2) by auto
  moreover have cm: "command [97] [97] []" by (simp add: command_def)
  moreover have "lookup ?s [97] = None" using const_kernel_lookup [OF shell_strings_fit(1), of "[97]"] by simp
  then have "\<forall>l \<in> set [[], [97]]. unknown_line ?s l"
    using cm by (auto simp: unknown_line_def bytes_of_def)
  ultimately show ?thesis
    using shell_session [OF _ _ _ typed_keys(4), of "const_addr 0x601000 shell_strings" "0x600000" ?s "[[], [97]]" "[type_env [], type_env [30]]" plain_env "[]"]
    by simp
qed

text \<open>The shell of theory \<^verbatim>\<open>Halt\<close> with its constants in memory.\<close>

definition shell_kernel :: kernel where
  "shell_kernel = (initFOTP elf_shell)\<lparr>phys := const_mem 0x601000 shell_strings elf_fs\<rparr>"

lemma shell_kernel_image:
  "FSYSTEM shell_kernel = 0x500000" "kernel_maps shell_kernel" "tlb_coherent shell_kernel" "image_resident shell_kernel"
  "fs_size id (phys shell_kernel) 0x500000 = 12288"
  "read_dentry_by_name id (phys shell_kernel) 0x500000 (Some b) = read_dentry_by_name id elf_fs 0x500000 (Some b)"
  "rd32 id (phys shell_kernel) 0x500004 = 1" "file_bytes id (phys shell_kernel) 0x500000 0 = file_bytes id elf_fs 0x500000 0"
proof -
  note f = elf_shell_fields
  have ph: "phys shell_kernel = const_mem 0x601000 shell_strings elf_fs" by (simp add: shell_kernel_def)
  have size: "fs_size id elf_fs 0x500000 = 12288" using elf_fs_rd by (simp add: fs_size_def)
  have eq: "phys shell_kernel a = elf_fs a" if "a \<in> fs_image id elf_fs 0x500000" for a
    using that const_mem_image [OF shell_strings_fit(1), of a elf_fs] by (simp add: ph fs_image_def size)
  note ag = image_agree [OF elf_fs_ok eq]
  show fs: "FSYSTEM shell_kernel = 0x500000" using f(2) by (simp add: shell_kernel_def initFOTP_def Let_def)
  show sz: "fs_size id (phys shell_kernel) 0x500000 = 12288" using ag(1,2) size by (simp add: fs_size_def)
  show "kernel_maps shell_kernel" using f(5) by (simp add: shell_kernel_def initFOTP_def Let_def kernel_maps_def tables_ok_def)
  have "walk shell_kernel = walk elf_shell" "tlb shell_kernel = tlb elf_shell"
    by (rule walk_cong) (simp_all add: shell_kernel_def initFOTP_def Let_def)
  then show "tlb_coherent shell_kernel" using f(6) by (simp add: tlb_coherent_def)
  show "image_resident shell_kernel" using ag(6) sz by (simp add: image_resident_def fs)
  show "read_dentry_by_name id (phys shell_kernel) 0x500000 (Some b) = read_dentry_by_name id elf_fs 0x500000 (Some b)"
    by (rule lookup_agree [OF elf_fs_ok eq])
  show "rd32 id (phys shell_kernel) 0x500004 = 1" using ag(1) elf_fs_rd by simp
  show "file_bytes id (phys shell_kernel) 0x500000 0 = file_bytes id elf_fs 0x500000 0" using ag(4) [of 0] elf_fs_rd by simp
qed

lemma shell_kernel_ok: "shell_ok False False (const_addr 0x601000 shell_strings) 0x600000 shell_kernel"
proof -
  note im = shell_kernel_image(1-5) and f = elf_shell_fields
  let ?b = "blank_kernel elf_fs 0x500000"
  have b: "fd (initPaging ?b) = replicate 8 null_file" "screen_x (initPaging ?b) = 0" "screen_y (initPaging ?b) = 0" "tbuf (initPaging ?b) = 0"
    "tflag (initPaging ?b) = 0" "tbuffer (initPaging ?b) = replicate 129 0" "indicator (initPaging ?b) = 1" "\<not> shift_flag (initPaging ?b)"
    "\<not> caps_lock (initPaging ?b)" "\<not> ctrl_flag (initPaging ?b)" "\<not> alt_flag (initPaging ?b)"
    by (simp_all add: initPaging_def enablePaging_def fill_directory_def fill_table_def Let_def
        fill_table_fold fill_directory_fold blank_kernel_def del: initPaging_fields)
  have so: "stdout_ok shell_kernel" "fd_ok shell_kernel" "stdin_ok shell_kernel" "no_modifier False False shell_kernel"
    by (simp_all add: stdout_ok_def fd_ok_def stdin_ok_def no_modifier_def shell_kernel_def elf_shell_def initFOTP_def Let_def b console_simps
        null_file_def)
  have id: "xl shell_kernel a = a" if "0x400000 \<le> a \<and> a < 0x800000" for a
    using that by (intro xl_kernel [OF im(2,3)]) (simp_all add: word_le_nat_alt word_less_nat_alt)
  have ok: "fs_ok (xl shell_kernel) (phys shell_kernel) (FSYSTEM shell_kernel)" by (rule resident_view(1) [OF im(4,2,3)])
  have "fs_size (xl shell_kernel) (phys shell_kernel) (FSYSTEM shell_kernel) = 12288"
    using im(5) by (simp add: fs_size_def rd32_def buf_at_def le32_def id im(1))
  then have "program (const_addr 0x601000 shell_strings) shell_strings 0x600000 129 shell_kernel"
    using id by (intro layout_program [OF _ _ so(1,2) ok im(1) _ shell_strings_fit]) (simp_all add: shell_kernel_def)
  moreover have "length (filename shell_kernel) = 32" "length (arg shell_kernel) = 32"
    using f(3,4) by (simp_all add: shell_kernel_def initFOTP_def Let_def)
  ultimately show ?thesis using so(3,4) by (simp add: shell_ok_def asks_def)
qed

theorem shell_starts_program_witness:
  "\<exists>t. shell_turn (type_env [31, 35, 18, 38, 38]) (const_addr 0x601000 shell_strings) 0x600000 shell_kernel =
      Some (Shell_child (EnterUser 0x08048000), t) \<and> runs_slot (pnum t) t \<and> parent (pcbs t (curr_pcb t)) = pcb_at 0"
proof -
  let ?s = shell_kernel and ?bs = "file_bytes id elf_fs 0x500000 0" and ?d = "dentry_at id elf_fs 0x500040"
  note im = shell_kernel_image and f = elf_shell_fields
  have c: "command (bytes_of ''shell'') (bytes_of ''shell'') []" "bytes_of ''shell'' \<noteq> []" "bytes_of ''shell'' \<noteq> bytes_of ''exit''"
    by (simp_all add: command_def bytes_of_def)
  have d: "de_inode ?d = 0" by (simp add: dentry_at_def elf_fs_def)
  have st: "stack_ok (type_env [31, 35, 18, 38, 38]) ?s"
    by (auto simp: stack_ok_def im(1,5) type_env_def plain_env_def region_nowrap)
  have l: "read_dentry_by_name id (phys ?s) (FSYSTEM ?s) (Some (lit (bytes_of ''shell''))) = Some ?d"
    using elf_fs_lookup im(6) by (simp add: im(1))
  have i: "unat (de_inode ?d) < unat (rd32 id (phys ?s) (FSYSTEM ?s + 4))" using im(7) by (simp add: im(1) d)
  have bs: "?bs = file_bytes id (phys ?s) (FSYSTEM ?s) (de_inode ?d)" using im(8) by (simp add: im(1) d)
  have sl: "pnum_ok ?s" "\<not> pnum_pool ?s \<subseteq> pnum_busy ?s" "ring_ok ?s" "curr_pcb ?s = pcb_at 0"
    using f(7-9) by (simp_all add: shell_kernel_def initFOTP_def Let_def pnum_ok_def pnum_pool_def pnum_busy_def ring_ok_def elf_shell_def)
  from shell_starts_program [OF shell_kernel_ok typed_keys(5) c im(2-4) st l i bs elf_fs_magic(1) _ _ sl(1-3)]
  show ?thesis using elf_fs_bytes(1) elf_fs_magic(2) sl(4) by auto
qed

end
