(* ===== verification/Fish_Blink.thy ===== *)
theory Fish_Blink
  imports User_Shell
begin

text \<open>
  The blinking characters of the fish animation: \<^verbatim>\<open>fish/blink.S\<close> with the allocator of
  \<^verbatim>\<open>fish/fish.c\<close>. The structures are the elements of \<^verbatim>\<open>blink_array\<close>; a pointer to a
  structure is an index into it and \<^verbatim>\<open>NULL\<close> is \<open>None\<close>. They form a list that starts at
  \<^verbatim>\<open>mp1_list_head\<close>. The kernel under the program is part of the state, and stores go to its memory through the
  page at \<^verbatim>\<open>vmem_base_addr\<close>. The theory shows that the operations on the linked structures implement the
  operations on a list of blinking characters and on the bytes of the page.
\<close>

section \<open>Data\<close>

record blink =
  location :: u16
  on_char :: u8
  off_char :: u8
  on_length :: u16
  off_length :: u16
  countdown :: u16
  status :: u16
  next_ptr :: "nat option"

definition null_blink :: blink where
  "null_blink = \<lparr>location = 0, on_char = 0, off_char = 0, on_length = 0, off_length = 0, countdown = 0, status = 0, next_ptr = None\<rparr>"

record fish =
  blink_array :: "blink list"
  mp1_list_head :: "nat option"
  vmem_base_addr :: u32
  os :: kernel

definition update_blink :: "nat \<Rightarrow> (blink \<Rightarrow> blink) \<Rightarrow> fish \<Rightarrow> fish" where
  "update_blink i f s = s\<lparr>blink_array := (blink_array s)[i := f (blink_array s ! i)]\<rparr>"

section \<open>The allocator\<close>

function mp1_malloc_from :: "blink list \<Rightarrow> nat \<Rightarrow> nat option" where
  "mp1_malloc_from bs i = (if i < 80 * 25 then (if location (bs ! i) = 0 then Some i else mp1_malloc_from bs (i + 1)) else None)"
  by pat_completeness auto

termination by (relation "measure (\<lambda>(bs, i). 2000 - i)") auto

declare mp1_malloc_from.simps [simp del]

definition mp1_malloc :: "fish \<Rightarrow> nat option" where
  "mp1_malloc s = mp1_malloc_from (blink_array s) 0"

definition mp1_free :: "nat \<Rightarrow> fish \<Rightarrow> fish" where
  "mp1_free i s = update_blink i (\<lambda>b. null_blink) s"

section \<open>The operations\<close>

definition mp1_poke :: "u8 \<Rightarrow> u32 \<Rightarrow> fish \<Rightarrow> fish" where
  "mp1_poke cl eax s = s\<lparr>os := poke (vmem_base_addr s) (uint eax) cl (os s)\<rparr>"

text \<open>The offset in the video page: the location, zero-extended and shifted.\<close>

definition blink_cell :: "blink \<Rightarrow> u32" where
  "blink_cell b = push_bit 1 (ucast (location b))"

text \<open>One turn of \<^verbatim>\<open>tasklet_loop\<close>, up to \<^verbatim>\<open>next_loop\<close>.\<close>

definition tasklet_step :: "nat \<Rightarrow> fish \<Rightarrow> fish" where
  "tasklet_step i s =
     (let s = update_blink i (\<lambda>b. b\<lparr>countdown := countdown b - 1\<rparr>) s; b = blink_array s ! i in
      if 0 < sint (countdown b) then s
      else let (s, dx) = (if status b AND 1 \<noteq> 0 then (mp1_poke (off_char b) (blink_cell b) s, off_length b)
                          else (mp1_poke (on_char b) (blink_cell b) s, on_length b)) in
           update_blink i (\<lambda>b. b\<lparr>countdown := dx, status := status b XOR 1\<rparr>) s)"

partial_function (option) tasklet_loop :: "nat option \<Rightarrow> fish \<Rightarrow> fish option" where
  "tasklet_loop p s =
     (case p of None \<Rightarrow> Some s
      | Some i \<Rightarrow> let s = tasklet_step i s in tasklet_loop (next_ptr (blink_array s ! i)) s)"

definition mp1_rtc_tasklet :: "fish \<Rightarrow> fish option" where
  "mp1_rtc_tasklet s = tasklet_loop (mp1_list_head s) s"

partial_function (option) find_loop :: "u16 \<Rightarrow> nat option \<Rightarrow> fish \<Rightarrow> nat option option" where
  "find_loop ax p s =
     (case p of None \<Rightarrow> Some None
      | Some i \<Rightarrow> if location (blink_array s ! i) = ax then Some (Some i) else find_loop ax (next_ptr (blink_array s ! i)) s)"

definition mp1_find_helper :: "u32 \<Rightarrow> fish \<Rightarrow> nat option option" where
  "mp1_find_helper loc s = find_loop (ucast loc) (mp1_list_head s) s"

definition mp1_ioctl_add :: "blink \<Rightarrow> fish \<Rightarrow> int \<times> fish" where
  "mp1_ioctl_add u s =
     (if 80 * 25 \<le> location u then (-1, s)
      else let u = u\<lparr>status := 1, countdown := on_length u\<rparr> in
        case mp1_malloc s of None \<Rightarrow> (-1, s)
        | Some p \<Rightarrow>
            let s = update_blink p (\<lambda>b. u) s; s = update_blink p (\<lambda>b. b\<lparr>next_ptr := mp1_list_head s\<rparr>) s; s = s\<lparr>mp1_list_head := Some p\<rparr>;
                b = blink_array s ! p in
            (0, mp1_poke (on_char b) (blink_cell b) s))"

text \<open>A pointer to a pointer: \<open>None\<close> is \<^verbatim>\<open>&mp1_list_head\<close> and \<open>Some i\<close> is the field \<^verbatim>\<open>next\<close> of structure \<open>i\<close>.\<close>

definition deref :: "nat option \<Rightarrow> fish \<Rightarrow> nat option" where
  "deref q s = (case q of None \<Rightarrow> mp1_list_head s | Some i \<Rightarrow> next_ptr (blink_array s ! i))"

definition assign :: "nat option \<Rightarrow> nat option \<Rightarrow> fish \<Rightarrow> fish" where
  "assign q v s = (case q of None \<Rightarrow> s\<lparr>mp1_list_head := v\<rparr> | Some i \<Rightarrow> update_blink i (\<lambda>b. b\<lparr>next_ptr := v\<rparr>) s)"

text \<open>Following \<^verbatim>\<open>NULL\<close> is a fault, the value \<open>None\<close>.\<close>

partial_function (option) remove_find_prev :: "nat \<Rightarrow> nat option \<Rightarrow> fish \<Rightarrow> nat option option" where
  "remove_find_prev p q s =
     (if deref q s = Some p then Some q else case deref q s of None \<Rightarrow> None | Some i \<Rightarrow> remove_find_prev p (Some i) s)"

definition mp1_ioctl_remove :: "u32 \<Rightarrow> fish \<Rightarrow> (int \<times> fish) option" where
  "mp1_ioctl_remove loc s =
     (case mp1_find_helper loc s of None \<Rightarrow> None
      | Some None \<Rightarrow> Some (-1, s)
      | Some (Some p) \<Rightarrow>
          map_option (\<lambda>q. (0, mp1_free p (assign q (next_ptr (blink_array s ! p)) s))) (remove_find_prev p None s))"

definition mp1_ioctl_find :: "blink \<Rightarrow> fish \<Rightarrow> (int \<times> blink) option" where
  "mp1_ioctl_find u s =
     (case mp1_find_helper (ucast (location u)) s of None \<Rightarrow> None
      | Some None \<Rightarrow> Some (-1, u)
      | Some (Some p) \<Rightarrow> Some (0, blink_array s ! p))"

text \<open>
  \<^verbatim>\<open>testb $0x1\<close> clears the overflow flag and its result, 0 or 1, has the sign flag clear: the condition of
  \<^verbatim>\<open>cmovl\<close>, that the two differ, is the sign of the result.
\<close>

definition mp1_ioctl_sync :: "u32 \<Rightarrow> fish \<Rightarrow> (int \<times> fish) option" where
  "mp1_ioctl_sync v s =
     (case mp1_find_helper (drop_bit 16 v) s of None \<Rightarrow> None
      | Some None \<Rightarrow> Some (-1, s)
      | Some (Some i) \<Rightarrow>
          (case mp1_find_helper (v AND 0xFFFF) s of None \<Rightarrow> None
           | Some None \<Rightarrow> Some (-1, s)
           | Some (Some j) \<Rightarrow>
               let s = update_blink j (\<lambda>b. b\<lparr>on_length := on_length (blink_array s ! i)\<rparr>) s;
                   s = update_blink j (\<lambda>b. b\<lparr>off_length := off_length (blink_array s ! i)\<rparr>) s;
                   s = update_blink j (\<lambda>b. b\<lparr>countdown := countdown (blink_array s ! i)\<rparr>) s;
                   s = update_blink j (\<lambda>b. b\<lparr>status := status (blink_array s ! i)\<rparr>) s;
                   b = blink_array s ! j;
                   cl = (if sint (ucast (status b) AND 1 :: u8) < 0 then on_char b else off_char b) in
               Some (0, mp1_poke cl (blink_cell b) s)))"

text \<open>
  The dispatch through \<^verbatim>\<open>call_table\<close>. \<open>u\<close> is the structure that a pointer argument points to; a
  command beyond the table jumps to no code of the program.
\<close>

definition mp1_ioctl :: "blink \<Rightarrow> u32 \<Rightarrow> u32 \<Rightarrow> fish \<Rightarrow> (int \<times> blink \<times> fish) option" where
  "mp1_ioctl u v cmd s =
     (if cmd = 0 then (case mp1_ioctl_add u s of (r, t) \<Rightarrow> Some (r, u, t))
      else if cmd = 1 then map_option (\<lambda>(r, t). (r, u, t)) (mp1_ioctl_remove v s)
      else if cmd = 2 then map_option (\<lambda>(r, v). (r, v, s)) (mp1_ioctl_find u s)
      else if cmd = 3 then map_option (\<lambda>(r, t). (r, u, t)) (mp1_ioctl_sync v s)
      else None)"

section \<open>The list of blinking characters\<close>

text \<open>The bytes of the page, and that they are different bytes of memory.\<close>

definition byte_addr :: "fish \<Rightarrow> nat \<Rightarrow> u32" where
  "byte_addr s k = xl (os s) (vmem_base_addr s + of_nat k)"

definition vmem :: "fish \<Rightarrow> u8 list" where
  "vmem s = map (\<lambda>k. phys (os s) (byte_addr s k)) [0..<4000]"

definition page_ok :: "fish \<Rightarrow> bool" where
  "page_ok s \<longleftrightarrow> inj_on (byte_addr s) {..<4000}"

lemma update_blink_simps [simp]:
  "mp1_list_head (update_blink i f s) = mp1_list_head s" "vmem_base_addr (update_blink i f s) = vmem_base_addr s"
  "os (update_blink i f s) = os s" "length (blink_array (update_blink i f s)) = length (blink_array s)"
  by (simp_all add: update_blink_def)

lemma poke_simps [simp]:
  "blink_array (mp1_poke c a s) = blink_array s" "mp1_list_head (mp1_poke c a s) = mp1_list_head s"
  "vmem_base_addr (mp1_poke c a s) = vmem_base_addr s" "byte_addr (mp1_poke c a s) = byte_addr s"
  by (simp_all add: mp1_poke_def byte_addr_def fun_eq_iff)

lemma page_simps [simp]:
  "byte_addr (update_blink i f s) = byte_addr s" "vmem (update_blink i f s) = vmem s"
  "byte_addr (s\<lparr>mp1_list_head := h\<rparr>) = byte_addr s" "byte_addr (s\<lparr>blink_array := bs\<rparr>) = byte_addr s"
  "vmem (s\<lparr>mp1_list_head := h\<rparr>) = vmem s" "vmem (s\<lparr>blink_array := bs\<rparr>) = vmem s" "length (vmem s) = 4000"
  by (simp_all add: byte_addr_def vmem_def fun_eq_iff update_blink_def)

lemma poke_phys: "phys (os (mp1_poke c a s)) = (phys (os s))(byte_addr s (unat a) := c)"
  by (simp add: mp1_poke_def poke_def byte_addr_def)

lemma vmem_poke: "page_ok s \<Longrightarrow> unat a < 4000 \<Longrightarrow> vmem (mp1_poke c a s) = (vmem s)[unat a := c]"
  by (rule nth_equalityI) (auto simp: vmem_def poke_phys page_ok_def nth_list_update inj_on_eq_iff)

lemma update_blink_nth [simp]:
  "i < length (blink_array s) \<Longrightarrow> blink_array (update_blink i f s) ! j = (if j = i then f (blink_array s ! i) else blink_array s ! j)"
  by (simp add: update_blink_def)

lemma unat_cell: "unat (blink_cell b) = 2 * unat (location b)"
proof -
  have n: "unat (location b) < 65536" using unsigned_less [of "location b", where ?'a = nat] by simp
  have "blink_cell b = of_nat (2 * unat (location b))" by (simp add: blink_cell_def push_bit_eq_mult)
  then show ?thesis using n by (simp only: unat_of_nat) (simp add: take_bit_nat_eq_self)
qed

lemma cell_on_page: "location b < 2000 \<Longrightarrow> unat (blink_cell b) < 4000"
  by (simp add: unat_cell word_less_nat_alt)

text \<open>What the stores of the program change: even bytes of the page.\<close>

definition drawn :: "fish \<Rightarrow> fish \<Rightarrow> bool" where
  "drawn s t \<longleftrightarrow> vmem_base_addr t = vmem_base_addr s \<and> os t = (os s)\<lparr>phys := phys (os t)\<rparr> \<and>
     (\<forall>a. a \<notin> (\<lambda>l. byte_addr s (2 * l)) ` {..<2000} \<longrightarrow> phys (os t) a = phys (os s) a)"

lemma drawn_addr: "drawn s t \<Longrightarrow> byte_addr t = byte_addr s"
proof -
  assume d: "drawn s t"
  then obtain m where "os t = (os s)\<lparr>phys := m\<rparr>" unfolding drawn_def by blast
  then show ?thesis using d by (simp add: drawn_def byte_addr_def fun_eq_iff)
qed

lemma drawn_page_ok: "drawn s t \<Longrightarrow> page_ok t = page_ok s"
  by (simp add: page_ok_def drawn_addr)

lemma drawn_refl: "drawn s s"
  by (simp add: drawn_def)

lemma drawn_trans:
  assumes "drawn s t" "drawn t u"
  shows "drawn s u"
proof -
  obtain m n where "os t = (os s)\<lparr>phys := m\<rparr>" "os u = (os t)\<lparr>phys := n\<rparr>" using assms unfolding drawn_def by blast
  then show ?thesis using assms drawn_addr [OF assms(1)] by (simp add: drawn_def)
qed

lemma poke_os: "os (mp1_poke c a s) = (os s)\<lparr>phys := (phys (os s))(byte_addr s (unat a) := c)\<rparr>"
  by (simp add: mp1_poke_def poke_def byte_addr_def)

lemma drawn_poke: "location b < 2000 \<Longrightarrow> drawn s (mp1_poke c (blink_cell b) s)"
  by (auto simp: drawn_def poke_os unat_cell word_less_nat_alt)

lemma drawn_cong:
  "vmem_base_addr t = vmem_base_addr s \<Longrightarrow> os t = os s \<Longrightarrow> drawn s t"
  by (simp add: drawn_def)

lemma vmem_cong: "vmem_base_addr t = vmem_base_addr s \<Longrightarrow> os t = os s \<Longrightarrow> vmem t = vmem s \<and> byte_addr t = byte_addr s"
  by (simp add: vmem_def byte_addr_def fun_eq_iff)

text \<open>The indices on the way from one pointer to another.\<close>

primrec seg :: "blink list \<Rightarrow> nat option \<Rightarrow> nat list \<Rightarrow> nat option \<Rightarrow> bool" where
  "seg bs p [] q \<longleftrightarrow> p = q"
| "seg bs p (i # is) q \<longleftrightarrow> p = Some i \<and> seg bs (next_ptr (bs ! i)) is q"

lemma seg_cong: "(\<And>i. i \<in> set is \<Longrightarrow> next_ptr (bs ! i) = next_ptr (cs ! i)) \<Longrightarrow> seg bs p is q = seg cs p is q"
  by (induction "is" arbitrary: p) auto

lemma seg_append: "seg bs p (is @ js) q \<longleftrightarrow> (\<exists>r. seg bs p is r \<and> seg bs r js q)"
  by (induction "is" arbitrary: p) auto

text \<open>
  The linked structures are exactly those in use, those with a location other than 0, each is linked once, and each
  location is on the screen.
\<close>

definition linked :: "fish \<Rightarrow> nat list \<Rightarrow> bool" where
  "linked s ps \<longleftrightarrow> page_ok s \<and> length (blink_array s) = 2000 \<and> seg (blink_array s) (mp1_list_head s) ps None \<and> distinct ps \<and>
     (\<forall>i < 2000. i \<in> set ps \<longleftrightarrow> location (blink_array s ! i) \<noteq> 0) \<and> (\<forall>i \<in> set ps. i < 2000 \<and> location (blink_array s ! i) < 2000)"

definition payload :: "blink \<Rightarrow> blink" where
  "payload b = b\<lparr>next_ptr := None\<rparr>"

definition blinks :: "fish \<Rightarrow> blink list \<Rightarrow> bool" where
  "blinks s xs \<longleftrightarrow> (\<exists>ps. linked s ps \<and> xs = map (\<lambda>i. payload (blink_array s ! i)) ps)"

lemma blinksI: "linked s ps \<Longrightarrow> xs = map (\<lambda>i. payload (blink_array s ! i)) ps \<Longrightarrow> blinks s xs"
  unfolding blinks_def by (rule exI) (rule conjI)

lemma payload_simps [simp]:
  "location (payload b) = location b" "on_char (payload b) = on_char b" "off_char (payload b) = off_char b"
  "on_length (payload b) = on_length b" "off_length (payload b) = off_length b" "countdown (payload b) = countdown b"
  "status (payload b) = status b" "blink_cell (payload b) = blink_cell b" "payload (payload b) = payload b"
  by (simp_all add: payload_def blink_cell_def)

lemma linked_lt: "linked s ps \<Longrightarrow> i \<in> set ps \<Longrightarrow> i < length (blink_array s)"
  by (auto simp: linked_def)

lemma linked_length: "linked s ps \<Longrightarrow> length ps \<le> 2000"
proof -
  assume "linked s ps"
  then have "distinct ps" "set ps \<subseteq> {..<2000}" by (auto simp: linked_def)
  then show ?thesis using card_mono [of "{..<2000::nat}" "set ps"] by (simp add: distinct_card)
qed

lemma linked_update:
  assumes "linked s ps" "i \<in> set ps" "\<And>b. location (f b) = location b" "\<And>b. next_ptr (f b) = next_ptr b"
  shows "linked (update_blink i f s) ps"
proof -
  have i: "i < length (blink_array s)" by (rule linked_lt [OF assms(1,2)])
  have "seg (blink_array (update_blink i f s)) p qs r = seg (blink_array s) p qs r" for p qs r
    by (rule seg_cong) (simp add: i assms(4))
  then show ?thesis using assms(1) i assms(3) by (auto simp: linked_def page_ok_def)
qed

section \<open>The specification\<close>

text \<open>Commands and ticks on a list of characters, the most recent first, and on the page.\<close>

definition started :: "blink \<Rightarrow> blink" where
  "started u = payload (u\<lparr>status := 1, countdown := on_length u\<rparr>)"

primrec drop_first :: "('a \<Rightarrow> bool) \<Rightarrow> 'a list \<Rightarrow> 'a list" where
  "drop_first P [] = []"
| "drop_first P (x # xs) = (if P x then xs else x # drop_first P xs)"

primrec change_first :: "('a \<Rightarrow> bool) \<Rightarrow> ('a \<Rightarrow> 'a) \<Rightarrow> 'a list \<Rightarrow> 'a list" where
  "change_first P f [] = []"
| "change_first P f (x # xs) = (if P x then f x # xs else x # change_first P f xs)"

definition located :: "u16 \<Rightarrow> blink \<Rightarrow> bool" where
  "located l b \<longleftrightarrow> location b = l"

definition in_step :: "blink \<Rightarrow> blink \<Rightarrow> blink" where
  "in_step a b = b\<lparr>on_length := on_length a, off_length := off_length a, countdown := countdown a, status := status a\<rparr>"

definition tick :: "blink \<Rightarrow> blink" where
  "tick b = (let c = countdown b - 1 in
     if 0 < sint c then b\<lparr>countdown := c\<rparr>
     else b\<lparr>countdown := if status b AND 1 \<noteq> 0 then off_length b else on_length b, status := status b XOR 1\<rparr>)"

definition tick_page :: "blink \<Rightarrow> u8 list \<Rightarrow> u8 list" where
  "tick_page b v = (if 0 < sint (countdown b - 1) then v
     else v[unat (blink_cell b) := if status b AND 1 \<noteq> 0 then off_char b else on_char b])"

lemma tick_simps [simp]:
  "location (tick b) = location b" "next_ptr (tick b) = next_ptr b" "tick_page (payload b) = tick_page b"
  "tick (payload b) = payload (tick b)"
  by (simp_all add: tick_def tick_page_def payload_def Let_def blink_cell_def fun_eq_iff)

section \<open>Ticks\<close>

definition tick_draw :: "blink \<Rightarrow> fish \<Rightarrow> fish" where
  "tick_draw b s = (if 0 < sint (countdown b - 1) then s
     else mp1_poke (if status b AND 1 \<noteq> 0 then off_char b else on_char b) (blink_cell b) s)"

lemma tasklet_step_tick:
  assumes "i < length (blink_array s)"
  shows "tasklet_step i s = tick_draw (blink_array s ! i) (update_blink i tick s)"
  using assms unfolding tasklet_step_def Let_def
  by (simp add: tick_def tick_draw_def update_blink_def mp1_poke_def blink_cell_def Let_def)

lemma tick_draw_simps [simp]:
  "blink_array (tick_draw b s) = blink_array s" "mp1_list_head (tick_draw b s) = mp1_list_head s"
  by (simp_all add: tick_draw_def)

lemma tick_draw_page:
  assumes "location b < 2000" "page_ok s"
  shows "drawn s (tick_draw b s)" "vmem (tick_draw b s) = tick_page b (vmem s)"
  using drawn_poke [OF assms(1)] vmem_poke [OF assms(2) cell_on_page [OF assms(1)]] drawn_refl
  by (simp_all add: tick_draw_def tick_page_def)

lemma tasklet_loop_ticks:
  "seg (blink_array s) p ps None \<Longrightarrow> distinct ps \<Longrightarrow> (\<forall>i \<in> set ps. i < length (blink_array s) \<and> location (blink_array s ! i) < 2000) \<Longrightarrow> page_ok s \<Longrightarrow>
   \<exists>t. tasklet_loop p s = Some t \<and> mp1_list_head t = mp1_list_head s \<and> length (blink_array t) = length (blink_array s) \<and>
       (\<forall>i. blink_array t ! i = (if i \<in> set ps then tick (blink_array s ! i) else blink_array s ! i)) \<and>
       drawn s t \<and> vmem t = fold tick_page (map (\<lambda>i. blink_array s ! i) ps) (vmem s)"
proof (induction ps arbitrary: p s)
  case Nil
  then show ?case by (simp add: tasklet_loop.simps drawn_refl)
next
  case (Cons i ps)
  let ?u = "tasklet_step i s" and ?v = "update_blink i tick s"
  have i: "i < length (blink_array s)" "location (blink_array s ! i) < 2000" and p: "p = Some i" using Cons.prems by auto
  note u = tasklet_step_tick [OF i(1)]
  have pv: "page_ok ?v" using Cons.prems(4) by (simp add: page_ok_def)
  note dr = tick_draw_page [OF i(2) pv, folded u]
  have dv: "drawn s ?u" by (rule drawn_trans [OF drawn_cong dr(1)]) simp_all
  have nth: "blink_array ?u ! j = (if j = i then tick (blink_array s ! i) else blink_array s ! j)" for j using i by (simp add: u)
  have sg: "seg (blink_array ?u) (next_ptr (blink_array ?u ! i)) ps None"
    using Cons.prems by (subst seg_cong [of ps _ "blink_array s"]) (auto simp: nth)
  have pu: "page_ok ?u" using drawn_page_ok [OF dv] Cons.prems(4) by simp
  have len: "length (blink_array ?u) = length (blink_array s)" by (simp add: u)
  have prem: "distinct ps" "\<forall>j \<in> set ps. j < length (blink_array ?u) \<and> location (blink_array ?u ! j) < 2000"
    using Cons.prems(2,3) i by (simp_all add: nth len)
  obtain t where t: "tasklet_loop (next_ptr (blink_array ?u ! i)) ?u = Some t"
      "mp1_list_head t = mp1_list_head ?u" "length (blink_array t) = length (blink_array ?u)"
      "\<forall>j. blink_array t ! j = (if j \<in> set ps then tick (blink_array ?u ! j) else blink_array ?u ! j)"
      "drawn ?u t" "vmem t = fold tick_page (map (\<lambda>j. blink_array ?u ! j) ps) (vmem ?u)"
    using Cons.IH [OF sg _ _ pu] prem by blast
  have "map (\<lambda>j. blink_array ?u ! j) ps = map (\<lambda>j. blink_array s ! j) ps" using Cons.prems by (auto simp: nth)
  then have "vmem t = fold tick_page (map (\<lambda>j. blink_array s ! j) (i # ps)) (vmem s)" unfolding t(6) dr(2) by (simp only:) simp
  moreover have "tasklet_loop p s = Some t" using t(1) by (simp add: p tasklet_loop.simps [of "Some i"] Let_def)
  moreover have "mp1_list_head t = mp1_list_head s" using t(2) by (simp add: u)
  ultimately show ?case using t(3,4) Cons.prems drawn_trans [OF dv t(5)] by (intro exI [of _ t]) (auto simp: nth len)
qed

lemma tasklet_blinks:
  assumes "blinks s xs"
  obtains t where "mp1_rtc_tasklet s = Some t" "blinks t (map tick xs)" "drawn s t" "vmem t = fold tick_page xs (vmem s)"
proof -
  obtain ps where ps: "linked s ps" "xs = map (\<lambda>i. payload (blink_array s ! i)) ps" using assms by (auto simp: blinks_def)
  have sg: "seg (blink_array s) (mp1_list_head s) ps None" "distinct ps" "page_ok s"
    "\<forall>i \<in> set ps. i < length (blink_array s) \<and> location (blink_array s ! i) < 2000"
    using ps(1) by (auto simp: linked_def)
  from tasklet_loop_ticks [OF sg(1,2,4,3)] obtain t where t: "tasklet_loop (mp1_list_head s) s = Some t" "mp1_list_head t = mp1_list_head s"
      "length (blink_array t) = length (blink_array s)"
      "\<forall>i. blink_array t ! i = (if i \<in> set ps then tick (blink_array s ! i) else blink_array s ! i)"
      "drawn s t" "vmem t = fold tick_page (map (\<lambda>i. blink_array s ! i) ps) (vmem s)" by blast
  have "seg (blink_array t) (mp1_list_head t) ps None = seg (blink_array s) (mp1_list_head s) ps None"
    unfolding t(2) by (rule seg_cong) (simp add: t(4))
  then have "linked t ps" using ps(1) t(3,4) drawn_page_ok [OF t(5)] by (auto simp: linked_def)
  moreover have "map tick xs = map (\<lambda>i. payload (blink_array t ! i)) ps" by (simp add: ps(2) t(4))
  ultimately have "blinks t (map tick xs)" by (rule blinksI)
  moreover have "fold tick_page (map (\<lambda>i. blink_array s ! i) ps) v = fold tick_page xs v" for v
    unfolding ps(2) fold_map by (simp add: comp_def)
  ultimately show ?thesis using that t(1,5,6) unfolding mp1_rtc_tasklet_def by simp
qed

section \<open>Commands\<close>

lemma find_loop_find:
  "seg (blink_array s) p ps None \<Longrightarrow> find_loop l p s = Some (List.find (\<lambda>i. location (blink_array s ! i) = l) ps)"
proof (induction ps arbitrary: p)
  case Nil
  then show ?case by (simp add: find_loop.simps)
next
  case (Cons i ps)
  then show ?case by (simp add: find_loop.simps [of _ "Some i"])
qed

lemma find_helper:
  "linked s ps \<Longrightarrow> mp1_find_helper l s = Some (List.find (\<lambda>i. location (blink_array s ! i) = ucast l) ps)"
  by (simp add: mp1_find_helper_def linked_def find_loop_find)

lemma find_map: "List.find P (map f xs) = map_option f (List.find (\<lambda>x. P (f x)) xs)"
  by (induction xs) auto

lemma find_blinks:
  "List.find (located l) (map (\<lambda>i. payload (blink_array s ! i)) ps) =
     map_option (\<lambda>i. payload (blink_array s ! i)) (List.find (\<lambda>i. location (blink_array s ! i) = l) ps)"
  by (simp add: find_map located_def)

lemma find_split:
  "List.find P xs = Some x \<Longrightarrow> \<exists>as bs. xs = as @ x # bs \<and> P x \<and> (\<forall>a \<in> set as. \<not> P a)"
proof (induction xs)
  case (Cons y xs)
  show ?case
  proof (cases "P y")
    case True
    then show ?thesis using Cons.prems by (intro exI [of _ "[]"] exI [of _ xs]) simp
  next
    case False
    then obtain as bs where "xs = as @ x # bs \<and> P x \<and> (\<forall>a \<in> set as. \<not> P a)" using Cons by auto
    then show ?thesis using False by (intro exI [of _ "y # as"] exI [of _ bs]) simp
  qed
qed simp

lemma drop_first_append: "\<forall>a \<in> set as. \<not> P a \<Longrightarrow> P x \<Longrightarrow> drop_first P (as @ x # bs) = as @ bs"
  by (induction as) auto

lemma change_first_append: "\<forall>a \<in> set as. \<not> P a \<Longrightarrow> P x \<Longrightarrow> change_first P f (as @ x # bs) = as @ f x # bs"
  by (induction as) auto

lemma malloc_from_Some:
  "mp1_malloc_from bs i = Some p \<Longrightarrow> i \<le> p \<and> p < 2000 \<and> location (bs ! p) = 0"
proof (induction bs i rule: mp1_malloc_from.induct)
  case (1 bs i)
  then show ?case using mp1_malloc_from.simps [of bs i] by (fastforce split: if_splits)
qed

lemma malloc_from_None: "mp1_malloc_from bs i = None \<Longrightarrow> i \<le> j \<Longrightarrow> j < 2000 \<Longrightarrow> location (bs ! j) \<noteq> 0"
proof (induction bs i rule: mp1_malloc_from.induct)
  case (1 bs i)
  then show ?case using mp1_malloc_from.simps [of bs i] by (cases "j = i") (auto split: if_splits)
qed

lemma malloc_full:
  assumes "linked s ps"
  shows "mp1_malloc s = None \<longleftrightarrow> length ps = 2000"
proof -
  have d: "card (set ps) = length ps" "set ps \<subseteq> {..<2000}" using assms by (auto simp: linked_def distinct_card)
  show ?thesis
  proof
    assume "mp1_malloc s = None"
    then have "{..<2000} \<subseteq> set ps" using assms malloc_from_None [of "blink_array s" 0] by (auto simp: mp1_malloc_def linked_def)
    with d(2) have "set ps = {..<2000}" by blast
    then show "length ps = 2000" using d(1) by simp
  next
    assume "length ps = 2000"
    then have "set ps = {..<2000}" using d by (metis card_lessThan card_subset_eq finite_lessThan)
    then show "mp1_malloc s = None"
      using assms malloc_from_Some [of "blink_array s" 0] by (cases "mp1_malloc s") (auto simp: mp1_malloc_def linked_def)
  qed
qed

definition pushed :: "blink \<Rightarrow> nat \<Rightarrow> fish \<Rightarrow> fish" where
  "pushed u p s = mp1_poke (on_char u) (blink_cell u) (s\<lparr>blink_array := (blink_array s)
      [p := u\<lparr>status := 1, countdown := on_length u, next_ptr := mp1_list_head s\<rparr>], mp1_list_head := Some p\<rparr>)"

lemma add_linked:
  assumes "linked s ps" "location u \<noteq> 0" "location u < 2000" "mp1_malloc s = Some p"
  shows "mp1_ioctl_add u s = (0, pushed u p s)" and "linked (pushed u p s) (p # ps)" "p \<notin> set ps"
proof -
  let ?t = "pushed u p s"
  have p: "p < 2000" "location (blink_array s ! p) = 0" using malloc_from_Some assms(4) by (auto simp: mp1_malloc_def)
  have len: "length (blink_array s) = 2000" using assms(1) by (simp add: linked_def)
  show new: "p \<notin> set ps" using assms(1) p by (auto simp: linked_def)
  show "mp1_ioctl_add u s = (0, ?t)" using assms(3,4) p len by (simp add: mp1_ioctl_add_def Let_def update_blink_def blink_cell_def not_le pushed_def)
  have sg: "seg (blink_array ?t) q ps None = seg (blink_array s) q ps None" for q
    using new by (intro seg_cong) (auto simp: pushed_def intro!: arg_cong [where f = next_ptr] nth_list_update_neq)
  then show "linked ?t (p # ps)" using assms(1,2,3) p new len by (auto simp: linked_def nth_list_update pushed_def page_ok_def)
qed

lemma add_blinks:
  assumes "blinks s xs" "location u \<noteq> 0"
  shows "if location u < 2000 \<and> length xs < 2000
    then \<exists>t. mp1_ioctl_add u s = (0, t) \<and> blinks t (started u # xs) \<and> drawn s t \<and> vmem t = (vmem s)[unat (blink_cell u) := on_char u]
    else mp1_ioctl_add u s = (-1, s)"
proof -
  obtain ps where ps: "linked s ps" "xs = map (\<lambda>i. payload (blink_array s ! i)) ps" using assms by (auto simp: blinks_def)
  have len: "length xs = length ps" "length ps \<le> 2000" using ps linked_length by auto
  show ?thesis
  proof (cases "mp1_malloc s")
    case None
    then show ?thesis using malloc_full [OF ps(1)] len by (simp add: mp1_ioctl_add_def Let_def)
  next
    case (Some p)
    note add = add_linked [OF ps(1) assms(2) _ Some]
    have "length ps < 2000" using malloc_full [OF ps(1)] Some len by force
    moreover have "mp1_ioctl_add u s = (-1, s)" if "\<not> location u < 2000" using that by (simp add: mp1_ioctl_add_def not_less)
    moreover have "\<exists>t. mp1_ioctl_add u s = (0, t) \<and> blinks t (started u # xs) \<and> drawn s t \<and> vmem t = (vmem s)[unat (blink_cell u) := on_char u]"
      if l: "location u < 2000"
    proof -
      have p: "p < length (blink_array s)" using malloc_from_Some Some ps(1) by (auto simp: mp1_malloc_def linked_def)
      have nth: "blink_array (pushed u p s) ! i = (if i = p then u\<lparr>status := 1, countdown := on_length u, next_ptr := mp1_list_head s\<rparr>
          else blink_array s ! i)" for i using p by (simp add: pushed_def)
      have "started u # xs = map (\<lambda>i. payload (blink_array (pushed u p s) ! i)) (p # ps)"
        using add(3) [OF l] unfolding ps(2) list.map nth by (auto simp: started_def payload_def)
      then have "blinks (pushed u p s) (started u # xs)" by (rule blinksI [OF add(2) [OF l]])
      moreover have "page_ok s" using ps(1) by (simp add: linked_def)
      then have "vmem (pushed u p s) = (vmem s)[unat (blink_cell u) := on_char u]"
        unfolding pushed_def by (subst vmem_poke) (simp_all add: page_ok_def cell_on_page [OF l])
      moreover have "drawn s (pushed u p s)" unfolding pushed_def by (rule drawn_trans [OF drawn_cong drawn_poke [OF l]]) simp_all
      ultimately show ?thesis using add(1) [OF l] by blast
    qed
    ultimately show ?thesis using len by simp
  qed
qed

lemma remove_find_prev_split:
  "seg (blink_array s) (deref q s) (as @ p # bs) None \<Longrightarrow> p \<notin> set as \<Longrightarrow>
     remove_find_prev p q s = Some (if as = [] then q else Some (last as))"
proof (induction as arbitrary: q)
  case Nil
  then show ?case by (simp add: remove_find_prev.simps)
next
  case (Cons i as)
  then have "deref q s = Some i" "i \<noteq> p" "seg (blink_array s) (deref (Some i) s) (as @ p # bs) None" by (auto simp: deref_def)
  then show ?case using Cons.IH [of "Some i"] Cons.prems(2) by (simp add: remove_find_prev.simps [of p q])
qed

lemma seg_redirect:
  assumes "seg bs p (as @ i # js) None" "i \<notin> set as" "i < length bs"
  shows "seg (bs[i := (bs ! i)\<lparr>next_ptr := r\<rparr>]) p (as @ [i]) r"
proof -
  have "seg bs p as (Some i)" using assms(1) by (auto simp: seg_append)
  moreover have "seg (bs[i := b]) p as (Some i) = seg bs p as (Some i)" for b
    by (rule seg_cong) (use assms(2) in \<open>auto intro!: arg_cong [where f = next_ptr] nth_list_update_neq\<close>)
  ultimately show ?thesis using assms(3) by (simp add: seg_append)
qed

lemma assign_linked:
  assumes "linked s (as @ p # bs)"
  shows "seg (blink_array (assign (if as = [] then None else Some (last as)) (next_ptr (blink_array s ! p)) s))
      (mp1_list_head (assign (if as = [] then None else Some (last as)) (next_ptr (blink_array s ! p)) s)) (as @ bs) None"
proof (cases as rule: rev_cases)
  case Nil
  then show ?thesis using assms by (simp add: assign_def linked_def)
next
  case (snoc cs i)
  let ?A = "blink_array s" and ?B = "(blink_array s)[i := (blink_array s ! i)\<lparr>next_ptr := next_ptr (blink_array s ! p)\<rparr>]"
  have sg: "seg ?A (mp1_list_head s) (cs @ i # p # bs) None" and d: "distinct (cs @ i # p # bs)" and i: "i < length ?A"
    using assms snoc linked_lt [OF assms, of i] by (auto simp: linked_def)
  have "seg ?B (mp1_list_head s) (cs @ [i]) (next_ptr (?A ! p))" using d by (intro seg_redirect [OF sg _ i]) auto
  moreover have "seg ?A (next_ptr (?A ! p)) bs None" using sg by (auto simp: seg_append)
  then have "seg ?B (next_ptr (?A ! p)) bs None"
    using d by (subst seg_cong [of bs _ ?A]) (auto intro!: arg_cong [where f = next_ptr] nth_list_update_neq)
  ultimately have "seg ?B (mp1_list_head s) ((cs @ [i]) @ bs) None" unfolding seg_append by blast
  then show ?thesis using snoc by (simp add: assign_def update_blink_def)
qed

lemma assign_simps [simp]: "os (assign q v s) = os s" "vmem_base_addr (assign q v s) = vmem_base_addr s" "length (blink_array (assign q v s)) = length (blink_array s)"
  by (simp_all add: assign_def split: option.split)

lemma assign_nth:
  "payload (blink_array (assign q v s) ! j) = payload (blink_array s ! j) \<and> location (blink_array (assign q v s) ! j) = location (blink_array s ! j)"
proof (cases q)
  case (Some i)
  then show ?thesis
    by (cases "i < length (blink_array s)") (simp_all add: assign_def payload_def, simp add: update_blink_def list_update_beyond)
qed (simp add: assign_def)

lemma remove_linked:
  assumes "linked s (as @ p # bs)"
  defines "t \<equiv> mp1_free p (assign (if as = [] then None else Some (last as)) (next_ptr (blink_array s ! p)) s)"
  shows "linked t (as @ bs)" "\<And>i. i \<noteq> p \<Longrightarrow> payload (blink_array t ! i) = payload (blink_array s ! i)" "os t = os s" "vmem_base_addr t = vmem_base_addr s"
proof -
  define u where "u = assign (if as = [] then None else Some (last as)) (next_ptr (blink_array s ! p)) s"
  have t: "t = mp1_free p u" by (simp add: t_def u_def)
  have p: "p < length (blink_array u)" using linked_lt [OF assms(1), of p] by (simp add: u_def)
  have nth: "blink_array t ! i = (if i = p then null_blink else blink_array u ! i)" for i using p by (simp add: t mp1_free_def)
  have pl: "payload (blink_array u ! i) = payload (blink_array s ! i)" for i by (simp add: u_def assign_nth)
  show "\<And>i. i \<noteq> p \<Longrightarrow> payload (blink_array t ! i) = payload (blink_array s ! i)" by (simp add: nth pl)
  show os: "os t = os s" "vmem_base_addr t = vmem_base_addr s" by (simp_all add: t mp1_free_def u_def)
  have p_new: "p \<notin> set (as @ bs)" using assms(1) by (auto simp: linked_def)
  have "seg (blink_array u) (mp1_list_head u) (as @ bs) None" unfolding u_def by (rule assign_linked [OF assms(1)])
  moreover have "seg (blink_array t) q (as @ bs) None = seg (blink_array u) q (as @ bs) None" for q
    using p_new by (intro seg_cong) (auto simp: nth)
  moreover have "mp1_list_head t = mp1_list_head u" "length (blink_array t) = length (blink_array s)" by (simp_all add: t mp1_free_def u_def)
  moreover have "location (blink_array t ! i) = (if i = p then 0 else location (blink_array s ! i))" for i
    by (simp add: nth u_def null_blink_def assign_nth)
  ultimately show "linked t (as @ bs)" using assms(1) p_new vmem_cong [OF os(2,1)] by (auto simp: linked_def page_ok_def)
qed

lemma remove_blinks:
  assumes "blinks s xs"
  shows "if \<exists>b \<in> set xs. location b = ucast l
    then \<exists>t. mp1_ioctl_remove l s = Some (0, t) \<and> blinks t (drop_first (located (ucast l)) xs) \<and> drawn s t \<and> vmem t = vmem s
    else mp1_ioctl_remove l s = Some (-1, s)"
proof -
  obtain ps where ps: "linked s ps" "xs = map (\<lambda>i. payload (blink_array s ! i)) ps" using assms by (auto simp: blinks_def)
  note h = find_helper [OF ps(1), of l]
  show ?thesis
  proof (cases "List.find (\<lambda>i. location (blink_array s ! i) = ucast l) ps")
    case None
    then have "\<not> (\<exists>b \<in> set xs. location b = ucast l)" by (auto simp: ps(2) find_None_iff)
    then show ?thesis using None h by (simp add: mp1_ioctl_remove_def)
  next
    case (Some p)
    obtain as bs where sp: "ps = as @ p # bs" "location (blink_array s ! p) = ucast l" "\<forall>a \<in> set as. location (blink_array s ! a) \<noteq> ucast l"
      using find_split [OF Some] by blast
    note lk = ps(1) [unfolded sp(1)]
    have "p \<notin> set as \<union> set bs" "seg (blink_array s) (deref None s) (as @ p # bs) None" using lk by (auto simp: linked_def deref_def)
    note prev = remove_find_prev_split [OF this(2)] and new = this(1)
    define t where "t = mp1_free p (assign (if as = [] then None else Some (last as)) (next_ptr (blink_array s ! p)) s)"
    note t = remove_linked [OF lk, folded t_def]
    have "mp1_ioctl_remove l s = Some (0, t)" using h Some prev new by (simp add: mp1_ioctl_remove_def t_def)
    moreover have "map (\<lambda>i. payload (blink_array t ! i)) (as @ bs) = map (\<lambda>i. payload (blink_array s ! i)) (as @ bs)"
      using new by (intro map_cong refl t(2)) auto
    then have "drop_first (located (ucast l)) xs = map (\<lambda>i. payload (blink_array t ! i)) (as @ bs)"
      using sp(2,3) by (simp add: ps(2) sp(1) drop_first_append located_def)
    then have "blinks t (drop_first (located (ucast l)) xs)" by (rule blinksI [OF t(1)])
    moreover have "\<exists>b \<in> set xs. location b = ucast l" using sp by (simp add: ps(2))
    ultimately show ?thesis using vmem_cong [OF t(4,3)] drawn_cong [OF t(4,3)] by simp
  qed
qed

lemma sync_char: "\<not> sint (ucast (w :: u16) AND 1 :: u8) < 0"
  by (simp add: and_one_eq mod2_eq_if)

text \<open>What the commands mean for the list and the page: the result, the structure of the caller, the list and the page.\<close>

definition ioctl_spec :: "blink \<Rightarrow> u32 \<Rightarrow> u32 \<Rightarrow> blink list \<Rightarrow> u8 list \<Rightarrow> int \<times> blink \<times> blink list \<times> u8 list" where
  "ioctl_spec u w cmd xs page =
     (if cmd = 0 then
        (if location u < 2000 \<and> length xs < 2000 then (0, u, started u # xs, page[unat (blink_cell u) := on_char u]) else (-1, u, xs, page))
      else if cmd = 1 then
        (if \<exists>b \<in> set xs. location b = ucast w then (0, u, drop_first (located (ucast w)) xs, page) else (-1, u, xs, page))
      else if cmd = 2 then
        (case List.find (located (location u)) xs of None \<Rightarrow> (-1, u, xs, page) | Some b \<Rightarrow> (0, b, xs, page))
      else
        (case (List.find (located (ucast (drop_bit 16 w))) xs, List.find (located (ucast w)) xs) of
           (Some a, Some b) \<Rightarrow> (0, u, change_first (located (ucast w)) (in_step a) xs, page[unat (blink_cell b) := off_char b])
         | _ \<Rightarrow> (-1, u, xs, page)))"

lemma ucast_low: "(ucast (w AND 0xFFFF :: u32) :: u16) = ucast w" "(ucast (ucast (l :: u16) :: u32) :: u16) = l"
proof -
  have "(0xFFFF :: u32) = mask 16" by (simp add: mask_eq_exp_minus_1)
  then show "(ucast (w AND 0xFFFF :: u32) :: u16) = ucast w" by (auto simp: bit_eq_iff bit_simps)
qed (auto simp: bit_eq_iff bit_simps)

lemma sync_linked:
  assumes "linked s ps" "i \<in> set ps" "j \<in> set ps"
    "mp1_find_helper (drop_bit 16 w) s = Some (Some i)" "mp1_find_helper (w AND 0xFFFF) s = Some (Some j)"
  shows "mp1_ioctl_sync w s = Some (0, mp1_poke (off_char (blink_array s ! j)) (blink_cell (blink_array s ! j))
    (update_blink j (in_step (blink_array s ! i)) s))"
proof -
  have "i < length (blink_array s)" "j < length (blink_array s)" using linked_lt [OF assms(1)] assms(2,3) by auto
  then show ?thesis
    using assms(4,5) by (cases "i = j") (simp_all add: mp1_ioctl_sync_def Let_def sync_char in_step_def blink_cell_def, simp_all add: update_blink_def in_step_def)
qed

lemma sync_blinks:
  assumes "blinks s xs" "List.find (located (ucast (drop_bit 16 w))) xs = Some a" "List.find (located (ucast w)) xs = Some b"
  shows "\<exists>t. mp1_ioctl_sync w s = Some (0, t) \<and> blinks t (change_first (located (ucast w)) (in_step a) xs) \<and>
    drawn s t \<and> vmem t = (vmem s)[unat (blink_cell b) := off_char b]"
proof -
  obtain ps where ps: "linked s ps" "xs = map (\<lambda>i. payload (blink_array s ! i)) ps" using assms by (auto simp: blinks_def)
  obtain i where i: "List.find (\<lambda>i. location (blink_array s ! i) = ucast (drop_bit 16 w)) ps = Some i" "a = payload (blink_array s ! i)"
    using assms(2) unfolding ps(2) find_blinks by auto
  obtain j where j: "List.find (\<lambda>i. location (blink_array s ! i) = ucast w) ps = Some j" "b = payload (blink_array s ! j)"
    using assms(3) unfolding ps(2) find_blinks by auto
  obtain as bs where sp: "ps = as @ j # bs" "location (blink_array s ! j) = ucast w" "\<forall>a \<in> set as. location (blink_array s ! a) \<noteq> ucast w"
    using find_split [OF j(1)] by blast
  have mem: "i \<in> set ps" "j \<in> set ps" using find_split [OF i(1)] find_split [OF j(1)] in_set_conv_decomp by metis+
  define u where "u = update_blink j (in_step (blink_array s ! i)) s"
  have sync: "mp1_ioctl_sync w s = Some (0, mp1_poke (off_char b) (blink_cell b) u)"
    using sync_linked [OF ps(1) mem] find_helper [OF ps(1)] i(1) j by (simp add: ucast_low u_def)
  have lk: "linked u ps" unfolding u_def by (rule linked_update [OF ps(1) mem(2)]) (simp_all add: in_step_def)
  have nth: "payload (blink_array u ! k) = (if k = j then in_step a (payload (blink_array s ! j)) else payload (blink_array s ! k))" for k
    using linked_lt [OF ps(1) mem(2)] by (simp add: u_def i(2) in_step_def payload_def)
  have "j \<notin> set as \<union> set bs" using ps(1) sp(1) by (auto simp: linked_def)
  then have "change_first (located (ucast w)) (in_step a) xs = map (\<lambda>k. payload (blink_array u ! k)) ps"
    using sp(2,3) unfolding ps(2) sp(1) by (auto simp: change_first_append located_def nth)
  then have "blinks u (change_first (located (ucast w)) (in_step a) xs)" by (rule blinksI [OF lk])
  then have "blinks (mp1_poke c x u) (change_first (located (ucast w)) (in_step a) xs)" for c x by (simp add: blinks_def linked_def page_ok_def)
  moreover have l: "location b < 2000" "page_ok u" using ps(1) lk mem(2) by (simp_all add: j(2) linked_def)
  then have "vmem (mp1_poke (off_char b) (blink_cell b) u) = (vmem s)[unat (blink_cell b) := off_char b]"
    using vmem_poke [OF l(2) cell_on_page [OF l(1)]] by (simp add: u_def)
  moreover have "drawn s (mp1_poke (off_char b) (blink_cell b) u)" by (rule drawn_trans [OF drawn_cong drawn_poke [OF l(1)]]) (simp_all add: u_def)
  ultimately show ?thesis using sync by blast
qed

lemma sync_missing:
  assumes "blinks s xs" "List.find (located (ucast (drop_bit 16 w))) xs = None \<or> List.find (located (ucast w)) xs = None"
  shows "mp1_ioctl_sync w s = Some (-1, s)"
proof -
  obtain ps where ps: "linked s ps" "xs = map (\<lambda>i. payload (blink_array s ! i)) ps" using assms by (auto simp: blinks_def)
  show ?thesis using assms(2) find_helper [OF ps(1)] unfolding ps(2) find_blinks by (auto simp: mp1_ioctl_sync_def ucast_low split: option.split)
qed

section \<open>The commands refine the specification\<close>

lemma ioctl_refinement:
  assumes "blinks s xs" "cmd < 4" "cmd = 0 \<longrightarrow> location u \<noteq> 0"
  shows "\<exists>r u' v ys page t. ioctl_spec u w cmd xs (vmem s) = (r, v, ys, page) \<and>
    mp1_ioctl u w cmd s = Some (r, u', t) \<and> payload u' = payload v \<and> blinks t ys \<and> drawn s t \<and> vmem t = page"
proof -
  obtain ps where ps: "linked s ps" "xs = map (\<lambda>i. payload (blink_array s ! i)) ps" using assms by (auto simp: blinks_def)
  have "unat cmd < 4" using assms(2) by (simp add: word_less_nat_alt)
  then have "unat cmd = 0 \<or> unat cmd = 1 \<or> unat cmd = 2 \<or> unat cmd = 3" by linarith
  moreover have "cmd = of_nat n" if "unat cmd = n" for n unfolding that [symmetric] by simp
  ultimately consider "cmd = 0" | "cmd = 1" | "cmd = 2" | "cmd = 3" by fastforce
  then show ?thesis
  proof cases
    case 1
    then show ?thesis using add_blinks [OF assms(1), of u] assms(1,3) drawn_refl by (auto simp: ioctl_spec_def mp1_ioctl_def split: if_splits)
  next
    case 2
    then show ?thesis using remove_blinks [OF assms(1), of w] assms(1) drawn_refl by (auto simp: ioctl_spec_def mp1_ioctl_def split: if_splits)
  next
    case 3
    then show ?thesis using assms(1) drawn_refl find_helper [OF ps(1), of "ucast (location u)"]
      unfolding ioctl_spec_def mp1_ioctl_def ps(2) find_blinks by (auto simp: mp1_ioctl_find_def ucast_low split: option.split)
  next
    case 4
    then show ?thesis using assms(1) drawn_refl sync_blinks [OF assms(1), of w] sync_missing [OF assms(1), of w]
      by (auto simp: ioctl_spec_def mp1_ioctl_def split: option.split)
  qed
qed

text \<open>
  C11. The commands of the blink driver refine operations on a list: on a well-formed state every command of
  \<^verbatim>\<open>mp1_ioctl\<close> returns, with the result, the structure for the caller, the list of characters and the page
  that the specification gives. An added character is first in the list and on the screen, a location off the screen or
  a full array is refused, removing takes the most recent character at the location, finding returns it, synchronising
  copies lengths, countdown and status. The one restriction is that no character is added at location 0.
\<close>

theorem ioctl_refines:
  assumes "blinks s xs" "cmd < 4" "cmd = 0 \<longrightarrow> location u \<noteq> 0"
  shows "\<exists>r u' v ys page t. ioctl_spec u w cmd xs (vmem s) = (r, v, ys, page) \<and>
    mp1_ioctl u w cmd s = Some (r, u', t) \<and> payload u' = payload v \<and> blinks t ys \<and> drawn s t \<and> vmem t = page"
  by (rule ioctl_refinement [OF assms])

text \<open>
  C15. The tasklet ends: on a well-formed state it visits each structure once, each character counts down and changes
  between on and off when its count is over, and the page shows the changes.
\<close>

theorem tasklet_ticks:
  assumes "blinks s xs"
  shows "\<exists>t. mp1_rtc_tasklet s = Some t \<and> blinks t (map tick xs) \<and> drawn s t \<and> vmem t = fold tick_page xs (vmem s)"
  using tasklet_blinks [OF assms] by metis

section \<open>Runs\<close>

definition empty_fish :: "u32 \<Rightarrow> kernel \<Rightarrow> fish" where
  "empty_fish base k = \<lparr>blink_array = replicate (80 * 25) null_blink, mp1_list_head = None, vmem_base_addr = base, os = k\<rparr>"

lemma empty_blinks: "page_ok (empty_fish base k) \<Longrightarrow> blinks (empty_fish base k) []"
  by (rule blinksI [of _ "[]"]) (simp_all add: linked_def, simp_all add: empty_fish_def null_blink_def)

inductive fish_run :: "fish \<Rightarrow> fish \<Rightarrow> bool" where
  start: "fish_run s s"
| command: "fish_run s t \<Longrightarrow> cmd < 4 \<Longrightarrow> cmd = 0 \<longrightarrow> location u \<noteq> 0 \<Longrightarrow> mp1_ioctl u w cmd t = Some (r, u', t') \<Longrightarrow> fish_run s t'"
| tick: "fish_run s t \<Longrightarrow> mp1_rtc_tasklet t = Some t' \<Longrightarrow> fish_run s t'"

lemma fold_tick_page: "\<forall>b \<in> set xs. unat (blink_cell b) \<noteq> k \<Longrightarrow> fold tick_page xs v ! k = v ! k"
  by (induction xs arbitrary: v) (auto simp: tick_page_def)

text \<open>
  C38. Every store of the animation is a character on the screen: from a well-formed state, after any sequence of
  commands and ticks, the state is well-formed, the kernel is as before but for memory, and memory has changed only at
  the addresses of the character bytes, the even offsets below 4000 of the page.
\<close>

theorem fish_writes_on_screen:
  assumes "fish_run s t" "blinks s xs"
  shows "(\<exists>ys. blinks t ys) \<and> os t = (os s)\<lparr>phys := phys (os t)\<rparr> \<and>
    (\<forall>a. phys (os t) a \<noteq> phys (os s) a \<longrightarrow> (\<exists>l < 2000. a = xl (os s) (vmem_base_addr s + of_nat (2 * l))))"
proof -
  have "(\<exists>ys. blinks t ys) \<and> drawn s t" using assms
  proof (induction rule: fish_run.induct)
    case (start s)
    then show ?case using drawn_refl by blast
  next
    case (command s t cmd u w r u' t')
    then obtain ys where ys: "blinks t ys" "drawn s t" by blast
    have "(\<exists>zs. blinks t' zs) \<and> drawn t t'"
      using ioctl_refinement [OF ys(1) command.hyps(2,3), of w] command.hyps(4) by auto
    then show ?case using drawn_trans ys(2) by blast
  next
    case (tick s t t')
    then obtain ys where ys: "blinks t ys" "drawn s t" by blast
    have "(\<exists>zs. blinks t' zs) \<and> drawn t t'" using tasklet_blinks [OF ys(1)] tick.hyps(2) by (metis option.inject)
    then show ?case using drawn_trans ys(2) by blast
  qed
  then show ?thesis by (auto simp: drawn_def byte_addr_def)
qed

section \<open>The animation\<close>

text \<open>\<open>n\<close> ticks.\<close>

primrec tasklets :: "nat \<Rightarrow> fish \<Rightarrow> fish option" where
  "tasklets 0 s = Some s"
| "tasklets (Suc n) s = Option.bind (tasklets n s) mp1_rtc_tasklet"

text \<open>A character \<open>n\<close> ticks after it was added: on for the first of its lengths, off for the second, and so on.\<close>

definition period :: "blink \<Rightarrow> nat" where
  "period b = unat (on_length b) + unat (off_length b)"

definition lit_after :: "nat \<Rightarrow> blink \<Rightarrow> bool" where
  "lit_after n b \<longleftrightarrow> n mod period b < unat (on_length b)"

definition after_ticks :: "nat \<Rightarrow> blink \<Rightarrow> blink" where
  "after_ticks n b = (let m = n mod period b in
     if lit_after n b then b\<lparr>status := 1, countdown := on_length b - of_nat m\<rparr>
     else b\<lparr>status := 0, countdown := off_length b - of_nat (m - unat (on_length b))\<rparr>)"

definition regular :: "blink \<Rightarrow> bool" where
  "regular b \<longleftrightarrow> 0 < unat (on_length b) \<and> unat (on_length b) < 2 ^ 15 \<and> 0 < unat (off_length b) \<and> unat (off_length b) < 2 ^ 15"

lemma count_positive:
  assumes "m < unat (l :: u16)" "unat l < 2 ^ 15"
  shows "0 < sint (l - of_nat m - 1) \<longleftrightarrow> Suc m < unat l"
proof -
  have e: "l - of_nat m - 1 = of_nat (unat l - Suc m)" using assms(1) by (simp add: of_nat_diff)
  have "sint (of_nat k :: u16) = int k" if "k < 2 ^ 15" for k
    using that by (simp add: sint_uint uint_nat unat_of_nat take_bit_nat_eq_self signed_take_bit_eq_take_bit_shift take_bit_eq_mod)
  from this [of "unat l - Suc m"] have "sint (l - of_nat m - 1) = int (unat l - Suc m)" using assms unfolding e by linarith
  then show ?thesis by (simp only: of_nat_0_less_iff zero_less_diff)
qed

lemma mod_Suc_cases: "0 < p \<Longrightarrow> Suc n mod p = (if Suc (n mod p) = p then 0 else Suc (n mod p))" for p :: nat
  by (simp add: mod_Suc)

lemma tick_lit:
  assumes "m < unat (on_length b)" "unat (on_length b) < 2 ^ 15"
  shows "tick (b\<lparr>status := 1, countdown := on_length b - of_nat m\<rparr>) =
      (if Suc m < unat (on_length b) then b\<lparr>status := 1, countdown := on_length b - of_nat (Suc m)\<rparr> else b\<lparr>status := 0, countdown := off_length b\<rparr>)"
    and "tick_page (b\<lparr>status := 1, countdown := on_length b - of_nat m\<rparr>) v =
      (if Suc m < unat (on_length b) then v else v[unat (blink_cell b) := off_char b])"
  using count_positive [OF assms] by (simp_all add: tick_def tick_page_def blink_cell_def Let_def diff_diff_eq add.commute)

lemma tick_dark:
  assumes "m < unat (off_length b)" "unat (off_length b) < 2 ^ 15"
  shows "tick (b\<lparr>status := 0, countdown := off_length b - of_nat m\<rparr>) =
      (if Suc m < unat (off_length b) then b\<lparr>status := 0, countdown := off_length b - of_nat (Suc m)\<rparr> else b\<lparr>status := 1, countdown := on_length b\<rparr>)"
    and "tick_page (b\<lparr>status := 0, countdown := off_length b - of_nat m\<rparr>) v =
      (if Suc m < unat (off_length b) then v else v[unat (blink_cell b) := on_char b])"
  using count_positive [OF assms] by (simp_all add: tick_def tick_page_def blink_cell_def Let_def diff_diff_eq add.commute)

lemma tick_after:
  assumes "regular b"
  shows "tick (after_ticks n b) = after_ticks (Suc n) b"
    and "tick_page (after_ticks n b) v = (if lit_after (Suc n) b = lit_after n b then v
      else v[unat (blink_cell b) := if lit_after (Suc n) b then on_char b else off_char b])"
proof -
  define m where "m = n mod period b"
  let ?on = "unat (on_length b)" and ?off = "unat (off_length b)"
  have r: "0 < ?on" "?on < 2 ^ 15" "0 < ?off" "?off < 2 ^ 15" using assms by (simp_all add: regular_def)
  have m: "m < ?on + ?off" using r by (simp add: m_def period_def)
  have suc: "Suc n mod period b = (if Suc m = ?on + ?off then 0 else Suc m)"
    unfolding m_def period_def by (rule mod_Suc)
  have "tick (after_ticks n b) = after_ticks (Suc n) b \<and> tick_page (after_ticks n b) v =
     (if lit_after (Suc n) b = lit_after n b then v
      else v[unat (blink_cell b) := if lit_after (Suc n) b then on_char b else off_char b])"
  proof (cases "m < ?on")
    case True
    note t = tick_lit [OF True r(2)]
    have "after_ticks n b = b\<lparr>status := 1, countdown := on_length b - of_nat m\<rparr>" using True by (simp add: after_ticks_def lit_after_def m_def)
    then show ?thesis using t True r suc by (cases "Suc m < ?on") (auto simp: after_ticks_def lit_after_def m_def [symmetric] Let_def)
  next
    case False
    then have d: "m - ?on < ?off" using m by linarith
    note t = tick_dark [OF d r(4)]
    have "after_ticks n b = b\<lparr>status := 0, countdown := off_length b - of_nat (m - ?on)\<rparr>"
      using False by (simp add: after_ticks_def lit_after_def m_def)
    moreover have "Suc (m - ?on) < ?off \<longleftrightarrow> Suc m < ?on + ?off" "Suc m - ?on = Suc (m - ?on)" using False by linarith+
    ultimately show ?thesis using t False r m suc by (auto simp: after_ticks_def lit_after_def m_def [symmetric] Let_def)
  qed
  then show "tick (after_ticks n b) = after_ticks (Suc n) b"
    and "tick_page (after_ticks n b) v = (if lit_after (Suc n) b = lit_after n b then v
      else v[unat (blink_cell b) := if lit_after (Suc n) b then on_char b else off_char b])" by simp_all
qed

lemma word_unat_eq: "unat (v :: u16) = unat w \<longleftrightarrow> v = w"
  using word_eq_iff_unsigned by blast

lemma after_ticks_simps [simp]: "location (after_ticks n b) = location b" "blink_cell (after_ticks n b) = blink_cell b"
  by (simp_all add: after_ticks_def blink_cell_def Let_def)

lemma fold_tick_page_at:
  assumes "distinct (map location xs)" "b \<in> set xs"
  shows "fold tick_page xs v ! unat (blink_cell b) = tick_page b v ! unat (blink_cell b)"
  using assms
proof (induction xs arbitrary: v)
  case (Cons c xs)
  show ?case
  proof (cases "c = b")
    case True
    then have "\<forall>d \<in> set xs. unat (blink_cell d) \<noteq> unat (blink_cell b)" using Cons.prems(1) by (auto simp: unat_cell word_unat_eq) (metis imageI)
    then show ?thesis using True by (simp add: fold_tick_page)
  next
    case False
    then have "location c \<noteq> location b" "b \<in> set xs" using Cons.prems by auto
    then have ne: "unat (blink_cell c) \<noteq> unat (blink_cell b)" by (simp add: unat_cell word_unat_eq)
    then have "tick_page b (tick_page c v) = tick_page c (tick_page b v)" by (simp add: tick_page_def list_update_swap [OF ne])
    then have "tick_page b (tick_page c v) ! unat (blink_cell b) = tick_page b v ! unat (blink_cell b)"
      using ne by (simp add: tick_page_def [of c])
    then show ?thesis using Cons False by simp
  qed
qed simp

definition fresh :: "blink list \<Rightarrow> fish \<Rightarrow> bool" where
  "fresh xs s \<longleftrightarrow> distinct (map location xs) \<and> (\<forall>b \<in> set xs. regular b \<and> b = started b \<and> vmem s ! unat (blink_cell b) = on_char b)"

lemma after_none: "regular b \<Longrightarrow> b = started b \<Longrightarrow> after_ticks 0 b = b \<and> lit_after 0 b"
  by (cases b) (simp add: regular_def after_ticks_def lit_after_def started_def payload_def)

lemma tasklets_blinks:
  assumes "blinks s xs" "fresh xs s"
  shows "\<exists>t. tasklets n s = Some t \<and> blinks t (map (after_ticks n) xs) \<and> drawn s t \<and>
    (\<forall>b \<in> set xs. vmem t ! unat (blink_cell b) = (if lit_after n b then on_char b else off_char b)) \<and>
    (\<forall>k. (\<forall>b \<in> set xs. unat (blink_cell b) \<noteq> k) \<longrightarrow> vmem t ! k = vmem s ! k)"
proof (induction n)
  case 0
  have "map (after_ticks 0) xs = xs" using assms(2) after_none by (auto simp: fresh_def map_idI)
  then show ?case using assms after_none drawn_refl by (auto simp: fresh_def)
next
  case (Suc n)
  then obtain t where t: "tasklets n s = Some t" "blinks t (map (after_ticks n) xs)" "drawn s t"
      "\<forall>b \<in> set xs. vmem t ! unat (blink_cell b) = (if lit_after n b then on_char b else off_char b)"
      "\<forall>k. (\<forall>b \<in> set xs. unat (blink_cell b) \<noteq> k) \<longrightarrow> vmem t ! k = vmem s ! k" by blast
  obtain u where u: "mp1_rtc_tasklet t = Some u" "blinks u (map tick (map (after_ticks n) xs))" "drawn t u"
      "vmem u = fold tick_page (map (after_ticks n) xs) (vmem t)" using tasklet_blinks [OF t(2)] by blast
  have d: "distinct (map location (map (after_ticks n) xs))" using assms(2) by (simp add: fresh_def comp_def)
  have reg: "regular b" if "b \<in> set xs" for b using assms(2) that by (simp add: fresh_def)
  have len: "unat (blink_cell b) < length (vmem t)" if "b \<in> set xs" for b
    using assms(1) that by (auto simp: blinks_def linked_def intro!: cell_on_page)
  have "vmem u ! unat (blink_cell b) = (if lit_after (Suc n) b then on_char b else off_char b)" if b: "b \<in> set xs" for b
    using fold_tick_page_at [OF d, of "after_ticks n b" "vmem t"] b t(4) len [OF b] by (auto simp: u(4) tick_after(2) [OF reg [OF b]])
  moreover have "vmem u ! k = vmem s ! k" if "\<forall>b \<in> set xs. unat (blink_cell b) \<noteq> k" for k
    using fold_tick_page [of "map (after_ticks n) xs" k "vmem t"] that t(5) by (simp add: u(4))
  moreover have "map tick (map (after_ticks n) xs) = map (after_ticks (Suc n)) xs" using tick_after(1) reg by simp
  then have "blinks u (map (after_ticks (Suc n)) xs)" using u(2) by (simp only:)
  ultimately show ?case using t(1) u(1) drawn_trans [OF t(3) u(3)] by auto
qed

definition add_all :: "blink list \<Rightarrow> fish \<Rightarrow> fish" where
  "add_all us s = fold (\<lambda>u s. snd (mp1_ioctl_add u s)) us s"

definition placed :: "blink list \<Rightarrow> bool" where
  "placed us \<longleftrightarrow> distinct (map location us) \<and> (\<forall>u \<in> set us. regular u \<and> location u \<noteq> 0 \<and> location u < 2000)"

lemma placed_length: "placed us \<Longrightarrow> length us < 2000"
proof -
  assume p: "placed us"
  have "set (map (\<lambda>u. unat (location u)) us) \<subseteq> {1..<2000}" using p by (auto simp: placed_def word_less_nat_alt unat_gt_0 Suc_le_eq)
  moreover have "distinct (map (\<lambda>u. unat (location u)) us)" using p by (auto simp: placed_def distinct_map inj_on_def word_unat_eq)
  ultimately have "length us \<le> card {1..<2000::nat}" by (metis card_mono distinct_card finite_atLeastLessThan length_map)
  then show ?thesis by simp
qed

lemma started_simps [simp]:
  "location (started u) = location u" "blink_cell (started u) = blink_cell u" "regular (started u) = regular u" "on_char (started u) = on_char u"
  "off_char (started u) = off_char u" "lit_after n (started u) = lit_after n u" "started (started u) = started u" "on_length (started u) = on_length u"
  "off_length (started u) = off_length u"
  by (simp_all add: started_def blink_cell_def regular_def lit_after_def period_def payload_def)

lemma add_all_fresh:
  assumes "placed us" "page_ok (empty_fish base k)"
  shows "blinks (add_all us (empty_fish base k)) (rev (map started us)) \<and> fresh (rev (map started us)) (add_all us (empty_fish base k)) \<and>
    drawn (empty_fish base k) (add_all us (empty_fish base k)) \<and>
    (\<forall>j. (\<forall>u \<in> set us. unat (blink_cell u) \<noteq> j) \<longrightarrow> vmem (add_all us (empty_fish base k)) ! j = vmem (empty_fish base k) ! j)"
  using assms(1)
proof (induction us rule: rev_induct)
  case Nil
  then show ?case using empty_blinks [OF assms(2)] by (simp add: add_all_def fresh_def drawn_refl)
next
  case (snoc u us)
  let ?s = "add_all us (empty_fish base k)"
  have p: "placed us" and u: "location u \<noteq> 0" "location u < 2000" "regular u" "\<forall>v \<in> set us. location v \<noteq> location u"
    using snoc.prems by (auto simp: placed_def) (metis imageI)
  note IH = snoc.IH [OF p]
  have "length (rev (map started us)) < 2000" using placed_length [OF p] by simp
  then obtain t where t: "mp1_ioctl_add u ?s = (0, t)" "blinks t (started u # rev (map started us))" "drawn ?s t"
      "vmem t = (vmem ?s)[unat (blink_cell u) := on_char u]"
    using add_blinks [of ?s "rev (map started us)" u] IH u by auto
  have e: "add_all (us @ [u]) (empty_fish base k) = t" using t(1) by (simp add: add_all_def)
  have "fresh (started u # rev (map started us)) t"
    using IH u cell_on_page [OF u(2)] by (auto simp: fresh_def t(4) unat_cell word_unat_eq nth_list_update)
  then show ?case using IH t(2) drawn_trans [of "empty_fish base k" ?s t] t(3) by (simp add: e t(4))
qed

text \<open>
  The characters blink as asked: when characters with different locations on the screen and positive lengths below
  32768 have been added, then any number of ticks runs to its end, after \<open>n\<close> ticks the cell of every character
  shows its first character while \<open>n\<close> modulo the sum of its lengths is less than its first length, and its
  second character otherwise, and no other byte of the page has changed.
\<close>

theorem fish_animates:
  assumes "placed us" "page_ok (empty_fish base k)"
  shows "\<exists>t. tasklets n (add_all us (empty_fish base k)) = Some t \<and>
    (\<forall>u \<in> set us. vmem t ! (2 * unat (location u)) =
       (if n mod (unat (on_length u) + unat (off_length u)) < unat (on_length u) then on_char u else off_char u)) \<and>
    (\<forall>j. (\<forall>u \<in> set us. 2 * unat (location u) \<noteq> j) \<longrightarrow> vmem t ! j = vmem (empty_fish base k) ! j)"
  using tasklets_blinks [of "add_all us (empty_fish base k)" "rev (map started us)" n] add_all_fresh [OF assms]
  by (auto simp: unat_cell lit_after_def period_def)

section \<open>Location 0\<close>

text \<open>A structure linked to itself keeps the tasklet running.\<close>

lemma tasklet_loop_cycle:
  assumes "0 < length (blink_array s)" "next_ptr (blink_array s ! 0) = Some 0"
  shows "tasklet_loop (Some 0) s = None"
proof -
  let ?P = "\<lambda>p s (t :: fish). \<not> (p = Some 0 \<and> 0 < length (blink_array s) \<and> next_ptr (blink_array s ! 0) = Some 0)"
  have "?P p s t" if "tasklet_loop p s = Some t" for p s t
  proof (rule tasklet_loop.raw_induct [where P = ?P, OF _ that])
    fix loop :: "nat option \<Rightarrow> fish \<Rightarrow> fish option" and p s t
    assume IH: "\<And>p s t. loop p s = Some t \<Longrightarrow> ?P p s t"
      and r: "(case p of None \<Rightarrow> Some s | Some i \<Rightarrow> let s = tasklet_step i s in loop (next_ptr (blink_array s ! i)) s) = Some t"
    show "?P p s t"
    proof
      assume a: "p = Some 0 \<and> 0 < length (blink_array s) \<and> next_ptr (blink_array s ! 0) = Some 0"
      then have n: "next_ptr (blink_array (tasklet_step 0 s) ! 0) = Some 0" "0 < length (blink_array (tasklet_step 0 s))"
        by (simp_all add: tasklet_step_tick)
      have "loop (Some 0) (tasklet_step 0 s) = Some t" using r a n(1) by (simp add: Let_def)
      from IH [OF this] n show False by blast
    qed
  qed
  then show ?thesis using assms by (metis not_None_eq)
qed

text \<open>
  C39. A character at location 0 breaks the list: location 0 is on the screen and \<^verbatim>\<open>mp1_ioctl_add\<close> accepts it,
  but the allocator takes the structure for a free one, so that the next character added gets the same structure, which
  then is its own successor. From the empty state the tasklet then never returns.
\<close>

theorem zero_location_loops:
  assumes "location u = 0" "location v < 2000"
  shows "\<exists>s t. mp1_ioctl_add u (empty_fish base k) = (0, s) \<and> mp1_ioctl_add v s = (0, t) \<and> mp1_rtc_tasklet t = None"
proof -
  have m: "mp1_malloc_from bs 0 = Some 0" if "location (bs ! 0) = 0" for bs using that by (simp add: mp1_malloc_from.simps)
  have nl: "\<not> 80 * 25 \<le> location v" using assms(2) by (simp add: not_le)
  define s where "s = snd (mp1_ioctl_add u (empty_fish base k))"
  have s: "mp1_ioctl_add u (empty_fish base k) = (0, s)" "length (blink_array s) = 2000" "location (blink_array s ! 0) = 0" "mp1_list_head s = Some 0"
    using assms(1) by (simp_all add: s_def mp1_ioctl_add_def Let_def mp1_malloc_def m empty_fish_def null_blink_def update_blink_def)
  define t where "t = snd (mp1_ioctl_add v s)"
  have t: "mp1_ioctl_add v s = (0, t)" "0 < length (blink_array t)" "next_ptr (blink_array t ! 0) = Some 0" "mp1_list_head t = Some 0"
    using nl s(2-4) by (simp_all add: t_def mp1_ioctl_add_def Let_def mp1_malloc_def m update_blink_def)
  then show ?thesis using s(1) tasklet_loop_cycle [of t] by (simp add: mp1_rtc_tasklet_def)
qed

section \<open>The slots\<close>

text \<open>The structure that \<^verbatim>\<open>main\<close> adds, and the slots as an instance of the allocator contract.\<close>

definition im_blink :: blink where
  "im_blink = \<lparr>location = 6 * 80 + 60, on_char = 73, off_char = 77, on_length = 7, off_length = 6, countdown = 0, status = 0, next_ptr = None\<rparr>"

definition blink_alloc :: "fish \<Rightarrow> nat option \<times> fish" where
  "blink_alloc s = (case mp1_ioctl_add im_blink s of (r, t) \<Rightarrow> (if r = 0 then mp1_list_head t else None, t))"

definition blink_busy :: "fish \<Rightarrow> nat set" where
  "blink_busy s = {i. i < 2000 \<and> location (blink_array s ! i) \<noteq> 0}"

lemma linked_busy: "linked s ps \<Longrightarrow> blink_busy s = set ps"
  by (auto simp: linked_def blink_busy_def)

lemma im_add:
  assumes "linked s ps"
  shows "blink_alloc s = (mp1_malloc s, case mp1_malloc s of None \<Rightarrow> s | Some p \<Rightarrow> pushed im_blink p s)"
proof (cases "mp1_malloc s")
  case None
  then show ?thesis by (simp add: blink_alloc_def mp1_ioctl_add_def Let_def)
next
  case (Some p)
  then show ?thesis using add_linked(1) [OF assms _ _ Some, of im_blink] by (simp add: blink_alloc_def im_blink_def pushed_def)
qed

interpretation bslot: slot_alloc blink_alloc "\<lambda>s. \<exists>ps. linked s ps" blink_busy "\<lambda>s. {..<2000}"
proof
  fix s i t
  assume inv: "\<exists>ps. linked s ps" and a: "blink_alloc s = (Some i, t)"
  then obtain ps where ps: "linked s ps" by blast
  have m: "mp1_malloc s = Some i" "t = pushed im_blink i s" using im_add [OF ps] a by (auto split: option.splits)
  have im: "location im_blink \<noteq> 0" "location im_blink < 2000" by (simp_all add: im_blink_def)
  note add = add_linked [OF ps im m(1)]
  show "i \<in> {..<2000} \<and> i \<notin> blink_busy s" using malloc_from_Some m(1) by (auto simp: mp1_malloc_def blink_busy_def)
  show "blink_busy t = insert i (blink_busy s) \<and> {..<2000} = {..<2000::nat}" using linked_busy [OF add(2)] linked_busy [OF ps] m(2) by simp
  show "\<exists>ps. linked t ps" using add(2) m(2) by blast
next
  fix s t
  assume "\<exists>ps. linked s ps" "blink_alloc s = (None, t)"
  then obtain ps where ps: "linked s ps" "mp1_malloc s = None" "t = s" using im_add by fastforce
  have "{..<2000} \<subseteq> blink_busy s" using malloc_from_None [of "blink_array s" 0] ps(2) by (auto simp: mp1_malloc_def blink_busy_def)
  then show "{..<2000} \<subseteq> blink_busy s \<and> t = s" using ps(3) by blast
qed simp

section \<open>Witnesses\<close>

lemma im_blink_location [simp]: "location im_blink = 540"
  by (simp add: im_blink_def)

abbreviation fish0 :: fish where
  "fish0 \<equiv> empty_fish 0x700000 prog_kernel"

lemma fish0_page: "page_ok fish0"
proof -
  have "byte_addr fish0 k = 0x700000 + of_nat k" for k by (simp add: byte_addr_def empty_fish_def prog_kernel_fields)
  then show ?thesis by (auto simp: page_ok_def inj_on_def intro!: of_nat_u32_inj)
qed

lemma im_added:
  obtains t where "mp1_ioctl_add im_blink fish0 = (0, t)" "blinks t [started im_blink]" "vmem t = (vmem fish0)[1080 := 73]"
proof -
  have c: "unat (blink_cell im_blink) = 1080" by (simp add: unat_cell)
  have o: "on_char im_blink = 73" by (simp add: im_blink_def)
  have "\<exists>t. mp1_ioctl_add im_blink fish0 = (0, t) \<and> blinks t [started im_blink] \<and> vmem t = (vmem fish0)[1080 := 73]"
    using add_blinks [OF empty_blinks [OF fish0_page], of im_blink] c o by auto
  then show ?thesis using that by blast
qed

theorem ioctl_refines_witness:
  "\<exists>u t. mp1_ioctl im_blink 0 0 fish0 = Some (0, u, t) \<and> blinks t [started im_blink] \<and> vmem t ! 1080 = 73"
proof -
  have "(0::u32) < 4" "(0::u32) = 0 \<longrightarrow> location im_blink \<noteq> 0" by simp_all
  note w = ioctl_refines [OF empty_blinks [OF fish0_page] this, where w = 0]
  have c: "unat (blink_cell im_blink) = 1080" by (simp add: unat_cell)
  have o: "on_char im_blink = 73" by (simp add: im_blink_def)
  have "ioctl_spec im_blink 0 0 [] (vmem fish0) = (0, im_blink, [started im_blink], (vmem fish0)[1080 := 73])"
    by (simp add: ioctl_spec_def c o)
  then show ?thesis using w by auto
qed

theorem tasklet_ticks_witness:
  "\<exists>s t. mp1_ioctl_add im_blink fish0 = (0, s) \<and> mp1_rtc_tasklet s = Some t \<and> blinks t [tick (started im_blink)]"
proof -
  obtain s where s: "mp1_ioctl_add im_blink fish0 = (0, s)" "blinks s [started im_blink]" using im_added .
  show ?thesis using s(1) tasklet_ticks [OF s(2)] by auto
qed

theorem fish_writes_on_screen_witness:
  "\<exists>t. fish_run fish0 t \<and> vmem t ! 1080 = 73 \<and> phys (os t) 0x700FA0 = phys prog_kernel 0x700FA0"
proof -
  obtain t where t: "mp1_ioctl_add im_blink fish0 = (0, t)" "vmem t = (vmem fish0)[1080 := 73]" using im_added by blast
  have r: "fish_run fish0 t"
    by (rule fish_run.command [OF fish_run.start, of 0 im_blink 0 _ 0 im_blink]) (simp_all add: mp1_ioctl_def t(1))
  have "(0x700FA0 :: u32) \<noteq> 0x700000 + of_nat (2 * l)" if "l < 2000" for l
    using addr_off_inj [of 4000 "2 * l" "0x700000"] that by simp
  then have "phys (os t) 0x700FA0 = phys (os fish0) 0x700FA0"
    using fish_writes_on_screen [OF r empty_blinks [OF fish0_page]] by (auto simp: empty_fish_def prog_kernel_fields)
  then show ?thesis using r t(2) by (auto simp: empty_fish_def)
qed

theorem fish_animates_witness:
  "\<exists>t. tasklets 200 (add_all [im_blink] fish0) = Some t \<and> vmem t ! 1080 = 73"
proof -
  have "placed [im_blink]" by (simp add: placed_def regular_def im_blink_def)
  from fish_animates [OF this fish0_page, of 200] show ?thesis by (auto simp: im_blink_def)
qed

theorem zero_location_loops_witness:
  "\<exists>s t. mp1_ioctl_add null_blink fish0 = (0, s) \<and> mp1_ioctl_add im_blink s = (0, t) \<and> mp1_rtc_tasklet t = None"
  by (rule zero_location_loops) (simp_all add: null_blink_def)

end
