(* ===== verification/User_Pingpong.thy ===== *)
theory User_Pingpong
  imports User_Shell
begin

text \<open>
  The program \<^verbatim>\<open>syscalls/ece391pingpong.c\<close>: a character moves between two walls, one step at each tick of the
  real-time clock. The theory shows what it prints for any number of rounds, that it never stops, and that its stores stay
  inside its variables.
\<close>

section \<open>The program\<close>

text \<open>A 32-bit variable of the program.\<close>

definition store32 :: "u32 \<Rightarrow> u32 \<Rightarrow> kernel \<Rightarrow> kernel" where
  "store32 p w s = poke p 3 (ucast (drop_bit 24 w)) (poke p 2 (ucast (drop_bit 16 w)) (poke p 1 (ucast (drop_bit 8 w)) (poke p 0 (ucast w) s)))"

definition spaces :: "u32 \<Rightarrow> nat \<Rightarrow> nat \<Rightarrow> kernel \<Rightarrow> kernel" where
  "spaces buf i n s = fold (\<lambda>k. poke buf (int k) 32) [i..<n] s"

text \<open>The body of the two inner loops: clear, draw, print, wait for a tick.\<close>

definition pingpong_step :: "env \<Rightarrow> u32 \<Rightarrow> u32 \<Rightarrow> u32 \<Rightarrow> u8 \<Rightarrow> nat \<Rightarrow> kernel \<Rightarrow> kernel option" where
  "pingpong_step e buf garbage rtc_fd curchar j s = do {
     let s = spaces buf 2 78 s;
     let s = poke buf (int j) curchar s;
     s \<leftarrow> ece391_fdputs e 1 buf s;
     (r, s) \<leftarrow> ece391_read e rtc_fd garbage 4 s;
     Some s}"

fun pingpong_steps :: "env \<Rightarrow> u32 \<Rightarrow> u32 \<Rightarrow> u32 \<Rightarrow> u8 \<Rightarrow> nat list \<Rightarrow> kernel \<Rightarrow> kernel option" where
  "pingpong_steps e buf garbage rtc_fd curchar [] s = Some s"
| "pingpong_steps e buf garbage rtc_fd curchar (j # js) s =
     Option.bind (pingpong_step e buf garbage rtc_fd curchar j s) (pingpong_steps e buf garbage rtc_fd curchar js)"

definition next_char :: "u8 \<Rightarrow> u8" where
  "next_char c = (if c = 90 then 65 else c + 1)"

text \<open>The positions between the walls, from \<^verbatim>\<open>STARTLOOP\<close> to \<^verbatim>\<open>LOOPMAX - 1\<close>.\<close>

definition track :: "nat list" where
  "track = [2..<78]"

lemma track_bounds: "j \<in> set track \<Longrightarrow> 2 \<le> j \<and> j < 78"
  by (simp only: track_def set_upt atLeastLessThan_iff)

text \<open>The endless loop, for its first \<open>k\<close> turns: out, and back.\<close>

fun pingpong_loop :: "env \<Rightarrow> u32 \<Rightarrow> u32 \<Rightarrow> u32 \<Rightarrow> u8 \<Rightarrow> nat \<Rightarrow> kernel \<Rightarrow> kernel option" where
  "pingpong_loop e buf garbage rtc_fd curchar 0 s = Some s"
| "pingpong_loop e buf garbage rtc_fd curchar (Suc k) s =
     Option.bind (pingpong_steps e buf garbage rtc_fd curchar track s) (\<lambda>s.
     Option.bind (pingpong_steps e buf garbage rtc_fd curchar (rev track) s) (\<lambda>s.
     pingpong_loop e buf garbage rtc_fd (next_char curchar) k s))"

definition pingpong_main :: "env \<Rightarrow> (u8 list \<Rightarrow> u32) \<Rightarrow> u32 \<Rightarrow> u32 \<Rightarrow> u32 \<Rightarrow> nat \<Rightarrow> kernel \<Rightarrow> kernel option" where
  "pingpong_main e lits buf ret_val garbage k s = do {
     let s = spaces buf 0 81 s;
     let s = poke buf 80 0 s;
     let s = poke buf 79 10 s;
     let s = poke buf 78 124 s;
     let s = poke buf 1 124 s;
     (rtc_fd, s) \<leftarrow> ece391_open e (lits (bytes_of ''rtc'')) s;
     let s = store32 ret_val 32 s;
     (r, s) \<leftarrow> ece391_write e (word_of_int rtc_fd) ret_val 4 s;
     let s = store32 ret_val (word_of_int r) s;
     pingpong_loop e buf garbage (word_of_int rtc_fd) 65 k s}"

section \<open>The buffer\<close>

lemma file_buf_poke:
  assumes "inj_on (xl s) (region buf n)" "i < n" "m \<le> n" "n \<le> 2 ^ 32"
  shows "file_buf buf (poke buf (int i) c s) m = (file_buf buf s m)[i := c]"
proof (rule nth_equalityI)
  fix j
  assume "j < length (file_buf buf (poke buf (int i) c s) m)"
  then have j: "j < m" by (simp add: file_buf_def)
  then show "file_buf buf (poke buf (int i) c s) m ! j = (file_buf buf s m)[i := c] ! j"
    using poke_val [OF assms(1,2), of j c] assms(3,4) by (simp add: file_buf_def nth_list_update)
qed (simp add: file_buf_def)

lemma fold_update: "a \<le> b \<Longrightarrow> b \<le> length xs \<Longrightarrow> fold (\<lambda>k ys. ys[k := c]) [a..<b] xs = take a xs @ replicate (b - a) c @ drop b xs"
proof (induction b)
  case (Suc b)
  show ?case
  proof (cases "a = Suc b")
    case False
    then have ab: "a \<le> b" "b \<le> length xs" "b < length xs" using Suc.prems by simp_all
    have "drop b xs = xs ! b # drop (Suc b) xs" using ab(3) by (rule Cons_nth_drop_Suc [symmetric])
    then have "fold (\<lambda>k ys. ys[k := c]) [a..<Suc b] xs = ((take a xs @ replicate (b - a) c) @ xs ! b # drop (Suc b) xs)[b := c]"
      using Suc.IH [OF ab(1,2)] ab(1) by simp
    also have "\<dots> = (take a xs @ replicate (b - a) c) @ c # drop (Suc b) xs"
      using list_update_length [of "take a xs @ replicate (b - a) c" "xs ! b" "drop (Suc b) xs" c] ab by simp
    also have "\<dots> = take a xs @ replicate (Suc b - a) c @ drop (Suc b) xs"
      using ab(1) by (simp add: Suc_diff_le replicate_app_Cons_same)
    finally show ?thesis .
  qed simp
qed simp

text \<open>What the stores into the variables keep.\<close>

definition stored :: "u32 \<Rightarrow> nat \<Rightarrow> kernel \<Rightarrow> kernel \<Rightarrow> bool" where
  "stored buf n s t \<longleftrightarrow> t = s\<lparr>phys := phys t\<rparr> \<and> (\<forall>a. a \<notin> xl s ` region buf n \<longrightarrow> phys t a = phys s a)"

lemma xl_phys [simp]: "xl (s\<lparr>phys := m\<rparr>) = xl s" for s :: kernel
  by (rule xl_cong) simp_all

lemma stored_refl: "stored buf n s s"
  by (simp add: stored_def)

lemma stored_poke: "i < n \<Longrightarrow> stored buf n s (poke buf (int i) c s)"
  using region_memI [of i n buf] by (auto simp: stored_def poke_def)

lemma stored_xl: "stored buf n s t \<Longrightarrow> xl t = xl s"
  unfolding stored_def by (metis xl_phys)

lemma stored_trans: "stored buf n s t \<Longrightarrow> stored buf n t u \<Longrightarrow> stored buf n s u"
proof -
  assume a: "stored buf n s t" "stored buf n t u"
  have "u = s\<lparr>phys := phys u\<rparr>" using a unfolding stored_def by (metis machine.update_convs(1) machine.surjective)
  then show ?thesis using a stored_xl [OF a(1)] by (auto simp: stored_def)
qed

lemma stored_keeps: "stored buf n s t \<Longrightarrow> console_ok s \<Longrightarrow> keeps buf n s t"
proof -
  assume a: "stored buf n s t" "console_ok s"
  define m where "m = phys t"
  have t: "t = s\<lparr>phys := m\<rparr>" using a(1) by (simp add: stored_def m_def)
  show ?thesis using a unfolding keeps_def stored_def t by (auto simp: console_change_def console_simps)
qed

lemma stored_spaces: "b \<le> n \<Longrightarrow> stored buf n s (spaces buf a b s)"
proof (induction b)
  case (Suc b)
  have "spaces buf a (Suc b) s = (if a \<le> b then poke buf (int b) 32 (spaces buf a b s) else s)" by (simp add: spaces_def)
  then show ?case using Suc stored_trans stored_poke stored_refl by (metis Suc_leD Suc_le_lessD)
qed (simp add: spaces_def stored_refl)

lemma file_buf_spaces:
  assumes "inj_on (xl s) (region buf n)" "a \<le> b" "b \<le> m" "m \<le> n" "n \<le> 2 ^ 32"
  shows "file_buf buf (spaces buf a b s) m = take a (file_buf buf s m) @ replicate (b - a) 32 @ drop b (file_buf buf s m)"
proof -
  have "file_buf buf (spaces buf a b s) m = fold (\<lambda>k ys. ys[k := 32]) [a..<b] (file_buf buf s m)"
    using assms(3)
  proof (induction b)
    case (Suc b)
    have x: "xl (spaces buf a b s) = xl s" using stored_xl [OF stored_spaces [of b n]] Suc.prems assms(4) by simp
    show ?case
      using Suc file_buf_poke [of "spaces buf a b s" buf n b m 32] assms(1,4,5) by (simp add: spaces_def x [unfolded spaces_def])
  qed (simp add: spaces_def)
  moreover have "length (file_buf buf s m) = m" by (simp add: file_buf_def)
  ultimately show ?thesis using fold_update [OF assms(2), of "file_buf buf s m" 32] assms(3) by simp
qed

section \<open>Waiting for the clock\<close>

text \<open>Interrupts of the clock and of the timer change the following and nothing else.\<close>

definition clocked :: "kernel \<Rightarrow> kernel \<Rightarrow> bool" where
  "clocked s t \<longleftrightarrow> t = s\<lparr>io_log := io_log t, iflag := iflag t, read_flag := read_flag t, quantum := quantum t\<rparr>"

lemma clocked_update: "clocked s (s\<lparr>io_log := l, iflag := f, read_flag := r, quantum := q\<rparr>)"
  by (simp add: clocked_def)

lemma clocked_refl: "clocked s s"
  by (simp add: clocked_def)

lemma clocked_trans: "clocked s t \<Longrightarrow> clocked t u \<Longrightarrow> clocked s u"
proof -
  assume "clocked s t" "clocked t u"
  then obtain l f r q l' f' r' q' where "t = s\<lparr>io_log := l, iflag := f, read_flag := r, quantum := q\<rparr>"
    "u = t\<lparr>io_log := l', iflag := f', read_flag := r', quantum := q'\<rparr>" unfolding clocked_def by blast
  then show ?thesis by (simp add: clocked_def)
qed

lemma clocked_keeps:
  assumes "clocked s t"
  shows "xl t = xl s" "phys t = phys s" "fd t = fd s" "shown t = shown s" "program lits cs buf n t = program lits cs buf n s"
    "file_buf p t m = file_buf p s m" "stdout_ok t = stdout_ok s"
proof -
  obtain l f r q where t: "t = s\<lparr>io_log := l, iflag := f, read_flag := r, quantum := q\<rparr>" using assms unfolding clocked_def by blast
  show x: "xl t = xl s" unfolding t by (rule xl_cong) simp_all
  show "phys t = phys s" "fd t = fd s" "shown t = shown s" by (simp_all add: t shown_def)
  show "file_buf p t m = file_buf p s m" unfolding file_buf_def x by (simp add: t)
  show "stdout_ok t = stdout_ok s" by (simp add: stdout_ok_def t console_simps)
  then show "program lits cs buf n t = program lits cs buf n s"
    unfolding program_def const_at_def off_screen_def fd_ok_def x by (simp add: t)
qed

definition ticking :: "env \<Rightarrow> bool" where
  "ticking e \<longleftrightarrow> rtc_handler (dev e) \<in> set (irqs e) \<and> set (irqs e) \<subseteq> {rtc_handler (dev e), pit_handler}"

lemma clocked_handlers: "clocked s (rtc_handler d s)" "clocked s (pit_handler s)" "clocked s (sti (s\<lparr>read_flag := z\<rparr>))" "clocked s (cli s)"
  by (simp_all add: clocked_def rtc_handler_def pit_handler_def send_eoi_def outb_def inb_def Let_def sti_def cli_def case_prod_unfold)

lemma clocked_await:
  "set hs \<subseteq> {rtc_handler d, pit_handler} \<Longrightarrow> await p hs s = Some t \<Longrightarrow> clocked s t"
proof (induction hs arbitrary: s)
  case (Cons h hs)
  then show ?case using clocked_handlers(1,2) [of s] clocked_trans by (fastforce split: if_splits simp: clocked_refl)
qed (simp add: clocked_refl split: if_splits)

lemma rtc_read_tick:
  assumes "ticking e"
  obtains t where "rtc_read (irqs e) s = Some (0, t)" "clocked s t"
proof -
  let ?s = "sti (s\<lparr>read_flag := 0\<rparr>)"
  obtain t where t: "rtc_read (irqs e) s = Some (0, t)" using rtc_read_waits_for_tick [of "dev e" "irqs e" s] assms by (auto simp: ticking_def)
  then obtain u where u: "await (\<lambda>t. read_flag t \<noteq> 0) (irqs e) ?s = Some u" "t = cli u" by (auto simp: rtc_read_def split: option.splits)
  have "clocked ?s u" using clocked_await [OF _ u(1), of "dev e"] assms by (simp add: ticking_def)
  then have "clocked s t" using clocked_trans clocked_handlers(3,4) u(2) by metis
  then show ?thesis using that t by blast
qed

definition clock_fd :: "nat \<Rightarrow> kernel \<Rightarrow> bool" where
  "clock_fd i s \<longleftrightarrow> 2 \<le> i \<and> i < 8 \<and> flags (fd s ! i) \<noteq> 0 \<and> f_read (fotp (fd s ! i)) = read_rtc \<and> f_write (fotp (fd s ! i)) = write_rtc"

lemma read_tick:
  assumes "ticking e" "clock_fd i s" "p \<noteq> 0"
  obtains t where "ece391_read e (of_nat i) p n s = Some (0, t)" "clocked s t"
proof -
  obtain t where t: "rtc_read (irqs e) s = Some (0, t)" "clocked s t" using rtc_read_tick [OF assms(1)] .
  have i: "sint (of_nat i :: u32) = int i" using assms(2) by (intro small_sint) (simp add: clock_fd_def)
  have "ece391_read e (of_nat i) p n s = Some (0, t)"
    using assms(2,3) t(1) by (simp add: ece391_read_def int80_def syscall_link_def sys_read_def i clock_fd_def)
  then show ?thesis using that t(2) by blast
qed

section \<open>One step\<close>

text \<open>The line that is printed when the character \<open>c\<close> is at \<open>j\<close>.\<close>

definition frame :: "u8 \<Rightarrow> nat \<Rightarrow> u8 list" where
  "frame c j = [32, 124] @ (replicate 76 32)[j - 2 := c] @ [124, 10]"

definition walls :: "u32 \<Rightarrow> kernel \<Rightarrow> bool" where
  "walls buf s \<longleftrightarrow> (\<exists>mid. length mid = 76 \<and> file_buf buf s 81 = [32, 124] @ mid @ [124, 10, 0])"

definition pingpong_inv :: "(u8 list \<Rightarrow> u32) \<Rightarrow> u8 list list \<Rightarrow> u32 \<Rightarrow> nat \<Rightarrow> kernel \<Rightarrow> bool" where
  "pingpong_inv lits cs buf i s \<longleftrightarrow> program lits cs buf 88 s \<and> clock_fd i s \<and> walls buf s"

lemma frame_plain:
  assumes "c \<noteq> 0" "c \<noteq> 8"
  shows "plain (frame c j)" "length (frame c j) = 80"
proof -
  have "set ((replicate 76 32)[j - 2 := c]) \<subseteq> insert c {32 :: u8}" using set_update_subset_insert [of "replicate 76 32" "j - 2" c] by auto
  then show "plain (frame c j)" using assms by (auto simp: plain_def frame_def)
qed (simp add: frame_def)

lemma drawn:
  assumes "inj_on (xl s) (region buf 88)" "walls buf s" "2 \<le> j" "j < 78"
  shows "file_buf buf (poke buf (int j) c (spaces buf 2 78 s)) 81 = frame c j @ [0]"
proof -
  obtain mid where mid: "length mid = 76" "file_buf buf s 81 = [32, 124] @ mid @ [124, 10, 0]" using assms(2) by (auto simp: walls_def)
  have sp: "file_buf buf (spaces buf 2 78 s) 81 = [32, 124] @ replicate 76 32 @ [124, 10, 0]"
    using file_buf_spaces [OF assms(1), of 2 78 81] mid by simp
  have x: "xl (spaces buf 2 78 s) = xl s" by (rule stored_xl [OF stored_spaces [of _ 88]]) simp
  obtain m where m: "j = Suc (Suc m)" "m < 76" using assms(3,4) by (intro that [of "j - 2"]) linarith+
  have "([32, 124] @ r @ [124, 10, 0])[j := c] = ([32, 124] @ r[m := c] @ [124, 10]) @ [0]" if "length r = 76" for r :: "u8 list"
    using that m by (simp add: list_update_append)
  from this [of "replicate 76 32"] have "([32, 124] @ replicate 76 32 @ [124, 10, 0])[j := c] = frame c j @ [0]"
    using m(1) by (simp add: frame_def)
  then show ?thesis using file_buf_poke [of "spaces buf 2 78 s" buf 88 j 81 c] assms(1,4) by (simp add: x sp)
qed

text \<open>Memory outside the screen and the variables.\<close>

definition elsewhere :: "u32 \<Rightarrow> kernel \<Rightarrow> kernel \<Rightarrow> bool" where
  "elsewhere buf s t \<longleftrightarrow> xl t = xl s \<and> (\<forall>a. a \<notin> region VIDEO 4002 \<and> a \<notin> xl s ` region buf 88 \<longrightarrow> phys t a = phys s a)"

lemma elsewhere_trans: "elsewhere buf s t \<Longrightarrow> elsewhere buf t u \<Longrightarrow> elsewhere buf s u"
  by (simp add: elsewhere_def)

lemma elsewhere_keeps: "keeps buf 88 s t \<Longrightarrow> elsewhere buf s t"
  using console_change_prog(1) by (auto simp: keeps_def elsewhere_def)

lemma elsewhere_clocked: "clocked s t \<Longrightarrow> elsewhere buf s t"
  by (simp add: elsewhere_def clocked_keeps)

lemma shown_stored:
  assumes "stored buf n s t" "off_screen buf n s"
  shows "shown t = shown s"
proof -
  have "phys t (VIDEO + of_nat k) = phys s (VIDEO + of_nat k)" if "k < 4002" for k
    using assms region_memI [OF that, of VIDEO] unfolding stored_def off_screen_def by blast
  moreover obtain m where "t = s\<lparr>phys := m\<rparr>" using assms(1) unfolding stored_def by blast
  ultimately show ?thesis by (simp add: shown_eq)
qed

lemma file_buf_print:
  assumes "console_ok s" "8 \<notin> set c" "off_screen buf n s" "m \<le> n"
  shows "file_buf buf (fold putc c s) m = file_buf buf s m"
proof -
  have "phys (fold putc c s) (xl s (buf + of_nat j)) = phys s (xl s (buf + of_nat j))" if "j < m" for j
  proof -
    have "xl s (buf + of_nat j) \<notin> region VIDEO 4002"
      using disjointD [OF assms(3) [unfolded off_screen_def, THEN conjunct1]] region_memI [of j n buf] that assms(4) by simp
    then show ?thesis using sink.put_all [OF assms(1), of c] assms(2) by (auto simp: video_only_def)
  qed
  then show ?thesis using console_change_prog(1) [OF console_change_fold, of c s] by (simp add: file_buf_def)
qed

lemma program_ok: "program lits cs buf n s \<Longrightarrow> console_ok s \<and> stdout_ok s \<and> off_screen buf n s \<and> buf \<noteq> 0 \<and> inj_on (xl s) (region buf n)"
  by (simp add: program_def stdout_ok_def user_buf_def)

lemma pingpong_step_prints:
  assumes inv: "pingpong_inv lits cs buf i s" and e: "ticking e" and g: "garbage \<noteq> 0" and j: "2 \<le> j" "j < 78" and c: "c \<noteq> 0" "c \<noteq> 8"
  obtains t where "pingpong_step e buf garbage (of_nat i) c j s = Some t" "pingpong_inv lits cs buf i t" "elsewhere buf s t"
    "shown t = shown (fold putc (frame c j) s)"
proof -
  have p: "program lits cs buf 88 s" and r: "clock_fd i s" and w: "walls buf s" using inv by (simp_all add: pingpong_inv_def)
  note ok = program_ok [OF p]
  define u where "u = poke buf (int j) c (spaces buf 2 78 s)"
  have st: "stored buf 88 s u" unfolding u_def by (rule stored_trans [OF stored_spaces stored_poke]) (use j in simp_all)
  have k: "keeps buf 88 s u" using stored_keeps [OF st] ok by blast
  have pu: "program lits cs buf 88 u" by (rule program_keeps [OF p k])
  note oku = program_ok [OF pu] and pl = frame_plain [OF c, of j]
  have fb: "file_buf buf u 81 = frame c j @ [0]" unfolding u_def using ok w j by (intro drawn) auto
  have at: "\<forall>m \<le> length (frame c j). phys u (xl u (buf + of_nat m)) = (frame c j @ [0]) ! m"
    using pl(2) by (auto simp: fb [symmetric] file_buf_def)
  have "off_screen buf 80 u" by (rule off_screen_sub [where m = 88]) (use oku in \<open>simp_all add: off_screen_def\<close>)
  then have pr: "ece391_fdputs e 1 buf u = Some (fold putc (frame c j) u)" using oku pl at by (intro puts_prints) auto
  define v where "v = fold putc (frame c j) u"
  have n8: "8 \<notin> set (frame c j)" using pl by (simp add: plain_def)
  have pv: "program lits cs buf 88 v" unfolding v_def by (rule program_print [OF pu n8])
  have kv: "keeps buf 88 s v" unfolding v_def by (rule keeps_trans [OF k keeps_print]) (use oku n8 in simp_all)
  have rv: "clock_fd i v" using r console_change_prog(3) [of s v] kv by (simp add: clock_fd_def keeps_def)
  have wv: "walls buf v" using file_buf_print [of u "frame c j" buf 88 81] oku n8 fb j by (auto simp: walls_def v_def frame_def)
  obtain t where t: "ece391_read e (of_nat i) garbage 4 v = Some (0, t)" "clocked v t" by (rule read_tick [OF e rv g])
  have "pingpong_step e buf garbage (of_nat i) c j s = Some t"
    using pr t(1) by (simp add: pingpong_step_def Let_def u_def v_def)
  moreover have "pingpong_inv lits cs buf i t"
    using pv rv wv clocked_keeps [OF t(2)] by (simp add: pingpong_inv_def clock_fd_def walls_def)
  moreover have "elsewhere buf s t" using elsewhere_trans [OF elsewhere_keeps [OF kv] elsewhere_clocked [OF t(2)]] .
  moreover have "shown t = shown (fold putc (frame c j) s)"
    using clocked_keeps(4) [OF t(2)] shown_fold [OF shown_stored [OF st], of "frame c j"] ok oku n8 by (simp add: v_def)
  ultimately show ?thesis using that by blast
qed

section \<open>Rounds\<close>

lemma pingpong_steps_print:
  assumes "ticking e" "garbage \<noteq> 0" "c \<noteq> 0" "c \<noteq> 8" "\<forall>j \<in> set js. 2 \<le> j \<and> j < 78" "pingpong_inv lits cs buf i s"
  shows "\<exists>t. pingpong_steps e buf garbage (of_nat i) c js s = Some t \<and> pingpong_inv lits cs buf i t \<and> elsewhere buf s t \<and>
    shown t = shown (fold putc (concat (map (frame c) js)) s)"
  using assms(5,6)
proof (induction js arbitrary: s)
  case Nil
  then show ?case by (simp add: elsewhere_def)
next
  case (Cons j js)
  obtain u where u: "pingpong_step e buf garbage (of_nat i) c j s = Some u" "pingpong_inv lits cs buf i u" "elsewhere buf s u"
      "shown u = shown (fold putc (frame c j) s)"
    by (rule pingpong_step_prints [OF Cons.prems(2) assms(1,2) _ _ assms(3,4), of j]) (use Cons.prems(1) in simp_all)
  obtain t where t: "pingpong_steps e buf garbage (of_nat i) c js u = Some t" "pingpong_inv lits cs buf i t" "elsewhere buf u t"
      "shown t = shown (fold putc (concat (map (frame c) js)) u)"
    using Cons.IH [OF _ u(2)] Cons.prems(1) by auto
  have ok: "console_ok u" using u(2) program_ok by (auto simp: pingpong_inv_def)
  have "8 \<notin> set (concat (map (frame c) js))" using frame_plain(1) [OF assms(3,4)] by (auto simp: plain_def)
  from shown_fold [OF u(4) ok this] have "shown t = shown (fold putc (concat (map (frame c) (j # js))) s)" using t(4) by simp
  then show ?case using u(1) t(1,2) elsewhere_trans [OF u(3) t(3)] by simp
qed

definition letter :: "nat \<Rightarrow> u8" where
  "letter n = of_nat (65 + n mod 26)"

lemma unat_letter: "unat (letter n) = 65 + n mod 26"
proof -
  have "n mod 26 < 26" by simp
  then have "65 + n mod 26 < 2 ^ 8" using less_trans [of "65 + n mod 26" 91 "2 ^ 8"] by simp
  then show ?thesis unfolding letter_def by (subst unat_of_nat) (simp only: take_bit_nat_eq_self len_num1 len_bit0 mult_1_right, simp)
qed

lemma letter_eq: "letter n = w \<longleftrightarrow> 65 + n mod 26 = unat w"
  using word_eq_iff_unsigned [of "letter n" w, where ?'a = nat] unat_letter by auto

lemma letter_next: "next_char (letter n) = letter (Suc n)" "letter n \<noteq> 0" "letter n \<noteq> 8" "letter 0 = 65"
proof -
  show "next_char (letter n) = letter (Suc n)"
    by (cases "n mod 26 = 25") (simp_all add: next_char_def letter_eq mod_Suc, simp_all add: letter_def mod_Suc)
qed (simp_all add: letter_eq)

text \<open>A round of a character: to the right wall and back.\<close>

definition bounce :: "u8 \<Rightarrow> u8 list" where
  "bounce c = concat (map (frame c) (track @ rev track))"

lemma pingpong_loop_prints:
  assumes "ticking e" "garbage \<noteq> 0" "pingpong_inv lits cs buf i s"
  shows "\<exists>t. pingpong_loop e buf garbage (of_nat i) (letter n) k s = Some t \<and> pingpong_inv lits cs buf i t \<and> elsewhere buf s t \<and>
    shown t = shown (fold putc (concat (map (\<lambda>m. bounce (letter m)) [n..<n + k])) s)"
  using assms(3)
proof (induction k arbitrary: n s)
  case 0
  then show ?case by (simp add: elsewhere_def)
next
  case (Suc k)
  note st = pingpong_steps_print [OF assms(1,2) letter_next(2,3)]
  obtain u where u: "pingpong_steps e buf garbage (of_nat i) (letter n) track s = Some u" "pingpong_inv lits cs buf i u" "elsewhere buf s u"
      "shown u = shown (fold putc (concat (map (frame (letter n)) track)) s)"
    using st [OF _ Suc.prems, of track n] track_bounds by auto
  obtain v where v: "pingpong_steps e buf garbage (of_nat i) (letter n) (rev track) u = Some v" "pingpong_inv lits cs buf i v" "elsewhere buf u v"
      "shown v = shown (fold putc (concat (map (frame (letter n)) (rev track))) u)"
    using st [OF _ u(2), of "rev track" n] track_bounds by auto
  obtain t where t: "pingpong_loop e buf garbage (of_nat i) (letter (Suc n)) k v = Some t" "pingpong_inv lits cs buf i t" "elsewhere buf v t"
      "shown t = shown (fold putc (concat (map (\<lambda>m. bounce (letter m)) [Suc n..<Suc n + k])) v)"
    using Suc.IH [OF v(2), of "Suc n"] by blast
  have ok: "console_ok u" "console_ok v" using u(2) v(2) program_ok by (auto simp: pingpong_inv_def)
  have n8: "8 \<notin> set (concat (map (frame (letter m)) js))" for m js using frame_plain(1) [OF letter_next(2,3)] by (auto simp: plain_def)
  have sv: "shown v = shown (fold putc (bounce (letter n)) s)"
    unfolding bounce_def map_append concat_append fold_append comp_def v(4) by (rule shown_fold [OF u(4) ok(1) n8])
  have "8 \<notin> set (bounce (letter m))" for m unfolding bounce_def by (rule n8)
  then have "8 \<notin> set (concat (map (\<lambda>m. bounce (letter m)) [Suc n..<Suc n + k]))" by auto
  from shown_fold [OF sv ok(2) this] have "shown t = shown (fold putc (concat (map (\<lambda>m. bounce (letter m)) [Suc n..<Suc n + k])) (fold putc (bounce (letter n)) s))"
    using t(4) by simp
  moreover have "[n..<n + Suc k] = n # [Suc n..<Suc n + k]" by (simp add: upt_rec)
  ultimately have "shown t = shown (fold putc (concat (map (\<lambda>m. bounce (letter m)) [n..<n + Suc k])) s)" by simp
  moreover have "elsewhere buf s t" using elsewhere_trans [OF elsewhere_trans [OF u(3) v(3)] t(3)] .
  moreover have "pingpong_loop e buf garbage (of_nat i) (letter n) (Suc k) s = Some t" using u(1) v(1) t(1) by (simp add: letter_next)
  ultimately show ?case using t(2) by blast
qed

section \<open>The whole program\<close>

lemma stored_store32:
  assumes "k + 4 \<le> n"
  shows "stored buf n s (store32 (buf + of_nat k) w s)" "\<And>m. inj_on (xl s) (region buf n) \<Longrightarrow> n \<le> 2 ^ 32 \<Longrightarrow> m \<le> k \<Longrightarrow>
    file_buf buf (store32 (buf + of_nat k) w s) m = file_buf buf s m"
proof -
  have sh: "poke (buf + of_nat k) (int j) c t = poke buf (int (k + j)) c t" for j c t
    by (simp add: poke_def add.assoc)
  have p: "stored buf n t (poke (buf + of_nat k) (int j) c t)" if "j < 4" for j c t unfolding sh using that assms by (intro stored_poke) simp
  note p' = p [of 0, simplified] p [of 1, simplified] p [of 2, simplified] p [of 3, simplified]
  show "stored buf n s (store32 (buf + of_nat k) w s)"
    unfolding store32_def by (rule stored_trans [OF stored_trans [OF stored_trans [OF p'(1) p'(2)] p'(3)] p'(4)])
  fix m
  assume inj: "inj_on (xl s) (region buf n)" and n: "n \<le> 2 ^ 32" "m \<le> k"
  have fb: "file_buf buf (poke (buf + of_nat k) (int j) c t) m = file_buf buf t m" if "xl t = xl s" "j < 4" for j c t
    unfolding sh using file_buf_poke [of t buf n "k + j" m c] inj n that assms by (simp add: file_buf_def list_update_beyond)
  show "file_buf buf (store32 (buf + of_nat k) w s) m = file_buf buf s m"
    unfolding store32_def using fb [of _ 0] fb [of _ 1] fb [of _ 2] fb [of _ 3] by simp
qed

text \<open>The clock as a file: its name, a free descriptor and its operations.\<close>

definition clock_file :: "kernel \<Rightarrow> bool" where
  "clock_file s \<longleftrightarrow> (\<exists>d. lookup s (bytes_of ''rtc'') = Some d \<and> de_ftype d = 0) \<and> \<not> fd_pool s \<subseteq> fd_busy s \<and>
     f_read (rfotp s) = read_rtc \<and> f_write (rfotp s) = write_rtc"

lemma open_rtc:
  assumes p: "program lits cs buf n s" and c: "bytes_of ''rtc'' \<in> set cs" and r: "clock_file s"
  obtains i t where "ece391_open e (lits (bytes_of ''rtc'')) s = Some (int i, t)" "program lits cs buf n t" "clock_fd i t"
    "xl t = xl s" "phys t = phys s" "shown t = shown s"
proof -
  obtain d where d: "lookup s (bytes_of ''rtc'') = Some d" "de_ftype d = 0" using r by (auto simp: clock_file_def)
  have fdl: "length (fd s) = 8" using p by (simp add: program_def fd_ok_def)
  obtain i where i: "free_fd (fd s) 2 6 = Some i"
    using r free_fd_None [of "fd s" 2 6] by (cases "free_fd (fd s) 2 6") (auto simp: clock_file_def fd_pool_def fd_busy_def)
  note b = free_fd_Some [OF i]
  let ?t = "s\<lparr>dt := d, fd := (fd s)[i := new_fd 0 s]\<rparr>"
  have "ece391_open e (lits (bytes_of ''rtc'')) s = Some (int i, ?t)"
    using program_lookup [OF p c] d i
    by (simp add: ece391_open_def int80_def syscall_link_def returned_def sys_open_def createFD_alt Let_def bytes_of_def new_fd_def)
  moreover have "program lits cs buf n ?t" by (rule program_fd [OF p]) (use fdl b in auto)
  moreover have "clock_fd i ?t" using b fdl r by (auto simp: clock_fd_def clock_file_def new_fd_def)
  moreover have "xl ?t = xl s" by (rule xl_cong) simp_all
  ultimately show ?thesis by (intro that [of i ?t]) simp_all
qed

lemma write_rate:
  assumes "clock_fd i s" "p \<noteq> 0"
  obtains r t where "ece391_write e (of_nat i) p 4 s = Some (r, t)" "clocked s t"
proof -
  have i: "sint (of_nat i :: u32) = int i" using assms(1) by (intro small_sint) (simp add: clock_fd_def)
  obtain r t where w: "rtc_write (dev e) (buf_at (xl s) (phys s) p) s = (r, t)" by fastforce
  then have "ece391_write e (of_nat i) p 4 s = Some (r, t)"
    using assms by (simp add: ece391_write_def int80_def syscall_link_def sys_write_def i clock_fd_def)
  moreover have "clocked s t"
    using w by (auto simp: rtc_write_def rtc_ack_def rtc_set_rate_def outb_def inb_def Let_def clocked_def case_prod_unfold split: option.splits)
  ultimately show ?thesis using that by blast
qed

lemma pingpong_setup:
  assumes p: "program lits cs buf 88 s"
  defines "t \<equiv> poke buf 1 124 (poke buf 78 124 (poke buf 79 10 (poke buf 80 0 (spaces buf 0 81 s))))"
  shows "stored buf 88 s t" "walls buf t"
proof -
  have inj: "inj_on (xl s) (region buf 88)" using program_ok [OF p] by blast
  have st: "stored buf 88 s (spaces buf 0 81 s)" by (rule stored_spaces) simp
  have sp: "stored buf 88 u (poke buf 80 0 u)" "stored buf 88 u (poke buf 79 10 u)" "stored buf 88 u (poke buf 78 124 u)" "stored buf 88 u (poke buf 1 124 u)" for u
    using stored_poke [of 80 88 buf u] stored_poke [of 79 88 buf u] stored_poke [of 78 88 buf u] stored_poke [of 1 88 buf u] by simp_all
  show "stored buf 88 s t" unfolding t_def
    by (rule stored_trans [OF stored_trans [OF stored_trans [OF stored_trans [OF st sp(1)] sp(2)] sp(3)] sp(4)])
  have fb: "file_buf buf (poke buf (int k) c u) 81 = (file_buf buf u 81)[k := c]" if "xl u = xl s" "k < 81" for u k c
    using file_buf_poke [of u buf 88 k 81 c] inj that by simp
  have "file_buf buf (spaces buf 0 81 s) 81 = replicate 81 32"
    using file_buf_spaces [OF inj, of 0 81 81] by (simp add: file_buf_def)
  then have "file_buf buf t 81 = (replicate 81 32)[80 := 0, 79 := 10, 78 := 124, 1 := 124]"
    unfolding t_def using fb [of _ 80] fb [of _ 79] fb [of _ 78] fb [of _ 1] stored_xl [OF st] by simp
  also have "replicate 81 (32 :: u8) = 32 # 32 # replicate 76 32 @ [32, 32, 32]" by (simp add: numeral_eq_Suc)
  also have "(32 # 32 # r @ [32, 32, 32])[80 := 0, 79 := 10, 78 := 124, 1 := 124] = [32, 124] @ r @ [124, 10, 0 :: u8]" if "length r = 76" for r
    using that by (simp add: list_update_append)
  then have "(32 # 32 # replicate 76 32 @ [32, 32, 32])[80 := 0, 79 := 10, 78 := 124, 1 := 124] = [32, 124] @ replicate 76 32 @ [124, 10, 0 :: u8]" by simp
  finally show "walls buf t" unfolding walls_def by (intro exI [of _ "replicate 76 32"]) simp
qed

text \<open>
  C13. \<^verbatim>\<open>pingpong\<close> bounces without end and inside its buffer: with the clock in the file system and ticking, any number
  \<open>k\<close> of turns of its endless loop runs to its end; it has printed, for each turn, the character of the turn (the letters
  from A to Z, again and again) at each of the 76 positions from the left wall to the right one and back, between the walls;
  and all memory but the screen and the 88 bytes of its buffer and its variable \<^verbatim>\<open>ret_val\<close> is as it was.
\<close>

theorem pingpong_bounces:
  assumes "program lits [bytes_of ''rtc''] buf 88 s" "clock_file s" "ticking e" "garbage \<noteq> 0" "ret_val = buf + 84" "ret_val \<noteq> 0"
  shows "\<exists>t. pingpong_main e lits buf ret_val garbage k s = Some t \<and>
    shown t = shown (fold putc (concat (map (\<lambda>n. bounce (letter n)) [0..<k])) s) \<and>
    (\<forall>a. a \<notin> region VIDEO 4002 \<and> a \<notin> xl s ` region buf 88 \<longrightarrow> phys t a = phys s a)"
proof -
  let ?cs = "[bytes_of ''rtc'']"
  define u where "u = poke buf 1 124 (poke buf 78 124 (poke buf 79 10 (poke buf 80 0 (spaces buf 0 81 s))))"
  note su = pingpong_setup [OF assms(1), folded u_def]
  have ok: "console_ok s" "off_screen buf 88 s" using program_ok [OF assms(1)] by simp_all
  have ku: "keeps buf 88 s u" by (rule stored_keeps [OF su(1) ok(1)])
  have pu: "program lits ?cs buf 88 u" by (rule program_keeps [OF assms(1) ku])
  have "console_change s u" using ku by (simp add: keeps_def)
  then have rf: "clock_file u"
    using assms(2) keeps_lookup [OF assms(1) ku] console_change_prog [of s u] by (simp add: clock_file_def fd_pool_def fd_busy_def)
  have m: "bytes_of ''rtc'' \<in> set ?cs" by simp
  obtain i v where v: "ece391_open e (lits (bytes_of ''rtc'')) u = Some (int i, v)" "program lits ?cs buf 88 v" "clock_fd i v"
      "xl v = xl u" "phys v = phys u" "shown v = shown u"
    by (rule open_rtc [OF pu m rf])
  define w where "w = store32 ret_val 32 v"
  have okv: "console_ok v" "off_screen buf 88 v" "inj_on (xl v) (region buf 88)" using program_ok [OF v(2)] by simp_all
  have sw: "stored buf 88 v w" "file_buf buf w 81 = file_buf buf v 81"
    using stored_store32 [where k = 84 and n = 88 and buf = buf and s = v and w = 32] okv(3) by (simp_all add: w_def assms(5))
  note kw = stored_keeps [OF sw(1) okv(1)]
  have pw: "program lits ?cs buf 88 w" by (rule program_keeps [OF v(2) kw])
  have rw: "clock_fd i w" using v(3) console_change_prog(3) [of v w] kw by (simp add: clock_fd_def keeps_def)
  obtain r x where x: "ece391_write e (of_nat i) ret_val 4 w = Some (r, x)" "clocked w x" by (rule write_rate [OF rw assms(6)])
  note cx = clocked_keeps [OF x(2)]
  define y where "y = store32 ret_val (word_of_int r) x"
  have px: "program lits ?cs buf 88 x" using pw cx(5) by simp
  have okx: "console_ok x" "off_screen buf 88 x" "inj_on (xl x) (region buf 88)" using program_ok [OF px] by simp_all
  have sy: "stored buf 88 x y" "file_buf buf y 81 = file_buf buf x 81"
    using stored_store32 [where k = 84 and n = 88 and buf = buf and s = x and w = "word_of_int r"] okx(3) by (simp_all add: y_def assms(5))
  note ky = stored_keeps [OF sy(1) okx(1)]
  have py: "program lits ?cs buf 88 y" by (rule program_keeps [OF px ky])
  have ry: "clock_fd i y" using rw cx(3) console_change_prog(3) [of x y] ky by (simp add: clock_fd_def keeps_def)
  have "file_buf buf y 81 = file_buf buf u 81" using sw(2) cx(6) sy(2) v(4,5) by (simp add: file_buf_def)
  then have inv: "pingpong_inv lits ?cs buf i y" using py ry su(2) by (simp add: pingpong_inv_def walls_def)
  have sh: "shown y = shown s"
    using shown_stored [OF su(1) ok(2)] v(6) shown_stored [OF sw(1) okv(2)] cx(4) shown_stored [OF sy(1) okx(2)] by simp
  have "elsewhere buf u v" using v(4,5) by (simp add: elsewhere_def)
  then have ey: "elsewhere buf s y"
    using elsewhere_keeps [OF ku] elsewhere_keeps [OF kw] elsewhere_clocked [OF x(2)] elsewhere_keeps [OF ky] elsewhere_trans by metis
  obtain t where t: "pingpong_loop e buf garbage (of_nat i) (letter 0) k y = Some t" "elsewhere buf y t"
      "shown t = shown (fold putc (concat (map (\<lambda>m. bounce (letter m)) [0..<k])) y)"
    using pingpong_loop_prints [OF assms(3,4) inv, of 0 k] by auto
  have "pingpong_main e lits buf ret_val garbage k s = Some t"
    using v(1) x(1) t(1) by (simp add: pingpong_main_def Let_def u_def w_def y_def letter_next)
  moreover have "8 \<notin> set (concat (map (\<lambda>n. bounce (letter n)) [0..<k]))"
    using frame_plain(1) [OF letter_next(2,3)] by (auto simp: bounce_def plain_def)
  then have "shown t = shown (fold putc (concat (map (\<lambda>n. bounce (letter n)) [0..<k])) s)"
    unfolding t(3) by (intro shown_fold [OF sh]) (use program_ok [OF py] in simp_all)
  ultimately show ?thesis using elsewhere_trans [OF ey t(2)] by (auto simp: elsewhere_def)
qed

section \<open>Witness\<close>

text \<open>The image of theory \<^verbatim>\<open>Syscall\<close> with its file turned into the clock, and a program on it.\<close>

definition clock_fs :: mem where
  "clock_fs = list_fs(0x500040 := 0x72, 0x500041 := 0x74, 0x500042 := 0x63, 0x500060 := 0)"

definition clock_kernel :: kernel where
  "clock_kernel = prog_kernel\<lparr>phys := const_mem 0x601000 [bytes_of ''rtc''] clock_fs\<rparr>"

lemma clock_fs_rd:
  "rd32 id clock_fs 0x500000 = 2" "rd32 id clock_fs 0x500004 = 1" "rd32 id clock_fs 0x500008 = 1"
  "rd32 id clock_fs 0x501000 = 3" "rd32 id clock_fs 0x501004 = 0"
  by (simp_all add: rd32_def le32_def buf_at_def clock_fs_def list_fs_def tiny_fs_def)

lemma clock_fs_ok: "fs_ok id clock_fs 0x500000" "fs_size id clock_fs 0x500000 = 12288"
proof -
  have "unat (rd32 id clock_fs (0x501004 + 4 * of_nat b)) = 0" if "b * 4096 < 3" for b
    using that clock_fs_rd by (cases b) simp_all
  then show "fs_ok id clock_fs 0x500000" "fs_size id clock_fs 0x500000 = 12288"
    using clock_fs_rd by (auto simp: fs_ok_def fs_size_def file_len_def inode_at_def)
qed

lemma clock_lookup: "read_dentry_by_name id clock_fs 0x500000 (Some (lit (bytes_of ''rtc''))) = Some (dentry_at id clock_fs 0x500040)"
proof -
  have v: "buf_at id clock_fs 0x500040 0 = 0x72" "buf_at id clock_fs 0x500040 1 = 0x74" "buf_at id clock_fs 0x500040 2 = 0x63"
    "buf_at id clock_fs 0x500040 3 = 0"
    by (simp_all add: buf_at_def clock_fs_def list_fs_def tiny_fs_def)
  have "buf_at id clock_fs 0x500040 i \<noteq> 0" if "i < 3" for i
  proof -
    consider "i = 0" | "i = 1" | "i = 2" using \<open>i < 3\<close> by linarith
    then show ?thesis using v by cases simp_all
  qed
  then have "is_cstr (buf_at id clock_fs 0x500040) 3" using v(4) by (simp add: is_cstr_def)
  moreover have "[0..<3] = [0, 1, 2 :: nat]" by code_simp
  ultimately have n: "entry_name id clock_fs 0x500000 0 = bytes_of ''rtc''"
    using cprefix_is_cstr [of "buf_at id clock_fs 0x500040" 3 32] v by (simp add: entry_name_def entry_at_def bytes_of_def)
  have "cprefix 32 (lit (bytes_of ''rtc'')) = bytes_of ''rtc''" by (rule cprefix_lit) (simp_all add: bytes_of_def)
  moreover have "entries id clock_fs 0x500000 = 2" using clock_fs_rd by (simp add: entries_def)
  moreover have "[0..<2] = [0, 1 :: nat]" by code_simp
  ultimately show ?thesis using n by (simp add: lookup_name entry_at_def)
qed

lemma clock_kernel_ok: "program (const_addr 0x601000 [bytes_of ''rtc'']) [bytes_of ''rtc''] 0x600000 88 clock_kernel" "clock_file clock_kernel"
proof -
  let ?cs = "[bytes_of ''rtc'']"
  have len: "length ?cs \<le> 64" "\<forall>c \<in> set ?cs. length c < 64 \<and> plain c" by (simp_all add: plain_def bytes_of_def)
  have x: "xl clock_kernel = id" by (simp add: clock_kernel_def prog_kernel_fields)
  have ph: "phys clock_kernel = const_mem 0x601000 ?cs clock_fs" and fs: "FSYSTEM clock_kernel = 0x500000"
    by (simp_all add: clock_kernel_def prog_kernel_fields)
  have eq: "const_mem 0x601000 ?cs clock_fs a = clock_fs a" if "a \<in> fs_image id clock_fs 0x500000" for a
    using that const_mem_image [OF len(1), of a clock_fs] by (simp add: fs_image_def clock_fs_ok)
  note ag = image_agree [OF clock_fs_ok(1) eq]
  have size: "fs_size id (const_mem 0x601000 ?cs clock_fs) 0x500000 = 12288" using ag(1,2) clock_fs_ok(2) by (simp add: fs_size_def)
  have so: "stdout_ok clock_kernel" "fd_ok clock_kernel"
    using prog_kernel_fields(4,8) by (simp_all add: clock_kernel_def stdout_ok_def fd_ok_def console_simps)
  have p: "program (const_addr 0x601000 ?cs) ?cs 0x600000 129 clock_kernel"
    by (rule layout_program [OF ph _ so _ fs _ len]) (use x ag(6) size in \<open>simp_all add: fs ph\<close>)
  show "program (const_addr 0x601000 ?cs) ?cs 0x600000 88 clock_kernel" by (rule program_mono [OF p]) simp
  have "lookup clock_kernel (bytes_of ''rtc'') = Some (dentry_at id clock_fs 0x500040)"
    using lookup_agree [OF clock_fs_ok(1) eq] clock_lookup by (simp add: x fs ph)
  moreover have "de_ftype (dentry_at id clock_fs 0x500040) = 0" by (simp add: dentry_at_def clock_fs_def list_fs_def tiny_fs_def)
  moreover have "\<not> fd_pool clock_kernel \<subseteq> fd_busy clock_kernel" using prog_kernel_fields(7) by (simp add: clock_kernel_def fd_pool_def fd_busy_def)
  moreover have "f_read (rfotp clock_kernel) = read_rtc" "f_write (rfotp clock_kernel) = write_rtc"
    by (simp_all add: clock_kernel_def prog_kernel_def list_kernel_def initFOTP_def Let_def)
  ultimately show "clock_file clock_kernel" by (simp add: clock_file_def)
qed

theorem pingpong_bounces_witness:
  "\<exists>t. pingpong_main (plain_env\<lparr>irqs := [pit_handler, rtc_handler (dev plain_env)]\<rparr>) (const_addr 0x601000 [bytes_of ''rtc'']) 0x600000 0x600054 0x600058
      5 clock_kernel = Some t \<and>
    shown t = shown (fold putc (concat (map (\<lambda>n. bounce (letter n)) [0..<5])) clock_kernel)"
proof -
  have "ticking (plain_env\<lparr>irqs := [pit_handler, rtc_handler (dev plain_env)]\<rparr>)" by (simp add: ticking_def)
  from pingpong_bounces [OF clock_kernel_ok this, of "0x600058" "0x600054" 5] show ?thesis by auto
qed

end
