(* ===== verification/Fish_Frames.thy ===== *)
theory Fish_Frames
  imports Fish_Blink User_Pingpong
begin

text \<open>
  The main program of the fish animation, \<^verbatim>\<open>fish/fish.c\<close>: it maps the screen, reads two frames from files, adds a
  blinking character for every cell where one of them is not blank, and lets the clock drive the animation. The theory shows
  that the frames are read to their ends and that the screen then shows them in turn.
\<close>

section \<open>The program\<close>

definition on_os :: "(kernel \<Rightarrow> (int \<times> kernel) option) \<Rightarrow> fish \<Rightarrow> (int \<times> fish) option" where
  "on_os f s = map_option (\<lambda>(r, k). (r, s\<lparr>os := k\<rparr>)) (f (os s))"

text \<open>A character variable of the program, by its address.\<close>

definition var :: "u32 \<Rightarrow> fish \<Rightarrow> u8" where
  "var p s = phys (os s) (xl (os s) p)"

definition set_var :: "u32 \<Rightarrow> u8 \<Rightarrow> fish \<Rightarrow> fish" where
  "set_var p c s = s\<lparr>os := poke p 0 c (os s)\<rparr>"

definition fetch :: "env \<Rightarrow> u32 \<Rightarrow> u32 \<Rightarrow> bool \<Rightarrow> fish \<Rightarrow> (bool \<times> fish) option" where
  "fetch e fdr p eof s =
     (if var p s \<noteq> 10 then do {
        (num_bytes, s) \<leftarrow> on_os (ece391_read e fdr p 1) s;
        Some (if num_bytes = 0 then (True, set_var p 10 s) else (eof, s)) }
      else Some (eof, s))"

definition frame_blink :: "nat \<Rightarrow> nat \<Rightarrow> u8 \<Rightarrow> u8 \<Rightarrow> blink \<Rightarrow> blink" where
  "frame_blink row col c0 c1 b = b\<lparr>on_char := if c0 = 10 then 32 else c0, off_char := if c1 = 10 then 32 else c1,
     location := of_nat (row * 80 + col + 40)\<rparr>"

text \<open>The inner loop: one line of both frames.\<close>

partial_function (option) frame_row ::
    "env \<Rightarrow> u32 \<Rightarrow> u32 \<Rightarrow> u32 \<Rightarrow> u32 \<Rightarrow> nat \<Rightarrow> nat \<Rightarrow> bool \<Rightarrow> bool \<Rightarrow> blink \<Rightarrow> fish \<Rightarrow> (bool \<times> bool \<times> blink \<times> fish) option" where
  "frame_row e fd0 fd1 p0 p1 row col eof0 eof1 b s =
     Option.bind (fetch e fd0 p0 eof0 s) (\<lambda>(eof0, s).
     Option.bind (fetch e fd1 p1 eof1 s) (\<lambda>(eof1, s).
       if var p0 s = 10 \<and> var p1 s = 10 then Some (eof0, eof1, b, s)
       else if (var p0 s \<noteq> 32 \<and> var p0 s \<noteq> 10) \<or> (var p1 s \<noteq> 32 \<and> var p1 s \<noteq> 10)
       then Option.bind (mp1_ioctl (frame_blink row col (var p0 s) (var p1 s) b) 0 0 s)
              (\<lambda>(r, b, s). frame_row e fd0 fd1 p0 p1 row (col + 1) eof0 eof1 b s)
       else frame_row e fd0 fd1 p0 p1 row (col + 1) eof0 eof1 b s))"

definition frame_end :: "env \<Rightarrow> u32 \<Rightarrow> u32 \<Rightarrow> bool \<Rightarrow> fish \<Rightarrow> fish option" where
  "frame_end e fdr p eof s =
     (if eof then map_option snd (on_os (ece391_close e fdr) (set_var p 10 s)) else Some (set_var p 48 s))"

partial_function (option) frame_rows ::
    "env \<Rightarrow> u32 \<Rightarrow> u32 \<Rightarrow> u32 \<Rightarrow> u32 \<Rightarrow> nat \<Rightarrow> bool \<Rightarrow> bool \<Rightarrow> blink \<Rightarrow> fish \<Rightarrow> fish option" where
  "frame_rows e fd0 fd1 p0 p1 row eof0 eof1 b s =
     (if \<not> eof0 \<or> \<not> eof1 then
        Option.bind (frame_row e fd0 fd1 p0 p1 row 0 eof0 eof1 b s) (\<lambda>(eof0, eof1, b, s).
        Option.bind (frame_end e fd0 p0 eof0 s) (\<lambda>s.
        Option.bind (frame_end e fd1 p1 eof1 s) (\<lambda>s.
        frame_rows e fd0 fd1 p0 p1 (row + 1) eof0 eof1 b s)))
      else Some s)"

text \<open>The value is the status of \<^verbatim>\<open>ece391_halt\<close> when a file cannot be opened.\<close>

definition add_frames :: "env \<Rightarrow> u32 \<Rightarrow> u32 \<Rightarrow> u32 \<Rightarrow> u32 \<Rightarrow> blink \<Rightarrow> fish \<Rightarrow> (u8 option \<times> fish) option" where
  "add_frames e f0 f1 p0 p1 b s = do {
     let s = set_var p1 48 (set_var p0 48 s);
     let b = b\<lparr>on_length := 15, off_length := 15\<rparr>;
     (fd0, s) \<leftarrow> on_os (ece391_open e f0) s;
     if fd0 < 0 then Some (Some (-1), s)
     else do {
       (fd1, s) \<leftarrow> on_os (ece391_open e f1) s;
       if fd1 < 0 then Some (Some (-1), s)
       else map_option (Pair None) (frame_rows e (word_of_int fd0) (word_of_int fd1) p0 p1 0 False False b s) } }"

definition mp1_set_video_mode :: "env \<Rightarrow> u32 \<Rightarrow> fish \<Rightarrow> (u32 \<times> fish) option" where
  "mp1_set_video_mode e p s =
     map_option (\<lambda>(r, s). let s = s\<lparr>vmem_base_addr := rd32 (xl (os s)) (phys (os s)) p\<rparr> in (if r = -1 then 0 else vmem_base_addr s, s))
       (on_os (ece391_vidmap e p) s)"

text \<open>A number of ticks, each with its tasklet.\<close>

fun fish_wait :: "env \<Rightarrow> u32 \<Rightarrow> u32 \<Rightarrow> nat \<Rightarrow> fish \<Rightarrow> fish option" where
  "fish_wait e rtc_fd garbage 0 s = Some s"
| "fish_wait e rtc_fd garbage (Suc n) s =
     Option.bind (on_os (ece391_read e rtc_fd garbage 4) s) (\<lambda>(r, s).
     Option.bind (mp1_rtc_tasklet s) (fish_wait e rtc_fd garbage n))"

text \<open>The part of \<^verbatim>\<open>main\<close> after the frames have been added.\<close>

definition fish_play :: "env \<Rightarrow> u32 \<Rightarrow> u32 \<Rightarrow> u32 \<Rightarrow> blink \<Rightarrow> fish \<Rightarrow> (int \<times> fish) option" where
  "fish_play e rtc_fd ret_val garbage b s = do {
     let s = s\<lparr>os := store32 ret_val 32 (os s)\<rparr>;
     (r, s) \<leftarrow> on_os (ece391_write e rtc_fd ret_val 4) s;
     let s = s\<lparr>os := store32 ret_val (word_of_int r) (os s)\<rparr>;
     s \<leftarrow> fish_wait e rtc_fd garbage 200 s;
     let b = b\<lparr>on_char := 73, off_char := 77, on_length := 7, off_length := 6, location := 6 * 80 + 60\<rparr>;
     (r, b, s) \<leftarrow> mp1_ioctl b 0 0 s;
     s \<leftarrow> fish_wait e rtc_fd garbage 200 s;
     (r, b, s) \<leftarrow> mp1_ioctl b (push_bit 16 40 OR (6 * 80 + 60)) 3 s;
     s \<leftarrow> fish_wait e rtc_fd garbage 200 s;
     (r, b, s) \<leftarrow> mp1_ioctl (b\<lparr>location := 60\<rparr>) 200 1 s;
     s \<leftarrow> fish_wait e rtc_fd garbage (80 * 25) s;
     (r, s) \<leftarrow> on_os (ece391_close e rtc_fd) s;
     Some (0, s) }"

datatype fish_end = Fish_returns int | Fish_halts u8

definition fish_main :: "env \<Rightarrow> (u8 list \<Rightarrow> u32) \<Rightarrow> u32 \<Rightarrow> u32 \<Rightarrow> u32 \<Rightarrow> u32 \<Rightarrow> u32 \<Rightarrow> blink \<Rightarrow> blink \<Rightarrow> kernel \<Rightarrow> (fish_end \<times> fish) option" where
  "fish_main e lits vp ret_val garbage p0 p1 b0 b k = do {
     (v, s) \<leftarrow> mp1_set_video_mode e vp (empty_fish 0 k);
     if v = 0 then Some (Fish_returns (-1), s)
     else do {
       (rtc_fd, s) \<leftarrow> on_os (ece391_open e (lits (bytes_of ''rtc''))) s;
       (h, s) \<leftarrow> add_frames e (lits (bytes_of ''frame0.txt'')) (lits (bytes_of ''frame1.txt'')) p0 p1 b0 s;
       (case h of Some st \<Rightarrow> Some (Fish_halts st, s)
        | None \<Rightarrow> map_option (\<lambda>(r, s). (Fish_returns r, s)) (fish_play e (word_of_int rtc_fd) ret_val garbage b s)) } }"

section \<open>What the steps keep\<close>

definition calm :: "kernel \<Rightarrow> kernel \<Rightarrow> bool" where
  "calm s t \<longleftrightarrow> xl t = xl s \<and> FSYSTEM t = FSYSTEM s \<and> length (fd t) = length (fd s) \<and>
     (\<forall>a \<in> fs_image (xl s) (phys s) (FSYSTEM s). phys t a = phys s a)"

lemma calm_files: "calm s t \<Longrightarrow> same_files s (t\<lparr>fd := fd s\<rparr>)"
  by (simp add: calm_def same_files_def)

lemma calm_image:
  assumes "calm s t" "fs_ok (xl s) (phys s) (FSYSTEM s)"
  shows "fs_image (xl t) (phys t) (FSYSTEM t) = fs_image (xl s) (phys s) (FSYSTEM s)" "fs_ok (xl t) (phys t) (FSYSTEM t)"
    "user_buf (xl t) (phys t) (FSYSTEM t) buf n = user_buf (xl s) (phys s) (FSYSTEM s) buf n"
  using same_files_image(1,2,4) [OF calm_files [OF assms(1)] assms(2)] by simp_all

lemma calm_open:
  assumes "calm s t" "fd t ! k = fd s ! k" "open_inv k buf n s"
  shows "open_inv k buf n t" "file_rest k t = file_rest k s"
proof -
  note o = same_files_open [OF calm_files [OF assms(1)] assms(3)]
  have "length (fd t) = length (fd s)" using assms(1) by (simp add: calm_def)
  then show "open_inv k buf n t" using o(1) assms(2) by (simp add: open_inv_def file_inv_def)
  show "file_rest k t = file_rest k s" using o(2) assms(2) by (simp add: file_rest_def)
qed

text \<open>The variables, the page and the file system are apart.\<close>

definition vars_ok :: "u32 \<Rightarrow> u32 \<Rightarrow> fish \<Rightarrow> bool" where
  "vars_ok p q s \<longleftrightarrow> fs_ok (xl (os s)) (phys (os s)) (FSYSTEM (os s)) \<and> user_buf (xl (os s)) (phys (os s)) (FSYSTEM (os s)) p 1 \<and>
     user_buf (xl (os s)) (phys (os s)) (FSYSTEM (os s)) q 1 \<and> xl (os s) p \<noteq> xl (os s) q \<and> length (fd (os s)) = 8 \<and>
     (\<forall>k < 4000. byte_addr s k \<noteq> xl (os s) p \<and> byte_addr s k \<noteq> xl (os s) q \<and>
        byte_addr s k \<notin> fs_image (xl (os s)) (phys (os s)) (FSYSTEM (os s)))"

lemma vars_ok_calm:
  assumes "vars_ok p q s" "calm (os s) (os t)" "vmem_base_addr t = vmem_base_addr s"
  shows "vars_ok p q t"
proof -
  have ok: "fs_ok (xl (os s)) (phys (os s)) (FSYSTEM (os s))" using assms(1) by (simp add: vars_ok_def)
  have x: "xl (os t) = xl (os s)" and l: "length (fd (os t)) = length (fd (os s))" using assms(2) by (simp_all add: calm_def)
  have "byte_addr t = byte_addr s" using assms(3) x by (simp add: byte_addr_def fun_eq_iff)
  then show ?thesis using assms(1) calm_image [OF assms(2) ok] l unfolding vars_ok_def x by simp
qed

text \<open>A frame that is being read: the descriptor, the variable, what is left of the file.\<close>

definition source :: "nat \<Rightarrow> u32 \<Rightarrow> u8 list \<Rightarrow> bool \<Rightarrow> fish \<Rightarrow> bool" where
  "source i p F eof s \<longleftrightarrow> 2 \<le> i \<and> i < 8 \<and> f_close (fotp (fd (os s) ! i)) = close_file \<and>
     (\<not> eof \<longrightarrow> open_inv i p 1 (os s) \<and> file_rest i (os s) = F)"

lemma source_calm:
  "source i p F eof s \<Longrightarrow> calm (os s) (os t) \<Longrightarrow> fd (os t) ! i = fd (os s) ! i \<Longrightarrow> source i p F eof t"
  using calm_open [of "os s" "os t" i p 1] by (auto simp: source_def)

definition touched :: "nat \<Rightarrow> u32 \<Rightarrow> fish \<Rightarrow> fish \<Rightarrow> bool" where
  "touched i p s t \<longleftrightarrow> blink_array t = blink_array s \<and> mp1_list_head t = mp1_list_head s \<and> vmem_base_addr t = vmem_base_addr s \<and>
     calm (os s) (os t) \<and> (\<forall>k. k \<noteq> i \<longrightarrow> fd (os t) ! k = fd (os s) ! k) \<and> (\<forall>a. a \<noteq> xl (os s) p \<longrightarrow> phys (os t) a = phys (os s) a)"

lemma touched_refl: "touched i p s s"
  by (simp add: touched_def calm_def)

lemma touched_trans:
  assumes "touched i p s t" "touched i p t u" "vars_ok p q s \<or> vars_ok q p s"
  shows "touched i p s u"
proof -
  have ok: "fs_ok (xl (os s)) (phys (os s)) (FSYSTEM (os s))" using assms(3) by (auto simp: vars_ok_def)
  have c: "calm (os s) (os t)" "calm (os t) (os u)" using assms by (simp_all add: touched_def)
  have "calm (os s) (os u)" using c calm_image(1) [OF c(1) ok] by (simp add: calm_def)
  moreover have "xl (os t) = xl (os s)" using c by (simp add: calm_def)
  ultimately show ?thesis using assms by (simp add: touched_def)
qed

lemma touched_vars:
  assumes "vars_ok p q s" "touched i p s t \<or> touched i q s t"
  shows "vars_ok p q t"
  using assms(2) vars_ok_calm [OF assms(1), of t] by (auto simp: touched_def)

lemma touched_page:
  assumes "vars_ok p q s" "touched i p s t \<or> touched i q s t"
  shows "byte_addr t = byte_addr s" "vmem t = vmem s" "blinks s xs \<Longrightarrow> blinks t xs" "fresh xs s \<Longrightarrow> fresh xs t"
proof -
  have x: "xl (os t) = xl (os s)" and e: "blink_array t = blink_array s" "mp1_list_head t = mp1_list_head s" "vmem_base_addr t = vmem_base_addr s"
    using assms(2) by (auto simp: touched_def calm_def)
  show b: "byte_addr t = byte_addr s" using e x by (simp add: byte_addr_def fun_eq_iff)
  show v: "vmem t = vmem s" using assms by (auto simp: vmem_def b vars_ok_def touched_def)
  show "blinks s xs \<Longrightarrow> blinks t xs" by (simp add: blinks_def linked_def page_ok_def b e)
  show "fresh xs s \<Longrightarrow> fresh xs t" by (simp add: fresh_def v)
qed

lemma touched_other:
  assumes "vars_ok p q s" "touched i p s t" "source j q G eof s" "j \<noteq> i"
  shows "source j q G eof t" "var q t = var q s"
proof -
  have x: "xl (os t) = xl (os s)" and c: "calm (os s) (os t)" using assms(2) by (auto simp: touched_def calm_def)
  show "source j q G eof t" using source_calm [OF assms(3) c] assms(2,4) by (simp add: touched_def)
  show "var q t = var q s" using assms(1,2) by (auto simp: var_def x vars_ok_def touched_def)
qed

lemma vars_ok_swap: "vars_ok p q s \<Longrightarrow> vars_ok q p s"
  by (auto simp: vars_ok_def)

section \<open>Fetching a character\<close>

lemma set_var_touched:
  assumes "vars_ok p q s"
  shows "touched i p s (set_var p c s)" "var p (set_var p c s) = c"
proof -
  have "xl (os s) p \<notin> fs_image (xl (os s)) (phys (os s)) (FSYSTEM (os s))" using assms region_memI [of 0 1 p] by (auto simp: vars_ok_def user_buf_def)
  then have "calm (os s) (poke p 0 c (os s))" by (auto simp: calm_def poke_def)
  then show "touched i p s (set_var p c s)" by (auto simp: touched_def set_var_def poke_def)
  show "var p (set_var p c s) = c" by (simp add: var_def set_var_def) (simp add: poke_def)
qed

lemma set_var_source: 
  assumes "vars_ok p q s" "source i p F eof s"
  shows "source i p F eof (set_var p c s)"
proof -
  have t: "touched i p s (set_var p c s)" by (rule set_var_touched [OF assms(1)])
  have "fd (os (set_var p c s)) = fd (os s)" by (simp add: set_var_def poke_def)
  then show ?thesis using t by (intro source_calm [OF assms(2)]) (simp_all add: touched_def)
qed

lemma read_one:
  assumes "vars_ok p q s" "source i p F False s"
  obtains t where "on_os (ece391_read e (of_nat i) p 1) s = Some (int (length (take 1 F)), t)" "touched i p s t" "source i p (drop 1 F) False t"
    "F \<noteq> [] \<Longrightarrow> var p t = hd F"
proof -
  have inv: "open_inv i p 1 (os s)" and F: "file_rest i (os s) = F" and i: "2 \<le> i" "i < 8" "f_close (fotp (fd (os s) ! i)) = close_file"
    using assms(2) by (simp_all add: source_def)
  have fi: "file_inv i p 1 (os s)" and len: "i < length (fd (os s))" using inv by (simp_all add: open_inv_def file_inv_def)
  let ?k = "snd (file_read i p (of_nat 1) (os s))"
  let ?t = "s\<lparr>os := ?k\<rparr>"
  let ?m = "snd (read_data (xl (os s)) (FSYSTEM (os s)) (inode (fd (os s) ! i)) (fposition (fd (os s) ! i)) p (of_nat 1) (phys (os s)))"
  note st = file_read_step [OF fi order_refl]
  obtain z where k: "?k = (os s)\<lparr>phys := ?m, fd := (fd (os s))[i := (fd (os s) ! i)\<lparr>fposition := z\<rparr>]\<rparr>"
    by (simp add: file_read_def Let_def case_prod_unfold)
  have r1: "region p 1 = {p}" by (auto simp: region_def)
  have fr: "?m a = phys (os s) a" if "a \<noteq> xl (os s) p" for a
    using that by (intro read_data_frame) (simp add: r1 [simplified])
  have x: "xl ?k = xl (os s)" unfolding k by (rule xl_cong) simp_all
  have "xl (os s) p \<notin> fs_image (xl (os s)) (phys (os s)) (FSYSTEM (os s))" using assms(1) by (auto simp: vars_ok_def user_buf_def r1 [simplified])
  then have "\<forall>a \<in> fs_image (xl (os s)) (phys (os s)) (FSYSTEM (os s)). ?m a = phys (os s) a" using fr by metis
  then have "calm (os s) ?k" unfolding calm_def x k by simp
  moreover have "phys ?k = ?m" unfolding k by simp
  ultimately have tt: "touched i p s ?t" using fr by (simp add: touched_def) (simp add: k [simplified])
  have "open_inv i p 1 ?k" by (rule read_call_inv [OF inv order_refl])
  then have src: "source i p (drop 1 F) False ?t" using st(3) F i len unfolding source_def by simp (simp add: k [simplified])
  have si: "sint (of_nat i :: u32) = int i" using i by (intro small_sint) simp
  have p: "p \<noteq> 0" "flags (fd (os s) ! i) \<noteq> 0" "f_read (fotp (fd (os s) ! i)) = read_file"
    using inv by (simp_all add: open_inv_def file_inv_def user_buf_def)
  have "ece391_read e (of_nat i) p 1 (os s) = Some (int (length (take 1 F)), ?k)"
    using st(1) i F p by (simp add: ece391_read_def int80_def syscall_link_def sys_read_def si Let_def case_prod_unfold)
  then have rd: "on_os (ece391_read e (of_nat i) p 1) s = Some (int (length (take 1 F)), ?t)" by (simp add: on_os_def)
  have "var p ?t = hd F" if "F \<noteq> []"
    using st(4) that F by (cases F) (simp_all add: file_buf_def var_def)
  then show ?thesis using that [OF rd tt src] by blast
qed

text \<open>The end of the file gives a line feed.\<close>

lemma fetch_active:
  assumes "vars_ok p q s" "source i p F False s" "var p s \<noteq> 10"
  obtains t where "fetch e (of_nat i) p False s = Some (F = [], t)" "touched i p s t" "source i p (drop 1 F) (F = []) t"
    "var p t = (if F = [] then 10 else hd F)"
proof -
  obtain t where t: "on_os (ece391_read e (of_nat i) p 1) s = Some (int (length (take 1 F)), t)" "touched i p s t" "source i p (drop 1 F) False t"
    "F \<noteq> [] \<Longrightarrow> var p t = hd F" by (rule read_one [OF assms(1,2)]) blast
  have v: "vars_ok p q t" using touched_vars [OF assms(1)] t(2) by blast
  show ?thesis
  proof (cases "F = []")
    case True
    note sv = set_var_touched(1) [OF v, where i = i and c = 10] set_var_touched(2) [OF v, where c = 10]
    have "source i p (drop 1 F) False (set_var p 10 t)" by (rule set_var_source [OF v t(3)])
    then have "source i p (drop 1 F) (F = []) (set_var p 10 t)" using True by (simp add: source_def)
    moreover have "fetch e (of_nat i) p False s = Some (F = [], set_var p 10 t)" using t(1) assms(3) True by (simp add: fetch_def)
    moreover have "touched i p s (set_var p 10 t)" using touched_trans [OF t(2) sv(1)] assms(1) by blast
    ultimately show ?thesis using that sv(2) True by simp
  next
    case False
    have "fetch e (of_nat i) p False s = Some (F = [], t)" using t(1) assms(3) False by (cases F) (simp_all add: fetch_def)
    then show ?thesis using that t False by simp
  qed
qed

section \<open>A line of both frames\<close>

text \<open>What is left of the current line, the file after it, and whether the line ends with the file; a frame whose variable holds a line feed is not read.\<close>

definition cur_line :: "bool \<Rightarrow> u8 list \<Rightarrow> u8 list" where
  "cur_line a F = (if a then takeWhile (\<lambda>c. c \<noteq> 10) F else [])"

definition after :: "bool \<Rightarrow> u8 list \<Rightarrow> u8 list" where
  "after a F = (if a then drop (Suc (length (cur_line a F))) F else F)"

definition ended :: "bool \<Rightarrow> u8 list \<Rightarrow> bool" where
  "ended a F \<longleftrightarrow> a \<and> 10 \<notin> set F"

lemma line_Cons:
  assumes "cur_line a F = x # l"
  obtains F' where "a" "F = x # F'" "x \<noteq> 10" "cur_line True F' = l" "after True F' = after a F" "ended True F' = ended a F"
  using assms by (cases F) (auto simp: cur_line_def after_def ended_def split: if_splits)

lemma line_Nil: "cur_line a F = [] \<Longrightarrow> a \<Longrightarrow> F = [] \<or> hd F = 10"
  by (cases F) (auto simp: cur_line_def split: if_splits)

lemma fetch_line:
  assumes v: "vars_ok p q s" and src: "source i p F eof s" and a: "a \<longleftrightarrow> var p s \<noteq> 10" "a \<longrightarrow> \<not> eof"
  obtains t eof' where "fetch e (of_nat i) p eof s = Some (eof', t)" "touched i p s t"
    "\<And>x l. cur_line a F = x # l \<Longrightarrow> var p t = x \<and> \<not> eof' \<and> source i p (tl F) False t"
    "cur_line a F = [] \<Longrightarrow> var p t = 10 \<and> eof' = (eof \<or> ended a F) \<and> source i p (after a F) eof' t"
proof (cases a)
  case False
  then have "fetch e (of_nat i) p eof s = Some (eof, s)" using a by (simp add: fetch_def)
  then show ?thesis by (rule that [OF _ touched_refl]) (use src a False in \<open>simp_all add: cur_line_def after_def ended_def\<close>)
next
  case True
  then have e0: "\<not> eof" and nz: "var p s \<noteq> 10" using a by auto
  obtain t where t: "fetch e (of_nat i) p False s = Some (F = [], t)" "touched i p s t" "source i p (drop 1 F) (F = []) t"
    "var p t = (if F = [] then 10 else hd F)" by (rule fetch_active [OF v _ nz]) (use src e0 in simp_all)
  show ?thesis
  proof (rule that [of "F = []" t])
    show "fetch e (of_nat i) p eof s = Some (F = [], t)" using t(1) e0 by simp
    show "touched i p s t" by (rule t(2))
    show "var p t = x \<and> F \<noteq> [] \<and> source i p (tl F) False t" if lx: "cur_line a F = x # l" for x l
    proof -
      obtain F' where "F = x # F'" using line_Cons [OF lx] by blast
      then show ?thesis using t(3,4) by simp
    qed
    show "var p t = 10 \<and> (F = []) = (eof \<or> ended a F) \<and> source i p (after a F) (F = []) t" if "cur_line a F = []"
    proof (cases F)
      case Nil
      then show ?thesis using t(3,4) True by (simp add: ended_def after_def source_def)
    next
      case (Cons c F')
      then have "c = 10" using line_Nil [OF that True] by simp
      then show ?thesis using t(3,4) e0 True that Cons by (simp add: ended_def after_def)
    qed
  qed
qed

definition first :: "u8 list \<Rightarrow> u8" where
  "first l = (case l of [] \<Rightarrow> 32 | x # l' \<Rightarrow> x)"

function row_blinks :: "blink \<Rightarrow> nat \<Rightarrow> nat \<Rightarrow> u8 list \<Rightarrow> u8 list \<Rightarrow> blink list" where
  "row_blinks b row col l0 l1 =
     (if l0 = [] \<and> l1 = [] then []
      else (if first l0 \<noteq> 32 \<or> first l1 \<noteq> 32 then [frame_blink row col (first l0) (first l1) b] else []) @
        row_blinks b row (col + 1) (tl l0) (tl l1))"
  by pat_completeness auto

termination
proof (relation "measure (\<lambda>(b, row, col, l0, l1). length l0 + length l1)")
  show "((b, row, col + 1, tl l0, tl l1), b, row, col, l0, l1) \<in> measure (\<lambda>(b, row, col, l0, l1). length l0 + length l1)"
    if "\<not> (l0 = [] \<and> l1 = [])" for b :: blink and row col :: nat and l0 l1 :: "u8 list"
    using that by (cases l0; cases l1) simp_all
qed simp

declare row_blinks.simps [simp del]

lemma frame_blink_again: "frame_blink r c x y (frame_blink r' c' x' y' b) = frame_blink r c x y b"
  by (simp add: frame_blink_def)

lemma row_blinks_again: "row_blinks (frame_blink r' c' x' y' b) row col l0 l1 = row_blinks b row col l0 l1"
proof (induction b row col l0 l1 rule: row_blinks.induct)
  case (1 b row col l0 l1)
  then show ?case by (subst (1 2) row_blinks.simps) (simp add: frame_blink_again)
qed

text \<open>Characters that can be added: on the screen and apart from each other.\<close>

definition fits :: "blink list \<Rightarrow> blink list \<Rightarrow> bool" where
  "fits us xs \<longleftrightarrow> distinct (map location us @ map location xs) \<and> (\<forall>u \<in> set us. regular u \<and> location u \<noteq> 0 \<and> location u < 2000)"

lemma blinks_location:
  assumes "blinks s xs" "b \<in> set xs"
  shows "location b \<noteq> 0 \<and> location b < 2000"
proof -
  obtain ps where ps: "linked s ps" "xs = map (\<lambda>i. payload (blink_array s ! i)) ps" using assms(1) by (auto simp: blinks_def)
  then obtain i where "i \<in> set ps" "b = payload (blink_array s ! i)" using assms(2) by auto
  moreover from this have "i < 2000" using ps(1) by (simp add: linked_def)
  ultimately show ?thesis using ps(1) by (simp add: linked_def)
qed

lemma blinks_room:
  assumes "blinks s xs" "fresh xs s"
  shows "length xs < 2000"
proof -
  have "placed xs" using assms(2) blinks_location [OF assms(1)] by (simp add: fresh_def placed_def)
  then show ?thesis by (rule placed_length)
qed

definition kept :: "u8 list \<Rightarrow> blink list \<Rightarrow> fish \<Rightarrow> bool" where
  "kept V xs s \<longleftrightarrow> (\<forall>k. (\<forall>b \<in> set xs. unat (blink_cell b) \<noteq> k) \<longrightarrow> vmem s ! k = V ! k)"

lemma add_fits:
  assumes "blinks s xs" "fresh xs s" "fits (u # us) xs"
  obtains t where "mp1_ioctl u 0 0 s = Some (0, u, t)" "blinks t (started u # xs)" "fresh (started u # xs) t" "drawn s t" "fits us (started u # xs)"
    "\<And>V. kept V xs s \<Longrightarrow> kept V (started u # xs) t"
proof -
  have u: "location u \<noteq> 0" "location u < 2000" "regular u" "location u \<notin> location ` set xs" using assms(3) by (auto simp: fits_def)
  obtain t where t: "mp1_ioctl_add u s = (0, t)" "blinks t (started u # xs)" "drawn s t" "vmem t = (vmem s)[unat (blink_cell u) := on_char u]"
    using add_blinks [OF assms(1) u(1)] u(2) blinks_room [OF assms(1,2)] by auto
  have d: "unat (blink_cell u) \<noteq> unat (blink_cell b)" if "b \<in> set xs" for b
    using u(4) that by (auto simp: unat_cell word_unat_eq)
  have "fresh (started u # xs) t" using assms(2) u cell_on_page [OF u(2)] d by (auto simp: fresh_def t(4))
  moreover have "kept V (started u # xs) t" if "kept V xs s" for V using that by (auto simp: kept_def t(4))
  moreover have "fits us (started u # xs)" using assms(3) by (auto simp: fits_def)
  ultimately show ?thesis using that t by (simp add: mp1_ioctl_def)
qed

lemma drawn_keeps:
  assumes v: "vars_ok p q s" and d: "drawn s t"
  shows "vars_ok p q t" "var p t = var p s" "var q t = var q s" "source i p F eof s \<Longrightarrow> source i p F eof t" "source i q F eof s \<Longrightarrow> source i q F eof t"
proof -
  obtain m where t: "os t = (os s)\<lparr>phys := m\<rparr>" and b: "vmem_base_addr t = vmem_base_addr s" using d unfolding drawn_def by blast
  have x: "xl (os t) = xl (os s)" by (simp add: t)
  have ph: "m a = phys (os s) a" if "\<forall>k < 4000. byte_addr s k \<noteq> a" for a
  proof -
    have "byte_addr s (2 * l) \<noteq> a" if "l < 2000" for l using \<open>\<forall>k < 4000. byte_addr s k \<noteq> a\<close> that by simp
    then have "a \<notin> (\<lambda>l. byte_addr s (2 * l)) ` {..<2000}" by blast
    then show ?thesis using d by (simp add: drawn_def t)
  qed
  have "m a = phys (os s) a" if "a \<in> fs_image (xl (os s)) (phys (os s)) (FSYSTEM (os s))" for a
    using v that by (intro ph) (auto simp: vars_ok_def)
  then have c: "calm (os s) (os t)" unfolding calm_def x by (simp add: t)
  show "vars_ok p q t" by (rule vars_ok_calm [OF v c b])
  show "var p t = var p s" "var q t = var q s" using v ph by (simp_all add: var_def x) (simp_all add: t vars_ok_def)
  show "source i p F eof s \<Longrightarrow> source i p F eof t" "source i q F eof s \<Longrightarrow> source i q F eof t"
    by (erule source_calm [OF _ c], simp add: t)+
qed

definition reading :: "u8 list \<Rightarrow> nat \<Rightarrow> u32 \<Rightarrow> nat \<Rightarrow> u32 \<Rightarrow> u8 list \<times> bool \<times> bool \<Rightarrow> u8 list \<times> bool \<times> bool \<Rightarrow> blink list \<Rightarrow> fish \<Rightarrow> bool" where
  "reading V i p j q = (\<lambda>(F, eof0, a0) (G, eof1, a1) xs s. vars_ok p q s \<and> source i p F eof0 s \<and> source j q G eof1 s \<and>
     (a0 \<longleftrightarrow> var p s \<noteq> 10) \<and> (a1 \<longleftrightarrow> var q s \<noteq> 10) \<and> (a0 \<longrightarrow> \<not> eof0) \<and> (a1 \<longrightarrow> \<not> eof1) \<and> blinks s xs \<and> fresh xs s \<and> kept V xs s)"

text \<open>The state of a frame after one character.\<close>

definition advance :: "u8 list \<times> bool \<times> bool \<Rightarrow> u8 list \<times> bool \<times> bool" where
  "advance = (\<lambda>(F, eof, a). if cur_line a F = [] then (after a F, eof \<or> ended a F, False) else (tl F, eof, True))"

definition rest_of :: "u8 list \<times> bool \<times> bool \<Rightarrow> u8 list" where
  "rest_of = (\<lambda>(F, eof, a). cur_line a F)"

text \<open>The state of a frame after the line.\<close>

definition finish :: "u8 list \<times> bool \<times> bool \<Rightarrow> u8 list \<times> bool \<times> bool" where
  "finish = (\<lambda>(F, eof, a). (after a F, eof \<or> ended a F, False))"

lemma advance_rest: "rest_of (advance f) = tl (rest_of f)" "finish (advance f) = finish f"
proof -
  obtain F eof a where f: "f = (F, eof, a)" by (cases f)
  have "rest_of (advance f) = tl (rest_of f) \<and> finish (advance f) = finish f"
  proof (cases "cur_line a F")
    case Nil
    then show ?thesis by (simp add: f advance_def rest_of_def finish_def after_def ended_def cur_line_def)
  next
    case (Cons x l)
    then obtain F' where "a" "F = x # F'" "cur_line True F' = l" "after True F' = after a F" "ended True F' = ended a F"
      by (rule line_Cons)
    then show ?thesis using Cons by (simp add: f advance_def rest_of_def finish_def)
  qed
  then show "rest_of (advance f) = tl (rest_of f)" "finish (advance f) = finish f" by simp_all
qed

lemma fetch_advance:
  assumes "vars_ok p q s" "source i p F eof s" "a \<longleftrightarrow> var p s \<noteq> 10" "a \<longrightarrow> \<not> eof"
  obtains t F' eof' a' where "advance (F, eof, a) = (F', eof', a')" "fetch e (of_nat i) p eof s = Some (eof', t)" "touched i p s t"
    "source i p F' eof' t" "var p t = (if cur_line a F = [] then 10 else hd (cur_line a F))" "a' \<longleftrightarrow> var p t \<noteq> 10" "a' \<longrightarrow> \<not> eof'"
proof -
  obtain t eof' where t: "fetch e (of_nat i) p eof s = Some (eof', t)" "touched i p s t"
    "\<And>x l. cur_line a F = x # l \<Longrightarrow> var p t = x \<and> \<not> eof' \<and> source i p (tl F) False t"
    "cur_line a F = [] \<Longrightarrow> var p t = 10 \<and> eof' = (eof \<or> ended a F) \<and> source i p (after a F) eof' t"
    by (rule fetch_line [OF assms]) blast
  show ?thesis
  proof (cases "cur_line a F")
    case Nil
    then show ?thesis using t(4)
      by (intro that [where t = t and F' = "after a F" and eof' = eof' and a' = False, OF _ t(1,2)]) (auto simp: advance_def)
  next
    case (Cons x l)
    then have "x \<noteq> 10" "\<not> eof" using assms(4) line_Cons [of a F x l] by blast+
    then show ?thesis using t(3) [OF Cons] Cons
      by (intro that [where t = t and F' = "tl F" and eof' = eof' and a' = True, OF _ t(1,2)]) (simp_all add: advance_def)
  qed
qed

lemma touched_kept: "vars_ok p q s \<Longrightarrow> touched i p s t \<or> touched i q s t \<Longrightarrow> kept V xs s \<Longrightarrow> kept V xs t"
  using touched_page(2) [of p q s i t] by (simp add: kept_def)

lemma fetch_both:
  assumes r: "reading V i p j q (F, eof0, a0) (G, eof1, a1) xs s" and ij: "i \<noteq> j"
  obtains t u F' eof0' a0' G' eof1' a1' where "fetch e (of_nat i) p eof0 s = Some (eof0', t)" "fetch e (of_nat j) q eof1 t = Some (eof1', u)"
    "advance (F, eof0, a0) = (F', eof0', a0')" "advance (G, eof1, a1) = (G', eof1', a1')" "reading V i p j q (F', eof0', a0') (G', eof1', a1') xs u"
    "var p u = (if cur_line a0 F = [] then 10 else hd (cur_line a0 F))" "var q u = (if cur_line a1 G = [] then 10 else hd (cur_line a1 G))"
proof -
  have o: "vars_ok p q s" "source i p F eof0 s" "source j q G eof1 s" "a0 \<longleftrightarrow> var p s \<noteq> 10" "a1 \<longleftrightarrow> var q s \<noteq> 10" "a0 \<longrightarrow> \<not> eof0" "a1 \<longrightarrow> \<not> eof1"
    "blinks s xs" "fresh xs s" "kept V xs s" using r by (simp_all add: reading_def)
  obtain t F' eof0' a0' where t: "advance (F, eof0, a0) = (F', eof0', a0')" "fetch e (of_nat i) p eof0 s = Some (eof0', t)" "touched i p s t"
    "source i p F' eof0' t" "var p t = (if cur_line a0 F = [] then 10 else hd (cur_line a0 F))" "a0' \<longleftrightarrow> var p t \<noteq> 10" "a0' \<longrightarrow> \<not> eof0'"
    by (rule fetch_advance [OF o(1,2,4,6)])
  have vt: "vars_ok p q t" using touched_vars [OF o(1)] t(3) by blast
  have ot: "source j q G eof1 t" "var q t = var q s" using touched_other [OF o(1) t(3) o(3)] ij by auto
  have a1: "a1 \<longleftrightarrow> var q t \<noteq> 10" using o(5) ot(2) by simp
  obtain u G' eof1' a1' where u: "advance (G, eof1, a1) = (G', eof1', a1')" "fetch e (of_nat j) q eof1 t = Some (eof1', u)" "touched j q t u"
    "source j q G' eof1' u" "var q u = (if cur_line a1 G = [] then 10 else hd (cur_line a1 G))" "a1' \<longleftrightarrow> var q u \<noteq> 10" "a1' \<longrightarrow> \<not> eof1'"
    by (rule fetch_advance [OF vars_ok_swap [OF vt] ot(1) a1 o(7)])
  have pg: "vars_ok p q u" "blinks u xs" "fresh xs u" "kept V xs u"
  proof -
    have tp: "touched i p s t \<or> touched i q s t" and uq: "touched j p t u \<or> touched j q t u" using t(3) u(3) by simp_all
    show "vars_ok p q u" by (rule touched_vars [OF vt uq])
    show "blinks u xs" by (rule touched_page(3) [OF vt uq touched_page(3) [OF o(1) tp o(8)]])
    show "fresh xs u" by (rule touched_page(4) [OF vt uq touched_page(4) [OF o(1) tp o(9)]])
    show "kept V xs u" by (rule touched_kept [OF vt uq touched_kept [OF o(1) tp o(10)]])
  qed
  have keep: "source i p F' eof0' u" "var p u = var p t" using touched_other [OF vars_ok_swap [OF vt] u(3) t(4)] ij by auto
  show ?thesis
    by (rule that [OF t(2) u(2) t(1) u(1)]) (use pg keep t(5-7) u(4-7) in \<open>simp_all add: reading_def\<close>)
qed

text \<open>The drawn page keeps the state of the frames.\<close>

lemma reading_add:
  assumes r: "reading V i p j q f g xs s" and f: "fits (u # us) xs"
  obtains t where "mp1_ioctl u 0 0 s = Some (0, u, t)" "reading V i p j q f g (started u # xs) t" "fits us (started u # xs)"
proof -
  obtain F eof0 a0 where fe: "f = (F, eof0, a0)" by (cases f)
  obtain G eof1 a1 where ge: "g = (G, eof1, a1)" by (cases g)
  have o: "vars_ok p q s" "blinks s xs" "fresh xs s" "kept V xs s" using r by (simp_all add: fe ge reading_def)
  obtain t where t: "mp1_ioctl u 0 0 s = Some (0, u, t)" "blinks t (started u # xs)" "fresh (started u # xs) t" "drawn s t" "fits us (started u # xs)"
    "kept V xs s \<Longrightarrow> kept V (started u # xs) t"
    by (rule add_fits [OF o(2,3) f]) blast
  have "reading V i p j q f g (started u # xs) t" using r drawn_keeps [OF o(1) t(4)] t(2,3,6) o(4) by (simp add: fe ge reading_def)
  then show ?thesis using that t(1,5) by blast
qed

lemma hd_line: "cur_line a F \<noteq> [] \<Longrightarrow> hd (cur_line a F) \<noteq> 10"
  using hd_in_set set_takeWhileD by (fastforce simp: cur_line_def split: if_splits)

lemma frame_row_reads:
  assumes ij: "i \<noteq> j"
  shows "reading V i p j q f g xs s \<Longrightarrow> fits (row_blinks b row col (rest_of f) (rest_of g)) xs \<Longrightarrow>
    \<exists>b' t. frame_row e (of_nat i) (of_nat j) p q row col (fst (snd f)) (fst (snd g)) b s =
        Some (fst (snd (finish f)), fst (snd (finish g)), b', t) \<and> (\<forall>r c x y. frame_blink r c x y b' = frame_blink r c x y b) \<and>
      reading V i p j q (finish f) (finish g) (rev (map started (row_blinks b row col (rest_of f) (rest_of g))) @ xs) t"
proof (induction "max (length (rest_of f)) (length (rest_of g))" arbitrary: f g xs s b col)
  case 0
  obtain F eof0 a0 G eof1 a1 where fg: "f = (F, eof0, a0)" "g = (G, eof1, a1)" by (cases f, cases g) blast
  have nil: "cur_line a0 F = []" "cur_line a1 G = []" using 0(1) by (simp_all add: fg rest_of_def)
  have rd: "reading V i p j q (F, eof0, a0) (G, eof1, a1) xs s" using 0(2) by (simp add: fg)
  obtain t u F' eof0' a0' G' eof1' a1' where t: "fetch e (of_nat i) p eof0 s = Some (eof0', t)" "fetch e (of_nat j) q eof1 t = Some (eof1', u)"
    "advance (F, eof0, a0) = (F', eof0', a0')" "advance (G, eof1, a1) = (G', eof1', a1')" "reading V i p j q (F', eof0', a0') (G', eof1', a1') xs u"
    "var p u = (if cur_line a0 F = [] then 10 else hd (cur_line a0 F))" "var q u = (if cur_line a1 G = [] then 10 else hd (cur_line a1 G))"
    by (rule fetch_both [OF rd ij])
  have fin: "finish f = (F', eof0', a0')" "finish g = (G', eof1', a1')" using t(3,4) nil by (simp_all add: fg finish_def advance_def)
  have "frame_row e (of_nat i) (of_nat j) p q row col eof0 eof1 b s = Some (eof0', eof1', b, u)"
    using t(1,2,6,7) nil by (simp add: frame_row.simps [of _ _ _ _ _ _ _ _ _ _ s])
  then show ?case using t(5) nil unfolding fin by (intro exI [of _ b] exI [of _ u]) (simp add: fg rest_of_def row_blinks.simps)
next
  case (Suc n)
  obtain F eof0 a0 G eof1 a1 where fg: "f = (F, eof0, a0)" "g = (G, eof1, a1)" by (cases f, cases g) blast
  let ?l = "cur_line a0 F" and ?m = "cur_line a1 G"
  have ne: "\<not> (?l = [] \<and> ?m = [])" using Suc.hyps(2) by (auto simp: fg rest_of_def)
  have rd: "reading V i p j q (F, eof0, a0) (G, eof1, a1) xs s" using Suc.prems(1) by (simp add: fg)
  obtain t u F' eof0' a0' G' eof1' a1' where t: "fetch e (of_nat i) p eof0 s = Some (eof0', t)" "fetch e (of_nat j) q eof1 t = Some (eof1', u)"
    "advance (F, eof0, a0) = (F', eof0', a0')" "advance (G, eof1, a1) = (G', eof1', a1')" "reading V i p j q (F', eof0', a0') (G', eof1', a1') xs u"
    "var p u = (if ?l = [] then 10 else hd ?l)" "var q u = (if ?m = [] then 10 else hd ?m)"
    by (rule fetch_both [OF rd ij])
  let ?f = "(F', eof0', a0')" and ?g = "(G', eof1', a1')"
  have rest: "rest_of ?f = tl ?l" "rest_of ?g = tl ?m" "finish ?f = finish f" "finish ?g = finish g"
    using advance_rest [of f] advance_rest [of g] t(3,4) by (simp_all add: fg rest_of_def)
  have n: "n = max (length (rest_of ?f)) (length (rest_of ?g))" using Suc.hyps(2) by (simp add: rest) (simp add: fg rest_of_def)
  have go: "\<not> (var p u = 10 \<and> var q u = 10)" using ne hd_line t(6,7) by auto
  have test: "(var p u \<noteq> 32 \<and> var p u \<noteq> 10) \<or> (var q u \<noteq> 32 \<and> var q u \<noteq> 10) \<longleftrightarrow> first ?l \<noteq> 32 \<or> first ?m \<noteq> 32"
    using t(6,7) hd_line [of a0 F] hd_line [of a1 G] by (cases ?l; cases ?m) (simp_all add: first_def)
  have fb: "frame_blink row col (var p u) (var q u) b = frame_blink row col (first ?l) (first ?m) b"
    using t(6,7) hd_line [of a0 F] hd_line [of a1 G] by (cases ?l; cases ?m) (simp_all add: first_def frame_blink_def)
  let ?u = "frame_blink row col (first ?l) (first ?m) b"
  have rb: "row_blinks b row col ?l ?m = (if first ?l \<noteq> 32 \<or> first ?m \<noteq> 32 then [?u] else []) @ row_blinks b row (col + 1) (tl ?l) (tl ?m)"
    by (subst row_blinks.simps) (rule if_not_P [OF ne])
  note step = frame_row.simps [of e "of_nat i" "of_nat j" p q row col eof0 eof1 b s]
  have ft: "fits (row_blinks b row col ?l ?m) xs" using Suc.prems(2) by (simp add: fg rest_of_def)
  show ?case
  proof (cases "first ?l \<noteq> 32 \<or> first ?m \<noteq> 32")
    case True
    then have rb': "row_blinks b row col ?l ?m = ?u # row_blinks b row (col + 1) (tl ?l) (tl ?m)" using rb by simp
    obtain v where v: "mp1_ioctl ?u 0 0 u = Some (0, ?u, v)" "reading V i p j q ?f ?g (started ?u # xs) v"
        "fits (row_blinks b row (col + 1) (tl ?l) (tl ?m)) (started ?u # xs)"
      by (rule reading_add [OF t(5) ft [unfolded rb']])
    obtain b' w where w: "frame_row e (of_nat i) (of_nat j) p q row (col + 1) eof0' eof1' ?u v =
        Some (fst (snd (finish f)), fst (snd (finish g)), b', w)" "\<forall>r c x y. frame_blink r c x y b' = frame_blink r c x y ?u"
        "reading V i p j q (finish f) (finish g) (rev (map started (row_blinks b row (col + 1) (tl ?l) (tl ?m))) @ started ?u # xs) w"
      using Suc.hyps(1) [OF n v(2), of ?u "col + 1"] v(3) by (auto simp: rest row_blinks_again)
    have "frame_row e (of_nat i) (of_nat j) p q row col eof0 eof1 b s = Some (fst (snd (finish f)), fst (snd (finish g)), b', w)"
      using step t(1,2) go test True v(1) w(1) by (simp add: fb)
    then show ?thesis using w(2,3) rb' by (intro exI [of _ b'] exI [of _ w]) (simp add: fg rest_of_def frame_blink_again)
  next
    case False
    then have rb': "row_blinks b row col ?l ?m = row_blinks b row (col + 1) (tl ?l) (tl ?m)" using rb by simp
    obtain b' w where w: "frame_row e (of_nat i) (of_nat j) p q row (col + 1) eof0' eof1' b u =
        Some (fst (snd (finish f)), fst (snd (finish g)), b', w)" "\<forall>r c x y. frame_blink r c x y b' = frame_blink r c x y b"
        "reading V i p j q (finish f) (finish g) (rev (map started (row_blinks b row (col + 1) (tl ?l) (tl ?m))) @ xs) w"
      using Suc.hyps(1) [OF n t(5), of b "col + 1"] ft rb' by (auto simp: rest)
    have "frame_row e (of_nat i) (of_nat j) p q row col eof0 eof1 b s = Some (fst (snd (finish f)), fst (snd (finish g)), b', w)"
      using step t(1,2) go test False w(1) by simp
    then show ?thesis using w(2,3) rb' by (intro exI [of _ b'] exI [of _ w]) (simp add: fg rest_of_def)
  qed
qed

section \<open>All lines\<close>

lemma reading_swap: "reading V i p j q f g xs s \<longleftrightarrow> reading V j q i p g f xs s"
  using vars_ok_swap by (cases f; cases g) (auto simp: reading_def)

lemma close_source:
  assumes "vars_ok p q s" "source i p F eof s"
  obtains r t where "on_os (ece391_close e (of_nat i)) s = Some (r, t)" "touched i p s t" "source i p F True t" "var p t = var p s"
proof -
  have o: "2 \<le> i" "i < 8" "f_close (fotp (fd (os s) ! i)) = close_file" "length (fd (os s)) = 8" using assms by (simp_all add: source_def vars_ok_def)
  have si: "sint (of_nat i :: u32) = int i" using o by (intro small_sint) simp
  let ?k = "if flags (fd (os s) ! i) = 0 then os s else (os s)\<lparr>fd := (fd (os s))[i := (fd (os s) ! i)\<lparr>flags := 0\<rparr>]\<rparr>"
  have "\<exists>r. ece391_close e (of_nat i) (os s) = Some (r, ?k)"
    using o by (auto simp: ece391_close_def int80_def syscall_link_def sys_close_def si Let_def file_close_def)
  then obtain r where "on_os (ece391_close e (of_nat i)) s = Some (r, s\<lparr>os := ?k\<rparr>)" by (auto simp: on_os_def)
  moreover have "touched i p s (s\<lparr>os := ?k\<rparr>)" by (simp add: touched_def calm_def)
  moreover have "source i p F True (s\<lparr>os := ?k\<rparr>)" using o by (simp add: source_def)
  moreover have "var p (s\<lparr>os := ?k\<rparr>) = var p s" by (simp add: var_def)
  ultimately show ?thesis using that by blast
qed

lemma reading_touched:
  assumes "reading V i p j q (F, eof, a) g xs s" "touched i p s t" "i \<noteq> j" "source i p F' eof' t" "a' \<longleftrightarrow> var p t \<noteq> 10" "a' \<longrightarrow> \<not> eof'"
  shows "reading V i p j q (F', eof', a') g xs t"
proof -
  obtain G eof1 a1 where g: "g = (G, eof1, a1)" by (cases g)
  have o: "vars_ok p q s" "source j q G eof1 s" "blinks s xs" "fresh xs s" "kept V xs s" using assms(1) by (simp_all add: g reading_def)
  have t: "touched i p s t \<or> touched i q s t" using assms(2) by simp
  show ?thesis
    using assms(1,3-6) touched_vars [OF o(1) t] touched_page(3,4) [OF o(1) t] touched_other [OF o(1) assms(2) o(2)] touched_kept [OF o(1) t] o(3-5) by (simp add: g reading_def)
qed

lemma frame_end_next:
  assumes r: "reading V i p j q (F, eof, False) g xs s" and ij: "i \<noteq> j"
  obtains t where "frame_end e (of_nat i) p eof s = Some t" "reading V i p j q (F, eof, \<not> eof) g xs t"
proof (cases eof)
  case True
  obtain G eof1 a1 where g: "g = (G, eof1, a1)" by (cases g)
  have o: "vars_ok p q s" "source i p F eof s" using r by (simp_all add: g reading_def)
  let ?u = "set_var p 10 s"
  note u = set_var_touched(1) [OF o(1), where i = i and c = 10] set_var_touched(2) [OF o(1), where c = 10]
  have vu: "vars_ok p q ?u" using touched_vars [OF o(1)] u(1) by blast
  obtain x t where t: "on_os (ece391_close e (of_nat i)) ?u = Some (x, t)" "touched i p ?u t" "source i p F True t" "var p t = var p ?u"
    by (rule close_source [OF vu set_var_source [OF o]])
  have "touched i p s t" using touched_trans [OF u(1) t(2)] o(1) by blast
  from reading_touched [OF r this ij t(3), of False] have "reading V i p j q (F, eof, \<not> eof) g xs t" using t(4) u(2) True by simp
  then show ?thesis using that [of t] t(1) True by (simp add: frame_end_def)
next
  case False
  obtain G eof1 a1 where g: "g = (G, eof1, a1)" by (cases g)
  have o: "vars_ok p q s" "source i p F eof s" using r by (simp_all add: g reading_def)
  note u = set_var_touched(1) [OF o(1), where i = i and c = 48] set_var_touched(2) [OF o(1), where c = 48]
  have "reading V i p j q (F, eof, \<not> eof) g xs (set_var p 48 s)"
    by (rule reading_touched [OF r u(1) ij set_var_source [OF o]]) (use u(2) False in simp_all)
  then show ?thesis using that False by (simp add: frame_end_def)
qed

text \<open>The lines of a frame that are left.\<close>

definition lines_left :: "u8 list \<times> bool \<times> bool \<Rightarrow> u8 list list" where
  "lines_left = (\<lambda>(F, eof, a). if eof then [] else lines F)"

definition next_row :: "u8 list \<times> bool \<times> bool \<Rightarrow> u8 list \<times> bool \<times> bool" where
  "next_row f = (case finish f of (F, eof, a) \<Rightarrow> (F, eof, \<not> eof))"

definition line_at :: "u8 list list \<Rightarrow> nat \<Rightarrow> u8 list" where
  "line_at L r = (if r < length L then L ! r else [])"

lemma next_row_lines:
  assumes "f = (F, eof, \<not> eof)"
  shows "rest_of f = line_at (lines_left f) 0" "lines_left (next_row f) = tl (lines_left f)"
proof (atomize(full), cases "eof \<or> 10 \<notin> set F")
  case True
  moreover have "takeWhile (\<lambda>c. c \<noteq> 10) F = F" if "10 \<notin> set F" using that by (auto simp: takeWhile_eq_all_conv)
  ultimately show "rest_of f = line_at (lines_left f) 0 \<and> lines_left (next_row f) = tl (lines_left f)"
    by (auto simp: assms rest_of_def lines_left_def next_row_def finish_def line_at_def cur_line_def ended_def lines.simps [of F])
next
  case False
  then show "rest_of f = line_at (lines_left f) 0 \<and> lines_left (next_row f) = tl (lines_left f)"
    by (simp add: assms rest_of_def lines_left_def next_row_def finish_def line_at_def cur_line_def ended_def after_def lines.simps [of F])
qed

function frame_blinks :: "blink \<Rightarrow> nat \<Rightarrow> u8 list list \<Rightarrow> u8 list list \<Rightarrow> blink list" where
  "frame_blinks b row L0 L1 = (if L0 = [] \<and> L1 = [] then [] else row_blinks b row 0 (line_at L0 0) (line_at L1 0) @ frame_blinks b (row + 1) (tl L0) (tl L1))"
  by pat_completeness auto

termination
proof (relation "measure (\<lambda>(b, row, L0, L1). length L0 + length L1)")
  show "((b, row + 1, tl L0, tl L1), b, row, L0, L1) \<in> measure (\<lambda>(b, row, L0, L1). length L0 + length L1)"
    if "\<not> (L0 = [] \<and> L1 = [])" for b :: blink and row :: nat and L0 L1 :: "u8 list list"
    using that by (cases L0; cases L1) simp_all
qed simp

declare frame_blinks.simps [simp del]

lemma fits_append: "fits (us @ vs) xs \<Longrightarrow> fits us xs \<and> fits vs (rev (map started us) @ xs)"
proof -
  have "map location (rev (map started us)) = rev (map location us)" by (simp add: rev_map comp_def)
  then show "fits (us @ vs) xs \<Longrightarrow> fits us xs \<and> fits vs (rev (map started us) @ xs)"
    unfolding fits_def map_append distinct_append set_append by (auto simp: comp_def)
qed

lemma row_blinks_core:
  "\<forall>r c x y. frame_blink r c x y b' = frame_blink r c x y b \<Longrightarrow> row_blinks b' row col l0 l1 = row_blinks b row col l0 l1"
proof (induction b row col l0 l1 rule: row_blinks.induct)
  case (1 b row col l0 l1)
  then show ?case by (subst (1 2) row_blinks.simps) simp
qed

lemma frame_blinks_core:
  "\<forall>r c x y. frame_blink r c x y b' = frame_blink r c x y b \<Longrightarrow> frame_blinks b' row L0 L1 = frame_blinks b row L0 L1"
proof (induction b row L0 L1 rule: frame_blinks.induct)
  case (1 b row L0 L1)
  then show ?case using row_blinks_core [of b' b] by (subst (1 2) frame_blinks.simps) simp
qed

definition between :: "u8 list \<times> bool \<times> bool \<Rightarrow> bool" where
  "between f \<longleftrightarrow> snd (snd f) = (\<not> fst (snd f))"

lemma between_lines:
  assumes "between f"
  shows "rest_of f = line_at (lines_left f) 0" "lines_left (next_row f) = tl (lines_left f)" "lines_left f = [] \<longleftrightarrow> fst (snd f)"
proof -
  obtain F eof where f: "f = (F, eof, \<not> eof)" using assms by (cases f) (auto simp: between_def)
  show "rest_of f = line_at (lines_left f) 0" "lines_left (next_row f) = tl (lines_left f)" by (rule next_row_lines [OF f])+
  show "lines_left f = [] \<longleftrightarrow> fst (snd f)" by (simp add: f lines_left_def lines.simps)
qed

lemma frame_rows_read:
  assumes ij: "i \<noteq> j"
  shows "reading V i p j q f g xs s \<Longrightarrow> between f \<Longrightarrow> between g \<Longrightarrow> fits (frame_blinks b row (lines_left f) (lines_left g)) xs \<Longrightarrow>
    \<exists>t f' g'. frame_rows e (of_nat i) (of_nat j) p q row (fst (snd f)) (fst (snd g)) b s = Some t \<and>
      reading V i p j q f' g' (rev (map started (frame_blinks b row (lines_left f) (lines_left g))) @ xs) t"
proof (induction "max (length (lines_left f)) (length (lines_left g))" arbitrary: f g xs s b row)
  case 0
  then have "lines_left f = []" "lines_left g = []" by simp_all
  moreover have "fst (snd f)" "fst (snd g)" using calculation 0 between_lines(3) by blast+
  ultimately show ?case using 0 by (intro exI [of _ s] exI [of _ f] exI [of _ g]) (simp add: frame_rows.simps frame_blinks.simps)
next
  case (Suc n)
  let ?L = "lines_left f" and ?M = "lines_left g"
  let ?R = "row_blinks b row 0 (rest_of f) (rest_of g)" and ?B = "frame_blinks b (row + 1) (tl ?L) (tl ?M)"
  note bf = between_lines [OF Suc.prems(2)] and bg = between_lines [OF Suc.prems(3)]
  have ne: "\<not> (?L = [] \<and> ?M = [])" using Suc.hyps(2) by auto
  have fb: "frame_blinks b row ?L ?M = ?R @ ?B" unfolding bf(1) bg(1) by (subst frame_blinks.simps) (rule if_not_P [OF ne])
  note ft = fits_append [OF Suc.prems(4) [unfolded fb]]
  obtain b' t where t: "frame_row e (of_nat i) (of_nat j) p q row 0 (fst (snd f)) (fst (snd g)) b s =
      Some (fst (snd (finish f)), fst (snd (finish g)), b', t)" "\<forall>r c x y. frame_blink r c x y b' = frame_blink r c x y b"
      "reading V i p j q (finish f) (finish g) (rev (map started ?R) @ xs) t"
    using frame_row_reads [OF ij Suc.prems(1)] ft by blast
  obtain F eof0 G eof1 where fin: "finish f = (F, eof0, False)" "finish g = (G, eof1, False)" by (cases f, cases g) (simp add: finish_def)
  obtain u where u: "frame_end e (of_nat i) p eof0 t = Some u" "reading V i p j q (F, eof0, \<not> eof0) (G, eof1, False) (rev (map started ?R) @ xs) u"
    by (rule frame_end_next [OF t(3) [unfolded fin] ij])
  obtain v where v: "frame_end e (of_nat j) q eof1 u = Some v" "reading V j q i p (G, eof1, \<not> eof1) (F, eof0, \<not> eof0) (rev (map started ?R) @ xs) v"
    by (rule frame_end_next [OF u(2) [unfolded reading_swap [of V i p]]]) (use ij in simp_all)
  have nx: "next_row f = (F, eof0, \<not> eof0)" "next_row g = (G, eof1, \<not> eof1)" by (simp_all add: next_row_def fin)
  have rv: "reading V i p j q (next_row f) (next_row g) (rev (map started ?R) @ xs) v" using v(2) by (simp add: nx reading_swap [of V i p])
  have bt: "between (next_row f)" "between (next_row g)" by (simp_all add: nx between_def)
  have core: "frame_blinks b' (row + 1) (lines_left (next_row f)) (lines_left (next_row g)) = ?B" using frame_blinks_core [OF t(2)] bf(2) bg(2) by simp
  have n: "n = max (length (lines_left (next_row f))) (length (lines_left (next_row g)))" using Suc.hyps(2) by (simp add: bf(2) bg(2))
  obtain w f' g' where w: "frame_rows e (of_nat i) (of_nat j) p q (row + 1) eof0 eof1 b' v = Some w"
      "reading V i p j q f' g' (rev (map started ?B) @ rev (map started ?R) @ xs) w"
    using Suc.hyps(1) [OF n rv bt, of b' "row + 1"] ft unfolding core by (auto simp: nx)
  have "\<not> fst (snd f) \<or> \<not> fst (snd g)" using ne bf(3) bg(3) by simp
  then have "frame_rows e (of_nat i) (of_nat j) p q row (fst (snd f)) (fst (snd g)) b s = Some w"
    using t(1) u(1) v(1) w(1) by (subst frame_rows.simps) (simp add: fin)
  then show ?case using w(2) unfolding fb by (intro exI [of _ w] exI [of _ f'] exI [of _ g']) simp
qed

section \<open>The cells of the frames\<close>

definition glyph :: "u8 list \<Rightarrow> nat \<Rightarrow> u8" where
  "glyph l k = (if k < length l then l ! k else 32)"

lemma glyph_tl: "glyph l (Suc k) = glyph (tl l) k" "first l = glyph l 0"
  by (cases l; simp add: glyph_def first_def)+

definition row_cell :: "blink \<Rightarrow> nat \<Rightarrow> nat \<Rightarrow> u8 list \<Rightarrow> u8 list \<Rightarrow> nat \<Rightarrow> blink list" where
  "row_cell b row col l0 l1 k = (if glyph l0 k \<noteq> 32 \<or> glyph l1 k \<noteq> 32 then [frame_blink row (col + k) (glyph l0 k) (glyph l1 k) b] else [])"

lemma row_blinks_cells: "row_blinks b row col l0 l1 = concat (map (row_cell b row col l0 l1) [0..<max (length l0) (length l1)])"
proof (induction b row col l0 l1 rule: row_blinks.induct)
  case (1 b row col l0 l1)
  show ?case
  proof (cases "l0 = [] \<and> l1 = []")
    case True
    then show ?thesis by (simp add: row_blinks.simps)
  next
    case False
    then have m: "max (length l0) (length l1) = Suc (max (length (tl l0)) (length (tl l1)))" by (cases l0; cases l1) simp_all
    have sh: "row_cell b row col l0 l1 (Suc k) = row_cell b row (col + 1) (tl l0) (tl l1) k" for k
      by (simp add: row_cell_def glyph_tl)
    have "map (row_cell b row col l0 l1) [0..<Suc n] = row_cell b row col l0 l1 0 # map (row_cell b row (col + 1) (tl l0) (tl l1)) [0..<n]" for n
      unfolding upt_conv_Cons [OF zero_less_Suc] by (simp add: map_Suc_upt [symmetric] comp_def sh del: upt_Suc)
    then show ?thesis using 1 [OF False] False unfolding m
      by (subst row_blinks.simps) (simp add: row_cell_def [of _ _ _ _ _ 0] glyph_tl(2) del: upt_Suc)
  qed
qed

lemma frame_blinks_rows: "frame_blinks b row L0 L1 = concat (map (\<lambda>r. row_blinks b (row + r) 0 (line_at L0 r) (line_at L1 r)) [0..<max (length L0) (length L1)])"
proof (induction b row L0 L1 rule: frame_blinks.induct)
  case (1 b row L0 L1)
  show ?case
  proof (cases "L0 = [] \<and> L1 = []")
    case True
    then show ?thesis by (simp add: frame_blinks.simps)
  next
    case False
    then have m: "max (length L0) (length L1) = Suc (max (length (tl L0)) (length (tl L1)))" by (cases L0; cases L1) simp_all
    have sh: "line_at L (Suc r) = line_at (tl L) r" for L r by (cases L) (simp_all add: line_at_def)
    let ?g = "\<lambda>r. row_blinks b (row + r) 0 (line_at L0 r) (line_at L1 r)"
    have "map ?g [0..<Suc n] = ?g 0 # map (\<lambda>r. row_blinks b (row + 1 + r) 0 (line_at (tl L0) r) (line_at (tl L1) r)) [0..<n]" for n
      unfolding upt_conv_Cons [OF zero_less_Suc] by (simp add: map_Suc_upt [symmetric] comp_def sh del: upt_Suc)
    moreover have "frame_blinks b row L0 L1 = ?g 0 @ frame_blinks b (row + 1) (tl L0) (tl L1)"
      unfolding add_0_right by (subst frame_blinks.simps) (rule if_not_P [OF False])
    ultimately show ?thesis using 1 [OF False] unfolding m by (simp del: upt_Suc)
  qed
qed

lemma sorted_concat:
  fixes f :: "'a \<Rightarrow> nat"
  assumes "\<And>k. k < n \<Longrightarrow> sorted_wrt (<) (map f (g k)) \<and> (\<forall>x \<in> set (g k). lo k \<le> f x \<and> f x < lo (Suc k))" "\<And>k l. k \<le> l \<Longrightarrow> lo k \<le> lo l"
  shows "sorted_wrt (<) (map f (concat (map g [0..<n]))) \<and> (\<forall>x \<in> set (concat (map g [0..<n])). lo 0 \<le> f x \<and> f x < lo n)"
  using assms(1)
proof (induction n)
  case 0
  then show ?case by simp
next
  case (Suc n)
  note IH = Suc.IH [OF Suc.prems [OF less_SucI]]
  have n: "sorted_wrt (<) (map f (g n))" "\<forall>x \<in> set (g n). lo n \<le> f x \<and> f x < lo (Suc n)" using Suc.prems [OF lessI] by auto
  have "lo 0 \<le> lo n" "lo n \<le> lo (Suc n)" by (simp_all add: assms(2))
  then show ?case using IH n by (fastforce simp: sorted_wrt_append)
qed

text \<open>A frame that fits on the screen.\<close>

definition frame_ok :: "u8 list \<Rightarrow> bool" where
  "frame_ok F \<longleftrightarrow> length (lines F) \<le> 24 \<and> (\<forall>l \<in> set (lines F). length l \<le> 40)"

lemma frame_blink_location: "r < 24 \<Longrightarrow> c < 40 \<Longrightarrow> unat (location (frame_blink r c x y b)) = r * 80 + c + 40"
  by (simp add: frame_blink_def unat_of_nat take_bit_nat_eq_self del: of_nat_add of_nat_mult)

lemma row_blinks_sorted:
  assumes "r < 24" "length l0 \<le> 40" "length l1 \<le> 40"
  shows "sorted_wrt (<) (map (\<lambda>u. unat (location u)) (row_blinks b r 0 l0 l1)) \<and>
    (\<forall>u \<in> set (row_blinks b r 0 l0 l1). r * 80 + 40 \<le> unat (location u) \<and> unat (location u) < r * 80 + 80)"
proof -
  let ?n = "max (length l0) (length l1)"
  have "sorted_wrt (<) (map (\<lambda>u. unat (location u)) (row_cell b r 0 l0 l1 k)) \<and>
      (\<forall>u \<in> set (row_cell b r 0 l0 l1 k). r * 80 + 40 + k \<le> unat (location u) \<and> unat (location u) < r * 80 + 40 + Suc k)" if "k < ?n" for k
    using frame_blink_location [OF assms(1), of k] that assms(2,3) by (simp add: row_cell_def)
  from sorted_concat [of ?n "\<lambda>u. unat (location u)" "row_cell b r 0 l0 l1" "\<lambda>k. r * 80 + 40 + k", OF this] have
    "sorted_wrt (<) (map (\<lambda>u. unat (location u)) (row_blinks b r 0 l0 l1)) \<and>
      (\<forall>u \<in> set (row_blinks b r 0 l0 l1). r * 80 + 40 + 0 \<le> unat (location u) \<and> unat (location u) < r * 80 + 40 + ?n)"
    unfolding row_blinks_cells by simp
  then show ?thesis using assms(2,3) by fastforce
qed

lemma line_at_length: "frame_ok F \<Longrightarrow> length (line_at (lines F) r) \<le> 40"
  by (simp add: frame_ok_def line_at_def)

lemma frame_blinks_sorted:
  assumes "frame_ok F" "frame_ok G"
  shows "sorted_wrt (<) (map (\<lambda>u. unat (location u)) (frame_blinks b 0 (lines F) (lines G))) \<and>
    (\<forall>u \<in> set (frame_blinks b 0 (lines F) (lines G)). 40 \<le> unat (location u) \<and> unat (location u) < 2000)"
proof -
  let ?n = "max (length (lines F)) (length (lines G))"
  let ?g = "\<lambda>r. row_blinks b (0 + r) 0 (line_at (lines F) r) (line_at (lines G) r)"
  have n: "?n \<le> 24" using assms by (simp add: frame_ok_def)
  have "sorted_wrt (<) (map (\<lambda>u. unat (location u)) (?g r)) \<and>
      (\<forall>u \<in> set (?g r). r * 80 + 40 \<le> unat (location u) \<and> unat (location u) < Suc r * 80 + 40)" if "r < ?n" for r
    using row_blinks_sorted [of r "line_at (lines F) r" "line_at (lines G) r" b] line_at_length assms that n by fastforce
  from sorted_concat [of ?n "\<lambda>u. unat (location u)" ?g "\<lambda>r. r * 80 + 40", OF this] show ?thesis
    unfolding frame_blinks_rows using n by fastforce
qed

lemma frame_blinks_regular:
  assumes "regular b" "u \<in> set (frame_blinks b row L0 L1)"
  shows "regular u \<and> on_length u = on_length b \<and> off_length u = off_length b"
proof -
  have "\<exists>r k. u \<in> set (row_cell b r 0 (line_at L0 (r - row)) (line_at L1 (r - row)) k)"
    using assms(2) unfolding frame_blinks_rows row_blinks_cells by (auto, metis diff_add_inverse)
  then obtain r k x y where "u = frame_blink r k x y b" by (auto simp: row_cell_def split: if_splits)
  then show ?thesis using assms(1) by (simp add: frame_blink_def regular_def)
qed

lemma frame_fits:
  assumes "frame_ok F" "frame_ok G" "regular b"
  shows "fits (frame_blinks b 0 (lines F) (lines G)) []"
proof -
  let ?us = "frame_blinks b 0 (lines F) (lines G)"
  note so = frame_blinks_sorted [OF assms(1,2), of b]
  have "distinct (map (\<lambda>u. unat (location u)) ?us)" using so strict_sorted_iff by blast
  then have "distinct (map location ?us)" by (auto simp: distinct_map inj_on_def)
  moreover have "location u \<noteq> 0 \<and> location u < 2000" if "u \<in> set ?us" for u
    using so that by (auto simp: word_less_nat_alt)
  ultimately show ?thesis using frame_blinks_regular [OF assms(3)] by (simp add: fits_def)
qed

text \<open>The blinks are the cells that are not blank in both frames.\<close>

lemma line_at_glyph: "length L \<le> r \<Longrightarrow> glyph (line_at L r) k = 32"
  by (simp add: line_at_def glyph_def)

lemma frame_blinks_set:
  "u \<in> set (frame_blinks b 0 L0 L1) \<longleftrightarrow> (\<exists>r k. u = frame_blink r k (glyph (line_at L0 r) k) (glyph (line_at L1 r) k) b \<and>
     (glyph (line_at L0 r) k \<noteq> 32 \<or> glyph (line_at L1 r) k \<noteq> 32))"
proof -
  have "r < max (length L0) (length L1) \<and> k < max (length (line_at L0 r)) (length (line_at L1 r))"
    if "glyph (line_at L0 r) k \<noteq> 32 \<or> glyph (line_at L1 r) k \<noteq> 32" for r k
    using that by (auto simp: glyph_def line_at_def split: if_splits)
  then show ?thesis by (fastforce simp: frame_blinks_rows row_blinks_cells row_cell_def split: if_splits)
qed

section \<open>The frames on the screen\<close>

text \<open>A regular file with the content \<open>F\<close>, by the address of its name.\<close>

definition named_file :: "u32 \<Rightarrow> u8 list \<Rightarrow> kernel \<Rightarrow> bool" where
  "named_file p F k \<longleftrightarrow> p \<noteq> 0 \<and> (\<exists>d. read_dentry_by_name (xl k) (phys k) (FSYSTEM k) (Some (buf_at (xl k) (phys k) p)) = Some d \<and>
     de_ftype d = 2 \<and> unat (de_inode d) < unat (rd32 (xl k) (phys k) (FSYSTEM k + 4)) \<and>
     F = file_bytes (xl k) (phys k) (FSYSTEM k) (de_inode d))"

definition frame_fds :: "kernel \<Rightarrow> bool" where
  "frame_fds k \<longleftrightarrow> fd_ok k \<and> f_read (ffotp k) = read_file \<and> f_close (ffotp k) = close_file"

lemma named_file_cong:
  assumes n: "named_file p F k" and c: "calm k k'" and ok: "fs_ok (xl k) (phys k) (FSYSTEM k)"
    and name: "\<And>j. j < 32 \<Longrightarrow> phys k' (xl k (p + of_nat j)) = phys k (xl k (p + of_nat j))"
  shows "named_file p F k'"
proof -
  obtain d where d: "p \<noteq> 0" "read_dentry_by_name (xl k) (phys k) (FSYSTEM k) (Some (buf_at (xl k) (phys k) p)) = Some d"
     "de_ftype d = 2" "unat (de_inode d) < unat (rd32 (xl k) (phys k) (FSYSTEM k + 4))" "F = file_bytes (xl k) (phys k) (FSYSTEM k) (de_inode d)"
    using n by (auto simp: named_file_def)
  have x: "xl k' = xl k" "FSYSTEM k' = FSYSTEM k" and eq: "\<And>a. a \<in> fs_image (xl k) (phys k) (FSYSTEM k) \<Longrightarrow> phys k' a = phys k a"
    using c by (simp_all add: calm_def)
  have "cprefix 32 (buf_at (xl k) (phys k') p) = cprefix 32 (buf_at (xl k) (phys k) p)"
    by (rule cprefix_cong) (simp add: buf_at_def name)
  then have "read_dentry_by_name (xl k) (phys k') (FSYSTEM k) (Some (buf_at (xl k) (phys k') p)) = Some d"
    using lookup_agree [OF ok eq, of "buf_at (xl k) (phys k) p"] d(2) by (simp add: lookup_name)
  moreover have "file_bytes (xl k) (phys k') (FSYSTEM k) (de_inode d) = F"
    using image_agree(4) [OF ok eq d(4)] d(5) by simp
  moreover have "rd32 (xl k) (phys k') (FSYSTEM k + 4) = rd32 (xl k) (phys k) (FSYSTEM k + 4)" by (rule image_agree(1) [OF ok eq])
  ultimately show ?thesis using d unfolding named_file_def x by auto
qed

lemma open_frame:
  assumes v: "vars_ok p q s" and n: "named_file name F (os s)" and f: "frame_fds (os s)" "\<not> fd_pool (os s) \<subseteq> fd_busy (os s)"
    and r: "r = p \<or> r = q"
  obtains i d h where "on_os (ece391_open e name) s = Some (int i, s\<lparr>os := (os s)\<lparr>dt := d, fd := (fd (os s))[i := h]\<rparr>\<rparr>)" "2 \<le> i" "i < 8"
    "flags (fd (os s) ! i) = 0" "flags h \<noteq> 0" "source i r F False (s\<lparr>os := (os s)\<lparr>dt := d, fd := (fd (os s))[i := h]\<rparr>\<rparr>)"
proof -
  let ?k = "os s"
  obtain d where d: "name \<noteq> 0" "read_dentry_by_name (xl ?k) (phys ?k) (FSYSTEM ?k) (Some (buf_at (xl ?k) (phys ?k) name)) = Some d"
     "de_ftype d = 2" "unat (de_inode d) < unat (rd32 (xl ?k) (phys ?k) (FSYSTEM ?k + 4))" "F = file_bytes (xl ?k) (phys ?k) (FSYSTEM ?k) (de_inode d)"
    using n by (auto simp: named_file_def)
  have ok: "fs_ok (xl ?k) (phys ?k) (FSYSTEM ?k)" "user_buf (xl ?k) (phys ?k) (FSYSTEM ?k) r 1" and fo: "fd_ok ?k" "f_read (ffotp ?k) = read_file"
    "f_close (ffotp ?k) = close_file" using v f(1) r by (auto simp: vars_ok_def frame_fds_def)
  obtain i h where o: "sys_open name ?k = (int i, ?k\<lparr>dt := d, fd := (fd ?k)[i := h]\<rparr>)" "2 \<le> i" "i < 8" "flags (fd ?k ! i) = 0"
      "open_inv i r 1 (?k\<lparr>dt := d, fd := (fd ?k)[i := h]\<rparr>)" "file_rest i (?k\<lparr>dt := d, fd := (fd ?k)[i := h]\<rparr>) = F" "fotp h = ffotp ?k" "flags h \<noteq> 0"
    using open_file_stream [OF fo(1) f(2) d(1,2,3) fo(2) ok(1) d(4) ok(2)] d(5) by auto
  have "on_os (ece391_open e name) s = Some (int i, s\<lparr>os := ?k\<lparr>dt := d, fd := (fd ?k)[i := h]\<rparr>\<rparr>)"
    using o(1) by (simp add: on_os_def ece391_open_def int80_def syscall_link_def returned_def)
  then show thesis by (rule that) (use o fo in \<open>simp_all add: source_def fd_ok_def\<close>)
qed

lemma opened_touched:
  assumes "i < 8" "length (fd (os s)) = 8"
  shows "touched i p s (s\<lparr>os := (os s)\<lparr>dt := d, fd := (fd (os s))[i := h]\<rparr>\<rparr>)"
  using assms by (simp add: touched_def calm_def)

lemma fd_room:
  assumes "2 \<le> card (fd_pool k - fd_busy k)" "fd k' = (fd k)[i := h]"
  shows "\<not> fd_pool k \<subseteq> fd_busy k" "\<not> fd_pool k' \<subseteq> fd_busy k'"
proof -
  show "\<not> fd_pool k \<subseteq> fd_busy k" using assms(1) by (auto simp: Diff_eq_empty_iff [THEN iffD2])
  show "\<not> fd_pool k' \<subseteq> fd_busy k'"
  proof
    assume a: "fd_pool k' \<subseteq> fd_busy k'"
    have "j \<in> fd_busy k \<or> j = i" if "j \<in> fd_pool k" for j
    proof (cases "j = i")
      case False
      then show ?thesis using a that assms(2) by (auto simp: fd_pool_def fd_busy_def)
    qed simp
    then have "fd_pool k - fd_busy k \<subseteq> {i}" by blast
    then have "card (fd_pool k - fd_busy k) \<le> card {i}" by (rule card_mono [rotated]) simp
    then show False using assms(1) by simp
  qed
qed

text \<open>The program before \<^verbatim>\<open>add_frames\<close>: the two names, the two variables, two free descriptors.\<close>

definition frames_ready :: "u32 \<Rightarrow> u8 list \<Rightarrow> u32 \<Rightarrow> u8 list \<Rightarrow> u32 \<Rightarrow> u32 \<Rightarrow> fish \<Rightarrow> bool" where
  "frames_ready f0 F0 f1 F1 p q s \<longleftrightarrow> vars_ok p q s \<and> frame_fds (os s) \<and> 2 \<le> card (fd_pool (os s) - fd_busy (os s)) \<and>
     named_file f0 F0 (os s) \<and> named_file f1 F1 (os s) \<and>
     (\<forall>j < 32. xl (os s) (f0 + of_nat j) \<notin> {xl (os s) p, xl (os s) q} \<and> xl (os s) (f1 + of_nat j) \<notin> {xl (os s) p, xl (os s) q})"

lemma ready_touched:
  assumes "frames_ready f0 F0 f1 F1 p q s" "touched i p s t \<or> touched i q s t" "fd (os t) = fd (os s)" "ffotp (os t) = ffotp (os s)"
  shows "frames_ready f0 F0 f1 F1 p q t"
proof -
  have v: "vars_ok p q s" and n: "named_file f0 F0 (os s)" "named_file f1 F1 (os s)"
    and a: "\<forall>j < 32. xl (os s) (f0 + of_nat j) \<notin> {xl (os s) p, xl (os s) q} \<and> xl (os s) (f1 + of_nat j) \<notin> {xl (os s) p, xl (os s) q}"
    using assms(1) by (simp_all add: frames_ready_def)
  have c: "calm (os s) (os t)" and ph: "\<And>x. x \<noteq> xl (os s) p \<Longrightarrow> x \<noteq> xl (os s) q \<Longrightarrow> phys (os t) x = phys (os s) x"
    using assms(2) by (auto simp: touched_def)
  have x: "xl (os t) = xl (os s)" using c by (simp add: calm_def)
  have ok: "fs_ok (xl (os s)) (phys (os s)) (FSYSTEM (os s))" using v by (simp add: vars_ok_def)
  have "named_file f0 F0 (os t)" "named_file f1 F1 (os t)" using named_file_cong [OF n(1) c ok] named_file_cong [OF n(2) c ok] a ph by auto
  then show ?thesis using assms(1,3,4) touched_vars [OF v assms(2)] a
    by (simp add: frames_ready_def x frame_fds_def fd_ok_def fd_pool_def fd_busy_def)
qed

lemma var_opened: "var p (s\<lparr>os := (os s)\<lparr>dt := d, fd := f\<rparr>\<rparr>) = var p s"
  by (simp add: var_def)

lemma open_frames:
  assumes r: "frames_ready f0 F0 f1 F1 p q s"
  obtains i t j u where "on_os (ece391_open e f0) s = Some (int i, t)" "on_os (ece391_open e f1) t = Some (int j, u)" "i < 8" "j < 8" "i \<noteq> j"
    "touched i p s t" "touched j q t u" "vars_ok p q t" "source i p F0 False u" "source j q F1 False u" "var p u = var p s" "var q u = var q s"
proof -
  have v: "vars_ok p q s" and l: "length (fd (os s)) = 8" and fr: "frame_fds (os s)" and n: "named_file f0 F0 (os s)" "named_file f1 F1 (os s)"
    and room: "2 \<le> card (fd_pool (os s) - fd_busy (os s))" using r by (simp_all add: frames_ready_def vars_ok_def)
  have ok: "fs_ok (xl (os s)) (phys (os s)) (FSYSTEM (os s))" using v by (simp add: vars_ok_def)
  have fr0: "\<not> fd_pool (os s) \<subseteq> fd_busy (os s)" by (rule fd_room(1) [OF room, of "os s" 0 "fd (os s) ! 0"]) (simp add: l)
  obtain i d h where o: "on_os (ece391_open e f0) s = Some (int i, s\<lparr>os := (os s)\<lparr>dt := d, fd := (fd (os s))[i := h]\<rparr>\<rparr>)" "2 \<le> i" "i < 8"
    "flags (fd (os s) ! i) = 0" "flags h \<noteq> 0" "source i p F0 False (s\<lparr>os := (os s)\<lparr>dt := d, fd := (fd (os s))[i := h]\<rparr>\<rparr>)"
    by (rule open_frame [OF v n(1) fr fr0, of p]) simp_all
  let ?t = "s\<lparr>os := (os s)\<lparr>dt := d, fd := (fd (os s))[i := h]\<rparr>\<rparr>"
  have tt: "touched i p s ?t" by (rule opened_touched [OF o(3) l])
  have vt: "vars_ok p q ?t" using touched_vars [OF v] tt by blast
  have nt: "named_file f1 F1 (os ?t)" by (rule named_file_cong [OF n(2) _ ok]) (use tt in \<open>simp_all add: touched_def\<close>)
  have ft: "frame_fds (os ?t)" using fr by (simp add: frame_fds_def fd_ok_def)
  have rt: "\<not> fd_pool (os ?t) \<subseteq> fd_busy (os ?t)" by (rule fd_room(2) [OF room]) simp
  obtain j d' h' where o': "on_os (ece391_open e f1) ?t = Some (int j, ?t\<lparr>os := (os ?t)\<lparr>dt := d', fd := (fd (os ?t))[j := h']\<rparr>\<rparr>)" "2 \<le> j" "j < 8"
    "flags (fd (os ?t) ! j) = 0" "source j q F1 False (?t\<lparr>os := (os ?t)\<lparr>dt := d', fd := (fd (os ?t))[j := h']\<rparr>\<rparr>)"
    by (rule open_frame [OF vt nt ft rt, of q]) simp_all
  let ?u = "?t\<lparr>os := (os ?t)\<lparr>dt := d', fd := (fd (os ?t))[j := h']\<rparr>\<rparr>"
  have uu: "touched j q ?t ?u" by (rule opened_touched [OF o'(3)]) (simp add: l)
  have ij: "i \<noteq> j" using o'(4) o(3,5) l by auto
  have "source i p F0 False ?u" by (rule touched_other(1) [OF vars_ok_swap [OF vt] uu o(6) ij])
  then show thesis using that [OF o(1) o'(1) o(3) o'(3) ij tt uu vt _ o'(5)] by (simp add: var_def)
qed

lemma add_frames_reads:
  assumes r: "frames_ready f0 F0 f1 F1 p q s" and b: "blinks s []" and ft: "fits (frame_blinks (b\<lparr>on_length := 15, off_length := 15\<rparr>) 0 (lines F0) (lines F1)) []"
  shows "\<exists>t i j f g. add_frames e f0 f1 p q b s = Some (None, t) \<and>
    reading (vmem s) i p j q f g (rev (map started (frame_blinks (b\<lparr>on_length := 15, off_length := 15\<rparr>) 0 (lines F0) (lines F1)))) t"
proof -
  let ?b = "b\<lparr>on_length := 15, off_length := 15\<rparr>" and ?s1 = "set_var p 48 s" and ?s2 = "set_var q 48 (set_var p 48 s)"
  have v: "vars_ok p q s" using r by (simp add: frames_ready_def)
  have t1: "touched 0 p s ?s1 \<or> touched 0 q s ?s1" using set_var_touched(1) [OF v] by blast
  have v1: "vars_ok p q ?s1" by (rule touched_vars [OF v t1])
  have q1: "touched 0 q ?s1 ?s2" "var q ?s2 = 48" by (rule set_var_touched [OF vars_ok_swap [OF v1]])+
  have t2: "touched 0 p ?s1 ?s2 \<or> touched 0 q ?s1 ?s2" using q1(1) by blast
  have r1: "frames_ready f0 F0 f1 F1 p q ?s1" by (rule ready_touched [OF r t1]) (simp_all add: set_var_def poke_def)
  have r2: "frames_ready f0 F0 f1 F1 p q ?s2" by (rule ready_touched [OF r1 t2]) (simp_all add: set_var_def poke_def)
  have v2: "vars_ok p q ?s2" using r2 by (simp add: frames_ready_def)
  have p2: "var p ?s2 = 48" using set_var_touched(2) [OF v, of 48] q1(1) v1 by (auto simp: var_def vars_ok_def touched_def calm_def)
  obtain i t j u where o: "on_os (ece391_open e f0) ?s2 = Some (int i, t)" "on_os (ece391_open e f1) t = Some (int j, u)" "i < 8" "j < 8" "i \<noteq> j"
    "touched i p ?s2 t" "touched j q t u" "vars_ok p q t" "source i p F0 False u" "source j q F1 False u" "var p u = var p ?s2" "var q u = var q ?s2"
    by (rule open_frames [OF r2])
  have t3: "touched i p ?s2 t \<or> touched i q ?s2 t" and t4: "touched j p t u \<or> touched j q t u" using o(6,7) by simp_all
  note pg1 = touched_page [OF v t1] and pg2 = touched_page [OF v1 t2] and pg3 = touched_page [OF v2 t3] and pg4 = touched_page [OF o(8) t4]
  have "blinks u []" by (rule pg4(3) [OF pg3(3) [OF pg2(3) [OF pg1(3) [OF b]]]])
  moreover have "vmem u = vmem s" using pg1(2) pg2(2) pg3(2) pg4(2) by simp
  ultimately have rd: "reading (vmem s) i p j q (F0, False, True) (F1, False, True) [] u"
    using touched_vars [OF o(8) t4] o(9-12) p2 q1(2) by (simp add: reading_def fresh_def kept_def)
  obtain w f g where w: "frame_rows e (of_nat i) (of_nat j) p q 0 False False ?b u = Some w"
      "reading (vmem s) i p j q f g (rev (map started (frame_blinks ?b 0 (lines F0) (lines F1)))) w"
    using frame_rows_read [OF o(5) rd, of ?b 0 e] ft by (auto simp: between_def lines_left_def)
  have "add_frames e f0 f1 p q b s = Some (None, w)" using o(1,2) w(1) by (simp add: add_frames_def Let_def)
  then show ?thesis using w(2) by blast
qed

text \<open>The character a frame has in a row and a column; blank after the end of a line and of the file.\<close>

definition frame_glyph :: "u8 list \<Rightarrow> nat \<Rightarrow> nat \<Rightarrow> u8" where
  "frame_glyph F r c = glyph (line_at (lines F) r) c"

lemma frame_glyph_char: "frame_glyph F r c \<noteq> 10"
proof (cases "r < length (lines F) \<and> c < length (lines F ! r)")
  case True
  then have "frame_glyph F r c \<in> set (lines F ! r)" "lines F ! r \<in> set (lines F)" by (simp_all add: frame_glyph_def glyph_def line_at_def)
  then show ?thesis using lines_no_newline by metis
next
  case False
  then show ?thesis by (auto simp: frame_glyph_def glyph_def line_at_def)
qed

lemma cell_unique:
  assumes "c < 40" "c' < 40" "r' * 80 + c' = r * 80 + (c :: nat)"
  shows "r' = r" "c' = c"
proof -
  have "(r' * 80 + c') div 80 = r'" "(r * 80 + c) div 80 = r" using assms(1,2) by simp_all
  then show "r' = r" using assms(3) by simp
  then show "c' = c" using assms(3) by simp
qed

lemma frame_glyph_range:
  assumes "frame_ok F" "frame_glyph F r c \<noteq> 32"
  shows "r < 24" "c < 40"
  using assms line_at_length [OF assms(1), of r] by (auto simp: frame_glyph_def glyph_def line_at_def frame_ok_def split: if_splits)

text \<open>
  C10. The frames appear on the screen: from two files whose lines fit into the right half of the screen, \<^verbatim>\<open>add_frames\<close>
  returns, and after any number \<open>n\<close> of ticks every cell of the area where one of the frames is not blank shows the first
  frame while \<open>n\<close> modulo 30 is less than 15 and the second frame otherwise; the cells that are blank in both frames keep
  their characters.
\<close>

theorem fish_shows_frames:
  assumes ready: "frames_ready f0 F0 f1 F1 p q (empty_fish base k)" and page: "page_ok (empty_fish base k)" and ok: "frame_ok F0" "frame_ok F1"
  shows "\<exists>t u. add_frames e f0 f1 p q b (empty_fish base k) = Some (None, t) \<and> tasklets n t = Some u \<and>
    (\<forall>r < 24. \<forall>c < 40. vmem u ! (2 * (r * 80 + c + 40)) =
       (if frame_glyph F0 r c = 32 \<and> frame_glyph F1 r c = 32 then vmem (empty_fish base k) ! (2 * (r * 80 + c + 40))
        else if n mod 30 < 15 then frame_glyph F0 r c else frame_glyph F1 r c))"
proof -
  let ?b = "b\<lparr>on_length := 15, off_length := 15\<rparr>" and ?s = "empty_fish base k"
  let ?B = "frame_blinks ?b 0 (lines F0) (lines F1)"
  have reg: "regular ?b" by (simp add: regular_def)
  obtain t i j f g where t: "add_frames e f0 f1 p q b ?s = Some (None, t)" "reading (vmem ?s) i p j q f g (rev (map started ?B)) t"
    using add_frames_reads [OF ready empty_blinks [OF page] frame_fits [OF ok reg]] by blast
  have bl: "blinks t (rev (map started ?B))" "fresh (rev (map started ?B)) t" "kept (vmem ?s) (rev (map started ?B)) t"
    using t(2) by (cases f; cases g; simp add: reading_def)+
  obtain u where u: "tasklets n t = Some u"
    "\<forall>b \<in> set ?B. vmem u ! unat (blink_cell b) = (if n mod 30 < 15 then on_char b else off_char b)"
    "\<forall>l. (\<forall>b \<in> set ?B. unat (blink_cell b) \<noteq> l) \<longrightarrow> vmem u ! l = vmem t ! l"
    using tasklets_blinks [OF bl(1,2), of n] frame_blinks_regular [OF reg, of _ 0 "lines F0" "lines F1"]
    by (auto simp: lit_after_def period_def)
  have mem: "x \<in> set ?B \<longleftrightarrow> (\<exists>r c. x = frame_blink r c (frame_glyph F0 r c) (frame_glyph F1 r c) ?b \<and> (frame_glyph F0 r c \<noteq> 32 \<or> frame_glyph F1 r c \<noteq> 32))" for x
    unfolding frame_blinks_set frame_glyph_def ..
  have "vmem u ! (2 * (r * 80 + c + 40)) =
      (if frame_glyph F0 r c = 32 \<and> frame_glyph F1 r c = 32 then vmem ?s ! (2 * (r * 80 + c + 40))
       else if n mod 30 < 15 then frame_glyph F0 r c else frame_glyph F1 r c)" if rc: "r < 24" "c < 40" for r c
  proof (cases "frame_glyph F0 r c = 32 \<and> frame_glyph F1 r c = 32")
    case True
    have "unat (blink_cell x) \<noteq> 2 * (r * 80 + c + 40)" if xB: "x \<in> set ?B" for x
    proof -
      obtain r' c' where x: "x = frame_blink r' c' (frame_glyph F0 r' c') (frame_glyph F1 r' c') ?b" "frame_glyph F0 r' c' \<noteq> 32 \<or> frame_glyph F1 r' c' \<noteq> 32"
        using xB mem by blast
      have rc': "r' < 24" "c' < 40" using frame_glyph_range ok x(2) by blast+
      have "r' \<noteq> r \<or> c' \<noteq> c" using x(2) True by auto
      then have "r' * 80 + c' \<noteq> r * 80 + c" using cell_unique rc(2) rc'(2) by blast
      then show ?thesis using frame_blink_location [OF rc'] by (simp add: unat_cell x(1))
    qed
    then show ?thesis using True u(3) bl(3) by (simp add: kept_def)
  next
    case False
    let ?x = "frame_blink r c (frame_glyph F0 r c) (frame_glyph F1 r c) ?b"
    have "?x \<in> set ?B" using mem False by blast
    then have "vmem u ! unat (blink_cell ?x) = (if n mod 30 < 15 then on_char ?x else off_char ?x)" using u(2) by blast
    moreover have "unat (blink_cell ?x) = 2 * (r * 80 + c + 40)" using frame_blink_location [OF rc] by (simp add: unat_cell)
    ultimately show ?thesis using False by (auto simp: frame_blink_def frame_glyph_char)
  qed
  then show ?thesis using t(1) u(1) by blast
qed

text \<open>The frames that come with the program fit on the screen.\<close>

definition frame0_txt :: "u8 list" where
  "frame0_txt =
    [47, 92, 47, 92, 47, 92, 47, 92, 47, 92, 47, 92, 47, 92, 47, 92, 47, 92, 47, 92, 47, 92, 47, 92, 10,
     32, 32, 32, 32, 32, 32, 32, 32, 32, 111, 10,
     32, 32, 32, 32, 32, 32, 32, 32, 32, 32, 32, 111, 32, 32, 32, 32, 111, 10,
     32, 32, 32, 32, 32, 32, 32, 111, 10,
     32, 32, 32, 32, 32, 32, 32, 32, 32, 32, 32, 32, 32, 111, 10,
     32, 32, 32, 32, 32, 32, 32, 32, 111, 32, 32, 32, 32, 32, 79, 10,
     32, 32, 32, 32, 95, 32, 32, 32, 32, 92, 10,
     32, 124, 92, 47, 46, 92, 32, 32, 32, 124, 32, 92, 47, 32, 32, 47, 32, 32, 47, 10,
     32, 124, 61, 32, 32, 95, 62, 32, 32, 32, 92, 124, 32, 32, 32, 92, 32, 47, 10,
     32, 124, 47, 92, 95, 47, 32, 32, 32, 32, 124, 47, 32, 32, 32, 124, 47, 10,
     45, 45, 45, 45, 45, 45, 45, 45, 45, 45, 77, 45, 45, 45, 45, 77, 45, 45, 45, 45, 45, 45, 45, 45, 10]"

definition frame1_txt :: "u8 list" where
  "frame1_txt =
    [92, 47, 92, 47, 92, 47, 92, 47, 92, 47, 92, 47, 92, 47, 92, 47, 92, 47, 92, 47, 92, 47, 92, 47, 10,
     32, 32, 32, 32, 32, 32, 32, 32, 32, 32, 32, 111, 32, 32, 32, 32, 111, 10,
     32, 32, 32, 32, 32, 32, 32, 111, 10,
     32, 32, 32, 32, 32, 32, 32, 32, 32, 32, 32, 32, 32, 111, 10,
     32, 32, 32, 32, 32, 32, 32, 32, 111, 32, 32, 32, 32, 32, 111, 10,
     10,
     32, 32, 32, 32, 95, 32, 32, 32, 47, 10,
     32, 124, 92, 47, 46, 92, 32, 32, 92, 32, 92, 47, 32, 32, 92, 32, 32, 47, 10,
     32, 124, 61, 32, 32, 95, 62, 32, 32, 92, 32, 92, 32, 32, 32, 92, 124, 10,
     32, 124, 47, 92, 95, 62, 32, 32, 32, 32, 124, 47, 32, 32, 32, 124, 47, 10,
     45, 45, 45, 45, 45, 45, 45, 45, 45, 45, 77, 45, 45, 45, 45, 77, 45, 45, 45, 45, 45, 45, 45, 45, 10]"

lemma given_frames_fit: "frame_ok frame0_txt" "frame_ok frame1_txt"
  by code_simp+

section \<open>The rest of the program\<close>

text \<open>What the rest of the program may change: the variable, the even bytes of the page, and the state of the clock.\<close>

definition played :: "u32 set \<Rightarrow> fish \<Rightarrow> fish \<Rightarrow> bool" where
  "played R s t \<longleftrightarrow> vmem_base_addr t = vmem_base_addr s \<and> xl (os t) = xl (os s) \<and> fd (os t) = fd (os s) \<and>
     (\<forall>a. a \<notin> R \<and> a \<notin> (\<lambda>l. byte_addr s (2 * l)) ` {..<2000} \<longrightarrow> phys (os t) a = phys (os s) a)"

lemma played_trans: "played R s t \<Longrightarrow> played R t u \<Longrightarrow> played R s u"
  by (simp add: played_def byte_addr_def)

lemma played_drawn: "drawn s t \<Longrightarrow> played R s t"
proof -
  assume d: "drawn s t"
  then obtain m where m: "os t = (os s)\<lparr>phys := m\<rparr>" by (auto simp: drawn_def)
  then show ?thesis using d by (simp add: played_def drawn_def)
qed

lemma played_clocked: "clocked (os s) k \<Longrightarrow> played R s (s\<lparr>os := k\<rparr>)"
  using clocked_keeps [of "os s" k] by (simp add: played_def)

lemma played_store: "xl (os s) ` region p 4 = R \<Longrightarrow> played R s (s\<lparr>os := store32 p w (os s)\<rparr>)"
proof -
  assume R: "xl (os s) ` region p 4 = R"
  have st: "stored p 4 (os s) (store32 p w (os s))" using stored_store32(1) [of 0 4 p "os s" w] by simp
  then obtain m where "store32 p w (os s) = (os s)\<lparr>phys := m\<rparr>" by (auto simp: stored_def)
  then show ?thesis using st R by (simp add: played_def stored_def)
qed

lemma blinks_os: "blinks s xs \<Longrightarrow> xl k = xl (os s) \<Longrightarrow> blinks (s\<lparr>os := k\<rparr>) xs"
  by (simp add: blinks_def linked_def page_ok_def byte_addr_def cong: inj_on_cong)

text \<open>The program between two commands: the clock is open, the list is well formed.\<close>

definition playing :: "u32 set \<Rightarrow> nat \<Rightarrow> fish \<Rightarrow> fish \<Rightarrow> bool" where
  "playing R i s t \<longleftrightarrow> played R s t \<and> clock_fd i (os t) \<and> (\<exists>xs. blinks t xs)"

lemma playing_next: "playing R i s t \<Longrightarrow> played R t u \<Longrightarrow> blinks u xs \<Longrightarrow> playing R i s u"
  using played_trans [of R s t u] by (auto simp: playing_def played_def clock_fd_def)

lemma fish_wait_returns:
  assumes "ticking e" "garbage \<noteq> 0"
  shows "playing R i s t \<Longrightarrow> \<exists>u. fish_wait e (of_nat i) garbage n t = Some u \<and> playing R i s u"
proof (induction n arbitrary: t)
  case 0
  then show ?case by simp
next
  case (Suc n)
  obtain xs where t: "clock_fd i (os t)" "blinks t xs" using Suc.prems by (auto simp: playing_def)
  obtain k where k: "ece391_read e (of_nat i) garbage 4 (os t) = Some (0, k)" "clocked (os t) k" by (rule read_tick [OF assms(1) t(1) assms(2)])
  have b: "blinks (t\<lparr>os := k\<rparr>) xs" by (rule blinks_os [OF t(2) clocked_keeps(1) [OF k(2)]])
  have pk: "playing R i s (t\<lparr>os := k\<rparr>)" by (rule playing_next [OF Suc.prems played_clocked [OF k(2)] b])
  obtain u where u: "mp1_rtc_tasklet (t\<lparr>os := k\<rparr>) = Some u" "blinks u (map tick xs)" "drawn (t\<lparr>os := k\<rparr>) u" using tasklet_blinks [OF b] by metis
  have "playing R i s u" by (rule playing_next [OF pk played_drawn [OF u(3)] u(2)])
  then show ?case using Suc.IH k(1) u(1) by (simp add: on_os_def)
qed

lemma command_returns:
  assumes "playing R i s t" "cmd < 4" "cmd = 0 \<longrightarrow> location b \<noteq> 0"
  shows "\<exists>r b' u. mp1_ioctl b w cmd t = Some (r, b', u) \<and> playing R i s u"
proof -
  obtain xs where "blinks t xs" using assms(1) by (auto simp: playing_def)
  then show ?thesis using ioctl_refinement [OF _ assms(2,3), of t xs w] playing_next [OF assms(1) played_drawn] by metis
qed

lemma playing_store:
  assumes "playing R i s t" "xl (os s) ` region p 4 = R"
  shows "playing R i s (t\<lparr>os := store32 p w (os t)\<rparr>)"
proof -
  obtain xs where b: "blinks t xs" using assms(1) by (auto simp: playing_def)
  have "xl (os t) ` region p 4 = R" using assms by (simp add: playing_def played_def)
  then have pl: "played R t (t\<lparr>os := store32 p w (os t)\<rparr>)" by (rule played_store)
  then have "xl (store32 p w (os t)) = xl (os t)" by (simp add: played_def)
  then show ?thesis by (rule playing_next [OF assms(1) pl blinks_os [OF b]])
qed

lemma playing_rate:
  assumes "playing R i s t" "p \<noteq> 0"
  shows "\<exists>r u. on_os (ece391_write e (of_nat i) p 4) t = Some (r, u) \<and> playing R i s u"
proof -
  obtain xs where b: "blinks t xs" and c: "clock_fd i (os t)" using assms(1) by (auto simp: playing_def)
  obtain r k where k: "ece391_write e (of_nat i) p 4 (os t) = Some (r, k)" "clocked (os t) k" by (rule write_rate [OF c assms(2)])
  have "playing R i s (t\<lparr>os := k\<rparr>)" by (rule playing_next [OF assms(1) played_clocked [OF k(2)] blinks_os [OF b clocked_keeps(1) [OF k(2)]]])
  then show ?thesis using k(1) by (simp add: on_os_def)
qed

text \<open>
  C14. The program ends: with the clock open and ticking, and the list of characters well formed, the part of \<^verbatim>\<open>main\<close> after
  \<^verbatim>\<open>add_frames\<close> runs through its four waits, of 2600 ticks in all, and its three commands and returns 0; the clock's
  descriptor is free again, and no memory outside the character cells of the page and the variable \<^verbatim>\<open>ret_val\<close> has changed.
\<close>

theorem fish_play_returns:
  assumes s: "blinks s xs" and c: "clock_fd i (os s)" "f_close (fotp (fd (os s) ! i)) = close_rtc" "length (fd (os s)) = 8"
    and e: "ticking e" "garbage \<noteq> 0" "ret_val \<noteq> 0"
  shows "\<exists>t. fish_play e (of_nat i) ret_val garbage b s = Some (0, t) \<and> i \<notin> fd_busy (os t) \<and>
    (\<forall>a. a \<notin> xl (os s) ` region ret_val 4 \<and> a \<notin> (\<lambda>l. byte_addr s (2 * l)) ` {..<2000} \<longrightarrow> phys (os t) a = phys (os s) a)"
proof -
  let ?R = "xl (os s) ` region ret_val 4" and ?w = "fish_wait e (of_nat i) garbage"
  let ?b = "b\<lparr>on_char := 73, off_char := 77, on_length := 7, off_length := 6, location := 6 * 80 + 60\<rparr>"
  note wait = fish_wait_returns [OF e(1,2), of ?R i s] and cmd = command_returns [of ?R i s]
  have "playing ?R i s s" using s c by (auto simp: playing_def played_def)
  then have "playing ?R i s (s\<lparr>os := store32 ret_val 32 (os s)\<rparr>)" by (rule playing_store) simp
  from playing_rate [OF this e(3)] obtain r s1 where
    s1: "on_os (ece391_write e (of_nat i) ret_val 4) (s\<lparr>os := store32 ret_val 32 (os s)\<rparr>) = Some (r, s1)" "playing ?R i s s1" by blast
  have "playing ?R i s (s1\<lparr>os := store32 ret_val (word_of_int r) (os s1)\<rparr>)" by (rule playing_store [OF s1(2)]) simp
  from wait [OF this] obtain s2 where s2: "?w 200 (s1\<lparr>os := store32 ret_val (word_of_int r) (os s1)\<rparr>) = Some s2" "playing ?R i s s2" by blast
  obtain r3 b3 s3 where s3: "mp1_ioctl ?b 0 0 s2 = Some (r3, b3, s3)" "playing ?R i s s3" using cmd [OF s2(2), of 0 ?b 0] by auto
  obtain s4 where s4: "?w 200 s3 = Some s4" "playing ?R i s s4" using wait [OF s3(2)] by blast
  obtain r5 b5 s5 where s5: "mp1_ioctl b3 (push_bit 16 40 OR (6 * 80 + 60)) 3 s4 = Some (r5, b5, s5)" "playing ?R i s s5"
    using cmd [OF s4(2), of 3 b3 "push_bit 16 40 OR (6 * 80 + 60)"] by auto
  obtain s6 where s6: "?w 200 s5 = Some s6" "playing ?R i s s6" using wait [OF s5(2)] by blast
  obtain r7 b7 s7 where s7: "mp1_ioctl (b5\<lparr>location := 60\<rparr>) 200 1 s6 = Some (r7, b7, s7)" "playing ?R i s s7"
    using cmd [OF s6(2), of 1 "b5\<lparr>location := 60\<rparr>" 200] by auto
  obtain s8 where s8: "?w (80 * 25) s7 = Some s8" "playing ?R i s s8" using wait [OF s7(2)] by blast
  have pl: "played ?R s s8" using s8(2) by (simp add: playing_def)
  let ?k = "(os s8)\<lparr>fd := (fd (os s8))[i := (fd (os s8) ! i)\<lparr>flags := 0\<rparr>]\<rparr>"
  have si: "sint (of_nat i :: u32) = int i" using c(1) by (intro small_sint) (simp add: clock_fd_def)
  have f8: "fd (os s8) = fd (os s)" using pl by (simp add: played_def)
  have "\<exists>r. on_os (ece391_close e (of_nat i)) s8 = Some (r, s8\<lparr>os := ?k\<rparr>)"
    using c by (auto simp: on_os_def ece391_close_def int80_def syscall_link_def sys_close_def si Let_def f8 clock_fd_def rtc_close_def)
  then obtain r where "on_os (ece391_close e (of_nat i)) s8 = Some (r, s8\<lparr>os := ?k\<rparr>)" ..
  then have "fish_play e (of_nat i) ret_val garbage b s = Some (0, s8\<lparr>os := ?k\<rparr>)"
    using s1(1) s2(1) s3(1) s4(1) s5(1) s6(1) s7(1) s8(1) by (simp add: fish_play_def Let_def)
  moreover have "i \<notin> fd_busy ?k" using c(1,3) f8 by (simp add: fd_busy_def clock_fd_def)
  ultimately show ?thesis using pl by (simp add: played_def)
qed

section \<open>Witnesses\<close>

lemma abc_lines: "lines [97, 98, 99] = [[97, 98, 99]]"
  by (simp add: lines.simps)

lemma off_apart:
  fixes y :: u32
  assumes "k < n" "unat a + n \<le> 2 ^ 32" "unat y < unat a \<or> unat a + n \<le> unat y"
  shows "a + of_nat k \<noteq> y"
  using region_memI [OF assms(1), of a] region_nowrap [OF assms(2)] assms(3) by fastforce

lemma list_fs_size: "fs_image id list_fs 0x500000 = region 0x500000 12288"
  using list_fs_rd by (simp add: fs_image_def fs_size_def)

lemma fish0_ready: "frames_ready 0x500040 [97, 98, 99] 0x500040 [97, 98, 99] 0x600000 0x600001 fish0"
proof -
  let ?d = "dentry_at id list_fs 0x500040"
  have x: "os fish0 = prog_kernel" by (simp add: empty_fish_def)
  have d: "de_ftype ?d = 2" "de_inode ?d = 0" by (simp_all add: dentry_at_def list_fs_def tiny_fs_def)
  have "named_file 0x500040 [97, 98, 99] prog_kernel"
    using list_lookup(1) d list_fs_rd list_fs_bytes by (simp add: named_file_def prog_kernel_fields)
  moreover have "frame_fds prog_kernel" 
    using prog_kernel_fields by (simp add: frame_fds_def) (simp add: prog_kernel_def list_kernel_def initFOTP_def Let_def)
  moreover have "fd_pool prog_kernel - fd_busy prog_kernel = {2..<8}"
    by (auto simp: fd_pool_def fd_busy_def prog_kernel_def list_kernel_def initFOTP_def Let_def blank_kernel_def null_file_def nth_list_update)
  moreover have "vars_ok 0x600000 0x600001 fish0"
  proof -
    have "user_buf id list_fs 0x500000 0x600001 1" 
      using list_fs_rd by (auto simp: user_buf_def fs_image_def fs_size_def region_nowrap)
    moreover have "(0x700000 :: u32) + of_nat k \<notin> region 0x500000 12288 \<and> 0x700000 + of_nat k \<noteq> (0x600000 :: u32) \<and> 0x700000 + of_nat k \<noteq> (0x600001 :: u32)" if "k < 4000" for k
      using off_apart [OF that, of "0x700000"] region_memI [OF that, of "0x700000"] by (auto simp: region_nowrap)
    ultimately show ?thesis using list_user_buf [of 1] list_fs_ok prog_kernel_fields(4)
      by (simp add: vars_ok_def byte_addr_def x prog_kernel_fields fd_ok_def list_fs_size) (simp add: empty_fish_def)
  qed
  moreover have "0x500040 + of_nat j \<noteq> (0x600000 :: u32)" "0x500040 + of_nat j \<noteq> (0x600001 :: u32)" if "j < 32" for j
    by (rule off_apart [OF that]; simp)+
  ultimately show ?thesis by (simp add: frames_ready_def x prog_kernel_fields)
qed

theorem fish_shows_frames_witness:
  "\<exists>t u. add_frames plain_env 0x500040 0x500040 0x600000 0x600001 null_blink fish0 = Some (None, t) \<and> tasklets 200 t = Some u \<and> vmem u ! 82 = 98"
proof -
  have "frame_ok [97, 98, 99]" by (simp add: frame_ok_def abc_lines)
  note w = fish_shows_frames [OF fish0_ready fish0_page this this, of plain_env null_blink 200]
  have g: "frame_glyph [97, 98, 99] 0 1 = 98" by (simp add: frame_glyph_def glyph_def line_at_def abc_lines)
  obtain t u where t: "add_frames plain_env 0x500040 0x500040 0x600000 0x600001 null_blink fish0 = Some (None, t)" "tasklets 200 t = Some u"
    "\<forall>r < 24. \<forall>c < 40. vmem u ! (2 * (r * 80 + c + 40)) =
       (if frame_glyph [97, 98, 99] r c = 32 \<and> frame_glyph [97, 98, 99] r c = 32 then vmem fish0 ! (2 * (r * 80 + c + 40))
        else if 200 mod 30 < (15 :: nat) then frame_glyph [97, 98, 99] r c else frame_glyph [97, 98, 99] r c)"
    using w by blast
  have "vmem u ! 82 = 98" using t(3) [rule_format, of 0 1] g by simp
  then show ?thesis using t(1,2) by blast
qed

text \<open>The kernel of the other witnesses with the clock open as descriptor 2.\<close>

definition rtc_kernel :: kernel where
  "rtc_kernel = prog_kernel\<lparr>fd := (fd prog_kernel)[2 := new_fd 0 prog_kernel]\<rparr>"

theorem fish_play_returns_witness:
  "\<exists>t. fish_play (plain_env\<lparr>irqs := [rtc_handler (dev plain_env)]\<rparr>) 2 0x600000 0x600004 null_blink (empty_fish 0x700000 rtc_kernel) = Some (0, t) \<and>
     2 \<notin> fd_busy (os t)"
proof -
  let ?s = "empty_fish 0x700000 rtc_kernel"
  have l: "length (fd prog_kernel) = 8" using prog_kernel_fields(4) by (simp add: fd_ok_def)
  have x: "os ?s = rtc_kernel" "vmem_base_addr ?s = vmem_base_addr fish0" by (simp_all add: empty_fish_def)
  have "xl rtc_kernel = xl prog_kernel" by (rule xl_cong) (simp_all add: rtc_kernel_def)
  then have "page_ok ?s" using fish0_page by (simp add: page_ok_def byte_addr_def [abs_def] x) (simp add: empty_fish_def)
  then have b: "blinks ?s []" by (rule empty_blinks)
  have c: "clock_fd 2 (os ?s)" "f_close (fotp (fd (os ?s) ! 2)) = close_rtc" "length (fd (os ?s)) = 8"
    unfolding x(1) using l by (simp_all add: rtc_kernel_def clock_fd_def new_fd_def) (simp_all add: prog_kernel_def list_kernel_def initFOTP_def Let_def)
  have e: "ticking (plain_env\<lparr>irqs := [rtc_handler (dev plain_env)]\<rparr>)" by (simp add: ticking_def)
  have nz: "(0x600004 :: u32) \<noteq> 0" "(0x600000 :: u32) \<noteq> 0" by simp_all
  obtain t where "fish_play (plain_env\<lparr>irqs := [rtc_handler (dev plain_env)]\<rparr>) (of_nat 2) 0x600000 0x600004 null_blink ?s = Some (0, t)" "2 \<notin> fd_busy (os t)"
    using fish_play_returns [OF b c e nz, of null_blink] by (elim exE conjE)
  then show ?thesis unfolding of_nat_numeral by blast
qed

end
