(* ===== verification/Protection.thy ===== *)
theory Protection
  imports Boot
begin

text \<open>
  Memory protection over the whole life of the system. The page tables are invariant under every entry into the kernel: the kernel's
  own pages stay closed to user mode, and the pages that are open lead to the frames of the process slots, to video memory and to the back buffers only.
  The invariant is shown for start-up and for every operation the handlers reach.
\<close>

section \<open>The invariant\<close>

text \<open>
  The entry of the program page is not present or leads to the frame of a process slot; the entry of a terminal's window is not
  present or leads to video memory or to the terminal's back buffer. The numbers these entries are computed from stay in their ranges.
\<close>

definition program_entry :: "u32 \<Rightarrow> bool" where
  "program_entry w \<longleftrightarrow> \<not> bit w 0 \<or> (\<exists>p. 0 \<le> p \<and> p \<le> 5 \<and> w = program_frame p OR RESERV_CODE)"

definition window_entry :: "nat \<Rightarrow> u32 \<Rightarrow> bool" where
  "window_entry k w \<longleftrightarrow> \<not> bit w 0 \<or> w = VIDEO OR RESERV_CODE_2 \<or> w = scr_mem k OR RESERV_CODE_2"

definition guarded :: "kernel \<Rightarrow> bool" where
  "guarded s \<longleftrightarrow> kernel_maps s \<and> indicator s \<in> {1, 2, 3} \<and> 0 \<le> pnum s \<and> pnum s \<le> 5 \<and>
     (\<forall>a. 0 \<le> pid (pcbs s a) \<and> pid (pcbs s a) \<le> 5) \<and> program_entry (page_directory s ! 32) \<and>
     (\<forall>k \<in> {1, 2, 3}. window_entry k (page_table_2 s ! (VIDEO_PAGE_OFF + k)))"

lemma guardedD:
  assumes "guarded s"
  shows "kernel_maps s" "indicator s \<in> {1, 2, 3}" "0 \<le> pnum s" "pnum s \<le> 5" "0 \<le> pid (pcbs s a)" "pid (pcbs s a) \<le> 5" "program_entry (page_directory s ! 32)"
    and "k \<in> {1, 2, 3} \<Longrightarrow> window_entry k (page_table_2 s ! (VIDEO_PAGE_OFF + k))"
  using assms unfolding guarded_def by blast+

lemma guarded_cong:
  assumes "page_directory s = page_directory t" "page_table s = page_table t" "page_table_2 s = page_table_2 t" "pt_addr s = pt_addr t"
    "pt2_addr s = pt2_addr t" "indicator s = indicator t" "pnum s = pnum t" "pcbs s = pcbs t"
  shows "guarded s = guarded t"
  unfolding guarded_def kernel_maps_cong [OF assms(1-5)] assms(1,3,6-8) ..

lemma guarded_updates [simp]:
  "guarded (s\<lparr>phys := m\<rparr>) = guarded s" "guarded (s\<lparr>io_log := l\<rparr>) = guarded s" "guarded (s\<lparr>iflag := b\<rparr>) = guarded s"
  "guarded (s\<lparr>read_flag := i\<rparr>) = guarded s" "guarded (s\<lparr>quantum := i\<rparr>) = guarded s" "guarded (s\<lparr>screen_x := i\<rparr>) = guarded s"
  "guarded (s\<lparr>screen_y := i\<rparr>) = guarded s" "guarded (s\<lparr>tbuffer := bs\<rparr>) = guarded s" "guarded (s\<lparr>tbuf := i\<rparr>) = guarded s"
  "guarded (s\<lparr>tflag := i\<rparr>) = guarded s" "guarded (s\<lparr>tlb := c\<rparr>) = guarded s" "guarded (s\<lparr>fd := fs\<rparr>) = guarded s"
  "guarded (s\<lparr>pnumarr := xs\<rparr>) = guarded s" "guarded (s\<lparr>curr_pcb := w\<rparr>) = guarded s" "guarded (s\<lparr>filename := bs\<rparr>) = guarded s"
  "guarded (s\<lparr>arg := bs\<rparr>) = guarded s" "guarded (s\<lparr>dentry := d\<rparr>) = guarded s" "guarded (s\<lparr>dt := d\<rparr>) = guarded s"
  "guarded (s\<lparr>addrPage := w\<rparr>) = guarded s" "guarded (s\<lparr>tss_esp0 := w\<rparr>) = guarded s" "guarded (s\<lparr>fts_1 := i\<rparr>) = guarded s"
  "guarded (s\<lparr>fts_2 := i\<rparr>) = guarded s" "guarded (s\<lparr>fts_3 := i\<rparr>) = guarded s" "guarded (s\<lparr>active := i\<rparr>) = guarded s"
  "guarded (s\<lparr>saved1 := v\<rparr>) = guarded s" "guarded (s\<lparr>saved2 := v\<rparr>) = guarded s" "guarded (s\<lparr>saved3 := v\<rparr>) = guarded s"
  "guarded (s\<lparr>procs := q\<rparr>) = guarded s" "guarded (s\<lparr>head := h\<rparr>) = guarded s" "guarded (s\<lparr>trfotp := o1\<rparr>) = guarded s"
  "guarded (s\<lparr>twfotp := o1\<rparr>) = guarded s" "guarded (s\<lparr>rfotp := o1\<rparr>) = guarded s" "guarded (s\<lparr>dfotp := o1\<rparr>) = guarded s"
  "guarded (s\<lparr>ffotp := o1\<rparr>) = guarded s" "guarded (s\<lparr>shift_flag := b\<rparr>) = guarded s" "guarded (s\<lparr>ctrl_flag := b\<rparr>) = guarded s"
  "guarded (s\<lparr>alt_flag := b\<rparr>) = guarded s" "guarded (s\<lparr>caps_lock := b\<rparr>) = guarded s" "guarded (s\<lparr>FSYSTEM := w\<rparr>) = guarded s"
  by (rule guarded_cong; simp)+

lemma guarded_change: "console_change s t \<Longrightarrow> guarded t = guarded s"
proof -
  assume c: "console_change s t"
  show ?thesis by (rule guarded_cong) (rule console_change_paging(1-5) [OF c], (subst console_change_eq [OF c], simp)+)
qed

lemma guarded_putc [simp]: "guarded (putc c s) = guarded s"
  by (rule guarded_change [OF console_change_putc])

lemma guarded_fold_putc [simp]: "guarded (fold putc cs s) = guarded s"
  by (rule guarded_change [OF console_change_fold])

lemma guarded_fold: "guarded s \<Longrightarrow> (\<And>x t. guarded t \<Longrightarrow> guarded (f x t)) \<Longrightarrow> guarded (fold f xs s)"
  by (induction xs arbitrary: s) simp_all

text \<open>Interrupt handlers that keep the invariant.\<close>

definition good_irqs :: "(kernel \<Rightarrow> kernel) list \<Rightarrow> bool" where
  "good_irqs fs \<longleftrightarrow> (\<forall>f \<in> set fs. \<forall>s. guarded s \<longrightarrow> guarded (f s))"

lemma guarded_await: "guarded s \<Longrightarrow> good_irqs fs \<Longrightarrow> await p fs s = Some t \<Longrightarrow> guarded t"
  by (induction fs arbitrary: s) (auto simp: good_irqs_def split: if_splits)

section \<open>Changes of the tables\<close>

lemma guarded_flush [simp]: "guarded (flushTLB s) = guarded s"
  by (simp add: flushTLB_def)

lemma guarded_program:
  assumes "guarded s" "0 \<le> p" "p \<le> 5"
  shows "guarded (setupPagingDirectory RESERV_CODE (program_frame p) 32 s)"
proof -
  have m: "kernel_maps s" using assms(1) by (simp add: guarded_def)
  have "program_entry (page_directory (setupPagingDirectory RESERV_CODE (program_frame p) 32 s) ! 32)"
    using runs_slot_setup [OF m, of p] assms(2,3) by (auto simp: runs_slot_def program_entry_def)
  moreover have "page_table_2 (setupPagingDirectory RESERV_CODE (program_frame p) 32 s) = page_table_2 s"
    "indicator (setupPagingDirectory RESERV_CODE (program_frame p) 32 s) = indicator s" "pnum (setupPagingDirectory RESERV_CODE (program_frame p) 32 s) = pnum s"
    "pcbs (setupPagingDirectory RESERV_CODE (program_frame p) 32 s) = pcbs s" by (simp_all add: setupPagingDirectory_def)
  ultimately show ?thesis using assms(1) kernel_maps_directory [OF m] by (simp add: guarded_def)
qed

lemma guarded_window:
  assumes "guarded s" "k \<in> {1, 2, 3}" "a = VIDEO \<or> a = scr_mem k"
  shows "guarded (setupPagingDirectoryTable RESERV_CODE_2 a k s)"
proof -
  have m: "kernel_maps s" using assms(1) by (simp add: guarded_def)
  then have len: "length (page_table_2 s) = page_entries" by (simp add: kernel_maps_def tables_ok_def)
  have f: "page_directory (setupPagingDirectoryTable RESERV_CODE_2 a k s) = page_directory s"
    "indicator (setupPagingDirectoryTable RESERV_CODE_2 a k s) = indicator s" "pnum (setupPagingDirectoryTable RESERV_CODE_2 a k s) = pnum s"
    "pcbs (setupPagingDirectoryTable RESERV_CODE_2 a k s) = pcbs s"
    "page_table_2 (setupPagingDirectoryTable RESERV_CODE_2 a k s) = (page_table_2 s)[VIDEO_PAGE_OFF + k := a OR RESERV_CODE_2]"
    by (simp_all add: setupPagingDirectoryTable_def)
  have "window_entry j ((page_table_2 s)[VIDEO_PAGE_OFF + k := a OR RESERV_CODE_2] ! (VIDEO_PAGE_OFF + j))" if "j \<in> {1, 2, 3}" for j
  proof (cases "j = k")
    case True
    have "VIDEO_PAGE_OFF + k < length (page_table_2 s)" using assms(2) len by (auto simp: VIDEO_PAGE_OFF_def page_entries_def)
    then show ?thesis using True assms(3) by (auto simp: window_entry_def)
  next
    case False
    then show ?thesis using guardedD(8) [OF assms(1) that] by simp
  qed
  then show ?thesis using assms(1) kernel_maps_table [OF m assms(2)] f by (simp add: guarded_def)
qed

section \<open>Reading and writing\<close>

lemma guarded_terminal_write:
  assumes "guarded s" "good_irqs fs" "terminal_write fs buf n s = Some (r, t)"
  shows "guarded t"
  using assms(3) guarded_await [OF assms(1,2)] assms(1)
  by (auto simp: terminal_write_def split: if_splits option.splits intro!: guarded_fold guarded_putc)

lemma guarded_terminal_read:
  assumes "guarded s" "good_irqs fs" "terminal_read fs buf n s = Some (r, t)"
  shows "guarded t"
proof -
  have "guarded (s\<lparr>tbuf := 0, tflag := 1\<rparr>)" using assms(1) by simp
  moreover obtain u where u: "await (\<lambda>s. tflag s = 0) fs (s\<lparr>tbuf := 0, tflag := 1\<rparr>) = Some u"
    using assms(3) by (auto simp: terminal_read_def split: option.splits)
  ultimately have "guarded u" using guarded_await assms(2) by blast
  then show ?thesis using assms(3) u by (auto simp: terminal_read_def Let_def split: if_splits)
qed

lemma guarded_rtc_read:
  assumes "guarded s" "good_irqs fs" "rtc_read fs s = Some (r, t)"
  shows "guarded t"
proof -
  have "guarded (sti (s\<lparr>read_flag := 0\<rparr>))" using assms(1) by (simp add: sti_def)
  moreover obtain u where u: "await (\<lambda>t. read_flag t \<noteq> 0) fs (sti (s\<lparr>read_flag := 0\<rparr>)) = Some u" "t = cli u"
    using assms(3) by (auto simp: rtc_read_def split: option.splits)
  ultimately have "guarded u" using guarded_await assms(2) by blast
  then show ?thesis by (simp add: u(2) cli_def)
qed

lemma guarded_file_read: "guarded s \<Longrightarrow> guarded (snd (file_read i buf n s))" "guarded s \<Longrightarrow> guarded (snd (directory_read i buf n s))"
  by (auto simp: file_read_def directory_read_def Let_def split: option.splits prod.splits)

lemma guarded_call_read:
  assumes "guarded s" "good_irqs (irqs e)" "call_read e f i buf n s = Some (r, t)"
  shows "guarded t"
proof (cases f)
  case read_terminal
  then show ?thesis using assms guarded_terminal_read [OF assms(1,2)] by auto
next
  case read_rtc
  then show ?thesis using assms guarded_rtc_read [OF assms(1,2)] by auto
next
  case read_directory
  then show ?thesis using assms guarded_file_read(2) [of s i buf "word_of_int n"] by (simp add: Let_def case_prod_unfold)
next
  case read_file
  then show ?thesis using assms guarded_file_read(1) [of s i buf "word_of_int n"] by (simp add: Let_def case_prod_unfold)
qed (use assms in \<open>auto simp: terminal_invalid_read_def\<close>)

lemma guarded_rtc_write: "guarded s \<Longrightarrow> guarded (snd (rtc_write d b s))" for s :: kernel
  by (simp add: rtc_write_def rtc_set_rate_def rtc_ack_def outb_def inb_def cli_def sti_def Let_def case_prod_unfold split: option.splits)

lemma guarded_call_write:
  assumes "guarded s" "good_irqs (irqs e)" "call_write e f i buf n s = Some (r, t)"
  shows "guarded t"
proof (cases f)
  case write_terminal
  then show ?thesis using assms guarded_terminal_write [OF assms(1,2)] by auto
next
  case write_rtc
  then show ?thesis using assms guarded_rtc_write [of s] by (auto simp: Let_def case_prod_unfold)
qed (use assms in \<open>auto simp: terminal_invalid_write_def file_write_def\<close>)

lemma guarded_createFD: "guarded s \<Longrightarrow> guarded (snd (createFD d s))"
  by (auto simp: createFD_def Let_def split: option.splits)

lemma guarded_close: "guarded s \<Longrightarrow> sys_close i s = (r, t) \<Longrightarrow> guarded t"
proof -
  assume s: "guarded s" and c: "sys_close i s = (r, t)"
  have "t = s \<or> t = s\<lparr>fd := (fd s)[nat i := (fd s ! nat i)\<lparr>flags := 0\<rparr>]\<rparr>"
    using c by (cases "f_close (fotp (fd s ! nat i))")
      (auto simp: sys_close_def Let_def terminal_close_def rtc_close_def file_close_def nth_list_update split: if_splits)
  then show ?thesis using s by auto
qed

section \<open>Starting and ending programs\<close>

lemma guarded_parse: "guarded s \<Longrightarrow> parse_arg b s = Some (r, t) \<Longrightarrow> guarded t"
  by (auto simp: parse_arg_def split: parsed.splits)

lemma guarded_set_pcb: "guarded s \<Longrightarrow> (\<And>p. 0 \<le> pid p \<and> pid p \<le> 5 \<Longrightarrow> 0 \<le> pid (f p) \<and> pid (f p) \<le> 5) \<Longrightarrow> guarded (set_pcb a f s)"
  using kernel_maps_cong [of "set_pcb a f s" s] by (simp add: guarded_def set_pcb_def)

lemma guarded_set_proc [simp]: "guarded (set_proc p f s) = guarded s"
  by (simp add: set_proc_def)

lemma guarded_fill_pcb: "guarded s \<Longrightarrow> guarded (fill_pcb s)"
proof -
  assume s: "guarded s"
  let ?t = "set_pcb (pcb_at (pnum s)) (\<lambda>p. p\<lparr>pcb_fd := fd s, stack := stack_top (pnum s), parent := curr_pcb s, pid := pnum s,
    pcb_filename := copy_name (lit (filename s)) (pcb_filename p)\<rparr>) s"
  have "guarded ?t" by (rule guarded_set_pcb [OF s]) (use guardedD(3,4) [OF s] in simp)
  then show ?thesis by (simp add: fill_pcb_def Let_def)
qed

lemma guarded_new_process: "guarded s \<Longrightarrow> new_process s = Some (h, t) \<Longrightarrow> guarded t"
  by (auto simp: new_process_def Let_def split: if_splits)

lemma guarded_start_found: "guarded s \<Longrightarrow> guarded (snd (start_found e c s))"
  unfolding start_found_def Let_def by (auto intro!: guarded_set_pcb)

lemma guarded_createPCB: "guarded s \<Longrightarrow> guarded (snd (createPCB e s))"
proof -
  assume "guarded s"
  then have s: "guarded (fill_pcb s)" by (rule guarded_fill_pcb)
  have "guarded (snd (start_new e (fill_pcb s)))"
    unfolding start_new_def using s guarded_new_process [OF s] by (auto split: option.splits intro!: guarded_set_pcb)
  then show ?thesis using s guarded_start_found [OF s] by (auto simp: createPCB_def Let_def split: option.splits)
qed

lemma guarded_setPnum: "guarded s \<Longrightarrow> guarded (snd (setPnum s))"
proof -
  assume s: "guarded s"
  have "guarded (snd (take_slot i s))" if "i \<le> 5" for i using s that by (simp add: guarded_def take_slot_def kernel_maps_def tables_ok_def)
  then show ?thesis using s by (auto simp: setPnum_def free_slot_3)
qed

lemma guarded_page: "guarded s \<Longrightarrow> guarded (setupPage s)" "guarded s \<Longrightarrow> guarded (parentPage s)"
proof -
  assume s: "guarded s"
  have f: "KERNEL + TASK_SIZE * word_of_int (pnum s + 1) = program_frame (pnum s)" by (simp add: program_frame_def TASK_SIZE_def)
  have "guarded (setupPagingDirectory RESERV_CODE (program_frame (pnum s)) 32 (s\<lparr>addrPage := program_frame (pnum s)\<rparr>))"
    by (rule guarded_program) (use s guardedD(3,4) [OF s] in simp_all)
  then show "guarded (setupPage s)" "guarded (parentPage s)"
    unfolding setupPage_def parentPage_def Let_def f VM_VIRTUAL_OFF_def by simp_all
qed

lemma guarded_load:
  assumes "guarded s"
  shows "guarded (snd (checkFile e s))" "guarded (initFOTP (loadFile (setupPage s)))"
  using assms guarded_page(1) [OF assms] by (auto simp: checkFile_def loadFile_def initFOTP_def Let_def split: option.splits)

lemma guarded_execute:
  assumes "guarded s" "execute e b s = Some (r, t)"
  shows "guarded t"
proof -
  obtain q u where p: "parse_arg b s = Some (q, u)" using assms(2) by (auto simp: execute_def split: option.splits)
  have u: "guarded u" by (rule guarded_parse [OF assms(1) p])
  show ?thesis
  proof (cases q)
    case Overflow
    then show ?thesis using assms(2) p u by (auto simp: execute_def)
  next
    case (Parsed f a)
    let ?c = "snd (checkFile e u)" and ?n = "snd (setPnum (snd (checkFile e u)))"
    have c: "guarded ?c" "guarded ?n" by (rule guarded_load(1) [OF u], rule guarded_setPnum [OF guarded_load(1) [OF u]])
    have m: "0 \<notin> set too_many" "37 \<notin> set too_many" by (simp_all add: too_many_def bytes_of_def)
    have "t = ?c \<or> t = fold putc too_many ?n \<or> t = snd (createPCB e (initFOTP (loadFile (setupPage ?n))))"
      using assms(2) p Parsed printf_plain [OF m, of "\<lambda>p. lit []" "\<lambda>k. 0" ?n]
      by (auto simp: execute_def Let_def case_prod_unfold split: if_splits)
    then show ?thesis using c guarded_fold_putc guarded_createPCB guarded_load(2) by metis
  qed
qed

lemma guarded_close_all: "guarded s \<Longrightarrow> close_all js s = Some t \<Longrightarrow> guarded t"
proof (induction js arbitrary: s)
  case (Cons j js)
  then obtain r u where u: "sys_close (int j) s = (Returned r, u)" "close_all js u = Some t"
    by (auto split: prod.splits outcome.splits)
  then show ?case using Cons.IH guarded_close [OF Cons.prems(1) u(1)] by blast
qed simp

lemma guarded_relink: "guarded s \<Longrightarrow> relink s = Some t \<Longrightarrow> guarded t"
  by (auto simp: relink_def split: option.splits if_splits)

lemma guarded_to_parent: "guarded s \<Longrightarrow> guarded (to_parent s)"
proof -
  assume s: "guarded s"
  have "guarded (s\<lparr>pnum := pid (pcbs s (curr_pcb s))\<rparr>)"
    using s guardedD(5,6) [OF s] kernel_maps_cong [of "s\<lparr>pnum := pid (pcbs s (curr_pcb s))\<rparr>" s] by (simp add: guarded_def)
  then show ?thesis unfolding to_parent_def Let_def by (intro guarded_page(2)) simp
qed

lemma guarded_leave: "guarded s \<Longrightarrow> leave st s = (r, t) \<Longrightarrow> guarded t"
proof -
  assume s: "guarded s" and l: "leave st s = (r, t)"
  let ?s = "s\<lparr>tss_esp0 := oldesp (pcbs s (curr_pcb s))\<rparr>"
  have s': "guarded ?s" using s by simp
  show "guarded t"
  proof (cases "close_all [2..<8] ?s")
    case None
    then show ?thesis using l s s' by (auto simp: leave_def Let_def split: if_splits)
  next
    case (Some u)
    have u: "guarded (u\<lparr>curr_pcb := c\<rparr>)" for c using guarded_close_all [OF s' Some] by simp
    then show ?thesis
      using l s Some guarded_relink [OF guarded_to_parent [OF u]]
      by (auto simp: leave_def Let_def split: if_splits option.splits)
  qed
qed

lemma guarded_halt:
  assumes "guarded s" "sys_halt e st s = Some (r, t)"
  shows "guarded t"
proof -
  let ?s = "s\<lparr>pnumarr := (pnumarr s)[nat (pnum s) := 0]\<rparr>"
  have s: "guarded ?s" using assms(1) by simp
  have "leave st ?s = (r, t) \<or> (\<exists>x u. execute e (lit (bytes_of ''shell'')) ?s = Some (x, u) \<and> (t = u \<or> leave st u = (r, t)))"
    using assms(2) by (auto simp: sys_halt_def Let_def split: if_splits option.splits outcome.splits)
  then show ?thesis using guarded_leave [OF s] guarded_execute [OF s] guarded_leave by blast
qed

lemma guarded_syscall:
  assumes "guarded s" "good_irqs (irqs e)" "syscall_link e n b c d s = Some (r, t)"
  shows "guarded t"
proof -
  have rd: "sys_read e i buf k s = Some (r, t) \<Longrightarrow> guarded t" for i buf k
    using assms(1) guarded_call_read [OF assms(1,2)] by (auto simp: sys_read_def split: if_splits)
  have wr: "sys_write e i buf k s = Some (r, t) \<Longrightarrow> guarded t" for i buf k
    using assms(1) guarded_call_write [OF assms(1,2)] by (auto simp: sys_write_def split: if_splits)
  have "guarded (s\<lparr>dt := x\<rparr>)" for x using assms(1) by simp
  then have op: "guarded (snd (sys_open b s))"
    using assms(1) guarded_createFD by (auto simp: sys_open_def Let_def split: option.splits)
  have ga: "getargs b k s = (r, t) \<Longrightarrow> guarded t" for k
    using assms(1) by (auto simp: getargs_def Let_def split: if_splits)
  have vm: "guarded (snd (vidmap b s))" using assms(1) by (simp add: vidmap_def Let_def)
  show ?thesis
    using assms(3) assms(1) rd wr op ga vm guarded_halt [OF assms(1)] guarded_execute [OF assms(1)] guarded_close [OF assms(1)]
    unfolding syscall_link_def Let_def returned_def set_handler_def sigreturn_def by (auto split: if_splits)
qed

section \<open>Interrupts\<close>

lemma guarded_screen_io [simp]: "guarded (update_cursor r c s) = guarded s" "guarded (reset_screen s) = guarded s" "guarded (copy_bytes d p s) = guarded s"
  by (simp_all add: update_cursor_def outb_def Let_def reset_screen_def clear_def copy_bytes_def)

lemma guarded_indicator: "guarded s \<Longrightarrow> k \<in> {1, 2, 3} \<Longrightarrow> guarded (s\<lparr>indicator := k\<rparr>)"
  using kernel_maps_cong [of "s\<lparr>indicator := k\<rparr>" s] by (simp add: guarded_def)

lemma guarded_copyFromVideo: "guarded s \<Longrightarrow> guarded (copyFromVideo s)"
  using guarded_window [of s 1 SCREEN1_MEM] guarded_window [of s 2 SCREEN2_MEM] guarded_window [of s 3 SCREEN3_MEM]
  by (simp add: copyFromVideo_def scr_mem_def)

lemma guarded_show_window: "guarded s \<Longrightarrow> guarded (setupPagingDirectoryTable RESERV_CODE_2 VIDEO (nat (indicator s)) s)"
  using guardedD(2) [of s] by (intro guarded_window) auto

lemma guarded_leave_screen: "guarded s \<Longrightarrow> k \<in> {1, 2, 3} \<Longrightarrow> guarded (leave_screen k s)"
proof -
  assume s: "guarded s" and k: "k \<in> {1, 2, 3}"
  have 1: "guarded (getCursorandBuffer (cli s))" using s by (simp add: getCursorandBuffer_def live_def cli_def)
  have 2: "guarded (setCursorandBuffer t)" if "guarded t" for t using that by (simp add: setCursorandBuffer_def load_screen_def)
  show ?thesis unfolding leave_screen_def by (intro 2 guarded_indicator guarded_copyFromVideo 1 k)
qed

lemma guarded_first_shell: "guarded s \<Longrightarrow> first_shell e s = Some (r, t) \<Longrightarrow> guarded t"
proof -
  assume s: "guarded s" and t: "first_shell e s = Some (r, t)"
  let ?u = "flushTLB (setupPagingDirectoryTable RESERV_CODE_2 VIDEO (nat (indicator (reset_screen s))) (reset_screen s))"
  have "guarded ?u" using s guarded_show_window [of "reset_screen s"] by simp
  moreover obtain q where "execute e (lit (bytes_of ''shell'')) ?u = Some (q, t)" using t by (auto simp: first_shell_def Let_def)
  ultimately show ?thesis by (rule guarded_execute)
qed

lemma guarded_show_screen: "guarded s \<Longrightarrow> show_screen s = Some (r, t) \<Longrightarrow> guarded t"
proof -
  assume s: "guarded s" and t: "show_screen s = Some (r, t)"
  have "guarded (copyToVideo s)" unfolding copyToVideo_def Let_def by (rule guarded_show_window) (use s in simp)
  then show ?thesis using t by (auto simp: show_screen_def sti_def)
qed

lemma guarded_screens:
  assumes "guarded s"
  shows "screen1 e s = Some (r, t) \<Longrightarrow> guarded t" "screen2 e s = Some (r, t) \<Longrightarrow> guarded t" "screen3 e s = Some (r, t) \<Longrightarrow> guarded t"
proof -
  have 1: "guarded (update_cursor a b (leave_screen k s))" if "k \<in> {1, 2, 3}" for a b k using guarded_leave_screen [OF assms that] by simp
  then have 2: "guarded ((update_cursor a b (leave_screen k s))\<lparr>fts_1 := 1\<rparr>)" "guarded ((update_cursor a b (leave_screen k s))\<lparr>fts_2 := 1\<rparr>)"
    "guarded ((update_cursor a b (leave_screen k s))\<lparr>fts_3 := 1\<rparr>)" if "k \<in> {1, 2, 3}" for a b k using that by simp_all
  show "screen1 e s = Some (r, t) \<Longrightarrow> guarded t" unfolding screen1_def Let_def
    using guarded_first_shell [OF 2(1) [of 1]] guarded_show_screen [OF 1 [of 1]] by (auto split: if_splits)
  show "screen2 e s = Some (r, t) \<Longrightarrow> guarded t" unfolding screen2_def Let_def
    using guarded_first_shell [OF 2(2) [of 2]] guarded_show_screen [OF 1 [of 2]] by (auto split: if_splits)
  show "screen3 e s = Some (r, t) \<Longrightarrow> guarded t" unfolding screen3_def Let_def
    using guarded_first_shell [OF 2(3) [of 3]] guarded_show_screen [OF 1 [of 3]] by (auto split: if_splits)
qed

lemma guarded_keyboard:
  assumes "guarded s" "keyboard_handler e s = Some (r, t)"
  shows "guarded t"
proof -
  define u where "u = send_eoi 1 (snd (getScancode (dev e) s))"
  have u: "guarded u" using assms(1) by (simp add: u_def send_eoi_def getScancode_def inb_def outb_def Let_def)
  have up: "guarded (key_up z u)" for z using u by (simp add: key_up_def Let_def)
  have flags: "guarded (u\<lparr>shift_flag := True\<rparr>)" "guarded (u\<lparr>ctrl_flag := True\<rparr>)" "guarded (u\<lparr>alt_flag := True\<rparr>)" "guarded (u\<lparr>caps_lock := v\<rparr>)" for v
    using u by simp_all
  have "key_down e z u = Some (r, t) \<Longrightarrow> guarded t" for z
    using flags u guarded_halt [OF u] guarded_screens [OF u] by (auto simp: key_down_def split: if_splits)
  then show ?thesis using assms(2) u up
    unfolding keyboard_handler_def Let_def case_prod_unfold u_def [symmetric] by (auto split: if_splits)
qed

lemma guarded_timer: "guarded s \<Longrightarrow> guarded (pit_handler s)"
  by (simp add: pit_handler_def send_eoi_def outb_def Let_def cli_def sti_def)

lemma guarded_clock: "guarded s \<Longrightarrow> guarded (rtc_handler d s)"
  by (simp add: rtc_handler_def send_eoi_def outb_def inb_def Let_def rtc_ack_def cli_def sti_def case_prod_unfold)

lemma guarded_handler:
  assumes "guarded s" "good_irqs (irqs e)" "run_handler e regs h s = Some (r, t)"
  shows "guarded t"
proof -
  have rep: "report m e s = Some (r, t) \<Longrightarrow> guarded t" if "0 \<notin> set (bytes_of m)" "37 \<notin> set (bytes_of m)" for m
    using guarded_halt [of "fold putc (bytes_of m @ [10]) s" e 0] assms(1) report_halts [OF that, of e s] by simp
  have msg: "guarded t" if "report m e s = Some (r, t)" "list_all (\<lambda>c. of_char c \<noteq> (0::8 word) \<and> of_char c \<noteq> (37::8 word)) m" for m
    by (rule rep [OF _ _ that(1)]) (use that(2) in \<open>force simp: bytes_of_def list_all_iff\<close>)+
  show ?thesis
    using assms(3) guarded_timer [OF assms(1)] guarded_clock [OF assms(1)] guarded_keyboard [OF assms(1)] guarded_syscall [OF assms(1,2)]
    by (cases h) (auto simp: run_handler_def exception_defs dest!: msg split: prod.splits)
qed


section \<open>Runs of the system\<close>

text \<open>
  What happens on the machine after start-up: a program changes memory, or an exception, an interrupt or a system call
  enters the kernel through the gate of a handler. While a system call waits, interrupts of the timer, of the clock and
  of the keyboard may arrive.
\<close>

inductive kernel_irq :: "(kernel \<Rightarrow> kernel) \<Rightarrow> bool" where
  timer: "kernel_irq pit_handler"
| clock: "kernel_irq (rtc_handler d)"
| key: "kernel_irq (\<lambda>s. case keyboard_handler e s of Some (Returned r, t) \<Rightarrow> t | _ \<Rightarrow> s)"

lemma kernel_irq_good: "\<forall>f \<in> set fs. kernel_irq f \<Longrightarrow> good_irqs fs"
proof -
  have "guarded (f s)" if "kernel_irq f" "guarded s" for f s
    using that by cases (auto simp: guarded_timer guarded_clock guarded_keyboard split: option.splits outcome.splits)
  then show "\<forall>f \<in> set fs. kernel_irq f \<Longrightarrow> good_irqs fs" by (auto simp: good_irqs_def)
qed

inductive system_run :: "kernel \<Rightarrow> kernel \<Rightarrow> bool" where
  start: "system_run s s"
| user: "system_run s t \<Longrightarrow> system_run s (t\<lparr>phys := m\<rparr>)"
| entry: "system_run s t \<Longrightarrow> \<forall>f \<in> set (irqs e). kernel_irq f \<Longrightarrow> run_handler e regs h t = Some (r, u) \<Longrightarrow> system_run s u"

lemma guarded_run: "system_run s t \<Longrightarrow> guarded s \<Longrightarrow> guarded t"
proof (induction rule: system_run.induct)
  case (entry s t e regs h r u)
  then show ?case using guarded_handler kernel_irq_good by blast
qed simp_all

text \<open>Start-up establishes the invariant.\<close>

lemma guarded_initPaging:
  assumes "tables_ok s" "indicator s = 1" "pnum s = 0" "\<forall>a. pid (pcbs s a) = 0"
  shows "guarded (initPaging s)"
proof -
  have m: "kernel_maps (initPaging s)" by (rule kernel_maps_init [OF assms(1)])
  have "page_directory (initPaging s) ! 32 = 0" using initPaging_tables(4) [OF assms(1), of 32] by (simp add: page_entries_def del: initPaging_fields(1-3))
  moreover have "\<not> bit (page_table_2 (initPaging s) ! (VIDEO_PAGE_OFF + k)) 0" if "k \<in> {1, 2, 3}" for k
    using initPaging_tables(3) [OF assms(1), of "VIDEO_PAGE_OFF + k"] that by (auto simp: page_entries_def VIDEO_PAGE_OFF_def bit_0 simp del: initPaging_fields(1-3))
  moreover obtain pd pt pt2 where
    "initPaging s = s\<lparr>page_directory := pd, page_table := pt, page_table_2 := pt2, tlb := Map.empty, paging_on := True\<rparr>"
    using initPaging_eq by blast
  then have "indicator (initPaging s) = 1" "pnum (initPaging s) = 0" "pcbs (initPaging s) = pcbs s" using assms(2,3) by simp_all
  ultimately show ?thesis using m assms(4) by (simp add: guarded_def program_entry_def window_entry_def del: initPaging_fields(1-3))
qed

lemma guarded_start:
  assumes t: "prints ((clear (blank_kernel m 0))\<lparr>FSYSTEM := f\<rparr>) t" and s: "start_kernel l e g t = Some (Started r, g', s)"
  shows "guarded s"
proof -
  note eq = console_change_eq [OF conjunct2 [OF t [unfolded prints_def]]]
  let ?s = "reset_screen (t\<lparr>tss_esp0 := 0x800000\<rparr>)"
  have i: "guarded (initPaging ?s)"
    by (rule guarded_initPaging; subst eq) (simp_all add: reset_screen_def clear_def tables_ok_def blank_kernel_def frame_of_def null_pcb_def)
  obtain d where d: "init_devices (dev e) (initPaging ?s) = Some d"
    "d = (initPaging ?s)\<lparr>io_log := io_log d, iflag := True, shift_flag := False, ctrl_flag := False, alt_flag := False, caps_lock := False\<rparr>"
    using init_devices_io by blast
  have "guarded d" by (subst d(2)) (use i in simp)
  then have "guarded (setupPagingDirectoryTable RESERV_CODE_2 SCREEN3_MEM 3 (setupPagingDirectoryTable RESERV_CODE_2 SCREEN2_MEM 2
    (setupPagingDirectoryTable RESERV_CODE_2 VIDEO 1 d)))" by (intro guarded_window) (simp_all add: scr_mem_def)
  then show ?thesis using s d(1) guarded_screens(1)
    by (auto simp: start_kernel_def init_screen_memory_def set_segments_def Let_def split: Option.bind_splits)
qed

lemma guarded_boot:
  assumes info: "multiboot_ok m p" "bit (mb_flags m p) 3" "\<not> (bit (mb_flags m p) 4 \<and> bit (mb_flags m p) 5)" "0 < mods_count m p"
    and s: "entry l e MULTIBOOT_BOOTLOADER_MAGIC p g (blank_kernel m 0) = Some (Started r, g', s)"
  shows "guarded s"
proof -
  have "boot_screen (clear (blank_kernel m 0))"
    by (simp add: boot_screen_def clear_def blank_kernel_def console_ok_def cursor_def NUM_COLS_def NUM_ROWS_def)
  moreover have "\<forall>a. a \<notin> region VIDEO 4002 \<longrightarrow> phys (blank_kernel m 0) a = m a" by (simp add: blank_kernel_def)
  ultimately show ?thesis using entry_reports [OF _ info(1) _ info(2-4), of "blank_kernel m 0" l e g] s guarded_start by fastforce
qed

section \<open>What user mode reaches\<close>

lemma window_page:
  fixes v :: u32
  assumes "q < 0x100000"
  shows "unat (of_nat (q * 0x1000) + take_bit 12 v) = 0x1000 * q + unat v mod 0x1000"
proof -
  have "unat (take_bit 12 v) = unat v mod 0x1000" by (simp add: take_bit_eq_mod unat_mod_distrib)
  moreover have "unat (of_nat (q * 0x1000) :: u32) = q * 0x1000" by (subst unsigned_of_nat) (use assms in \<open>simp add: take_bit_nat_eq_self\<close>)
  moreover have "0x1000 * q + unat v mod 0x1000 < 2 ^ 32" using assms by auto
  ultimately show ?thesis by (simp add: unat_word_ariths take_bit_eq_mod)
qed

lemma div_mod_sum: "m div c = q \<Longrightarrow> m mod c = r \<Longrightarrow> m = q * c + r" for m c :: nat
  by (metis div_mult_mod_eq)

lemma div_page: "0 < c \<Longrightarrow> (c * n + a mod c) div c = n" for a c :: nat
  by simp

lemma mod_page: "(c * n + a mod c) mod c = a mod c" for a c :: nat
  by simp

lemma window_index:
  fixes v :: u32
  assumes "unat v div 0x400000 = 33" "table_index v = VIDEO_PAGE_OFF + k"
  shows "unat v div 0x1000 = 0x84B8 + k"
proof -
  have "unat v div 0x1000 div 0x400 = unat v div 0x400000" by (simp add: div_mult2_eq [symmetric])
  then have "unat v div 0x1000 = 33 * 0x400 + (0xB8 + k)"
    using div_mod_sum assms unfolding table_index_mod VIDEO_PAGE_OFF_def by metis
  then show ?thesis by simp
qed

lemma window_entry_frame:
  assumes "window_entry k w" "bit w 0" "k \<in> {1, 2, 3}"
  shows "\<exists>q. w = of_nat (q * 0x1000) OR 7 \<and> q \<in> {0xB8, 0x1FFF + k} \<and> frame_of (of_nat (q * 0x1000)) = of_nat (q * 0x1000) \<and> q < 0x100000"
proof -
  have v: "VIDEO = of_nat (0xB8 * 0x1000)" "frame_of VIDEO = VIDEO" by (simp_all add: VIDEO_def frame_of_def)
  have m: "scr_mem k = of_nat ((0x1FFF + k) * 0x1000)" "frame_of (scr_mem k) = scr_mem k"
    using assms(3) by (auto simp: scr_mem_def screen_consts frame_of_def)
  show ?thesis
    using assms v m unfolding window_entry_def RESERV_CODE_2_def
    by (elim disjE) (simp, rule exI [of _ "0xB8"], simp only: simp_thms insert_iff, simp, rule exI [of _ "0x1FFF + k"], auto)
qed

text \<open>An address user mode reaches lies on the program page or in the window of a terminal.\<close>

lemma guarded_user_walk:
  assumes s: "guarded s" and x: "user_walk s v = Some x"
  shows "(unat v div 0x400000 = 32 \<and> unat x div 0x400000 \<in> {2..7} \<and> unat x mod 0x400000 = unat v mod 0x400000) \<or>
    (\<exists>k \<in> {1, 2, 3}. unat v div 0x1000 = 0x84B8 + k \<and> unat x div 0x1000 \<in> {0xB8, 0x1FFF + k})"
proof -
  note m = guardedD(1) [OF s]
  obtain w: "walk s v = Some (x, True)" using x by (auto simp: user_walk_def split: option.splits bool.splits prod.splits)
  consider "unat v div 0x400000 = 32" | "unat v div 0x400000 = 33" "table_index v \<in> WINDOWS"
    using w walk_kernel [OF m, of v] walk_low [OF m, of v] walk_unmapped [OF m, of v] walk_window_None [OF m, of v]
    by (cases "unat v div 0x400000 = 0") (auto split: if_splits)
  then show ?thesis
  proof cases
    case 1
    have "bit (page_directory s ! 32) 0" using w 1 by (auto simp: walk_def dir_index_div Let_def split: if_splits)
    then obtain p where p: "0 \<le> p" "p \<le> 5" "page_directory s ! 32 = program_frame p OR RESERV_CODE"
      using guardedD(7) [OF s] by (auto simp: program_entry_def)
    then have "runs_slot p s" using m by (simp add: runs_slot_def)
    then have x: "unat x = 0x400000 * (nat p + 2) + unat v mod 0x400000" using runs_slot_walk [OF _ p(1,2) 1, where s = s] w by simp
    have d: "unat x div 0x400000 = nat p + 2" unfolding x by (rule div_page) simp
    have q: "nat p + 2 \<in> {2..7}" using p(1,2) by auto
    have "unat x div 0x400000 \<in> {2..7}" unfolding d by (rule q)
    moreover have "unat x mod 0x400000 = unat v mod 0x400000" unfolding x by (rule mod_page)
    ultimately have "unat v div 0x400000 = 32 \<and> unat x div 0x400000 \<in> {2..7} \<and> unat x mod 0x400000 = unat v mod 0x400000" using 1 by (intro conjI)
    then show ?thesis by (rule disjI1)
  next
    case 2
    have k: "table_index v - VIDEO_PAGE_OFF \<in> {1, 2, 3}" "table_index v = VIDEO_PAGE_OFF + (table_index v - VIDEO_PAGE_OFF)"
      using 2(2) by (auto simp: WINDOWS_def VIDEO_PAGE_OFF_def)
    define k where "k = table_index v - VIDEO_PAGE_OFF"
    note k = k [folded k_def]
    have e: "bit (page_table_2 s ! (VIDEO_PAGE_OFF + k)) 0" using walk_window_absent [OF m 2(1)] w k(2) by auto
    obtain q where q: "page_table_2 s ! table_index v = of_nat (q * 0x1000) OR 7" "q \<in> {0xB8, 0x1FFF + k}"
      "frame_of (of_nat (q * 0x1000)) = of_nat (q * 0x1000)" "q < 0x100000"
      using window_entry_frame [OF guardedD(8) [OF s k(1)] e k(1)] k(2) by metis
    have x: "unat x = 0x1000 * q + unat v mod 0x1000" 
    proof -
      have "walk s v = Some (of_nat (q * 0x1000) + take_bit 12 v, True)" by (rule walk_window [OF m 2(1) q(1,3)])
      then have "x = of_nat (q * 0x1000) + take_bit 12 v" using w by (simp only: option.inject prod.inject)
      then show ?thesis by (simp only: window_page [OF q(4)])
    qed
    have "unat x div 0x1000 = q" unfolding x by (rule div_page) simp
    then show ?thesis using q(2) k(1) window_index [OF 2(1) k(2)] by blast
  qed
qed

text \<open>
  C12. The page tables protect the kernel and the processes for the whole life of the system: after \<^verbatim>\<open>entry\<close> has
  started the first shell, whatever programs write to memory and whatever exceptions, interrupts and system calls enter the
  kernel, in any order, an address the tables open to user mode either lies in the program page and leads, at the same
  offset, into the frame of a process slot (8 to 32 MB), or lies in the window of a terminal and leads to video memory or
  to that terminal's own back buffer; the kernel's 4 MB page stays mapped to itself and closed to user mode. (The tables
  are fields of the state: a store through a pointer into the tables' own memory is outside the model, and entries the
  processor still caches are not tables.)
\<close>

theorem tables_protect_memory:
  assumes info: "multiboot_ok m p" "bit (mb_flags m p) 3" "\<not> (bit (mb_flags m p) 4 \<and> bit (mb_flags m p) 5)" "0 < mods_count m p"
    and boot: "entry l e MULTIBOOT_BOOTLOADER_MAGIC p g (blank_kernel m 0) = Some (Started r, g', s)"
    and run: "system_run s t"
  shows "(\<forall>v x. user_walk t v = Some x \<longrightarrow>
      (unat v div 0x400000 = 32 \<and> unat x div 0x400000 \<in> {2..7} \<and> unat x mod 0x400000 = unat v mod 0x400000) \<or>
      (\<exists>k \<in> {1, 2, 3}. unat v div 0x1000 = 0x84B8 + k \<and> unat x div 0x1000 \<in> {0xB8, 0x1FFF + k})) \<and>
    (\<forall>v. unat v div 0x400000 = 1 \<longrightarrow> walk t v = Some (v, False))"
proof -
  have "guarded t" by (rule guarded_run [OF run guarded_boot [OF info boot]])
  then show ?thesis using guarded_user_walk walk_kernel [OF guardedD(1)] by blast
qed

text \<open>The shell has just been started and a program has stored a byte in its own frame.\<close>

theorem tables_protect_memory_witness:
  "\<exists>g' s t x. entry boot_layout plain_env MULTIBOOT_BOOTLOADER_MAGIC 0x9000 boot_tables (blank_kernel boot_mem 0) =
     Some (Started (EnterUser 0x08048000), g', s) \<and> system_run s t \<and> phys t 0x848000 = 7 \<and>
     user_walk t 0x08048000 = Some x \<and> unat x div 0x400000 \<in> {2..7} \<and> walk t 0x400000 = Some (0x400000, False)"
proof -
  obtain g' s where s: "entry boot_layout plain_env MULTIBOOT_BOOTLOADER_MAGIC 0x9000 boot_tables (blank_kernel boot_mem 0) =
      Some (Started (EnterUser 0x08048000), g', s)"
    and p: "\<forall>j < 28. user_walk s (EXEC_LOCATION + of_nat j) = Some (load_addr (pnum s) j)"
    using entry_enters_shell [OF boot_mem_ready(1-5) boot_mem_image(1) boot_mem_ready(6-9) elf_fs_magic(1), of boot_layout boot_tables]
    unfolding elf_fs_bytes(1) elf_fs_magic(2) by fastforce
  define t where "t = s\<lparr>phys := (phys s)(0x848000 := 7)\<rparr>"
  have r: "system_run s t" unfolding t_def by (intro system_run.user system_run.start)
  have "walk t = walk s" by (rule walk_cong) (simp_all add: t_def)
  then have u: "user_walk t 0x08048000 = Some (load_addr (pnum s) 0)"
    using p [rule_format, of 0] by (simp add: user_walk_def EXEC_LOCATION_def)
  note g = tables_protect_memory [OF boot_mem_ready(1-4) s r]
  have "walk t 0x400000 = Some (0x400000, False)" by (rule conjunct2 [OF g, rule_format]) simp
  moreover have "unat (load_addr (pnum s) 0) div 0x400000 \<in> {2..7}" using conjunct1 [OF g, rule_format, OF u] by simp
  ultimately show ?thesis using s r u by (auto simp: t_def)
qed

end
