(* ===== verification/User_Sigtest.thy ===== *)
theory User_Sigtest
  imports User_Shell
begin

text \<open>
  The program \<^verbatim>\<open>syscalls/ece391sigtest.c\<close>, a test of signals. The kernel has none: \<^verbatim>\<open>set_handler\<close> only returns -1
  and no handler of a program is ever called. The theory shows what the program does then: its store through the null pointer ends it.
\<close>

section \<open>The program\<close>

definition ece391_set_handler :: "env \<Rightarrow> u32 \<Rightarrow> u32 \<Rightarrow> kernel \<Rightarrow> (int \<times> kernel) option" where
  "ece391_set_handler e signum h = int80 e 9 signum h 0"

definition install_handlers :: "env \<Rightarrow> (u8 list \<Rightarrow> u32) \<Rightarrow> u32 \<Rightarrow> u32 \<Rightarrow> kernel \<Rightarrow> kernel option" where
  "install_handlers e lits segv alarm s = do {
     s \<leftarrow> ece391_fdputs e 1 (lits (msg ''Installing signal handlers'')) s;
     (r, s) \<leftarrow> ece391_set_handler e 1 segv s;
     (r, s) \<leftarrow> ece391_set_handler e 3 alarm s;
     Some s }"

text \<open>
  The program returns, or its store raises a page fault, which the kernel handles. \<open>badbuf\<close> is the null pointer as long as
  no handler runs; \<open>regs\<close> are the registers at the fault.
\<close>

datatype sig_end = Sig_returns int | Sig_fault outcome

definition sigtest_main :: "env \<Rightarrow> u32 \<times> u32 \<times> u32 \<times> u32 \<Rightarrow> (u8 list \<Rightarrow> u32) \<Rightarrow> u32 \<Rightarrow> u32 \<Rightarrow> u32 \<Rightarrow> u32 \<Rightarrow> kernel \<Rightarrow> (sig_end \<times> kernel) option" where
  "sigtest_main e regs lits buf charbuf segv alarm s = do {
     (r, s) \<leftarrow> ece391_getargs e buf 1024 s;
     if r \<noteq> 0 then map_option (\<lambda>(r, s). (Sig_returns r, s)) (fail_with e (lits (msg ''could not read argument'')) 3 s)
     else do {
       s \<leftarrow> (if phys s (xl s buf) = 49 then install_handlers e lits segv alarm s else Some s);
       s \<leftarrow> ece391_fdputs e 1 (lits (bytes_of ''Hi, what's your name? '')) s;
       (cnt, s) \<leftarrow> ece391_read e 0 buf 1023 s;
       if cnt = -1 then map_option (\<lambda>(r, s). (Sig_returns r, s)) (fail_with e (lits (msg ''Can't read name from keyboard.'')) 3 s)
       else (case user_walk s 0 of
           None \<Rightarrow> map_option (\<lambda>(x, s). (Sig_fault x, s)) (run_handler e regs page_fault_h s)
         | Some p \<Rightarrow> do {
             let s = poke buf cnt 0 (s\<lparr>phys := (phys s)(p := 1)\<rparr>);
             s \<leftarrow> ece391_fdputs e 1 (lits (bytes_of ''Hello, '')) s;
             s \<leftarrow> ece391_fdputs e 1 buf s;
             map_option (\<lambda>(r, s). (Sig_returns r, s))
               (fail_with e (lits (msg (if phys s (xl s charbuf) = 1 then ''success'' else ''failure''))) 0 s) }) } }"

section \<open>The fault\<close>

definition sigtest_strings :: "u8 list list" where
  "sigtest_strings = [msg ''Installing signal handlers'', bytes_of ''Hi, what's your name? '']"

lemma user_walk_cong: "console_change s t \<Longrightarrow> user_walk t a = user_walk s a"
  using console_change_paging [of s t] walk_cong [of t s] by (simp add: user_walk_def)

lemma keeps_walk: "keeps buf n s t \<Longrightarrow> user_walk t a = user_walk s a"
  by (rule user_walk_cong) (simp add: keeps_def)

lemma install_says:
  assumes "program lits sigtest_strings buf n s"
  shows "install_handlers e lits segv alarm s = Some (fold putc (msg ''Installing signal handlers'') s)"
  using program_say(1) [OF assms, of "msg ''Installing signal handlers''" e]
  by (simp add: install_handlers_def sigtest_strings_def ece391_set_handler_def int80_def syscall_link_def returned_def set_handler_def)

text \<open>
  C40. Signals do not exist: whatever its argument and the typed name are, \<^verbatim>\<open>sigtest\<close> ends in the page fault handler,
  also when it has asked for its handlers to be installed. The screen shows its question, the typed name and the message of the
  kernel, and the program is halted.
\<close>

theorem sigtest_is_halted:
  assumes s: "asks sh cp lits sigtest_strings buf s" "user_walk s 0 = None" and t: "typed sh cp l zs e"
    and a: "cprefix 32 (lit (arg s)) = name" "name \<noteq> []" "length name < 32" "length (arg s) = 32"
  shows "\<exists>t. sigtest_main e regs lits buf charbuf segv alarm s = map_option (\<lambda>(x, s). (Sig_fault x, s)) (sys_halt e 0 t) \<and>
    shown t = shown (fold putc (msg ''Page-Fault Exception?'') (after_line l (fold putc
      ((if hd name = 49 then msg ''Installing signal handlers'' else []) @ bytes_of ''Hi, what's your name? '') s)))"
proof -
  let ?i = "if hd name = 49 then msg ''Installing signal handlers'' else []" and ?q = "bytes_of ''Hi, what's your name? ''"
  have p: "program lits sigtest_strings buf 129 s" using s(1) by (simp add: asks_def)
  obtain u where u: "ece391_getargs e buf 1024 s = Some (0, u)" "keeps buf 129 s u" "shown u = shown s" "\<forall>j \<le> length name. phys u (xl u (buf + of_nat j)) = (name @ [0]) ! j"
    by (rule getargs_keeps [OF p _ a]) simp
  have hd: "phys u (xl u buf) = hd name" using u(4) [rule_format, of 0] a(2) by (simp add: nth_append hd_conv_nth)
  have au: "asks sh cp lits sigtest_strings buf u" by (rule asks_keeps [OF s(1) u(2)])
  then have pu: "program lits sigtest_strings buf 129 u" by (simp add: asks_def)
  let ?v = "fold putc ?i u"
  have kv: "keeps buf 129 u ?v" by (rule keeps_print) (use pu in \<open>simp_all add: program_def stdout_ok_def bytes_of_def\<close>)
  have av: "asks sh cp lits sigtest_strings buf ?v" by (rule asks_keeps [OF au kv])
  have m: "?q \<in> set sigtest_strings" by (simp add: sigtest_strings_def)
  obtain w where w: "ece391_fdputs e 1 (lits ?q) ?v = Some (fold putc ?q ?v)"
    "ece391_read e 0 buf (of_nat 1023) (fold putc ?q ?v) = Some (int (length l) + 1, w)" "asks sh cp lits sigtest_strings buf w"
    "keeps buf 129 ?v w" "shown w = shown (after_line l (fold putc ?q ?v))"
    by (rule ask [OF av m t, of 1023]) simp_all
  have uw: "user_walk w 0 = None" using keeps_walk [OF w(4)] keeps_walk [OF kv] keeps_walk [OF u(2)] s(2) by simp
  have iv: "(if phys u (xl u buf) = 49 then install_handlers e lits segv alarm u else Some u) = Some ?v"
    using install_says [OF pu] hd by simp
  let ?m = "msg ''Page-Fault Exception?''"
  have "run_handler e regs page_fault_h w = sys_halt e 0 (fold putc ?m w)"
    using report_halts [of "''Page-Fault Exception?''" e w] by (simp add: run_handler_def page_fault_def bytes_of_def)
  then have "sigtest_main e regs lits buf charbuf segv alarm s = map_option (\<lambda>(x, s). (Sig_fault x, s)) (sys_halt e 0 (fold putc ?m w))"
    using u(1) iv w(1,2) uw by (simp add: sigtest_main_def)
  moreover have "shown (fold putc ?m w) = shown (fold putc ?m (after_line l (fold putc (?i @ ?q) s)))"
  proof (rule shown_fold)
    have no: "8 \<notin> set (?i @ ?q)" by (simp add: bytes_of_def)
    have cu: "console_ok u" using pu by (simp add: program_def stdout_ok_def)
    have sh: "shown (fold putc (?i @ ?q) u) = shown (fold putc (?i @ ?q) s)" by (rule shown_fold [OF u(3) cu no])
    have ok: "console_ok (fold putc (?i @ ?q) u)" using keeps_print [OF cu no] unfolding keeps_def by blast
    have l8: "8 \<notin> set l" using typed_line(2) [OF t] by blast
    have "fold putc ?q ?v = fold putc (?i @ ?q) u" by simp
    with w(5) show "shown w = shown (after_line l (fold putc (?i @ ?q) s))" unfolding after_line_cong(1) [OF sh ok l8, symmetric] by (simp only:)
    show "console_ok w" using w(3) by (simp add: asks_def program_def stdout_ok_def)
  qed (simp add: bytes_of_def)
  ultimately show ?thesis by blast
qed

section \<open>Witness\<close>

theorem sigtest_is_halted_witness:
  "\<exists>t. sigtest_main (type_env [30]) (0, 0, 0, 0) (const_addr 0x601000 sigtest_strings) 0x600000 0x602000 0x8048000 0x8048100 (const_kernel sigtest_strings) =
      map_option (\<lambda>(x, s). (Sig_fault x, s)) (sys_halt (type_env [30]) 0 t) \<and>
    shown t = shown (fold putc (msg ''Page-Fault Exception?'') (after_line [97] (fold putc (bytes_of ''Hi, what's your name? '') (const_kernel sigtest_strings))))"
proof -
  let ?s = "const_kernel sigtest_strings"
  have "length sigtest_strings \<le> 64" "\<forall>c \<in> set sigtest_strings. length c < 64 \<and> plain c"
    by (simp_all add: sigtest_strings_def plain_def bytes_of_def)
  note a = const_kernel_asks [OF this]
  have "page_directory ?s = replicate 1024 0"
    by (simp add: const_kernel_def prog_kernel_def list_kernel_def initFOTP_def Let_def blank_kernel_def page_entries_def)
  then have "user_walk ?s 0 = None" by (simp add: user_walk_def walk_def dir_index_def)
  moreover have r: "arg ?s = 0x66 # replicate 31 0" by (simp add: const_kernel_def prog_kernel_fields)
  then have "is_cstr (lit (arg ?s)) 1" by (simp add: is_cstr_def lit_def)
  then have "cprefix 32 (lit (arg ?s)) = [0x66]" "length (arg ?s) = 32"
    using cprefix_is_cstr [of "lit (arg ?s)" 1 32] by (simp_all add: r lit_def)
  ultimately show ?thesis using sigtest_is_halted [OF a _ typed_keys(2), of "[0x66]"] by simp
qed

end
