(* ===== verification/User_Grep.thy ===== *)
theory User_Grep
  imports User_Pingpong
begin

text \<open>
  The function \<^verbatim>\<open>do_one_file\<close> of \<^verbatim>\<open>syscalls/ece391grep.c\<close>: it searches a file for a string and prints the lines
  that have it. A file is read in chunks into a buffer of 1025 bytes; the part of a line at the end of a chunk is moved to the
  front of the buffer before the next chunk is read. The theory shows that the lines of a text file are found wherever the chunks cut them.
\<close>

section \<open>The search of a file\<close>

text \<open>Indices into the buffer are natural numbers: \<^verbatim>\<open>read\<close> returns -1 or a count.\<close>

function grep_line_end :: "cbuf \<Rightarrow> nat \<Rightarrow> nat \<Rightarrow> nat" where
  "grep_line_end data lst line_end =
     (if line_end < lst \<and> data line_end \<noteq> 10 then grep_line_end data lst (line_end + 1) else line_end)"
  by pat_completeness auto
termination by (relation "measure (\<lambda>(data, lst, line_end). lst - line_end)") auto

declare grep_line_end.simps [simp del]

definition grep_show :: "env \<Rightarrow> (u8 list \<Rightarrow> u32) \<Rightarrow> u32 \<Rightarrow> u32 \<Rightarrow> kernel \<Rightarrow> kernel option" where
  "grep_show e lits fname lp s = do {
     s \<leftarrow> ece391_fdputs e 1 fname s;
     s \<leftarrow> ece391_fdputs e 1 (lits [58]) s;
     s \<leftarrow> ece391_fdputs e 1 lp s;
     ece391_fdputs e 1 (lits [10]) s }"

text \<open>\<^verbatim>\<open>s\<close> is a string of signed characters and \<^verbatim>\<open>data\<close> an array of unsigned ones.\<close>

function grep_check :: "env \<Rightarrow> (u8 list \<Rightarrow> u32) \<Rightarrow> u32 \<Rightarrow> u32 \<Rightarrow> u32 \<Rightarrow> u32 \<Rightarrow> nat \<Rightarrow> nat \<Rightarrow> nat \<Rightarrow> kernel \<Rightarrow> kernel option" where
  "grep_check e lits pat fname data s_len line_start line_end check s =
     (if check < line_end then
        if sint (buf_at (xl s) (phys s) pat 0) = uint (buf_at (xl s) (phys s) data check) \<and>
           ece391_strncmp (buf_at (xl s) (phys s) (data + of_nat check)) (buf_at (xl s) (phys s) pat) s_len = 0
        then grep_show e lits fname (data + of_nat line_start) s
        else grep_check e lits pat fname data s_len line_start line_end (check + 1) s
      else Some s)"
  by pat_completeness auto
termination by (relation "measure (\<lambda>(e, lits, pat, fname, data, s_len, line_start, line_end, check, s). line_end - check)") auto

declare grep_check.simps [simp del]

text \<open>The loop over the lines in the buffer; the value is the new \<^verbatim>\<open>last\<close>.\<close>

partial_function (option) grep_lines ::
    "env \<Rightarrow> (u8 list \<Rightarrow> u32) \<Rightarrow> u32 \<Rightarrow> u32 \<Rightarrow> u32 \<Rightarrow> u32 \<Rightarrow> int \<Rightarrow> nat \<Rightarrow> nat \<Rightarrow> kernel \<Rightarrow> (nat \<times> kernel) option" where
  "grep_lines e lits pat fname data s_len cnt lst line_start s =
     (let line_end = grep_line_end (buf_at (xl s) (phys s) data) lst line_start in
      if buf_at (xl s) (phys s) data line_end \<noteq> 10 \<and> cnt \<noteq> 0 \<and> line_start \<noteq> 0
      then let s = poke data (int line_end) 0 s in
           Option.bind (ece391_strcpy (xl s) data (data + of_nat line_start) (phys s)) (\<lambda>m. Some (lst - line_start, s\<lparr>phys := m\<rparr>))
      else let s = poke data (int line_end) 0 s in
           Option.bind (grep_check e lits pat fname data s_len line_start line_end line_start s) (\<lambda>s.
             if line_end + 1 \<ge> lst then Some (0, s) else grep_lines e lits pat fname data s_len cnt lst (line_end + 1) s))"

partial_function (option) grep_chunks ::
    "env \<Rightarrow> (u8 list \<Rightarrow> u32) \<Rightarrow> u32 \<Rightarrow> u32 \<Rightarrow> u32 \<Rightarrow> u32 \<Rightarrow> u32 \<Rightarrow> nat \<Rightarrow> kernel \<Rightarrow> (int \<times> kernel) option" where
  "grep_chunks e lits pat fname data s_len fdr lst s =
     Option.bind (ece391_read e fdr (data + of_nat lst) (of_nat (1024 - lst)) s) (\<lambda>(cnt, s).
       if cnt = -1 then fail_with e (lits (msg ''file read failed'')) (-1) s
       else Option.bind (grep_lines e lits pat fname data s_len cnt (lst + nat cnt) 0 s) (\<lambda>(lst, s).
         if cnt = 0 then Some (0, s) else grep_chunks e lits pat fname data s_len fdr lst s))"

definition do_one_file :: "env \<Rightarrow> (u8 list \<Rightarrow> u32) \<Rightarrow> u32 \<Rightarrow> u32 \<Rightarrow> u32 \<Rightarrow> kernel \<Rightarrow> (int \<times> kernel) option" where
  "do_one_file e lits pat fname data s = do {
     s_len \<leftarrow> ece391_strlen (buf_at (xl s) (phys s) pat);
     (fdr, s) \<leftarrow> ece391_open e fname s;
     if fdr = -1 then fail_with e (lits (msg ''file open failed'')) (-1) s
     else do {
       (r, s) \<leftarrow> grep_chunks e lits pat fname data s_len (word_of_int fdr) 0 s;
       if r = -1 then Some (-1, s)
       else do {
         (r, s) \<leftarrow> ece391_close e (word_of_int fdr) s;
         if r = -1 then fail_with e (lits (msg ''file close failed'')) (-1) s else Some (0, s) } } }"

section \<open>Lines and matches\<close>

lemma lines_ne: "lines F \<noteq> []"
  by (simp add: lines.simps)

lemma takeWhile_shorter: "10 \<in> set F \<Longrightarrow> length (takeWhile (\<lambda>c. c \<noteq> 10) F) < length F" for F :: "u8 list"
  by (induction F) auto

lemma lines_append: "lines (F @ G) = butlast (lines F) @ lines (last (lines F) @ G)"
proof (induction F rule: lines.induct)
  case (1 F)
  let ?l = "takeWhile (\<lambda>c. c \<noteq> 10) F"
  let ?F = "drop (Suc (length ?l)) F"
  show ?case
  proof (cases "10 \<in> set F")
    case True
    have t: "takeWhile (\<lambda>c. c \<noteq> 10) (F @ G) = ?l" using True by (intro takeWhile_append1) auto
    have "length ?l < length F" by (rule takeWhile_shorter [OF True])
    then have d: "drop (Suc (length ?l)) (F @ G) = ?F @ G" by simp
    have "lines (F @ G) = ?l # lines (?F @ G)" using True lines.simps [of "F @ G"] unfolding t d by simp
    moreover have "lines F = ?l # lines ?F" using True by (subst lines.simps) simp
    ultimately show ?thesis using 1 [OF True] lines_ne [of ?F] by simp
  next
    case False
    then have "lines F = [F]" by (subst lines.simps) simp
    then show ?thesis by simp
  qed
qed

lemma lines_plain: "10 \<notin> set F \<Longrightarrow> lines F = [F]"
  by (subst lines.simps) simp

text \<open>A line has the string; the empty string is in no line.\<close>

definition has_match :: "u8 list \<Rightarrow> u8 list \<Rightarrow> bool" where
  "has_match pat l \<longleftrightarrow> pat \<noteq> [] \<and> (\<exists>u v. l = u @ pat @ v)"

definition grep_output :: "u8 list \<Rightarrow> u8 list \<Rightarrow> u8 list list \<Rightarrow> u8 list" where
  "grep_output name pat ls = concat (map (\<lambda>l. name @ [58] @ l @ [10]) (filter (has_match pat) ls))"

lemma grep_output_simps [simp]:
  "grep_output name pat [] = []" "grep_output name pat (l # ls) = (if has_match pat l then name @ [58] @ l @ [10] else []) @ grep_output name pat ls"
  "grep_output name pat (ls @ ms) = grep_output name pat ls @ grep_output name pat ms"
  by (simp_all add: grep_output_def)

lemma no_match_empty: "\<not> has_match pat []"
  by (simp add: has_match_def)

lemma has_match_at: "has_match pat l \<longleftrightarrow> pat \<noteq> [] \<and> (\<exists>k < length l. take (length pat) (drop k l) = pat)"
proof -
  have "(\<exists>u v. l = u @ pat @ v) \<longleftrightarrow> (\<exists>k < length l. take (length pat) (drop k l) = pat)" if ne: "pat \<noteq> []"
  proof
    assume "\<exists>u v. l = u @ pat @ v"
    then obtain u v where "l = u @ pat @ v" by blast
    then show "\<exists>k < length l. take (length pat) (drop k l) = pat" using ne by (intro exI [of _ "length u"]) simp
  next
    assume "\<exists>k < length l. take (length pat) (drop k l) = pat"
    then obtain k where "take (length pat) (drop k l) = pat" by blast
    then have "l = take k l @ pat @ drop (length pat) (drop k l)" by (metis append_take_drop_id)
    then show "\<exists>u v. l = u @ pat @ v" by blast
  qed
  then show ?thesis by (auto simp: has_match_def)
qed

section \<open>The search in a line\<close>

lemma cprefix_take: "is_cstr s n \<Longrightarrow> cprefix k s = take k (map s [0..<n])"
proof (induction k s arbitrary: n rule: cprefix.induct)
  case (2 k s)
  show ?case
  proof (cases n)
    case 0
    with 2 show ?thesis by (simp add: is_cstr_def)
  next
    case (Suc n')
    then have "is_cstr (\<lambda>i. s (Suc i)) n'" "s 0 \<noteq> 0" using 2(2) by (auto simp: is_cstr_def)
    then show ?thesis using 2(1) Suc by (simp add: upt_conv_Cons map_Suc_upt [symmetric] comp_def del: upt_Suc)
  qed
qed simp

text \<open>The bytes of the array \<^verbatim>\<open>data\<close>.\<close>

abbreviation data_of :: "u32 \<Rightarrow> kernel \<Rightarrow> u8 list" where
  "data_of dp s \<equiv> file_buf dp s 1025"

lemma data_nth: "j < 1025 \<Longrightarrow> buf_at (xl s) (phys s) dp j = data_of dp s ! j"
  by (simp add: file_buf_def buf_at_def)

lemma line_at_cstr:
  assumes "take (length l) (drop a (data_of dp s)) = l" "data_of dp s ! (a + length l) = 0" "a + length l < 1025" "0 \<notin> set l" "k \<le> length l"
  shows "is_cstr (buf_at (xl s) (phys s) (dp + of_nat (a + k))) (length l - k)"
    "map (buf_at (xl s) (phys s) (dp + of_nat (a + k))) [0..<length l - k] = drop k l"
    "\<forall>j \<le> length l. phys s (xl s (dp + of_nat (a + j))) = (l @ [0]) ! j"
proof -
  have d: "data_of dp s ! (a + j) = l ! j" if "j < length l" for j
  proof -
    have "l ! j = take (length l) (drop a (data_of dp s)) ! j" using assms(1) by simp
    also have "\<dots> = data_of dp s ! (a + j)" using that assms(3) by (simp add: file_buf_def)
    finally show ?thesis by simp
  qed
  have nz: "l ! j \<noteq> 0" if "j < length l" for j using that assms(4) nth_mem by metis
  have b: "buf_at (xl s) (phys s) (dp + of_nat (a + k)) j = (l @ [0]) ! (k + j)" if "j \<le> length l - k" for j
  proof -
    have "buf_at (xl s) (phys s) (dp + of_nat (a + k)) j = data_of dp s ! (a + (k + j))"
      using that assms(3,5) by (subst data_nth [symmetric]) (simp_all add: buf_at_def add.assoc)
    moreover have "k + j < length l \<or> k + j = length l" using that assms(5) by linarith
    ultimately show ?thesis using d assms(2) by (auto simp: nth_append)
  qed
  show "is_cstr (buf_at (xl s) (phys s) (dp + of_nat (a + k))) (length l - k)"
    using b nz assms(5) by (auto simp: is_cstr_def nth_append)
  show "map (buf_at (xl s) (phys s) (dp + of_nat (a + k))) [0..<length l - k] = drop k l"
  proof (rule nth_equalityI)
    fix j assume "j < length (map (buf_at (xl s) (phys s) (dp + of_nat (a + k))) [0..<length l - k])"
    then have "j < length l - k" "k + j < length l" by simp_all
    then show "map (buf_at (xl s) (phys s) (dp + of_nat (a + k))) [0..<length l - k] ! j = drop k l ! j"
      using b [of j] by (simp add: nth_append del: of_nat_add)
  qed simp
  show "\<forall>j \<le> length l. phys s (xl s (dp + of_nat (a + j))) = (l @ [0]) ! j"
  proof safe
    fix j assume j: "j \<le> length l"
    have "phys s (xl s (dp + of_nat (a + j))) = data_of dp s ! (a + j)" using j assms(3) by (simp add: file_buf_def)
    then show "phys s (xl s (dp + of_nat (a + j))) = (l @ [0]) ! j" using j d assms(2) by (cases "j < length l") (auto simp: nth_append)
  qed
qed

lemma match_here:
  assumes l: "take (length l) (drop a (data_of dp s)) = l" "data_of dp s ! (a + length l) = 0" "a + length l < 1025" "0 \<notin> set l"
    and k: "k < length l" and pat: "const_at (\<lambda>c. sp) pat s" "plain pat" "pat \<noteq> [] \<longrightarrow> hd pat < 128"
  shows "sint (buf_at (xl s) (phys s) sp 0) = uint (buf_at (xl s) (phys s) dp (a + k)) \<and>
      ece391_strncmp (buf_at (xl s) (phys s) (dp + of_nat (a + k))) (buf_at (xl s) (phys s) sp) (of_nat (length pat)) = 0 \<longleftrightarrow>
    pat \<noteq> [] \<and> take (length pat) (drop k l) = pat"
proof -
  note at = line_at_cstr [OF l less_imp_le [OF k]]
  have pc: "\<forall>j \<le> length pat. phys s (xl s (sp + of_nat j)) = (pat @ [0]) ! j" "0 \<notin> set pat" "length pat < 1000"
    using pat(1,2) by (simp_all add: const_at_def plain_def)
  note ps = is_cstr_at [OF pc(1,2)]
  have pm: "map (buf_at (xl s) (phys s) sp) [0..<length pat] = pat"
    by (rule nth_equalityI) (use pc(1) in \<open>simp_all add: buf_at_def nth_append\<close>)
  have "unat (of_nat (length pat) :: u32) = length pat" using pc(3) by (simp add: unat_of_nat)
  then have eq: "ece391_strncmp (buf_at (xl s) (phys s) (dp + of_nat (a + k))) (buf_at (xl s) (phys s) sp) (of_nat (length pat)) = 0 \<longleftrightarrow>
      take (length pat) (drop k l) = pat"
    unfolding ece391_strncmp_kernel strncmp_eq_0 cprefix_take [OF at(1)] cprefix_take [OF ps] at(2) pm by simp
  have p0: "buf_at (xl s) (phys s) sp 0 = (pat @ [0]) ! 0" using pc(1) [rule_format, of 0] by (simp add: buf_at_def)
  have d0: "buf_at (xl s) (phys s) dp (a + k) = l ! k"
    using at(3) [rule_format, of k] k by (simp add: buf_at_def nth_append)
  show ?thesis
  proof (cases pat)
    case Nil
    have "l ! k \<noteq> 0" using l(4) k by (metis nth_mem)
    then show ?thesis using Nil p0 d0 by (simp add: uint_0_iff)
  next
    case (Cons c w)
    then have "uint c < 128" using pat(3) by (simp add: word_less_alt)
    moreover have "-128 \<le> uint c" by (rule order_trans [of _ 0]) simp_all
    ultimately have sc: "sint c = uint c" by (auto simp: sint_uint signed_take_bit_int_eq_self_iff)
    have "sint ((pat @ [0]) ! 0) = uint (l ! k)" if "take (length pat) (drop k l) = pat"
      using that Cons k sc by (simp add: Cons_nth_drop_Suc [symmetric])
    then show ?thesis unfolding p0 d0 eq using Cons by blast
  qed
qed

text \<open>A file that is being searched.\<close>

definition strings_ready :: "(u8 list \<Rightarrow> u32) \<Rightarrow> u32 \<Rightarrow> u8 list \<Rightarrow> u32 \<Rightarrow> u8 list \<Rightarrow> u32 \<Rightarrow> kernel \<Rightarrow> bool" where
  "strings_ready lits sp pat np name dp s \<longleftrightarrow> program lits [[58], [10]] dp 1025 s \<and> program (\<lambda>c. sp) [pat] dp 1025 s \<and>
     program (\<lambda>c. np) [name] dp 1025 s"

lemma strings_ok:
  assumes "strings_ready lits sp pat np name dp s"
  shows "program lits [[58], [10]] dp 1025 s" "console_ok s" "stdout_ok s" "fd_ok s" "fs_ok (xl s) (phys s) (FSYSTEM s)" "off_screen dp 1025 s"
    "user_buf (xl s) (phys s) (FSYSTEM s) dp 1025" "inj_on (xl s) (region dp 1025)" "plain pat" "plain name" "const_at (\<lambda>c. sp) pat s"
    "const_at (\<lambda>c. np) name s"
  using assms by (simp_all add: strings_ready_def program_def stdout_ok_def user_buf_def)

lemma program_subset: "program lits cs dp n s \<Longrightarrow> set ds \<subseteq> set cs \<Longrightarrow> program lits ds dp n s"
  unfolding program_def by blast

lemma strings_fd:
  "strings_ready lits sp pat np name dp s \<Longrightarrow> length f = 8 \<Longrightarrow> f ! 1 = fd s ! 1 \<Longrightarrow> strings_ready lits sp pat np name dp (s\<lparr>dt := d, fd := f\<rparr>)"
  using program_fd by (auto simp: strings_ready_def)

lemma strings_keep: "strings_ready lits sp pat np name dp s \<Longrightarrow> keeps dp 1025 s t \<Longrightarrow> strings_ready lits sp pat np name dp t"
  using program_keeps by (auto simp: strings_ready_def)

definition grepping :: "nat \<Rightarrow> (u8 list \<Rightarrow> u32) \<Rightarrow> u32 \<Rightarrow> u8 list \<Rightarrow> u32 \<Rightarrow> u8 list \<Rightarrow> u32 \<Rightarrow> kernel \<Rightarrow> bool" where
  "grepping i lits sp pat np name dp s \<longleftrightarrow> strings_ready lits sp pat np name dp s \<and> open_inv i dp 1024 s \<and> 2 \<le> i \<and> 0 \<notin> region dp 1025 \<and>
     f_close (fotp (fd s ! i)) = close_file"

lemma grepping_keeps:
  assumes "grepping i lits sp pat np name dp s" "keeps dp 1025 s t"
  shows "grepping i lits sp pat np name dp t" "file_rest i t = file_rest i s"
proof -
  have p: "strings_ready lits sp pat np name dp s" "open_inv i dp 1024 s" using assms(1) by (simp_all add: grepping_def)
  have sf: "same_files s t" by (rule keeps_files [OF assms(2) strings_ok(6,7) [OF p(1)]])
  note so = same_files_open [OF sf p(2)]
  have "fd t = fd s" using sf by (simp add: same_files_def)
  then show "grepping i lits sp pat np name dp t" using assms(1) so(1) strings_keep [OF p(1) assms(2)] by (simp add: grepping_def)
  show "file_rest i t = file_rest i s" by (rule so(2))
qed

text \<open>A change of the buffer, the screen and the descriptor \<open>i\<close>.\<close>

definition keeps_slot :: "nat \<Rightarrow> u32 \<Rightarrow> nat \<Rightarrow> kernel \<Rightarrow> kernel \<Rightarrow> bool" where
  "keeps_slot i buf n s t \<longleftrightarrow> (\<exists>d f. keeps buf n (s\<lparr>dt := d, fd := (fd s)[i := f]\<rparr>) t)"

lemma more_fd: "console.more t = console.more s \<Longrightarrow> console.more (t\<lparr>dt := d, fd := f\<rparr>) = console.more (s\<lparr>dt := d, fd := f\<rparr>)" for s t :: kernel
  by (cases s, cases t) simp

lemma keeps_fd: "keeps buf n s t \<Longrightarrow> keeps buf n (s\<lparr>dt := d, fd := f\<rparr>) (t\<lparr>dt := d, fd := f\<rparr>)"
  using more_fd [of t s] by (auto simp: keeps_def console_change_def console_simps)

lemma keeps_slot_keeps: "keeps buf n s t \<Longrightarrow> keeps_slot i buf n s t"
  unfolding keeps_slot_def by (rule exI [of _ "dt s"], rule exI [of _ "fd s ! i"]) simp

lemma keeps_slot_trans:
  assumes "keeps_slot i buf n s t" "keeps_slot i buf n t u"
  shows "keeps_slot i buf n s u"
proof -
  obtain d f d' f' where k: "keeps buf n (s\<lparr>dt := d, fd := (fd s)[i := f]\<rparr>) t" "keeps buf n (t\<lparr>dt := d', fd := (fd t)[i := f']\<rparr>) u"
    using assms by (auto simp: keeps_slot_def)
  have "console_change (s\<lparr>dt := d, fd := (fd s)[i := f]\<rparr>) t" using k(1) by (simp add: keeps_def)
  from console_change_prog(3) [OF this] have "fd t = (fd s)[i := f]" by simp
  then have "keeps buf n (s\<lparr>dt := d', fd := (fd s)[i := f']\<rparr>) u"
    using keeps_trans [OF keeps_fd [OF k(1), where d = d' and f = "(fd s)[i := f']"]] k(2) by simp
  then show ?thesis by (auto simp: keeps_slot_def)
qed

lemma grep_show_prints:
  assumes p: "strings_ready lits sp pat np name dp s"
    and l: "take (length l) (drop a (data_of dp s)) = l" "data_of dp s ! (a + length l) = 0" "a + length l < 1025" "plain l" "dp + of_nat a \<noteq> 0"
  shows "grep_show e lits np (dp + of_nat a) s = Some (fold putc (name @ [58] @ l @ [10]) s)"
proof -
  have pn: "program (\<lambda>c. np) [name] dp 1025 s" and pc: "program lits [[58], [10]] dp 1025 s" using p by (simp_all add: strings_ready_def)
  note ok = strings_ok [OF p]
  have "8 \<notin> set name" using ok(10) by (simp add: plain_def)
  then have kn: "keeps dp 1025 s (fold putc name s)" by (rule keeps_print [OF ok(2)])
  have 1: "ece391_fdputs e 1 np s = Some (fold putc name s)" using program_say(1) [OF pn, of name e] by simp
  note 2 = program_say [OF program_keeps [OF pc kn], of "[58]"]
  let ?t = "fold putc [58] (fold putc name s)"
  have p2: "program lits [[58], [10]] dp 1025 ?t" using 2(2) by simp
  have o: "stdout_ok ?t" "off_screen dp 1025 ?t" using p2 by (simp_all add: program_def)
  have pl: "8 \<notin> set (name @ [58])" "console_ok s" "off_screen dp 1025 s" using ok(2,6,10) by (simp_all add: plain_def)
  have "data_of dp ?t = data_of dp s" using file_buf_print [OF pl(2,1,3) order_refl] by simp
  then have lt: "take (length l) (drop a (data_of dp ?t)) = l" "data_of dp ?t ! (a + length l) = 0" using l(1,2) by simp_all
  have "0 \<notin> set l" using l(4) by (simp add: plain_def)
  note at = line_at_cstr(3) [OF lt l(3) this le0]
  have sub: "xl ?t ` region (dp + of_nat a) (length l) \<subseteq> xl ?t ` region dp 1025"
    using region_memI [of _ 1025 dp] l(3) by (fastforce simp: region_def add.assoc simp flip: of_nat_add)
  have off: "off_screen (dp + of_nat a) (length l) ?t" using o(2) subset_disjoint [OF sub] by (simp add: off_screen_def)
  have "ece391_fdputs e 1 (dp + of_nat a) ?t = Some (fold putc l ?t)"
    by (rule puts_prints [OF o(1) l(5) off l(4)]) (use at in \<open>simp add: add.assoc\<close>)
  moreover have "program lits [[58], [10]] dp 1025 (fold putc l ?t)" using program_print [OF p2] l(4) by (simp add: plain_def)
  note 3 = program_say(1) [OF this, of "[10]"]
  ultimately show ?thesis using 1 2(1) [of e] 3 [of e] by (simp add: grep_show_def)
qed

lemma grep_check_finds:
  assumes p: "strings_ready lits sp pat np name dp s"
    and l: "take (length l) (drop a (data_of dp s)) = l" "data_of dp s ! (a + length l) = 0" "a + length l < 1025" "plain l" "dp + of_nat a \<noteq> 0"
    and pat: "pat \<noteq> [] \<longrightarrow> hd pat < 128"
  shows "k \<le> length l \<Longrightarrow> grep_check e lits sp np dp (of_nat (length pat)) a (a + length l) (a + k) s =
    Some (if pat \<noteq> [] \<and> (\<exists>j < length l. k \<le> j \<and> take (length pat) (drop j l) = pat) then fold putc (name @ [58] @ l @ [10]) s else s)"
proof (induction "length l - k" arbitrary: k)
  case 0
  then show ?case by (subst grep_check.simps) auto
next
  case (Suc n)
  then have k: "k < length l" by simp
  have c: "const_at (\<lambda>c. sp) pat s" "plain pat" "0 \<notin> set l" using strings_ok [OF p] l(4) by (simp_all add: plain_def)
  note mh = match_here [OF l(1-3) c(3) k c(1,2) pat]
  show ?case
  proof (cases "pat \<noteq> [] \<and> take (length pat) (drop k l) = pat")
    case True
    then have ex: "\<exists>j < length l. k \<le> j \<and> take (length pat) (drop j l) = pat" using k by blast
    have "grep_check e lits sp np dp (of_nat (length pat)) a (a + length l) (a + k) s = grep_show e lits np (dp + of_nat a) s"
      using k mh [THEN iffD2, OF True] by (subst grep_check.simps) simp
    then show ?thesis unfolding grep_show_prints [OF p l] using True ex by simp
  next
    case False
    have IH: "grep_check e lits sp np dp (of_nat (length pat)) a (a + length l) (a + Suc k) s =
      Some (if pat \<noteq> [] \<and> (\<exists>j < length l. Suc k \<le> j \<and> take (length pat) (drop j l) = pat) then fold putc (name @ [58] @ l @ [10]) s else s)"
      by (rule Suc.hyps(1)) (use Suc.hyps(2) k in simp_all)
    have ex: "(pat \<noteq> [] \<and> (\<exists>j < length l. k \<le> j \<and> take (length pat) (drop j l) = pat)) \<longleftrightarrow>
        (pat \<noteq> [] \<and> (\<exists>j < length l. Suc k \<le> j \<and> take (length pat) (drop j l) = pat))"
    proof -
      have "k \<le> j \<longleftrightarrow> j = k \<or> Suc k \<le> j" for j by linarith
      then show ?thesis using False by metis
    qed
    have nm: "\<not> (sint (buf_at (xl s) (phys s) sp 0) = uint (buf_at (xl s) (phys s) dp (a + k)) \<and>
        ece391_strncmp (buf_at (xl s) (phys s) (dp + of_nat (a + k))) (buf_at (xl s) (phys s) sp) (of_nat (length pat)) = 0)"
      using mh False by blast
    have lt: "a + k < a + length l" "a + k + 1 = a + Suc k" using k by simp_all
    have "grep_check e lits sp np dp (of_nat (length pat)) a (a + length l) (a + k) s =
        grep_check e lits sp np dp (of_nat (length pat)) a (a + length l) (a + Suc k) s"
      unfolding grep_check.simps [where check = "a + k"] if_P [OF lt(1)] if_not_P [OF nm] lt(2) ..
    then show ?thesis unfolding IH ex .
  qed
qed

lemma grep_check_line:
  assumes "strings_ready lits sp pat np name dp s"
    and "take (length l) (drop a (data_of dp s)) = l" "data_of dp s ! (a + length l) = 0" "a + length l < 1025" "plain l" "dp + of_nat a \<noteq> 0"
    and "pat \<noteq> [] \<longrightarrow> hd pat < 128"
  shows "grep_check e lits sp np dp (of_nat (length pat)) a (a + length l) a s = Some (fold putc (grep_output name pat [l]) s)"
  using grep_check_finds [OF assms, of 0 e] by (auto simp: has_match_at)

section \<open>The buffer\<close>

text \<open>Moving a string down inside the buffer.\<close>

lemma strcpy_down:
  assumes inj: "inj_on tr (region dp 1025)" and a: "0 < a"
  shows "\<forall>j \<le> length T. m (tr (dp + of_nat (d + a + j))) = (T @ [0]) ! j \<Longrightarrow> 0 \<notin> set T \<Longrightarrow> d + a + length T < 1025 \<Longrightarrow>
    \<exists>m'. ece391_strcpy tr (dp + of_nat d) (dp + of_nat (d + a)) m = Some m' \<and> (\<forall>j \<le> length T. m' (tr (dp + of_nat (d + j))) = (T @ [0]) ! j) \<and>
      (\<forall>x. (\<forall>j \<le> length T. x \<noteq> tr (dp + of_nat (d + j))) \<longrightarrow> m' x = m x)"
proof (induction T arbitrary: d m)
  case Nil
  then have "m (tr (dp + of_nat (d + a))) = 0" by simp
  then have "ece391_strcpy tr (dp + of_nat d) (dp + of_nat (d + a)) m = Some (m(tr (dp + of_nat d) := 0))"
    by (subst ece391_strcpy.simps) (simp del: of_nat_add)
  then show ?case by simp
next
  case (Cons c T)
  let ?m = "m(tr (dp + of_nat d) := c)"
  have c: "m (tr (dp + of_nat (d + a))) = c" "c \<noteq> 0" "0 \<notin> set T" using Cons.prems(1) [rule_format, of 0] Cons.prems(2) by auto
  have nx: "dp + of_nat d + 1 = dp + of_nat (Suc d)" "dp + of_nat (d + a) + 1 = dp + of_nat (Suc d + a)" by simp_all
  have step: "ece391_strcpy tr (dp + of_nat d) (dp + of_nat (d + a)) m = ece391_strcpy tr (dp + of_nat (Suc d)) (dp + of_nat (Suc d + a)) ?m"
    using c(1,2) unfolding nx [symmetric] by (subst ece391_strcpy.simps) (simp del: of_nat_add)
  have sh: "?m (tr (dp + of_nat (Suc d + a + j))) = (T @ [0]) ! j" if "j \<le> length T" for j
  proof -
    have "tr (dp + of_nat (Suc d + a + j)) \<noteq> tr (dp + of_nat d)"
      using inj_region_off [OF inj, of "Suc d + a + j" d] Cons.prems(3) that by simp
    moreover have "m (tr (dp + of_nat (d + a + Suc j))) = (T @ [0]) ! j" using Cons.prems(1) [rule_format, of "Suc j"] that by simp
    ultimately show ?thesis by simp
  qed
  have len: "Suc d + a + length T < 1025" using Cons.prems(3) by simp
  obtain m' where m': "ece391_strcpy tr (dp + of_nat (Suc d)) (dp + of_nat (Suc d + a)) ?m = Some m'"
      "\<forall>j \<le> length T. m' (tr (dp + of_nat (Suc d + j))) = (T @ [0]) ! j"
      "\<forall>x. (\<forall>j \<le> length T. x \<noteq> tr (dp + of_nat (Suc d + j))) \<longrightarrow> m' x = ?m x"
    using Cons.IH [of ?m "Suc d", OF _ c(3) len] sh by blast
  have ne: "tr (dp + of_nat d) \<noteq> tr (dp + of_nat (Suc d + j))" if "j \<le> length T" for j
    using inj_region_off [OF inj, of d "Suc d + j"] Cons.prems(3) a that by simp
  have "m' (tr (dp + of_nat d)) = c" using m'(3) ne by simp
  then have "m' (tr (dp + of_nat (d + j))) = ((c # T) @ [0]) ! j" if "j \<le> length (c # T)" for j
    using m'(2) that by (cases j) simp_all
  moreover have "m' x = m x" if x: "\<forall>j \<le> length (c # T). x \<noteq> tr (dp + of_nat (d + j))" for x
  proof -
    have "x \<noteq> tr (dp + of_nat d)" using x [rule_format, of 0] by simp
    moreover have "x \<noteq> tr (dp + of_nat (Suc d + j))" if "j \<le> length T" for j using x [rule_format, of "Suc j"] that by simp
    ultimately show ?thesis using m'(3) by simp
  qed
  ultimately show ?case using step m'(1) by (intro exI [of _ m']) simp
qed

lemma program_store:
  assumes p: "program lits cs dp n s" and fr: "\<forall>x. x \<notin> xl s ` region dp n \<longrightarrow> m x = phys s x"
  shows "keeps dp n s (s\<lparr>phys := m\<rparr>)" "shown (s\<lparr>phys := m\<rparr>) = shown s"
proof -
  have o: "console_ok s" "fs_ok (xl s) (phys s) (FSYSTEM s)" "user_buf (xl s) (phys s) (FSYSTEM s) dp n" "off_screen dp n s"
    using p by (simp_all add: program_def stdout_ok_def)
  show "keeps dp n s (s\<lparr>phys := m\<rparr>)" using o(1) fr by (auto simp: keeps_def console_change_def console_simps)
  show "shown (s\<lparr>phys := m\<rparr>) = shown s" using quiet_keeps(1) [OF buffer_store(2) [OF o(2-4) fr]] by simp
qed

lemma move_down:
  assumes p: "program lits cs dp 1025 s" and a: "0 < a" "a + length T < 1025"
    and T: "take (length T) (drop a (data_of dp s)) = T" "data_of dp s ! (a + length T) = 0" "0 \<notin> set T"
  obtains m where "ece391_strcpy (xl s) dp (dp + of_nat a) (phys s) = Some m" "keeps dp 1025 s (s\<lparr>phys := m\<rparr>)" "shown (s\<lparr>phys := m\<rparr>) = shown s"
    "take (length T) (data_of dp (s\<lparr>phys := m\<rparr>)) = T" "data_of dp (s\<lparr>phys := m\<rparr>) ! 1024 = data_of dp s ! 1024"
proof -
  have inj: "inj_on (xl s) (region dp 1025)" using p by (simp add: program_def user_buf_def)
  obtain m where m: "ece391_strcpy (xl s) dp (dp + of_nat a) (phys s) = Some m" "\<forall>j \<le> length T. m (xl s (dp + of_nat j)) = (T @ [0]) ! j"
      "\<forall>x. (\<forall>j \<le> length T. x \<noteq> xl s (dp + of_nat j)) \<longrightarrow> m x = phys s x"
    using strcpy_down [OF inj a(1), of T "phys s" 0] line_at_cstr(3) [OF T(1,2) a(2) T(3) le0] a(2) T(3) by auto
  have "m x = phys s x" if "x \<notin> xl s ` region dp 1025" for x
  proof (rule m(3) [rule_format])
    fix j assume "j \<le> length T"
    then have "xl s (dp + of_nat j) \<in> xl s ` region dp 1025" using region_memI [of j 1025 dp] a(2) by simp
    then show "x \<noteq> xl s (dp + of_nat j)" using that by metis
  qed
  then have st: "keeps dp 1025 s (s\<lparr>phys := m\<rparr>)" "shown (s\<lparr>phys := m\<rparr>) = shown s" using program_store [OF p] by blast+
  have "take (length T) (data_of dp (s\<lparr>phys := m\<rparr>)) = T"
    using m(2) a by (intro nth_equalityI) (simp_all add: file_buf_def nth_append)
  moreover have "m (xl s (dp + of_nat 1024)) = phys s (xl s (dp + of_nat 1024))"
  proof (rule m(3) [rule_format])
    fix j assume "j \<le> length T"
    then show "xl s (dp + of_nat 1024) \<noteq> xl s (dp + of_nat j)" using inj_region_off [OF inj, of 1024 j] a by simp
  qed
  then have "data_of dp (s\<lparr>phys := m\<rparr>) ! 1024 = data_of dp s ! 1024" by (simp add: file_buf_def)
  ultimately show thesis using that m(1) st by blast
qed

lemma grep_line_end_text:
  "\<forall>j < length T. data (a + j) = T ! j \<Longrightarrow> grep_line_end data (a + length T) a = a + length (takeWhile (\<lambda>c. c \<noteq> 10) T)"
proof (induction T arbitrary: a)
  case Nil
  then show ?case by (subst grep_line_end.simps) simp
next
  case (Cons c T)
  have "data a = c" using Cons.prems [rule_format, of 0] by simp
  moreover have "grep_line_end data (Suc a + length T) (Suc a) = Suc a + length (takeWhile (\<lambda>c. c \<noteq> 10) T)"
  proof (rule Cons.IH, safe)
    fix j assume "j < length T"
    then show "data (Suc a + j) = T ! j" using Cons.prems [rule_format, of "Suc j"] by simp
  qed
  ultimately show ?case by (subst grep_line_end.simps) simp
qed

section \<open>The lines in the buffer\<close>

lemma print_screen: "same_screen s r \<Longrightarrow> console_ok s \<Longrightarrow> 8 \<notin> set c \<Longrightarrow> same_screen (fold putc c s) (fold putc c r)"
  using shown_fold [of s r c] sink.put_all [of r c] by (auto simp: same_screen_def)

lemma grep_output_plain: "plain name \<Longrightarrow> \<forall>l \<in> set ls. plain l \<Longrightarrow> 8 \<notin> set (grep_output name pat ls)"
  by (auto simp: grep_output_def plain_def)

text \<open>The line from \<open>a\<close> on is terminated and searched.\<close>

lemma search_line:
  assumes g: "grepping i lits sp pat np name dp s" and pat: "pat \<noteq> [] \<longrightarrow> hd pat < 128" and l: "take (length l) (drop a (data_of dp s)) = l" "plain l"
    and a: "a + length l < 1025"
  obtains t where "grep_check e lits sp np dp (of_nat (length pat)) a (a + length l) a (poke dp (int (a + length l)) 0 s) = Some t"
    "keeps dp 1025 s t" "data_of dp t = (data_of dp s)[a + length l := 0]" "\<And>r. same_screen s r \<Longrightarrow> same_screen t (fold putc (grep_output name pat [l]) r)"
proof -
  let ?s = "poke dp (int (a + length l)) 0 s" and ?c = "grep_output name pat [l]"
  have p: "strings_ready lits sp pat np name dp s" and nz: "0 \<notin> region dp 1025" using g by (simp_all add: grepping_def)
  have o: "console_ok s" "off_screen dp 1025 s" "inj_on (xl s) (region dp 1025)" "plain name"
    using strings_ok [OF p] by simp_all
  have k: "keeps dp 1025 s ?s" by (rule keeps_poke [OF o(1) a])
  have ps: "strings_ready lits sp pat np name dp ?s" by (rule strings_keep [OF p k])
  have d: "data_of dp ?s = (data_of dp s)[a + length l := 0]" by (rule file_buf_poke [OF o(3) a]) simp_all
  have sh: "shown ?s = shown s" by (rule shown_poke [OF o(2) a])
  have len: "length (data_of dp s) = 1025" by (simp add: file_buf_def)
  have l0: "take (length l) (drop a (data_of dp ?s)) = l" "data_of dp ?s ! (a + length l) = 0"
    unfolding d using l(1) a len by (simp_all add: drop_update_swap)
  have "dp + of_nat a \<in> region dp 1025" by (rule region_memI) (use a in simp)
  then have "dp + of_nat a \<noteq> 0" using nz by metis
  note gc = grep_check_line [OF ps l0 a l(2) this pat, of e]
  have c: "8 \<notin> set ?c" "console_ok ?s" "off_screen dp 1025 ?s"
    using grep_output_plain [OF o(4), of "[l]"] l(2) strings_ok [OF ps] by (simp_all del: grep_output_simps)
  have kt: "keeps dp 1025 s (fold putc ?c ?s)" by (rule keeps_trans [OF k keeps_print [OF c(2,1)]])
  have dt: "data_of dp (fold putc ?c ?s) = (data_of dp s)[a + length l := 0]" using file_buf_print [OF c(2,1,3) order_refl] d by simp
  have "same_screen (fold putc ?c ?s) (fold putc ?c r)" if "same_screen s r" for r
    by (rule print_screen [OF _ c(2,1)]) (use that sh in \<open>simp add: same_screen_def\<close>)
  then show thesis by (rule that [OF gc kt dt])
qed

definition searched :: "u8 list \<Rightarrow> u8 list \<Rightarrow> u8 list list \<Rightarrow> kernel \<Rightarrow> kernel \<Rightarrow> bool" where
  "searched name pat ls s t \<longleftrightarrow> (\<forall>r. same_screen s r \<longrightarrow> same_screen t (fold putc (grep_output name pat ls) r))"

lemma searched_trans: "searched name pat ls s t \<Longrightarrow> searched name pat ms t u \<Longrightarrow> searched name pat (ls @ ms) s u"
  by (simp add: searched_def)

lemma searched_empty: "searched name pat (ls @ [[]]) s t \<longleftrightarrow> searched name pat ls s t"
  by (simp add: searched_def no_match_empty)

text \<open>What a run over the lines of the text \<open>T\<close> leaves: the last line, not yet searched, or nothing.\<close>

definition lines_done :: "u8 list \<Rightarrow> u8 list \<Rightarrow> u32 \<Rightarrow> u8 list \<Rightarrow> int \<Rightarrow> bool \<Rightarrow> u8 list \<Rightarrow> kernel \<Rightarrow> kernel \<Rightarrow> bool" where
  "lines_done name pat dp T cnt b pend s t \<longleftrightarrow> keeps dp 1025 s t \<and> take (length pend) (data_of dp t) = pend \<and>
     data_of dp t ! 1024 \<in> {0, data_of dp s ! 1024} \<and>
     (pend = last (lines T) \<and> cnt \<noteq> 0 \<and> searched name pat (butlast (lines T)) s t \<or> pend = [] \<and> searched name pat (lines T) s t \<and> (last (lines T) = [] \<or> b))"

lemma last_line:
  assumes g: "grepping i lits sp pat np name dp s" and pat: "pat \<noteq> [] \<longrightarrow> hd pat < 128" and N: "a + length T \<le> 1024"
    and T: "take (length T) (drop a (data_of dp s)) = T" "10 \<notin> set T" "plain T"
  shows "\<exists>pend t. grep_lines e lits sp np dp (of_nat (length pat)) cnt (a + length T) a s = Some (length pend, t) \<and>
    lines_done name pat dp T cnt (cnt = 0 \<or> a = 0 \<or> data_of dp s ! (a + length T) = 10) pend s t"
proof -
  let ?D = "data_of dp s" and ?N = "a + length T"
  have len: "length ?D = 1025" by (simp add: file_buf_def)
  have Tj: "buf_at (xl s) (phys s) dp (a + j) = T ! j" if "j < length T" for j
  proof -
    have "T ! j = take (length T) (drop a ?D) ! j" using T(1) by simp
    also have "\<dots> = ?D ! (a + j)" using that N len by simp
    finally show ?thesis using that N by (simp add: data_nth)
  qed
  have tw: "takeWhile (\<lambda>c. c \<noteq> 10) T = T" using T(2) by (auto simp: takeWhile_eq_all_conv)
  have le: "grep_line_end (buf_at (xl s) (phys s) dp) ?N a = ?N" using grep_line_end_text [of T _ a, unfolded tw] Tj by blast
  have bN: "buf_at (xl s) (phys s) dp ?N = ?D ! ?N" by (rule data_nth) (use N in simp)
  have ls: "lines T = [T]" by (rule lines_plain [OF T(2)])
  show ?thesis
  proof (cases "?D ! ?N \<noteq> 10 \<and> cnt \<noteq> 0 \<and> a \<noteq> 0")
    case True
    let ?s = "poke dp (int ?N) 0 s"
    have p: "strings_ready lits sp pat np name dp s" using g by (simp add: grepping_def)
    have o: "console_ok s" "off_screen dp 1025 s" "inj_on (xl s) (region dp 1025)" using strings_ok [OF p] by simp_all
    have lt: "?N < 1025" using N by simp
    have k: "keeps dp 1025 s ?s" by (rule keeps_poke [OF o(1) lt])
    have d: "data_of dp ?s = ?D[?N := 0]" by (rule file_buf_poke [OF o(3) lt]) simp_all
    have t0: "take (length T) (drop a (data_of dp ?s)) = T" "data_of dp ?s ! ?N = 0"
      unfolding d using T(1) lt len by (simp_all add: drop_update_swap)
    have "0 < a" "0 \<notin> set T" using True T(3) by (simp_all add: plain_def)
    then obtain m where m: "ece391_strcpy (xl ?s) dp (dp + of_nat a) (phys ?s) = Some m" "keeps dp 1025 ?s (?s\<lparr>phys := m\<rparr>)"
        "shown (?s\<lparr>phys := m\<rparr>) = shown ?s" "take (length T) (data_of dp (?s\<lparr>phys := m\<rparr>)) = T"
        "data_of dp (?s\<lparr>phys := m\<rparr>) ! 1024 = data_of dp ?s ! 1024"
      using move_down [OF program_keeps [OF strings_ok(1) [OF p] k] _ lt t0] by blast
    have "grep_lines e lits sp np dp (of_nat (length pat)) cnt ?N a s = Some (length T, ?s\<lparr>phys := m\<rparr>)"
      using True m(1) by (subst grep_lines.simps) (simp add: Let_def le bN del: of_nat_add)
    moreover have "shown (?s\<lparr>phys := m\<rparr>) = shown s" using m(3) shown_poke [OF o(2) lt] by simp
    then have "searched name pat [] s (?s\<lparr>phys := m\<rparr>)" by (simp add: searched_def same_screen_def)
    moreover have "data_of dp (?s\<lparr>phys := m\<rparr>) ! 1024 \<in> {0, ?D ! 1024}" unfolding m(5) d using len by (cases "?N = 1024") simp_all
    ultimately show ?thesis using keeps_trans [OF k m(2)] m(4)
      by (intro exI [of _ T] exI [of _ "?s\<lparr>phys := m\<rparr>"]) (use True in \<open>simp add: lines_done_def ls\<close>)
  next
    case False
    have lt: "?N < 1025" using N by simp
    obtain t where t: "grep_check e lits sp np dp (of_nat (length pat)) a ?N a (poke dp (int ?N) 0 s) = Some t"
        "keeps dp 1025 s t" "data_of dp t = ?D[?N := 0]" "\<And>r. same_screen s r \<Longrightarrow> same_screen t (fold putc (grep_output name pat [T]) r)"
      by (rule search_line [OF g pat T(1,3) lt]) blast
    have "grep_lines e lits sp np dp (of_nat (length pat)) cnt ?N a s = Some (length [], t)"
      using False t(1) by (subst grep_lines.simps) (auto simp: Let_def le bN simp del: of_nat_add)
    moreover have "data_of dp t ! 1024 \<in> {0, ?D ! 1024}" unfolding t(3) using len by (cases "?N = 1024") simp_all
    ultimately show ?thesis using t(2,4) False
      by (intro exI [of _ "[]"] exI [of _ t]) (auto simp: lines_done_def ls searched_def simp del: grep_output_simps)
  qed
qed

lemma grep_lines_run:
  assumes pat: "pat \<noteq> [] \<longrightarrow> hd pat < 128"
  shows "grepping i lits sp pat np name dp s \<Longrightarrow> a + length T \<le> 1024 \<Longrightarrow> take (length T) (drop a (data_of dp s)) = T \<Longrightarrow> \<forall>l \<in> set (lines T). plain l \<Longrightarrow>
    \<exists>pend t. grep_lines e lits sp np dp (of_nat (length pat)) cnt (a + length T) a s = Some (length pend, t) \<and>
      lines_done name pat dp T cnt (cnt = 0 \<or> (a = 0 \<and> 10 \<notin> set T) \<or> data_of dp s ! (a + length T) = 10) pend s t"
proof (induction "length T" arbitrary: a s T rule: less_induct)
  case less
  note g = less.prems(1) and N = less.prems(2) and T = less.prems(3)
  let ?D = "data_of dp s" and ?N = "a + length T"
  show ?case
  proof (cases "10 \<in> set T")
    case False
    have "plain T" using less.prems(4) lines_plain [OF False] by simp
    from last_line [OF g pat N T False this, of e cnt] show ?thesis using False by simp
  next
    case True
    define l where "l = takeWhile (\<lambda>c. c \<noteq> 10) T"
    define T' where "T' = drop (Suc (length l)) T"
    have lT: "length l < length T" unfolding l_def by (rule takeWhile_shorter [OF True])
    have ls: "lines T = l # lines T'" using True unfolding l_def T'_def by (subst lines.simps) simp
    have len: "length ?D = 1025" "length T = Suc (length l) + length T'" using lT by (simp_all add: file_buf_def T'_def)
    have tl: "take (length l) T = l" unfolding l_def by (metis takeWhile_eq_take)
    have Tj: "?D ! (a + j) = T ! j" if "j < length T" for j
    proof -
      have "T ! j = take (length T) (drop a ?D) ! j" using T by simp
      also have "\<dots> = ?D ! (a + j)" using that N len(1) by simp
      finally show ?thesis by simp
    qed
    have le: "grep_line_end (buf_at (xl s) (phys s) dp) ?N a = a + length l"
      unfolding l_def using grep_line_end_text [of T _ a] Tj data_nth N by simp
    have "T ! length l = 10" using nth_length_takeWhile [of "\<lambda>c. c \<noteq> 10" T] lT unfolding l_def by simp
    then have nl: "buf_at (xl s) (phys s) dp (a + length l) = 10" using Tj [OF lT] data_nth [of "a + length l" s dp] N lT by simp
    have lt: "a + length l < 1025" and tk: "take (length l) (drop a ?D) = l"
      using lT N T tl by (simp, metis less_imp_le min.absorb1 take_take)
    obtain t where t: "grep_check e lits sp np dp (of_nat (length pat)) a (a + length l) a (poke dp (int (a + length l)) 0 s) = Some t"
        "keeps dp 1025 s t" "data_of dp t = ?D[a + length l := 0]" "\<And>r. same_screen s r \<Longrightarrow> same_screen t (fold putc (grep_output name pat [l]) r)"
      by (rule search_line [OF g pat tk _ lt]) (use less.prems(4) ls in auto)
    have step: "grep_lines e lits sp np dp (of_nat (length pat)) cnt ?N a s =
        (if ?N \<le> a + length l + 1 then Some (0, t) else grep_lines e lits sp np dp (of_nat (length pat)) cnt ?N (a + length l + 1) t)"
      using t(1) nl by (subst grep_lines.simps) (simp add: Let_def le del: of_nat_add)
    have sl: "searched name pat [l] s t" using t(4) by (simp add: searched_def del: grep_output_simps)
    show ?thesis
    proof (cases "T' = []")
      case T': True
      then have "grep_lines e lits sp np dp (of_nat (length pat)) cnt ?N a s = Some (length [], t)"
        using step len(2) by simp
      moreover have "lines T = [l] @ [[]]" using ls T' by (simp add: lines_plain)
      moreover have "data_of dp t ! 1024 \<in> {0, ?D ! 1024}" unfolding t(3) using len(1) by (cases "a + length l = 1024") simp_all
      ultimately show ?thesis using t(2) sl
        by (intro exI [of _ "[]"] exI [of _ t]) (simp add: lines_done_def searched_empty [of _ _ "[l]", simplified])
    next
      case False
      let ?a = "a + length l + 1"
      have gt: "grepping i lits sp pat np name dp t" by (rule grepping_keeps(1) [OF g t(2)])
      have N': "?a + length T' = ?N" using len(2) by simp
      have dT: "drop ?a ?D = drop (Suc (length l)) (drop a ?D)" by (simp add: add.commute)
      have "T' = drop (Suc (length l)) (take (length T) (drop a ?D))" unfolding T T'_def ..
      also have "\<dots> = take (length T - Suc (length l)) (drop ?a ?D)" unfolding dT by (rule drop_take)
      also have "drop ?a ?D = drop ?a (data_of dp t)" unfolding t(3) by simp
      also have "length T - Suc (length l) = length T'" using len(2) by simp
      finally obtain pend u where u: "grep_lines e lits sp np dp (of_nat (length pat)) cnt (?a + length T') ?a t = Some (length pend, u)"
          "lines_done name pat dp T' cnt (cnt = 0 \<or> data_of dp t ! (?a + length T') = 10) pend t u"
        using less.hyps [OF _ gt, of T' ?a] N N' len(2) less.prems(4) ls by auto
      have res: "grep_lines e lits sp np dp (of_nat (length pat)) cnt ?N a s = Some (length pend, u)"
        unfolding step using u(1) False unfolding N' by (simp add: len(2))
      have D': "data_of dp t ! ?N = ?D ! ?N" "data_of dp t ! 1024 = (if a + length l = 1024 then 0 else ?D ! 1024)"
        unfolding t(3) using len lT by simp_all
      have "lines_done name pat dp T cnt (cnt = 0 \<or> (a = 0 \<and> 10 \<notin> set T) \<or> ?D ! ?N = 10) pend s u"
        unfolding lines_done_def ls last.simps butlast.simps if_not_P [OF lines_ne]
      proof (intro conjI)
        note d = u(2) [unfolded lines_done_def N' D'(1)]
        show "keeps dp 1025 s u" "take (length pend) (data_of dp u) = pend" using d keeps_trans [OF t(2)] by blast+
        show "data_of dp u ! 1024 \<in> {0, ?D ! 1024}" using d D'(2) by (auto split: if_splits)
        show "pend = last (lines T') \<and> cnt \<noteq> 0 \<and> searched name pat (l # butlast (lines T')) s u \<or>
            pend = [] \<and> searched name pat (l # lines T') s u \<and> (last (lines T') = [] \<or> cnt = 0 \<or> a = 0 \<and> 10 \<notin> set T \<or> ?D ! ?N = 10)"
          using d searched_trans [OF sl] by fastforce
      qed
      then show ?thesis using res by blast
    qed
  qed
qed

section \<open>The chunks of the file\<close>

lemma region_tail: "region (dp + of_nat N) (n - N) \<subseteq> region dp n"
proof
  fix x assume "x \<in> region (dp + of_nat N) (n - N)"
  then obtain j where j: "j < n - N" "x = dp + of_nat N + of_nat j" by (auto simp: region_def)
  then have "x = dp + of_nat (N + j)" "N + j < n" by (simp_all add: add.assoc)
  then show "x \<in> region dp n" using region_memI by blast
qed

lemma tail_apart:
  assumes "inj_on tr (region dp 1025)" "j < 1025" "j < N \<or> j = 1024" "N \<le> 1024"
  shows "tr (dp + of_nat j) \<notin> tr ` region (dp + of_nat N) (1024 - N)"
proof
  assume "tr (dp + of_nat j) \<in> tr ` region (dp + of_nat N) (1024 - N)"
  then obtain l where l: "l < 1024 - N" "tr (dp + of_nat j) = tr (dp + of_nat (N + l))" by (auto simp: region_def add.assoc)
  then have "j = N + l" using inj_region_off [OF assms(1,2), of "N + l"] by simp
  then show False using assms(3) l(1) by simp
qed

lemma chunk_open:
  assumes g: "grepping i lits sp pat np name dp s" and N: "N \<le> 1024"
  shows "open_inv i (dp + of_nat N) (1024 - N) s"
proof -
  have o: "open_inv i dp 1024 s" "0 \<notin> region dp 1025" using g by (simp_all add: grepping_def)
  have "dp + of_nat N \<noteq> 0" using o(2) region_memI [of N 1025 dp] N by force
  moreover have "inj_on (xl s) (region dp 1024)" "xl s ` region dp 1024 \<inter> fs_image (xl s) (phys s) (FSYSTEM s) = {}"
    using o(1) by (simp_all add: open_inv_def file_inv_def user_buf_def)
  ultimately have "user_buf (xl s) (phys s) (FSYSTEM s) (dp + of_nat N) (1024 - N)"
    using region_tail [of dp N 1024] inj_on_subset subset_disjoint [OF image_mono [OF region_tail]] by (auto simp: user_buf_def)
  moreover have "1024 - N < 2 ^ 31" "1024 - N < 2 ^ 32" by (rule order_le_less_trans [of _ 1024]; simp)+
  ultimately show ?thesis using o(1) by (simp add: open_inv_def file_inv_def)
qed

lemma chunk_read:
  assumes g: "grepping i lits sp pat np name dp s" and N: "N \<le> 1024" and R: "file_rest i s = R"
  obtains t where "ece391_read e (of_nat i) (dp + of_nat N) (of_nat (1024 - N)) s = Some (int (length (take (1024 - N) R)), t)"
    "grepping i lits sp pat np name dp t" "file_rest i t = drop (1024 - N) R" "shown t = shown s"
    "take (N + length (take (1024 - N) R)) (data_of dp t) = take N (data_of dp s) @ take (1024 - N) R" "data_of dp t ! 1024 = data_of dp s ! 1024" "keeps_slot i dp 1025 s t"
proof -
  let ?b = "dp + of_nat N" and ?n = "1024 - N"
  let ?t = "snd (file_read i ?b (of_nat ?n) s)"
  define m where "m = snd (read_data (xl s) (FSYSTEM s) (inode (fd s ! i)) (fposition (fd s ! i)) ?b (of_nat ?n) (phys s))"
  have p: "strings_ready lits sp pat np name dp s" using g by (simp add: grepping_def)
  note inv = chunk_open [OF g N] and nz = g [unfolded grepping_def]
  have inj: "inj_on (xl s) (region dp 1025)" and off: "off_screen dp 1025 s" using strings_ok [OF p] by simp_all
  have i: "sint (of_nat i :: u32) = int i" "2 \<le> i" "i < 8" "i < length (fd s)" using nz by (auto simp: open_inv_def file_inv_def intro: small_sint)
  obtain k where t: "?t = s\<lparr>phys := m, fd := (fd s)[i := (fd s ! i)\<lparr>fposition := k\<rparr>]\<rparr>" by (simp add: file_read_def Let_def case_prod_unfold m_def)
  note rd = read_call_file [OF inv order_refl, of e]
  have "?b \<noteq> 0" using inv by (simp add: open_inv_def file_inv_def user_buf_def)
  then have call: "ece391_read e (of_nat i) ?b (of_nat ?n) s = Some (user_call e 3 (of_nat i) ?b (of_nat ?n) s)"
    using inv i by (simp add: ece391_read_def int80_def user_call_def syscall_link_def sys_read_def open_inv_def Let_def case_prod_unfold)
  have "unat (of_nat ?n :: u32) = ?n" by (simp add: unat_of_nat take_bit_nat_eq_self del: of_nat_diff)
  then have fr: "m x = phys s x" if "x \<notin> xl s ` region ?b ?n" for x unfolding m_def by (intro read_data_frame) (use that in simp)
  have sub: "xl s ` region ?b ?n \<subseteq> xl s ` region dp 1025"
    by (intro image_mono order_trans [OF region_tail [of dp N 1024]] region_mono) simp
  have "\<forall>x. x \<notin> xl s ` region dp 1025 \<longrightarrow> m x = phys s x" using fr subsetD [OF sub] by metis
  note st = program_store [OF strings_ok(1) [OF p] this]
  have eq: "?t = (s\<lparr>phys := m\<rparr>)\<lparr>dt := dt s, fd := (fd s)[i := (fd s ! i)\<lparr>fposition := k\<rparr>]\<rparr>" unfolding t by simp
  have pt: "strings_ready lits sp pat np name dp ?t" unfolding eq
    by (rule strings_fd [OF strings_keep [OF p st(1)]]) (use i strings_ok(4) [OF p] in \<open>simp_all add: fd_ok_def\<close>)
  have x: "xl ?t = xl s" unfolding eq by (rule xl_cong) simp_all
  note oi = read_call_inv [OF inv order_refl]
  have "user_buf (xl ?t) (phys ?t) (FSYSTEM ?t) dp 1025" by (rule strings_ok(7) [OF pt])
  then have "user_buf (xl ?t) (phys ?t) (FSYSTEM ?t) dp 1024" by (rule user_buf_mono) simp
  then have "open_inv i dp 1024 ?t" using oi by (simp add: open_inv_def file_inv_def)
  moreover have "f_close (fotp (fd ?t ! i)) = close_file" using nz i unfolding t by simp
  ultimately have gt: "grepping i lits sp pat np name dp ?t" using nz pt by (simp add: grepping_def)
  note cnt = sysread.read_count [OF inv order_refl, of e, unfolded rd R] and rest = sysread.read_rest [OF inv order_refl, of e, unfolded rd R]
    and got = sysread.read_got [OF inv order_refl, of e, unfolded rd R]
  have keep: "data_of dp ?t ! j = data_of dp s ! j" if "j < 1025" "j < N \<or> j = 1024" for j
    using fr [OF tail_apart [OF inj that N]] that(1) by (simp add: file_buf_def x) (simp add: t)
  have dat: "take (N + length (take ?n R)) (data_of dp ?t) = take N (data_of dp s) @ take ?n R"
  proof (rule nth_equalityI)
    show len: "length (take (N + length (take ?n R)) (data_of dp ?t)) = length (take N (data_of dp s) @ take ?n R)" using N by (simp add: file_buf_def)
    fix j assume "j < length (take (N + length (take ?n R)) (data_of dp ?t))"
    then have j: "j < N + length (take ?n R)" "j < 1025" by (simp_all add: file_buf_def)
    show "take (N + length (take ?n R)) (data_of dp ?t) ! j = (take N (data_of dp s) @ take ?n R) ! j"
    proof (cases "j < N")
      case True
      then show ?thesis using keep j N by (simp add: nth_append file_buf_def)
    next
      case False
      then obtain l where l: "j = N + l" "l < length (take ?n R)" using j(1) by (metis add_less_cancel_left le_iff_add not_less)
      have "data_of dp ?t ! j = file_buf ?b ?t (length (take ?n R)) ! l" using l j by (simp add: file_buf_def add.assoc)
      then show ?thesis using l j N unfolding got by (simp add: nth_append file_buf_def)
    qed
  qed
  have sh: "shown ?t = shown s" unfolding eq shown_fd by (rule st(2))
  have "ece391_read e (of_nat i) ?b (of_nat ?n) s = Some (int (length (take ?n R)), ?t)" using call cnt unfolding rd by (simp add: prod_eq_iff)
  moreover have "keeps_slot i dp 1025 s ?t" unfolding eq keeps_slot_def using keeps_fd [OF st(1)] by blast
  ultimately show thesis using that [OF _ gt rest sh dat keep] by simp
qed

lemma first_line: "10 \<notin> set P \<Longrightarrow> \<exists>q. P @ q \<in> set (lines (P @ R))"
proof (cases "10 \<in> set (P @ R)")
  case True
  assume "10 \<notin> set P"
  then have "takeWhile (\<lambda>c. c \<noteq> 10) (P @ R) = P @ takeWhile (\<lambda>c. c \<noteq> 10) R" by (intro takeWhile_append2) auto
  then show ?thesis using True lines.simps [of "P @ R"] by auto
next
  case False
  then show ?thesis using lines_plain [of "P @ R"] by auto
qed

lemma first_plain: "10 \<notin> set P \<Longrightarrow> \<forall>l \<in> set (lines (P @ R)). plain l \<Longrightarrow> plain P"
  using first_line [of P R] by (auto simp: plain_def)

lemma chunk_plain:
  assumes "\<forall>l \<in> set (lines (T @ R)). plain l"
  shows "\<forall>l \<in> set (lines T). plain l" "\<forall>l \<in> set (lines (last (lines T) @ R)). plain l"
proof -
  have a: "set (lines (T @ R)) = set (butlast (lines T)) \<union> set (lines (last (lines T) @ R))" by (simp add: lines_append [of T R])
  then show b: "\<forall>l \<in> set (lines (last (lines T) @ R)). plain l" using assms by blast
  have "plain (last (lines T))" by (rule first_plain [OF lines_no_newline [OF last_in_set [OF lines_ne]] b])
  moreover have "plain l" if "l \<in> set (butlast (lines T))" for l using that assms unfolding a by blast
  moreover have "l = last (lines T) \<or> l \<in> set (butlast (lines T))" if "l \<in> set (lines T)" for l
    using that append_butlast_last_id [OF lines_ne [of T]] by (metis in_set_butlast_appendI rotate1.simps(2) set_ConsD set_rotate1)
  ultimately show "\<forall>l \<in> set (lines T). plain l" by blast
qed

lemma searched_lines:
  assumes "searched name pat (lines T) s t" "searched name pat (lines R) t u" "last (lines T) = [] \<or> R = []"
  shows "searched name pat (lines (T @ R)) s u"
  using assms(3)
proof
  assume e: "last (lines T) = []"
  have "lines T = butlast (lines T) @ [[]]" using append_butlast_last_id [OF lines_ne [of T]] e by simp
  then have "searched name pat (butlast (lines T)) s t" using assms(1) searched_empty by metis
  from searched_trans [OF this assms(2)] show ?thesis by (simp add: lines_append [of T R] e)
next
  assume R: "R = []"
  then have "searched name pat (lines T @ [[]]) s u" using searched_trans [OF assms(1,2)] by (simp add: lines_plain)
  then show ?thesis using R by (simp add: searched_empty)
qed

lemma grep_chunks_run:
  assumes pat: "pat \<noteq> [] \<longrightarrow> hd pat < 128"
  shows "grepping i lits sp pat np name dp s \<Longrightarrow> file_rest i s = R \<Longrightarrow> take (length P) (data_of dp s) = P \<Longrightarrow> 10 \<notin> set P \<Longrightarrow> data_of dp s ! 1024 \<noteq> 10 \<Longrightarrow>
    \<forall>l \<in> set (lines (P @ R)). plain l \<Longrightarrow>
    \<exists>t. grep_chunks e lits sp np dp (of_nat (length pat)) (of_nat i) (length P) s = Some (0, t) \<and> grepping i lits sp pat np name dp t \<and>
      searched name pat (lines (P @ R)) s t \<and> keeps_slot i dp 1025 s t \<and> data_of dp t ! 1024 \<noteq> 10"
proof (induction "length R" arbitrary: R P s rule: less_induct)
  case less
  define C where "C = take (1024 - length P) R"
  define R' where "R' = drop (1024 - length P) R"
  let ?T = "P @ C"
  have R: "R = C @ R'" by (simp add: C_def R'_def)
  have P: "length P < 1000" using first_plain [OF less.prems(4,6)] by (simp add: plain_def)
  then have N: "length P \<le> 1024" by simp
  obtain s1 where s1: "ece391_read e (of_nat i) (dp + of_nat (length P)) (of_nat (1024 - length P)) s = Some (int (length C), s1)"
      "grepping i lits sp pat np name dp s1" "file_rest i s1 = R'" "shown s1 = shown s"
      "take (length P + length C) (data_of dp s1) = take (length P) (data_of dp s) @ C" "data_of dp s1 ! 1024 = data_of dp s ! 1024" "keeps_slot i dp 1025 s s1"
    using chunk_read [OF less.prems(1) N less.prems(2), of e] unfolding C_def R'_def by blast
  have lT: "length ?T \<le> 1024" using P by (simp add: C_def)
  have T: "take (length ?T) (drop 0 (data_of dp s1)) = ?T" using s1(5) less.prems(3) by simp
  have pl: "\<forall>l \<in> set (lines (?T @ R')). plain l" using less.prems(6) R by simp
  obtain pend t where t: "grep_lines e lits sp np dp (of_nat (length pat)) (int (length C)) (length ?T) 0 s1 = Some (length pend, t)"
      "lines_done name pat dp ?T (int (length C)) (int (length C) = 0 \<or> 10 \<notin> set ?T \<or> data_of dp s1 ! length ?T = 10) pend s1 t"
    using grep_lines_run [OF pat s1(2) _ T chunk_plain(1) [OF pl], of e "int (length C)"] lT by auto
  note d = t(2) [unfolded lines_done_def]
  have gt: "grepping i lits sp pat np name dp t" "file_rest i t = R'" using grepping_keeps [OF s1(2)] d s1(3) by blast+
  have n1024: "data_of dp t ! 1024 \<noteq> 10" using d s1(6) less.prems(5) by auto
  have ks: "keeps_slot i dp 1025 s t" by (rule keeps_slot_trans [OF s1(7) keeps_slot_keeps]) (use d in blast)
  have s01: "searched name pat [] s s1" using s1(4) by (simp add: searched_def same_screen_def)
  have step: "grep_chunks e lits sp np dp (of_nat (length pat)) (of_nat i) (length P) s =
      (if C = [] then Some (0, t) else grep_chunks e lits sp np dp (of_nat (length pat)) (of_nat i) (length pend) t)"
    using s1(1) t(1) by (subst grep_chunks.simps) simp
  show ?case
  proof (cases "R = []")
    case True
    then have "C = []" "R' = []" by (simp_all add: C_def R'_def)
    then have "searched name pat (lines (P @ R)) s1 t" using d True by simp
    then show ?thesis using step gt(1) searched_trans [OF s01] \<open>C = []\<close> ks n1024 by auto
  next
    case False
    then have "0 < length R" by simp
    then have R': "length R' < length R" using P unfolding R'_def length_drop by linarith
    have C: "C \<noteq> []" using False P by (simp add: C_def)
    show ?thesis
    proof (cases "pend = last (lines ?T) \<and> searched name pat (butlast (lines ?T)) s1 t")
      case True
      have "10 \<notin> set pend" using True lines_no_newline [OF last_in_set [OF lines_ne]] by simp
      moreover have "\<forall>l \<in> set (lines (pend @ R')). plain l" using True chunk_plain(2) [OF pl] by simp
      ultimately obtain u where u: "grep_chunks e lits sp np dp (of_nat (length pat)) (of_nat i) (length pend) t = Some (0, u)"
          "grepping i lits sp pat np name dp u" "searched name pat (lines (pend @ R')) t u" "keeps_slot i dp 1025 t u" "data_of dp u ! 1024 \<noteq> 10"
        using less.hyps [OF R' gt _ _ n1024, of pend] d by blast
      have "searched name pat (lines (?T @ R')) s1 u" using searched_trans [OF conjunct2 [OF True] u(3)] True by (simp only: lines_append [of ?T R'])
      then show ?thesis using step u(1,2,5) keeps_slot_trans [OF ks u(4)] C searched_trans [OF s01] R by auto
    next
      case no: False
      then have e: "pend = []" "searched name pat (lines ?T) s1 t" "last (lines ?T) = [] \<or> 10 \<notin> set ?T \<or> data_of dp s1 ! length ?T = 10"
        using d C by auto
      have "last (lines ?T) = [] \<or> R' = []"
      proof (cases "last (lines ?T) = []")
        case False
        have "length ?T < 1024" if "10 \<notin> set ?T" using first_plain [OF that pl] by (simp add: plain_def)
        moreover have "length ?T \<noteq> 1024" if "data_of dp s1 ! length ?T = 10" using that s1(6) less.prems(5) by auto
        ultimately have "length ?T < 1024" using e(3) False lT by linarith
        then show ?thesis by (simp add: C_def R'_def)
      qed simp
      moreover obtain u where u: "grep_chunks e lits sp np dp (of_nat (length pat)) (of_nat i) (length []) t = Some (0, u)"
          "grepping i lits sp pat np name dp u" "searched name pat (lines ([] @ R')) t u" "keeps_slot i dp 1025 t u" "data_of dp u ! 1024 \<noteq> 10"
      proof -
        have "\<forall>l \<in> set (lines ([] @ R')). plain l"
        proof (cases "R' = []")
          case True
          then show ?thesis by (simp add: lines_plain plain_def)
        next
          case False
          then show ?thesis using calculation chunk_plain(2) [OF pl] by simp
        qed
        then show thesis using less.hyps [OF R' gt _ _ n1024, of "[]"] that by auto
      qed
      ultimately have "searched name pat (lines (?T @ R')) s1 u" using searched_lines [OF e(2)] by simp
      then show ?thesis using step u(1,2,5) keeps_slot_trans [OF ks u(4)] e(1) C searched_trans [OF s01] R by auto
    qed
  qed
qed

section \<open>A file\<close>

definition text_file :: "u8 list \<Rightarrow> u8 list \<Rightarrow> kernel \<Rightarrow> bool" where
  "text_file name F s \<longleftrightarrow> (\<exists>d. lookup s name = Some d \<and> de_ftype d = 2 \<and>
     unat (de_inode d) < unat (rd32 (xl s) (phys s) (FSYSTEM s + 4)) \<and> F = file_bytes (xl s) (phys s) (FSYSTEM s) (de_inode d)) \<and>
     length name \<le> 32 \<and> (\<forall>l \<in> set (lines F). plain l)"

definition file_ops :: "kernel \<Rightarrow> bool" where
  "file_ops s \<longleftrightarrow> f_read (ffotp s) = read_file \<and> f_close (ffotp s) = close_file \<and> \<not> fd_pool s \<subseteq> fd_busy s"

lemma close_search:
  assumes "grepping i lits sp pat np name dp s"
  shows "ece391_close e (of_nat i) s = Some (0, s\<lparr>fd := (fd s)[i := (fd s ! i)\<lparr>flags := 0\<rparr>]\<rparr>)"
proof -
  have o: "2 \<le> i" "i < 8" "i < length (fd s)" "flags (fd s ! i) \<noteq> 0" "f_close (fotp (fd s ! i)) = close_file"
    using assms by (simp_all add: grepping_def open_inv_def file_inv_def)
  have "sint (of_nat i :: u32) = int i" using o by (intro small_sint) simp
  then show ?thesis using o by (simp add: ece391_close_def int80_def syscall_link_def sys_close_def Let_def file_close_def)
qed

lemma do_one_file_run:
  assumes p: "strings_ready lits sp pat np name dp s" and dp: "0 \<notin> region dp 1025" "data_of dp s ! 1024 \<noteq> 10"
    and pat: "pat \<noteq> [] \<longrightarrow> hd pat < 128" and f: "text_file name F s" "file_ops s"
  shows "\<exists>i t. do_one_file e lits sp np dp s = Some (0, t) \<and> searched name pat (lines F) s t \<and> 2 \<le> i \<and> flags (fd s ! i) = 0 \<and> flags (fd t ! i) = 0 \<and>
    keeps_slot i dp 1025 s t \<and> data_of dp t ! 1024 \<noteq> 10"
proof -
  obtain d where d: "lookup s name = Some d" "de_ftype d = 2" "unat (de_inode d) < unat (rd32 (xl s) (phys s) (FSYSTEM s + 4))"
      "F = file_bytes (xl s) (phys s) (FSYSTEM s) (de_inode d)" "length name \<le> 32" "\<forall>l \<in> set (lines F). plain l"
    using f(1) by (auto simp: text_file_def)
  have o: "fd_ok s" "console_ok s" "fs_ok (xl s) (phys s) (FSYSTEM s)" "user_buf (xl s) (phys s) (FSYSTEM s) dp 1025" "const_at (\<lambda>c. sp) pat s" "plain pat" "np \<noteq> 0"
    using strings_ok [OF p] by (simp_all add: const_at_def)
  have pn: "program (\<lambda>c. np) [name] dp 1025 s" using p by (simp add: strings_ready_def)
  have ub: "user_buf (xl s) (phys s) (FSYSTEM s) dp 1024" by (rule user_buf_mono [OF o(4)]) simp
  have fo: "f_read (ffotp s) = read_file" "f_close (ffotp s) = close_file" "\<not> fd_pool s \<subseteq> fd_busy s" using f(2) by (simp_all add: file_ops_def)
  have "is_cstr (buf_at (xl s) (phys s) sp) (length pat)"
    by (rule is_cstr_at) (use o(5,6) in \<open>simp_all add: const_at_def plain_def\<close>)
  then have sl: "ece391_strlen (buf_at (xl s) (phys s) sp) = Some (of_nat (length pat))"
    unfolding ece391_strlen_kernel by (rule is_cstr_strlen) (use o(6) in \<open>simp add: plain_def\<close>)
  have rd: "read_dentry_by_name (xl s) (phys s) (FSYSTEM s) (Some (buf_at (xl s) (phys s) np)) = Some d"
    using program_lookup [OF pn _ d(5)] d(1) o(7) by (simp add: c_string_def)
  have big: "(1024 :: nat) < 2 ^ 31" by simp
  obtain i h where op: "sys_open np s = (int i, s\<lparr>dt := d, fd := (fd s)[i := h]\<rparr>)" "2 \<le> i" "i < 8" "flags (fd s ! i) = 0"
      "open_inv i dp 1024 (s\<lparr>dt := d, fd := (fd s)[i := h]\<rparr>)"
      "file_rest i (s\<lparr>dt := d, fd := (fd s)[i := h]\<rparr>) = file_bytes (xl s) (phys s) (FSYSTEM s) (de_inode d)" "fotp h = ffotp s"
    by (rule open_file_stream [OF o(1) fo(3) o(7) rd d(2) fo(1) o(3) d(3) ub big]) (rule that; assumption)
  let ?s = "s\<lparr>dt := d, fd := (fd s)[i := h]\<rparr>"
  have ps: "strings_ready lits sp pat np name dp ?s" by (rule strings_fd [OF p]) (use o(1) op(2) in \<open>simp_all add: fd_ok_def\<close>)
  have g: "grepping i lits sp pat np name dp ?s" using ps op fo(2) dp(1) o(1) by (simp add: grepping_def fd_ok_def)
  have "data_of dp ?s = data_of dp s" by (simp add: file_buf_def)
  then obtain t where t: "grep_chunks e lits sp np dp (of_nat (length pat)) (of_nat i) 0 ?s = Some (0, t)"
      "grepping i lits sp pat np name dp t" "searched name pat (lines F) ?s t" "keeps_slot i dp 1025 ?s t" "data_of dp t ! 1024 \<noteq> 10"
    using grep_chunks_run [OF pat g op(6) [folded d(4)], of "[]" e] dp(2) d(6) by auto
  let ?t = "t\<lparr>fd := (fd t)[i := (fd t ! i)\<lparr>flags := 0\<rparr>]\<rparr>"
  have te: "?t = t\<lparr>dt := dt t, fd := (fd t)[i := (fd t ! i)\<lparr>flags := 0\<rparr>]\<rparr>" by simp
  have "ece391_open e np s = Some (int i, ?s)" using op(1) by (simp add: ece391_open_def int80_def syscall_link_def returned_def)
  then have res: "do_one_file e lits sp np dp s = Some (0, ?t)"
    using sl t(1) close_search [OF t(2), of e] by (simp add: do_one_file_def)
  have st: "strings_ready lits sp pat np name dp t" using t(2) by (simp add: grepping_def)
  have "shown ?t = shown t" unfolding te by (rule shown_fd)
  then have "searched name pat (lines F) s ?t" using t(3) by (simp add: searched_def same_screen_def)
  moreover have "i < length (fd t)" using op(3) strings_ok(4) [OF st] by (simp add: fd_ok_def)
  moreover have "keeps_slot i dp 1025 s ?s" using keeps_fd [OF keeps_refl [OF o(2)]] unfolding keeps_slot_def by blast
  moreover have "keeps_slot i dp 1025 t ?t" using keeps_fd [OF keeps_refl [OF strings_ok(2) [OF st]]] unfolding te keeps_slot_def by blast
  moreover have "data_of dp ?t = data_of dp t" unfolding te file_buf_def xl_dt_fd by simp
  ultimately show ?thesis using res op(2,4) t(5) keeps_slot_trans [OF _ keeps_slot_trans [OF t(4)]]
    by (intro exI [of _ i] exI [of _ ?t]) simp
qed

end
