(* ===== verification/User_Grep_Main.thy ===== *)
theory User_Grep_Main
  imports User_Grep
begin

text \<open>
  The directory loop and \<^verbatim>\<open>main\<close> of \<^verbatim>\<open>syscalls/ece391grep.c\<close>: the program reads the names of the directory one by one into
  a buffer and searches each file. The search uses another descriptor and another buffer than the directory loop, and the theory shows that the two
  do not disturb each other.
\<close>

section \<open>The loop and main\<close>

partial_function (option) grep_dir :: "env \<Rightarrow> (u8 list \<Rightarrow> u32) \<Rightarrow> u32 \<Rightarrow> u32 \<Rightarrow> u32 \<Rightarrow> u32 \<Rightarrow> kernel \<Rightarrow> (int \<times> kernel) option" where
  "grep_dir e lits search buf data fdr s =
     Option.bind (ece391_read e fdr buf 32 s) (\<lambda>(cnt, s).
       if cnt = 0 then Some (0, s)
       else if cnt = -1 then fail_with e (lits (msg ''directory entry read failed'')) 3 s
       else if buf_at (xl s) (phys s) buf 0 = 46 then grep_dir e lits search buf data fdr s
       else Option.bind (do_one_file e lits search buf data (poke buf cnt 0 s)) (\<lambda>(r, s).
         if r \<noteq> 0 then Some (3, s) else grep_dir e lits search buf data fdr s))"

definition grep_main :: "env \<Rightarrow> (u8 list \<Rightarrow> u32) \<Rightarrow> u32 \<Rightarrow> u32 \<Rightarrow> u32 \<Rightarrow> kernel \<Rightarrow> (int \<times> kernel) option" where
  "grep_main e lits search buf data s = do {
     (r, s) \<leftarrow> ece391_getargs e search 1024 s;
     if r \<noteq> 0 then fail_with e (lits (msg ''could not read argument'')) 3 s
     else do {
       (fdr, s) \<leftarrow> ece391_open e (lits (bytes_of ''.'')) s;
       if fdr = -1 then fail_with e (lits (msg ''directory open failed'')) 2 s
       else grep_dir e lits search buf data (word_of_int fdr) s } }"

section \<open>Two buffers\<close>

lemma keeps_slot_obtain:
  assumes "keeps_slot i b n s t"
  obtains d f where "keeps b n (s\<lparr>dt := d, fd := (fd s)[i := f]\<rparr>) t" "xl t = xl s" "FSYSTEM t = FSYSTEM s" "fd t = (fd s)[i := f]"
    "ffotp t = ffotp s" "dfotp t = dfotp s" "arg t = arg s"
proof -
  obtain d f where k: "keeps b n (s\<lparr>dt := d, fd := (fd s)[i := f]\<rparr>) t" using assms by (auto simp: keeps_slot_def)
  then have "console_change (s\<lparr>dt := d, fd := (fd s)[i := f]\<rparr>) t" by (simp add: keeps_def)
  note c = console_change_prog [OF this]
  show thesis by (rule that [OF k]) (use c in simp_all)
qed

lemma program_other:
  assumes p: "program lits cs b n s" "program lits cs b' n' s" and k: "keeps b n s t"
  shows "program lits cs b' n' t"
proof -
  have o: "fs_ok (xl s) (phys s) (FSYSTEM s)" "off_screen b n s" "user_buf (xl s) (phys s) (FSYSTEM s) b n" using p(1) by (simp_all add: program_def)
  note im = same_files_image [OF keeps_files [OF k o(2,3)] o(1)]
  have "xl t = xl s" using k unfolding keeps_def by (metis console_change_prog(1))
  then show ?thesis using program_keeps [OF p(1) k] p(2) im(3,4) by (simp add: program_def)
qed

lemma program_slot:
  assumes p: "program lits cs b n s" "program lits cs b' n' s" and k: "keeps_slot i b n s t" "2 \<le> i"
  shows "program lits cs b' n' t"
proof -
  obtain d f where f: "keeps b n (s\<lparr>dt := d, fd := (fd s)[i := f]\<rparr>) t" using k(1) by (auto simp: keeps_slot_def)
  have "length (fd s) = 8" using p(1) by (simp add: program_def fd_ok_def)
  then have l: "length ((fd s)[i := f]) = 8" "(fd s)[i := f] ! 1 = fd s ! 1" using k(2) by simp_all
  show ?thesis by (rule program_other [OF program_fd [OF p(1) l] program_fd [OF p(2) l] f])
qed

lemma slot_files:
  assumes p: "program lits cs b n s" and k: "keeps_slot i b n s t" "2 \<le> i"
  obtains d f where "same_files (s\<lparr>dt := d, fd := (fd s)[i := f]\<rparr>) t"
proof -
  obtain d f where f: "keeps b n (s\<lparr>dt := d, fd := (fd s)[i := f]\<rparr>) t" using k(1) by (auto simp: keeps_slot_def)
  have "length (fd s) = 8" using p(1) by (simp add: program_def fd_ok_def)
  then have "program lits cs b n (s\<lparr>dt := d, fd := (fd s)[i := f]\<rparr>)" using k(2) by (intro program_fd [OF p(1)]) simp_all
  then have "off_screen b n (s\<lparr>dt := d, fd := (fd s)[i := f]\<rparr>)"
      "user_buf (xl (s\<lparr>dt := d, fd := (fd s)[i := f]\<rparr>)) (phys (s\<lparr>dt := d, fd := (fd s)[i := f]\<rparr>)) (FSYSTEM (s\<lparr>dt := d, fd := (fd s)[i := f]\<rparr>)) b n"
    by (simp_all only: program_def)
  from that [OF keeps_files [OF f this]] show thesis .
qed

lemma text_file_slot:
  assumes p: "program lits cs b n s" and k: "keeps_slot i b n s t" "2 \<le> i" and f: "text_file name F s"
  shows "text_file name F t"
proof -
  obtain d h where sf: "same_files (s\<lparr>dt := d, fd := (fd s)[i := h]\<rparr>) t" by (rule slot_files [OF p k])
  have ok: "fs_ok (xl s) (phys s) (FSYSTEM s)" using p by (simp add: program_def)
  have e: "xl t = xl s" "FSYSTEM t = FSYSTEM s" and eq: "\<And>a. a \<in> fs_image (xl s) (phys s) (FSYSTEM s) \<Longrightarrow> phys t a = phys s a"
    using sf by (simp_all add: same_files_def)
  have b: "file_bytes (xl s) (phys t) (FSYSTEM s) j = file_bytes (xl s) (phys s) (FSYSTEM s) j" if "unat j < unat (rd32 (xl s) (phys s) (FSYSTEM s + 4))" for j
    using image_agree(4) [OF ok eq that] by simp
  show ?thesis using f lookup_agree [OF ok eq, of "lit name"] image_agree(1) [OF ok eq] b unfolding text_file_def e by auto
qed

lemma list_slot:
  assumes p: "program lits cs b n s" and k: "keeps_slot i b n s t" "2 \<le> i" and l: "list_inv j bp s" "j \<noteq> i"
  shows "list_inv j bp t" "dir_rest j t = dir_rest j s"
proof -
  obtain d h where sf: "same_files (s\<lparr>dt := d, fd := (fd s)[i := h]\<rparr>) t" by (rule slot_files [OF p k])
  have "list_inv j bp (s\<lparr>dt := d, fd := (fd s)[i := h]\<rparr>)" using l by (simp add: list_inv_def dir_inv_def)
  note r = same_files_list [OF sf this]
  show "list_inv j bp t" by (rule r(1))
  show "dir_rest j t = dir_rest j s" using r(2) l(2) by (simp add: dir_rest_def)
qed

section \<open>The directory\<close>

definition grep_ready :: "(u8 list \<Rightarrow> u32) \<Rightarrow> u32 \<Rightarrow> u8 list \<Rightarrow> u32 \<Rightarrow> u32 \<Rightarrow> kernel \<Rightarrow> bool" where
  "grep_ready lits sp pat bp dp s \<longleftrightarrow> program lits [[58], [10]] dp 1025 s \<and> program lits [[58], [10]] bp 33 s \<and>
     program (\<lambda>c. sp) [pat] dp 1025 s \<and> program (\<lambda>c. sp) [pat] bp 33 s \<and> xl s ` region bp 33 \<inter> xl s ` region dp 1025 = {} \<and>
     0 \<notin> region dp 1025 \<and> data_of dp s ! 1024 \<noteq> 10 \<and> file_ops s"

lemma data_apart:
  assumes "xl s ` region b n \<inter> xl s ` region dp 1025 = {}" "off_screen dp 1025 s" "keeps_slot i b n s t"
  shows "data_of dp t = data_of dp s"
proof -
  obtain d f where k: "keeps b n (s\<lparr>dt := d, fd := (fd s)[i := f]\<rparr>) t" "xl t = xl s" by (rule keeps_slot_obtain [OF assms(3)])
  have "phys t a = phys s a" if "a \<in> xl s ` region dp 1025" for a
  proof -
    have "a \<notin> region VIDEO 4002" "a \<notin> xl s ` region b n" using that assms(1,2) unfolding off_screen_def by blast+
    then show ?thesis using k(1) by (simp add: keeps_def)
  qed
  then show ?thesis using region_memI [of _ 1025 dp] by (simp add: file_buf_def k(2))
qed

lemma file_ops_slot:
  assumes "file_ops s" "fd t = (fd s)[i := f]" "ffotp t = ffotp s" "flags (fd t ! i) = 0 \<longleftrightarrow> flags (fd s ! i) = 0"
  shows "file_ops t"
proof -
  have "flags (fd t ! x) = 0 \<longleftrightarrow> flags (fd s ! x) = 0" for x by (cases "x = i") (use assms(2,4) in simp_all)
  then show ?thesis using assms(1,3) by (simp add: file_ops_def fd_pool_def fd_busy_def)
qed

lemma ready_name_buffer:
  assumes g: "grep_ready lits sp pat bp dp s" and k: "keeps_slot j bp 33 s t" "2 \<le> j" and l: "flags (fd s ! j) \<noteq> 0" "flags (fd t ! j) \<noteq> 0"
  shows "grep_ready lits sp pat bp dp t"
proof -
  have p: "program lits [[58], [10]] dp 1025 s" "program lits [[58], [10]] bp 33 s" "program (\<lambda>c. sp) [pat] dp 1025 s" "program (\<lambda>c. sp) [pat] bp 33 s"
    using g by (simp_all add: grep_ready_def)
  obtain d f where e: "xl t = xl s" "fd t = (fd s)[j := f]" "ffotp t = ffotp s" by (rule keeps_slot_obtain [OF k(1)])
  have off: "off_screen dp 1025 s" using p(1) by (simp add: program_def)
  have da: "data_of dp t = data_of dp s" by (rule data_apart [OF _ off k(1)]) (use g in \<open>simp add: grep_ready_def\<close>)
  have "file_ops t" by (rule file_ops_slot [OF _ e(2,3)]) (use g l in \<open>simp_all add: grep_ready_def\<close>)
  then show ?thesis
    using g da e(1) program_slot [OF p(2,1) k] program_slot [OF p(2,2) k] program_slot [OF p(4,3) k] program_slot [OF p(4,4) k] by (simp add: grep_ready_def)
qed

lemma ready_search:
  assumes g: "grep_ready lits sp pat bp dp s" and k: "keeps_slot i dp 1025 s t" "2 \<le> i" and l: "flags (fd s ! i) = 0" "flags (fd t ! i) = 0"
    and d: "data_of dp t ! 1024 \<noteq> 10"
  shows "grep_ready lits sp pat bp dp t"
proof -
  have p: "program lits [[58], [10]] dp 1025 s" "program lits [[58], [10]] bp 33 s" "program (\<lambda>c. sp) [pat] dp 1025 s" "program (\<lambda>c. sp) [pat] bp 33 s"
    using g by (simp_all add: grep_ready_def)
  obtain d f where e: "xl t = xl s" "fd t = (fd s)[i := f]" "ffotp t = ffotp s" by (rule keeps_slot_obtain [OF k(1)])
  have "file_ops t" by (rule file_ops_slot [OF _ e(2,3)]) (use g l in \<open>simp_all add: grep_ready_def\<close>)
  then show ?thesis
    using g d e(1) program_slot [OF p(1,1) k] program_slot [OF p(1,2) k] program_slot [OF p(3,3) k] program_slot [OF p(3,4) k] by (simp add: grep_ready_def)
qed

lemma list_open: "list_inv j bp s \<Longrightarrow> flags (fd s ! j) \<noteq> 0"
  by (simp add: list_inv_def)

lemma next_name:
  assumes g: "grep_ready lits sp pat bp dp s" and l: "list_inv j bp s" "2 \<le> j" "dir_rest j s = c # names" and no: "\<forall>c \<in> set (dir_rest j s). 8 \<notin> set c"
  obtains t where "ece391_read e (of_nat j) bp 32 s = Some (32, t)" "keeps_slot j bp 33 s t" "list_inv j bp t" "dir_rest j t = names" "shown t = shown s"
    "file_buf bp t 32 = map (padded c) [0..<32]"
proof -
  let ?t = "snd (user_call e 3 (of_nat j) bp 32 s)"
  have p: "program lits [[58], [10]] bp 33 s" using g by (simp add: grep_ready_def)
  then have ls: "ls_inv j bp s" using l(1,2) no by (simp add: ls_inv_def program_def)
  note r = ls_read [OF ls, of e]
  have d: "dir_inv j bp s" "dir_rest j s \<noteq> []" using l by (simp_all add: list_inv_def)
  have c: "user_call e 3 (of_nat j) bp 32 s = directory_read j bp 32 s" by (rule read_call_directory [OF l(1)])
  obtain m f where t: "snd (directory_read j bp 32 s) = s\<lparr>phys := m, fd := (fd s)[j := f]\<rparr>" "\<forall>a. a \<notin> xl s ` region bp 32 \<longrightarrow> m a = phys s a"
    by (rule directory_read_bytes [OF d]) (rule that; assumption)
  have "\<forall>a. a \<notin> xl s ` region bp 33 \<longrightarrow> m a = phys s a" using t(2) region_mono [of 32 33 bp] by auto
  note k = keeps_fd [OF program_store(1) [OF p this], where d = "dt s" and f = "(fd s)[j := f]"]
  have "keeps_slot j bp 33 s ?t" unfolding keeps_slot_def c t(1) by (rule exI [of _ "dt s"], rule exI [of _ f]) (use k in simp)
  moreover have "ece391_read e (of_nat j) bp 32 s = Some (32, ?t)" using r(1) r(3) [OF d(2)] by (simp add: prod_eq_iff)
  moreover have "list_inv j bp ?t" using r(4) by (simp add: ls_inv_def)
  moreover have "length (dir_buf bp ?t 32) = 1" by (simp add: dir_buf_def)
  then have "dir_rest j ?t = names" using directory_read_step(3) [OF d, of 32 32] l(3) unfolding c by (cases "dir_buf bp (snd (directory_read j bp 32 s)) 32") auto
  ultimately show thesis using that r(5) r(6) [OF d(2)] l(3) by simp
qed

lemma no_more_names:
  assumes g: "grep_ready lits sp pat bp dp s" and l: "list_inv j bp s" "2 \<le> j" "dir_rest j s = []"
  shows "ece391_read e (of_nat j) bp 32 s = Some (0, s)"
proof -
  have "ls_inv j bp s" using g l by (simp add: grep_ready_def ls_inv_def program_def)
  note r = ls_read [OF this, of e]
  have "fst (user_call e 3 (of_nat j) bp 32 s) = 0" using syslist.at_end [OF l(1,3)] by simp
  then show ?thesis using r(1) r(2) [OF l(3)] by (simp add: prod_eq_iff)
qed

text \<open>The name that was read, with its terminator.\<close>

lemma name_ready:
  assumes g: "grep_ready lits sp pat bp dp t" and b: "file_buf bp t 32 = map (padded c) [0..<32]" and c: "plain c" "length c \<le> 32"
  shows "keeps bp 33 t (poke bp 32 0 t)" "strings_ready lits sp pat bp c dp (poke bp 32 0 t)" "shown (poke bp 32 0 t) = shown t"
proof -
  let ?u = "poke bp 32 0 t"
  have p: "program lits [[58], [10]] dp 1025 t" "program lits [[58], [10]] bp 33 t" "program (\<lambda>c. sp) [pat] dp 1025 t" "program (\<lambda>c. sp) [pat] bp 33 t"
    and ap: "xl t ` region bp 33 \<inter> xl t ` region dp 1025 = {}" using g by (simp_all add: grep_ready_def)
  have o: "console_ok t" "off_screen bp 33 t" "user_buf (xl t) (phys t) (FSYSTEM t) bp 33" using p(2) by (simp_all add: program_def stdout_ok_def)
  show k: "keeps bp 33 t ?u" using keeps_poke [OF o(1), of 32 33 bp 0] by simp
  show "shown ?u = shown t" using shown_poke [OF o(2), of 32 0] by simp
  have inj: "inj_on (xl t) (region bp 33)" using o(3) by (simp add: user_buf_def)
  have v: "phys ?u (xl t (bp + of_nat j)) = (c @ [0]) ! j" if "j \<le> length c" for j
  proof (cases "j = 32")
    case True
    then show ?thesis using that c(2) by (simp add: poke_def nth_append)
  next
    case False
    then have j: "j < 32" using that c(2) by simp
    have "xl t (bp + of_nat j) \<noteq> xl t (bp + 32)" using inj_region_off [OF inj, of j 32] j by auto
    moreover have "file_buf bp t 32 ! j = padded c j" unfolding b using j by simp
    ultimately show ?thesis using j that by (simp add: poke_def file_buf_def padded_def nth_append)
  qed
  have x: "xl ?u = xl t" by (simp add: poke_def)
  have sub: "xl t ` region bp (length c + 1) \<subseteq> xl t ` region bp 33" by (intro image_mono region_mono) (use c(2) in simp)
  have "const_at (\<lambda>c. bp) c ?u" unfolding const_at_def x using v subset_disjoint [OF sub] o(2,3) by (simp add: off_screen_def user_buf_def)
  moreover have q: "program lits [[58], [10]] dp 1025 ?u" by (rule program_other [OF p(2,1) k])
  ultimately have "program (\<lambda>c. bp) [c] dp 1025 ?u" using c(1) subset_disjoint [OF sub ap] by (simp add: program_def x)
  then show "strings_ready lits sp pat bp c dp ?u" using q program_other [OF p(4,3) k] by (simp add: strings_ready_def)
qed

lemma dir_rest_name: "c \<in> set (dir_rest j s) \<Longrightarrow> 8 \<notin> set c \<Longrightarrow> plain c \<and> length c \<le> 32"
  using cprefix_nonzero [of 0] cprefix_length [of 32]
  by (auto simp: dir_rest_def entry_name_def plain_def intro: order_le_less_trans [of _ 32])

text \<open>What the program prints for the directory: entries whose name begins with a dot are passed over.\<close>

definition searchable :: "(u8 list \<Rightarrow> u8 list) \<Rightarrow> kernel \<Rightarrow> u8 list \<Rightarrow> bool" where
  "searchable F s c \<longleftrightarrow> 8 \<notin> set c \<and> (take 1 c = [46] \<or> text_file c (F c) s)"

definition grep_report :: "u8 list \<Rightarrow> (u8 list \<Rightarrow> u8 list) \<Rightarrow> u8 list list \<Rightarrow> u8 list" where
  "grep_report pat F names = concat (map (\<lambda>c. grep_output c pat (lines (F c))) (filter (\<lambda>c. take 1 c \<noteq> [46]) names))"

lemma searchable_slot:
  assumes "program lits cs b n s" "keeps_slot i b n s t" "2 \<le> i" "searchable F s c"
  shows "searchable F t c"
  using assms(4) text_file_slot [OF assms(1-3)] by (auto simp: searchable_def)

text \<open>One file: the search, with its own descriptor and buffer.\<close>

lemma search_file:
  assumes g: "grep_ready lits sp pat bp dp t" and b: "file_buf bp t 32 = map (padded c) [0..<32]" and c: "plain c" "length c \<le> 32"
    and pat: "pat \<noteq> [] \<longrightarrow> hd pat < 128" and j: "list_inv j bp t" "2 \<le> j" and F: "text_file c T t"
  obtains u where "do_one_file e lits sp bp dp (poke bp 32 0 t) = Some (0, u)" "grep_ready lits sp pat bp dp u" "list_inv j bp u"
    "dir_rest j u = dir_rest j t" "searched c pat (lines T) t u" "\<And>G x. searchable G t x \<Longrightarrow> searchable G u x"
proof -
  let ?p = "poke bp 32 0 t"
  note n = name_ready [OF g b c]
  note k = keeps_slot_keeps [OF n(1)]
  have p: "program lits [[58], [10]] bp 33 t" using g by (simp add: grep_ready_def)
  have fd: "fd ?p = fd t" by (simp add: poke_def)
  have gp: "grep_ready lits sp pat bp dp ?p" by (rule ready_name_buffer [OF g k j(2)]) (use list_open [OF j(1)] fd in simp_all)
  have sf: "same_files t ?p" by (rule keeps_files [OF n(1)]) (use p in \<open>simp_all add: program_def\<close>)
  note l = same_files_list [OF sf j(1)]
  have r: "0 \<notin> region dp 1025" "data_of dp ?p ! 1024 \<noteq> 10" "file_ops ?p" "program lits [[58], [10]] dp 1025 ?p" using gp by (simp_all add: grep_ready_def)
  obtain i u where u: "do_one_file e lits sp bp dp ?p = Some (0, u)" "searched c pat (lines T) ?p u" "2 \<le> i" "flags (fd ?p ! i) = 0" "flags (fd u ! i) = 0"
      "keeps_slot i dp 1025 ?p u" "data_of dp u ! 1024 \<noteq> 10"
    using do_one_file_run [OF n(2) r(1,2) pat text_file_slot [OF p k j(2) F] r(3), of e] by blast
  have "j \<noteq> i" using list_open [OF l(1)] u(4) by auto
  note lu = list_slot [OF r(4) u(6,3) l(1) this]
  have "searched c pat (lines T) t u" using u(2) n(3) by (simp add: searched_def same_screen_def)
  moreover have "searchable G u x" if "searchable G t x" for G x
    by (rule searchable_slot [OF r(4) u(6,3) searchable_slot [OF p k j(2) that]])
  ultimately show thesis using that [OF u(1) ready_search [OF gp u(6,3,4,5,7)] lu(1)] lu(2) l(2) by simp
qed

lemma grep_dir_run:
  assumes pat: "pat \<noteq> [] \<longrightarrow> hd pat < 128" and j: "2 \<le> j"
  shows "grep_ready lits sp pat bp dp s \<Longrightarrow> list_inv j bp s \<Longrightarrow> dir_rest j s = names \<Longrightarrow> \<forall>c \<in> set names. searchable F s c \<Longrightarrow> same_screen s r \<Longrightarrow>
    \<exists>t. grep_dir e lits sp bp dp (of_nat j) s = Some (0, t) \<and> same_screen t (fold putc (grep_report pat F names) r)"
proof (induction names arbitrary: s r)
  case Nil
  then show ?case using no_more_names [OF Nil.prems(1,2) j Nil.prems(3), of e] by (subst grep_dir.simps) (simp add: grep_report_def)
next
  case (Cons c names)
  have no: "\<forall>x \<in> set (dir_rest j s). 8 \<notin> set x" using Cons.prems(3,4) by (simp add: searchable_def)
  obtain t where t: "ece391_read e (of_nat j) bp 32 s = Some (32, t)" "keeps_slot j bp 33 s t" "list_inv j bp t" "dir_rest j t = names" "shown t = shown s"
      "file_buf bp t 32 = map (padded c) [0..<32]"
    by (rule next_name [OF Cons.prems(1,2) j Cons.prems(3) no])
  have p: "program lits [[58], [10]] bp 33 s" using Cons.prems(1) by (simp add: grep_ready_def)
  have gt: "grep_ready lits sp pat bp dp t" by (rule ready_name_buffer [OF Cons.prems(1) t(2) j list_open [OF Cons.prems(2)] list_open [OF t(3)]])
  have st: "searchable F t x" if "x \<in> set (c # names)" for x using searchable_slot [OF p t(2) j] Cons.prems(4) that by blast
  have sc: "same_screen t r" using Cons.prems(5) t(5) by (simp add: same_screen_def)
  have "file_buf bp t 32 ! 0 = padded c 0" unfolding t(6) by simp
  then have h: "buf_at (xl t) (phys t) bp 0 = 46 \<longleftrightarrow> take 1 c = [46]" by (cases c) (simp_all add: file_buf_def buf_at_def padded_def)
  show ?case
  proof (cases "take 1 c = [46]")
    case True
    then show ?thesis using Cons.IH [OF gt t(3,4) _ sc] st t(1) h by (subst grep_dir.simps) (simp add: grep_report_def)
  next
    case False
    have F: "text_file c (F c) t" using st [of c] False by (simp add: searchable_def)
    have "plain c \<and> length c \<le> 32" by (rule dir_rest_name [of c j s]) (use Cons.prems(3) no in simp_all)
    then obtain u where u: "do_one_file e lits sp bp dp (poke bp 32 0 t) = Some (0, u)" "grep_ready lits sp pat bp dp u" "list_inv j bp u"
        "dir_rest j u = names" "searched c pat (lines (F c)) t u" "\<And>G x. searchable G t x \<Longrightarrow> searchable G u x"
      using search_file [OF gt t(6) _ _ pat t(3) j F, of e] unfolding t(4) by blast
    have "same_screen u (fold putc (grep_output c pat (lines (F c))) r)" using u(5) sc by (simp add: searched_def)
    from Cons.IH [OF u(2,3,4) _ this] obtain v where v: "grep_dir e lits sp bp dp (of_nat j) u = Some (0, v)"
        "same_screen v (fold putc (grep_report pat F names) (fold putc (grep_output c pat (lines (F c))) r))" using u(6) st by auto
    have "grep_dir e lits sp bp dp (of_nat j) s = Some (0, v)" using t(1) u(1) v(1) h False by (subst grep_dir.simps) simp
    then show ?thesis using v(2) False by (auto simp: grep_report_def)
  qed
qed

section \<open>The run of the program\<close>

text \<open>
  The strings and the three buffers of the program are apart, the kernel's file operations are installed and two descriptors are free. The byte
  behind a full chunk is not a line feed: the program reads it before it has written it.
\<close>

definition grep_start :: "(u8 list \<Rightarrow> u32) \<Rightarrow> u32 \<Rightarrow> u32 \<Rightarrow> u32 \<Rightarrow> kernel \<Rightarrow> bool" where
  "grep_start lits sp bp dp s \<longleftrightarrow> program lits [[58], [10], [46]] sp 1024 s \<and> program lits [[58], [10], [46]] bp 33 s \<and>
     program lits [[58], [10], [46]] dp 1025 s \<and> xl s ` region sp 1024 \<inter> xl s ` region bp 33 = {} \<and> xl s ` region sp 1024 \<inter> xl s ` region dp 1025 = {} \<and>
     xl s ` region bp 33 \<inter> xl s ` region dp 1025 = {} \<and> 0 \<notin> region dp 1025 \<and> buf_at (xl s) (phys s) dp 1024 \<noteq> 10 \<and>
     f_read (ffotp s) = read_file \<and> f_close (ffotp s) = close_file \<and> f_read (dfotp s) = read_directory \<and>
     (\<exists>a b. a \<noteq> b \<and> a \<in> fd_pool s - fd_busy s \<and> b \<in> fd_pool s - fd_busy s)"

abbreviation dir_names :: "kernel \<Rightarrow> u8 list list" where
  "dir_names s \<equiv> map (entry_name (xl s) (phys s) (FSYSTEM s)) [0..<entries (xl s) (phys s) (FSYSTEM s)]"

lemma same_files_names:
  assumes "same_files s t" "fs_ok (xl s) (phys s) (FSYSTEM s)"
  shows "dir_names t = dir_names s"
proof -
  have e: "xl t = xl s" "FSYSTEM t = FSYSTEM s" and eq: "\<And>a. a \<in> fs_image (xl s) (phys s) (FSYSTEM s) \<Longrightarrow> phys t a = phys s a"
    using assms(1) by (simp_all add: same_files_def)
  have "entries (xl s) (phys t) (FSYSTEM s) = entries (xl s) (phys s) (FSYSTEM s)" using image_agree(3) [OF assms(2) eq] by (simp add: entries_def)
  then show ?thesis using entry_name_agree [OF assms(2) eq] unfolding e by simp
qed

lemma string_in_buffer:
  assumes "program lits cs dp m t" "user_buf (xl t) (phys t) (FSYSTEM t) sp n" "off_screen sp n t" "xl t ` region sp n \<inter> xl t ` region dp m = {}"
    and "plain pat" "length pat < n" "\<forall>j \<le> length pat. phys t (xl t (sp + of_nat j)) = (pat @ [0]) ! j"
  shows "program (\<lambda>c. sp) [pat] dp m t"
proof -
  have sub: "xl t ` region sp (length pat + 1) \<subseteq> xl t ` region sp n" by (intro image_mono region_mono) (use assms(6) in simp)
  have "const_at (\<lambda>c. sp) pat t" using assms(2,3,7) subset_disjoint [OF sub] by (simp add: const_at_def off_screen_def user_buf_def)
  then show ?thesis using assms(1,5) subset_disjoint [OF sub assms(4)] by (simp add: program_def)
qed

text \<open>The beginning of \<^verbatim>\<open>main\<close>: the string is fetched and the directory opened.\<close>

lemma grep_fetches:
  assumes s: "grep_start lits sp bp dp s" and a: "cprefix 32 (lit (arg s)) = pat" "pat \<noteq> []" "length pat < 32" "length (arg s) = 32" "8 \<notin> set pat"
  obtains u where "ece391_getargs e sp 1024 s = Some (0, u)" "keeps sp 1024 s u" "shown u = shown s" "grep_start lits sp bp dp u"
    "program (\<lambda>c. sp) [pat] bp 33 u" "program (\<lambda>c. sp) [pat] dp 1025 u"
proof -
  have p: "program lits [[58], [10], [46]] sp 1024 s" "program lits [[58], [10], [46]] bp 33 s" "program lits [[58], [10], [46]] dp 1025 s"
    using s by (simp_all add: grep_start_def)
  obtain u where u: "ece391_getargs e sp 1024 s = Some (0, u)" "keeps sp 1024 s u" "shown u = shown s"
      "\<forall>j \<le> length pat. phys u (xl u (sp + of_nat j)) = (pat @ [0]) ! j"
    by (rule getargs_keeps [OF p(1) _ a(1-4)]) simp
  have "console_change s u" using u(2) by (simp add: keeps_def)
  note c = console_change_prog [OF this]
  note pu = program_keeps [OF p(1) u(2)] program_other [OF p(1,2) u(2)] program_other [OF p(1,3) u(2)]
  have ap: "xl u ` region sp 1024 \<inter> xl u ` region bp 33 = {}" "xl u ` region sp 1024 \<inter> xl u ` region dp 1025 = {}" "xl s ` region sp 1024 \<inter> xl s ` region dp 1025 = {}"
    using s c(1) by (simp_all add: grep_start_def)
  have "data_of dp u = data_of dp s" by (rule data_apart [OF ap(3) _ keeps_slot_keeps [OF u(2)]]) (use p(3) in \<open>simp add: program_def\<close>)
  then have "buf_at (xl u) (phys u) dp 1024 = buf_at (xl s) (phys s) dp 1024" using data_nth [of 1024 u dp] data_nth [of 1024 s dp] by simp
  then have gu: "grep_start lits sp bp dp u" using s pu c by (simp add: grep_start_def fd_pool_def fd_busy_def)
  have pl: "plain pat" "length pat < 1024" using a cprefix_nonzero [of 0 32 "lit (arg s)"] by (auto simp: plain_def)
  have o: "user_buf (xl u) (phys u) (FSYSTEM u) sp 1024" "off_screen sp 1024 u" using pu(1) by (simp_all add: program_def)
  show thesis by (rule that [OF u(1-3) gu string_in_buffer [OF pu(2) o ap(1) pl u(4)] string_in_buffer [OF pu(3) o ap(2) pl u(4)]])
qed

lemma grep_opens:
  assumes u: "grep_start lits sp bp dp u" "program (\<lambda>c. sp) [pat] bp 33 u" "program (\<lambda>c. sp) [pat] dp 1025 u"
    and d: "lookup u [46] = Some d" "de_ftype d = 1"
  obtains j v where "ece391_open e (lits [46]) u = Some (int j, v)" "2 \<le> j" "grep_ready lits sp pat bp dp v" "list_inv j bp v" "dir_rest j v = dir_names u"
    "shown v = shown u" "keeps_slot j sp 1024 u v"
proof -
  have p: "program lits [[58], [10], [46]] sp 1024 u" "program lits [[58], [10], [46]] bp 33 u" "program lits [[58], [10], [46]] dp 1025 u"
    using u(1) by (simp_all add: grep_start_def)
  have o: "fs_ok (xl u) (phys u) (FSYSTEM u)" "fd_ok u" "lits [46] \<noteq> 0" "console_ok u" "length (fd u) = 8"
    using p(1) by (simp_all add: program_def const_at_def stdout_ok_def fd_ok_def)
  have ub: "user_buf (xl u) (phys u) (FSYSTEM u) bp 32" by (rule user_buf_mono [of _ _ _ _ 33]) (use p(2) in \<open>simp_all add: program_def\<close>)
  have lk: "read_dentry_by_name (xl u) (phys u) (FSYSTEM u) (Some (buf_at (xl u) (phys u) (lits [46]))) = Some d"
    using program_lookup [OF p(1), of "[46]"] d(1) o(3) by (simp add: c_string_def)
  obtain x y where xy: "x \<noteq> y" "x \<in> fd_pool u - fd_busy u" "y \<in> fd_pool u - fd_busy u" using u(1) by (auto simp: grep_start_def)
  have fo: "\<not> fd_pool u \<subseteq> fd_busy u" "f_read (dfotp u) = read_directory" "f_read (ffotp u) = read_file" "f_close (ffotp u) = close_file"
    using u(1) xy by (auto simp: grep_start_def)
  obtain j f where op: "sys_open (lits [46]) u = (int j, u\<lparr>dt := d, fd := (fd u)[j := f]\<rparr>)" "2 \<le> j" "j < 8"
      "list_inv j bp (u\<lparr>dt := d, fd := (fd u)[j := f]\<rparr>)" "dir_rest j (u\<lparr>dt := d, fd := (fd u)[j := f]\<rparr>) = dir_names u"
    by (rule open_directory_stream [OF o(2) fo(1) o(3) lk d(2) fo(2) o(1) ub]) (rule that; assumption)
  let ?v = "u\<lparr>dt := d, fd := (fd u)[j := f]\<rparr>"
  have l: "length ((fd u)[j := f]) = 8" "(fd u)[j := f] ! 1 = fd u ! 1" using o(5) op(2) by simp_all
  have "set [[58], [10]] \<subseteq> set [[58], [10], [46 :: u8]]" by simp
  note pv = program_fd [OF program_subset [OF p(2) this] l] program_fd [OF program_subset [OF p(3) this] l] program_fd [OF u(2) l] program_fd [OF u(3) l]
  have "flags (fd ?v ! x) = 0 \<or> flags (fd ?v ! y) = 0" by (cases "j = x") (use xy in \<open>simp_all add: fd_pool_def fd_busy_def\<close>)
  then have "file_ops ?v" using fo xy(2,3) by (auto simp: file_ops_def fd_busy_def fd_pool_def)
  moreover have "data_of dp ?v ! 1024 \<noteq> 10" using u(1) data_nth [of 1024 u dp] by (simp add: grep_start_def file_buf_def)
  ultimately have "grep_ready lits sp pat bp dp ?v" using pv u(1) by (simp add: grep_ready_def grep_start_def)
  moreover have "keeps_slot j sp 1024 u ?v" using keeps_fd [OF keeps_refl [OF o(4)]] unfolding keeps_slot_def by blast
  moreover have "ece391_open e (lits [46]) u = Some (int j, ?v)" using op(1) by (simp add: ece391_open_def int80_def syscall_link_def returned_def)
  ultimately show thesis using that [OF _ op(2) _ op(4,5)] by simp
qed

text \<open>
  C8. \<^verbatim>\<open>grep\<close> searches the directory: started with a string as its argument, the program ends with status 0, and the screen shows,
  for every entry of the directory whose name does not begin with a dot, in the order of the directory, the name, a colon and the line for exactly those lines of
  the file that have the string. The files are text files of any length with lines shorter than 1000 characters; the chunks of at most 1024 bytes
  cut the lines anywhere.
\<close>

theorem grep_searches_directory:
  assumes s: "grep_start lits sp bp dp s" and a: "cprefix 32 (lit (arg s)) = pat" "pat \<noteq> []" "length pat < 32" "length (arg s) = 32" "8 \<notin> set pat" "hd pat < 128"
    and d: "lookup s [46] = Some d" "de_ftype d = 1" and F: "\<forall>c \<in> set (dir_names s). searchable F s c"
  shows "\<exists>t. grep_main e lits sp bp dp s = Some (0, t) \<and>
    shown t = shown (fold putc (concat (map (\<lambda>c. concat (map (\<lambda>l. c @ [58] @ l @ [10]) (filter (\<lambda>l. \<exists>u v. l = u @ pat @ v) (lines (F c)))))
      (filter (\<lambda>c. take 1 c \<noteq> [46]) (dir_names s)))) s)"
proof -
  obtain u where u: "ece391_getargs e sp 1024 s = Some (0, u)" "keeps sp 1024 s u" "shown u = shown s" "grep_start lits sp bp dp u"
      "program (\<lambda>c. sp) [pat] bp 33 u" "program (\<lambda>c. sp) [pat] dp 1025 u"
    by (rule grep_fetches [OF s a(1-5)])
  have p: "program lits [[58], [10], [46]] sp 1024 s" using s by (simp add: grep_start_def)
  have "lookup u [46] = Some d" using keeps_lookup [OF p u(2)] d(1) by simp
  then obtain j v where v: "ece391_open e (lits [46]) u = Some (int j, v)" "2 \<le> j" "grep_ready lits sp pat bp dp v" "list_inv j bp v" "dir_rest j v = dir_names u"
      "shown v = shown u" "keeps_slot j sp 1024 u v"
    by (rule grep_opens [OF u(4-6) _ d(2)])
  have "same_files s u" by (rule keeps_files [OF u(2)]) (use p in \<open>simp_all add: program_def\<close>)
  then have n: "dir_names u = dir_names s" by (rule same_files_names) (use p in \<open>simp add: program_def\<close>)
  have k: "keeps_slot j sp 1024 s v" by (rule keeps_slot_trans [OF keeps_slot_keeps [OF u(2)] v(7)])
  have "same_screen v s" using p u(3) v(6) by (simp add: same_screen_def program_def stdout_ok_def)
  moreover have "\<forall>c \<in> set (dir_names s). searchable F v c" using F searchable_slot [OF p k v(2)] by blast
  ultimately obtain t where t: "grep_dir e lits sp bp dp (of_nat j) v = Some (0, t)" "same_screen t (fold putc (grep_report pat F (dir_names s)) s)"
    using grep_dir_run [OF _ v(2-4) v(5) [unfolded n], of F s e] a(6) by blast
  have "grep_main e lits sp bp dp s = Some (0, t)" using u(1) v(1) t(1) by (simp add: grep_main_def bytes_of_def)
  then show ?thesis using t(2) a(2) by (auto simp: same_screen_def grep_report_def grep_output_def has_match_def [abs_def])
qed

section \<open>Witness\<close>

lemma xl_arg [simp]: "xl (s\<lparr>arg := a\<rparr>) = xl s" for s :: kernel
  by (rule xl_cong) simp_all

lemma program_arg: "program lits cs b n s \<Longrightarrow> program lits cs b n (s\<lparr>arg := a\<rparr>)"
  by (simp add: program_def stdout_ok_def fd_ok_def off_screen_def const_at_def console_simps)

definition grep_kernel :: kernel where
  "grep_kernel = (const_kernel [[58], [10], [46]])\<lparr>arg := 98 # replicate 31 0\<rparr>"

abbreviation grep_lits :: "u8 list \<Rightarrow> u32" where
  "grep_lits \<equiv> const_addr 0x601000 [[58], [10], [46]]"

lemma grep_kernel_fields:
  "xl grep_kernel = id" "FSYSTEM grep_kernel = 0x500000" "fs_image id (phys grep_kernel) 0x500000 = region 0x500000 12288"
  "\<And>a. a \<in> fs_image id list_fs 0x500000 \<Longrightarrow> phys grep_kernel a = list_fs a" "\<And>c. lookup grep_kernel c = lookup (const_kernel [[58], [10], [46]]) c"
proof -
  let ?cs = "[[58], [10], [46]] :: u8 list list"
  have len: "length ?cs \<le> 64" by simp
  note f = const_kernel_files [OF len]
  show x: "xl grep_kernel = id" "FSYSTEM grep_kernel = 0x500000" using f(2) by (simp_all add: grep_kernel_def const_kernel_def prog_kernel_fields)
  show "fs_image id (phys grep_kernel) 0x500000 = region 0x500000 12288" using f(3) by (simp add: grep_kernel_def fs_image_def)
  show "phys grep_kernel a = list_fs a" if "a \<in> fs_image id list_fs 0x500000" for a
    using f(1) that by (simp add: grep_kernel_def same_files_def prog_kernel_fields)
  show "lookup grep_kernel c = lookup (const_kernel ?cs) c" for c by (simp add: grep_kernel_def)
qed

lemma grep_kernel_start: "grep_start grep_lits 0x602000 0x603000 0x600000 grep_kernel"
proof -
  let ?cs = "[[58], [10], [46]] :: u8 list list"
  have len: "length ?cs \<le> 64" "\<forall>c \<in> set ?cs. length c < 64 \<and> plain c" by (simp_all add: plain_def)
  have p: "program grep_lits ?cs 0x600000 1025 grep_kernel" unfolding grep_kernel_def by (rule program_arg, rule const_kernel_program(1) [OF len]) simp
  note f = grep_kernel_fields
  have a: "grep_lits [58] = 0x601000" "grep_lits [10] = 0x601040" "grep_lits [46] = 0x601080" by (simp_all add: const_addr_def)
  have q: "program grep_lits ?cs b n grep_kernel" if "b = 0x602000 \<and> n = 1024 \<or> b = 0x603000 \<and> n = 33" for b n
  proof -
    have "off_screen b n grep_kernel" "user_buf (xl grep_kernel) (phys grep_kernel) (FSYSTEM grep_kernel) b n"
      using that by (auto simp: off_screen_def user_buf_def f VIDEO_def region_nowrap)
    moreover have "xl grep_kernel ` region (grep_lits c) (length c + 1) \<inter> xl grep_kernel ` region b n = {}" if "c \<in> set ?cs" for c
      using that \<open>b = 0x602000 \<and> n = 1024 \<or> b = 0x603000 \<and> n = 33\<close> by (auto simp: f a region_nowrap)
    ultimately show ?thesis using p by (simp add: program_def)
  qed
  have "buf_at (xl grep_kernel) (phys grep_kernel) 0x600000 1024 \<noteq> 10"
    unfolding f(1) by (simp add: grep_kernel_def buf_at_def const_kernel_def const_mem_def list_fs_def tiny_fs_def)
  moreover have "xl grep_kernel ` region 0x602000 1024 \<inter> xl grep_kernel ` region 0x603000 33 = {}"
      "xl grep_kernel ` region 0x602000 1024 \<inter> xl grep_kernel ` region 0x600000 1025 = {}"
      "xl grep_kernel ` region 0x603000 33 \<inter> xl grep_kernel ` region 0x600000 1025 = {}" "0 \<notin> region 0x600000 1025"
    by (auto simp: f region_nowrap)
  moreover have "f_read (ffotp grep_kernel) = read_file" "f_close (ffotp grep_kernel) = close_file" "f_read (dfotp grep_kernel) = read_directory"
      "(2 :: nat) \<in> fd_pool grep_kernel - fd_busy grep_kernel" "(3 :: nat) \<in> fd_pool grep_kernel - fd_busy grep_kernel"
    by (simp_all add: grep_kernel_def const_kernel_def prog_kernel_def list_kernel_def initFOTP_def Let_def blank_kernel_def null_file_def fd_pool_def fd_busy_def)
  moreover have "(2 :: nat) \<noteq> 3" by simp
  moreover have "program grep_lits ?cs 0x602000 1024 grep_kernel" "program grep_lits ?cs 0x603000 33 grep_kernel" by (rule q, simp)+
  ultimately show ?thesis unfolding grep_start_def using p by (intro conjI exI [of _ 2] exI [of _ 3])
qed

theorem grep_searches_directory_witness:
  "\<exists>t. grep_main plain_env grep_lits 0x602000 0x603000 0x600000 grep_kernel = Some (0, t) \<and>
    shown t = shown (fold putc [0x66, 58, 97, 98, 99, 10] grep_kernel)"
proof -
  let ?d = "dentry_at id list_fs 0x500080" and ?f = "dentry_at id list_fs 0x500040" and ?F = "\<lambda>c :: u8 list. [97, 98, 99 :: u8]"
  note f = grep_kernel_fields
  have len: "length ([[58], [10], [46]] :: u8 list list) \<le> 64" by simp
  have lk: "lookup grep_kernel [46] = Some ?d" "lookup grep_kernel [0x66] = Some ?f"
    unfolding f(5) using const_kernel_lookup [OF len, of "[46]"] const_kernel_lookup [OF len, of "[0x66]"] by simp_all
  have d: "de_ftype ?d = 1" "de_ftype ?f = 2" "de_inode ?f = 0" by (simp_all add: dentry_at_def list_fs_def tiny_fs_def)
  have "rd32 id (phys grep_kernel) 0x500004 = 1" using image_agree(1) [OF list_fs_ok f(4)] list_fs_rd by simp
  moreover have "file_bytes id (phys grep_kernel) 0x500000 0 = [97, 98, 99]" using image_agree(4) [OF list_fs_ok f(4), of 0] list_fs_rd list_fs_bytes by simp
  moreover have ln: "lines [97, 98, 99] = [[97, 98, 99]]" by (rule lines_plain) simp
  ultimately have t: "text_file [0x66] [97, 98, 99] grep_kernel" using lk(2) d by (simp add: text_file_def f plain_def)
  have sf: "same_files prog_kernel grep_kernel" using const_kernel_files(1) [OF len] by (simp add: same_files_def grep_kernel_def)
  have "dir_names grep_kernel = dir_names prog_kernel" by (rule same_files_names [OF sf]) (use list_fs_ok in \<open>simp add: prog_kernel_fields\<close>)
  moreover have "[0..<2] = [0, 1 :: nat]" by code_simp
  ultimately have n: "dir_names grep_kernel = [[0x66], [0x2E]]" using list_fs_names by (simp add: prog_kernel_fields)
  have sr: "\<forall>c \<in> set (dir_names grep_kernel). searchable ?F grep_kernel c" unfolding n using t by (simp add: searchable_def)
  have ar: "arg grep_kernel = 98 # replicate 31 0" by (simp add: grep_kernel_def)
  then have "is_cstr (lit (arg grep_kernel)) 1" by (simp add: is_cstr_def lit_def)
  then have a: "cprefix 32 (lit (arg grep_kernel)) = [98]" "length (arg grep_kernel) = 32"
    using cprefix_is_cstr [of "lit (arg grep_kernel)" 1 32] ar by (simp_all add: lit_def)
  have m: "\<exists>u v. [97, 98, 99] = u @ [98] @ (v :: u8 list)" by (rule exI [of _ "[97]"], rule exI [of _ "[99]"]) simp
  have h: "[98 :: u8] \<noteq> []" "length [98 :: u8] < 32" "8 \<notin> set [98 :: u8]" "hd [98] < (128 :: u8)" by simp_all
  from grep_searches_directory [OF grep_kernel_start a(1) h(1,2) a(2) h(3,4) lk(1) d(1) sr, of plain_env] show ?thesis
    unfolding n using m by (simp add: ln)
qed

end
