(* ===== verification/Spec2Isabelle.thy ===== *)
theory Spec2Isabelle
  imports Fish_Frames Protection User_Sigtest User_Grep_Main
begin

text \<open>
  \<^bold>\<open>A verification of the kernel under \<^verbatim>\<open>src/student-distrib\<close> and of the programs under \<^verbatim>\<open>src/syscalls\<close> and
  \<^verbatim>\<open>src/fish\<close> that run on it.\<close>

  The kernel is a 32-bit x86 kernel: drivers for the interrupt controller, the timer, the
  real-time clock and the keyboard, a text console with line editing, paging, a read-only file
  system in memory, ten system calls, up to six processes and three terminals. The programs are a shell,
  \<^verbatim>\<open>cat\<close>, \<^verbatim>\<open>ls\<close>, \<^verbatim>\<open>grep\<close>, tests of the system calls, some small programs and an animation.

  \<^bold>\<open>How the parts interact.\<close> \<^verbatim>\<open>entry\<close> reads the boot loader's structures, fills the descriptor tables,
  initialises the devices and starts a shell on the first terminal. From then on the kernel runs on
  interrupts: the keyboard handler echoes characters through \<^verbatim>\<open>putc\<close>, which fills the line
  that \<^verbatim>\<open>terminal_read\<close> waits for, or switches the terminal; the system call gate runs the call
  the program asked for; an exception ends the program. \<^verbatim>\<open>execute\<close> finds the program in the file
  system, takes a process slot, maps the program page and jumps to user mode; \<^verbatim>\<open>halt\<close> frees the slot
  and continues the parent on its saved stack.

  \<^bold>\<open>State.\<close> One record per layer, each extending the one below: \<open>machine\<close> (physical memory, port
  history, interrupt flag), \<open>rtc_state\<close>, \<open>pit_state\<close>, \<open>console\<close> (cursor and line buffer), \<open>paging\<close>
  (tables and cached translations), \<open>files\<close> (file system address and open files) and \<open>kernel\<close> (the
  rest of the global variables). A driver is a function on every state that extends its record. C
  pointers are 32-bit addresses; the kernel's accesses go through \<open>xl\<close>, the translation the
  processor performs. Devices are a parameter, a function from the port history to the byte read.

  \<^bold>\<open>Theories.\<close>
  \<^item> \<^verbatim>\<open>Prelude\<close>: machine words, memory regions, buffers.
  \<^item> \<^verbatim>\<open>Lib_Mem\<close>, \<^verbatim>\<open>Lib_String\<close>: the memory and string routines of \<^verbatim>\<open>lib.c\<close>, the inline assembly
    instruction by instruction; each equals a byte-wise reference, and every loop ends.
  \<^item> \<^verbatim>\<open>Machine\<close>: ports and the interrupt flag (\<^verbatim>\<open>lib.h\<close>), and waiting for an interrupt.
  \<^item> \<^verbatim>\<open>I8259\<close>, \<^verbatim>\<open>Rtc\<close>, \<^verbatim>\<open>Pit\<close>: \<^verbatim>\<open>i8259.c\<close>, \<^verbatim>\<open>rtc.c\<close>, \<^verbatim>\<open>pit.c\<close>, with what they write to the ports.
  \<^item> \<^verbatim>\<open>Console\<close>: clearing, cursor, \<^verbatim>\<open>putc\<close>, \<^verbatim>\<open>puts\<close> and \<^verbatim>\<open>printf\<close> of \<^verbatim>\<open>lib.c\<close>. Output stays in video memory,
    \<^verbatim>\<open>putc\<close> refines a line editor, \<^verbatim>\<open>printf\<close> prints the rendering of its format. The locale
    \<open>char_sink\<close> is the contract of a routine that accepts characters.
  \<^item> \<^verbatim>\<open>Paging\<close>: \<^verbatim>\<open>paging.c\<close>, the page walk and the translation cache; isolation of programs and
    of the kernel, for every sequence of changes the kernel makes to the tables.
  \<^item> \<^verbatim>\<open>Filesystem\<close>: \<^verbatim>\<open>filesystem.c\<close> on a byte image. The locales \<open>stream_reader\<close> and \<open>byte_stream\<close> are the
    contract of a read operation; reading until 0 yields everything.
  \<^item> \<^verbatim>\<open>Kernel_State\<close>: control blocks, terminal processes and the remaining variables.
  \<^item> \<^verbatim>\<open>Terminal\<close>: \<^verbatim>\<open>terminal.c\<close>.
  \<^item> \<^verbatim>\<open>Exec\<close>, \<^verbatim>\<open>Loader\<close>: the part of \<^verbatim>\<open>syscall.c\<close> that starts a program, and that it does. The locale
    \<open>slot_alloc\<close> is the contract process slots and descriptors share.
  \<^item> \<^verbatim>\<open>Syscall\<close>, \<^verbatim>\<open>Halt\<close>, \<^verbatim>\<open>Calls\<close>: the ten system calls and their dispatcher (\<^verbatim>\<open>wrappers.S\<close>); the file
    contracts hold through the dispatcher, \<^verbatim>\<open>halt\<close> undoes \<^verbatim>\<open>execute\<close>, wrong calls are refused.
  \<^item> \<^verbatim>\<open>Scheduling\<close>: \<^verbatim>\<open>scheduling.c\<close>, the three terminals and the process switch.
  \<^item> \<^verbatim>\<open>Keyboard\<close>: \<^verbatim>\<open>keyboard.c\<close>; runs of key events are an inductive relation, the locale
    \<open>key_source\<close> is what the line editor needs of a keyboard.
  \<^item> \<^verbatim>\<open>Idt\<close>: \<^verbatim>\<open>idt.c\<close> and the gates of \<^verbatim>\<open>x86_desc.h\<close>; what the processor finds in the table, and that an
    exception ends the program that raised it.
  \<^item> \<^verbatim>\<open>Boot\<close>: \<^verbatim>\<open>entry\<close> of \<^verbatim>\<open>kernel.c\<close>, \<^verbatim>\<open>multiboot.h\<close> and the segment descriptors; the system
    boots to a shell.
  \<^item> \<^verbatim>\<open>Protection\<close>: from start-up on, over any sequence of exceptions, interrupts, system calls and changes of memory by programs, an
    inductive relation, the page tables open to user mode only the frames of the process slots and the screens.
  \<^item> \<^verbatim>\<open>User_Support\<close>: \<^verbatim>\<open>ece391support.c\<close>, the string library of the programs; it agrees with the kernel's, its comparisons on
    the bytes on which signed and unsigned characters are ordered alike.
  \<^item> \<^verbatim>\<open>User_Calls\<close>, \<^verbatim>\<open>User_Print\<close>: the call wrappers of \<^verbatim>\<open>ece391syscall.S\<close> on the kernel's dispatcher, what the screen shows,
    and the invariant of a program in memory: its string constants and its buffer. The locale \<open>copy_program\<close> is the contract of a loop that copies
    a stream to the screen.
  \<^item> \<^verbatim>\<open>User_Programs\<close>: \<^verbatim>\<open>cat\<close> and \<^verbatim>\<open>ls\<close> as interpretations of \<open>copy_program\<close>.
  \<^item> \<^verbatim>\<open>User_Shell\<close>: the shell, \<^verbatim>\<open>hello\<close>, \<^verbatim>\<open>counter\<close>, \<^verbatim>\<open>testprint\<close>: the dialogue of a session, and that a typed command
    starts its program.
  \<^item> \<^verbatim>\<open>User_Tests\<close>: \<^verbatim>\<open>syserr\<close>; the kernel passes its eight tests.
  \<^item> \<^verbatim>\<open>User_Pingpong\<close>: \<^verbatim>\<open>pingpong\<close>, whose endless loop is run for any number of turns; what it prints and which memory it writes.
  \<^item> \<^verbatim>\<open>User_Sigtest\<close>: \<^verbatim>\<open>sigtest\<close>, which the kernel, having no signals, halts.
  \<^item> \<^verbatim>\<open>User_Grep\<close>, \<^verbatim>\<open>User_Grep_Main\<close>: \<^verbatim>\<open>grep\<close>; the search of a file finds the lines wherever the chunks it reads cut them, and
    the loop over the directory searches every file.
  \<^item> \<^verbatim>\<open>Fish_Blink\<close>: \<^verbatim>\<open>blink.S\<close> and the allocator of \<^verbatim>\<open>fish.c\<close>, a linked list of blinking characters. The structures are typed
    records, a pointer to one is an index into \<^verbatim>\<open>blink_array\<close>, and a \<^verbatim>\<open>memset\<close> or \<^verbatim>\<open>memcpy\<close> of a whole structure is an assignment. The commands refine
    operations on a list of characters; the allocator satisfies \<open>slot_alloc\<close>.
  \<^item> \<^verbatim>\<open>Fish_Frames\<close>: the rest of \<^verbatim>\<open>fish.c\<close>: the two frames are read from their files and shown by turns.

  \<^bold>\<open>Bounds and loops.\<close> Loops with a counter are structural recursion on the number of turns left.
  Loops that end at a terminator or through an interrupt are partial functions with value
  \<open>None\<close> for a loop that does not end; the theorems about them prove that they return. Waiting
  loops run over the list of interrupt handlers that arrive. \<open>fuel\<close> appears only in \<open>read_all\<close>, the
  reader that calls read until 0; one call more than there are bytes, or entries, is enough.
  Integers keep their C width where they can wrap; loop counters and coordinates that provably stay in
  range are mathematical integers, and so is \<^verbatim>\<open>quantum\<close>, a count of timer ticks nothing else reads.

  \<^bold>\<open>Errors.\<close> Failing calls are values: \<open>option\<close>, a result of -1, or the \<open>outcome\<close> of a kernel entry, one of
  which, \<open>Fault\<close>, is an access the C code leaves undefined.

  \<^bold>\<open>Not modelled.\<close> The page tables, the control blocks and the other variables of the kernel are fields of the state, not bytes of the
  memory: a store through a pointer a program passes into the kernel's own variables does not change them here. A string that
  \<^verbatim>\<open>printf\<close> prints is read from the memory before the call, so a string inside video memory is not seen to change while it is printed. Interrupts arrive only where the kernel waits for them, not between any two
  instructions. The programs are modelled from their C source, not from the machine code: a program's function calls the
  dispatcher on the kernel's state, its buffers and string constants are at addresses given as parameters, and a jump to user mode
  is an outcome that ends the kernel's part; theorems about the kernel quantify over what a program may have changed. The assembly in
  \<^verbatim>\<open>boot.S\<close> and \<^verbatim>\<open>x86_desc.S\<close> only reserves and loads tables, whose addresses are the parameter \<open>layout\<close>. The macros of \<^verbatim>\<open>debug.h\<close>
  are compiled out or unused, \<^verbatim>\<open>types.h\<close> names the word types. The signal handlers of \<^verbatim>\<open>ece391sigtest.c\<close> are never called. The copy
  of the support library under \<^verbatim>\<open>src/fish\<close> has the text of the one under \<^verbatim>\<open>src/syscalls\<close>. The hosted emulation \<^verbatim>\<open>ece391emulate.c\<close> is
  Linux I/O.
\<close>

end
